(* ===== verification/Prelude.thy ===== *)
theory Prelude
  imports Main "HOL-Library.Word" "HOL-Library.Monad_Syntax" "HOL-Library.Signed_Division"
begin

text \<open>
  Shared vocabulary of the development: machine integers, C arrays with explicit bounds, C strings,
  and the generic list and word lemmas that the component theories rely on.

  \<^item> A C array is a list of its elements; a pointer into it is an offset. Reading or writing outside
    the array is undefined behaviour in C and is the value \<open>None\<close> here (\<open>rd\<close>, \<open>wr\<close>,
    \<open>mem_write\<close>, \<open>mem_read\<close>), as is a failed \<open>assert\<close>. A theorem that says that an operation
    returns \<open>Some\<close> is therefore a memory-safety theorem.
  \<^item> Error codes the program returns (\<open>-1\<close>, \<open>HPACK_COMPRESSION_ERROR\<close> and so on) are ordinary
    values, never \<open>None\<close>.
  \<^item> \<open>uint8_t\<close>, \<open>uint16_t\<close>, \<open>uint32_t\<close> are words of that width wherever the code shifts, masks or
    relies on wrap-around; \<open>int\<close> counters that stay far below their range are integers.
\<close>

unbundle bit_operations_syntax

subsection \<open>Types\<close>

type_synonym byte = "8 word"
type_synonym u16 = "16 word"
type_synonym u32 = "32 word"

text \<open>The conversion to \<open>int16_t\<close>.\<close>

definition int16 :: "int \<Rightarrow> int" where
  "int16 n = sint (word_of_int n :: 16 word)"

lemma int16_small: "- (2 ^ 15) \<le> n \<Longrightarrow> n < 2 ^ 15 \<Longrightarrow> int16 n = n"
  by (simp add: int16_def sint_sbintrunc' signed_take_bit_int_eq_self)

text \<open>Rewrite rules for the memory primitives, and the bounds the components prove.\<close>

named_theorems mem_simps \<open>equations of the memory primitives\<close>
named_theorems bounds \<open>bounds on the values the operations return\<close>

subsection \<open>C arrays\<close>

definition rd :: "'a list \<Rightarrow> nat \<Rightarrow> 'a option" where
  "rd xs i = (if i < length xs then Some (xs ! i) else None)"

definition wr :: "'a list \<Rightarrow> nat \<Rightarrow> 'a \<Rightarrow> 'a list option" where
  "wr xs i v = (if i < length xs then Some (xs[i := v]) else None)"

definition mem_read :: "'a list \<Rightarrow> nat \<Rightarrow> nat \<Rightarrow> 'a list option" where
  "mem_read xs i n = (if i + n \<le> length xs then Some (take n (drop i xs)) else None)"

definition overwrite :: "'a list \<Rightarrow> nat \<Rightarrow> 'a list \<Rightarrow> 'a list" where
  "overwrite xs i ys = take i xs @ ys @ drop (i + length ys) xs"

definition mem_write :: "'a list \<Rightarrow> nat \<Rightarrow> 'a list \<Rightarrow> 'a list option" where
  "mem_write xs i ys = (if i + length ys \<le> length xs then Some (overwrite xs i ys) else None)"

definition guard :: "bool \<Rightarrow> unit option" where
  "guard b = (if b then Some () else None)"

lemma guard_simps [simp]: "guard True = Some ()" "guard False = None"
  by (simp_all add: guard_def)

lemma guard_bind [simp]: "(guard b \<bind> f) = (if b then f () else None)"
  by (simp add: guard_def)

lemma rd_Some [mem_simps]: "i < length xs \<Longrightarrow> rd xs i = Some (xs ! i)"
  by (simp add: rd_def)

lemma rd_None_iff [simp]: "rd xs i = None \<longleftrightarrow> length xs \<le> i"
  by (auto simp: rd_def)

lemma rd_eq_Some_iff: "rd xs i = Some v \<longleftrightarrow> i < length xs \<and> xs ! i = v"
  by (auto simp: rd_def)

lemma rd_Cons [mem_simps]:
  "rd (x # xs) 0 = Some x" "rd (x # xs) (Suc i) = rd xs i"
  by (auto simp: rd_def)

lemma length_overwrite [simp]: "i + length ys \<le> length xs \<Longrightarrow> length (overwrite xs i ys) = length xs"
  by (simp add: overwrite_def)

lemma nth_overwrite:
  "i + length ys \<le> length xs \<Longrightarrow> k < length xs \<Longrightarrow>
   overwrite xs i ys ! k = (if i \<le> k \<and> k < i + length ys then ys ! (k - i) else xs ! k)"
  by (auto simp: overwrite_def nth_append min_def)

lemma overwrite_Nil [simp]: "overwrite xs i [] = xs"
  by (simp add: overwrite_def)

lemma list_update_overwrite:
  "i < length xs \<Longrightarrow> xs[i := v] = overwrite xs i [v]"
  by (simp add: overwrite_def upd_conv_take_nth_drop)

lemma overwrite_overwrite_adjacent:
  assumes "i + length ys + length zs \<le> length xs"
  shows "overwrite (overwrite xs i ys) (i + length ys) zs = overwrite xs i (ys @ zs)"
proof -
  from assms have "min (length xs) i = i" by simp
  with assms show ?thesis by (simp add: overwrite_def ac_simps)
qed

lemma overwrite_update_adjacent:
  "j = i + length ys \<Longrightarrow> j < length xs \<Longrightarrow> (overwrite xs i ys)[j := v] = overwrite xs i (ys @ [v])"
  using overwrite_overwrite_adjacent [of i ys "[v]" xs] by (simp add: list_update_overwrite)

lemma take_drop_overwrite:
  "i + length ys \<le> length xs \<Longrightarrow> take (length ys) (drop i (overwrite xs i ys)) = ys"
  by (simp add: overwrite_def min_def)

lemma mem_write_eq_Some_iff:
  "mem_write xs i ys = Some zs \<longleftrightarrow> i + length ys \<le> length xs \<and> zs = overwrite xs i ys"
  by (auto simp: mem_write_def)

lemma mem_read_eq_Some_iff:
  "mem_read xs i n = Some ys \<longleftrightarrow> i + n \<le> length xs \<and> ys = take n (drop i xs)"
  by (auto simp: mem_read_def)

lemma wr_eq_Some_iff: "wr xs i v = Some ys \<longleftrightarrow> i < length xs \<and> ys = xs[i := v]"
  by (auto simp: wr_def)

lemma wr_Some [mem_simps]: "i < length xs \<Longrightarrow> wr xs i v = Some (xs[i := v])"
  by (simp add: wr_def)

text \<open>A run of writes to consecutive bytes is one \<open>overwrite\<close>.\<close>

lemma wr_first: "i < length xs \<Longrightarrow> wr xs i v = Some (overwrite xs i [v])"
  by (simp add: wr_def list_update_overwrite)

lemma wr_next:
  "j = i + length ys \<Longrightarrow> j < length xs \<Longrightarrow>
   wr (overwrite xs i ys) j v = Some (overwrite xs i (ys @ [v]))"
  by (simp add: wr_def overwrite_update_adjacent)

lemma rd_overwrite:
  "i + length ys \<le> length xs \<Longrightarrow>
   rd (overwrite xs i ys) k = (if i \<le> k \<and> k < i + length ys then Some (ys ! (k - i)) else rd xs k)"
  by (auto simp: rd_def nth_overwrite)

subsection \<open>C strings\<close>

text \<open>String literals of the source as byte lists (the terminating zero is not included).\<close>

definition lit :: "string \<Rightarrow> byte list" where
  "lit s = map of_char s"

text \<open>
  \<open>cstr\<close> is the string a pointer denotes: the bytes before the first zero. It is \<open>None\<close> if the
  memory that remains holds no zero, where \<open>strlen\<close> would run out of the array.
\<close>

fun cstr :: "byte list \<Rightarrow> byte list option" where
  "cstr [] = None"
| "cstr (b # bs) = (if b = 0 then Some [] else map_option (Cons b) (cstr bs))"

definition strlen :: "byte list \<Rightarrow> nat option" where
  "strlen bs = map_option length (cstr bs)"

text \<open>\<open>strnlen\<close> looks at no more than \<open>n\<close> bytes.\<close>

fun strnlen :: "byte list \<Rightarrow> nat \<Rightarrow> nat option" where
  "strnlen bs 0 = Some 0"
| "strnlen [] (Suc n) = None"
| "strnlen (b # bs) (Suc n) = (if b = 0 then Some 0 else map_option Suc (strnlen bs n))"

definition nul_free :: "byte list \<Rightarrow> bool" where
  "nul_free s \<longleftrightarrow> 0 \<notin> set s"

lemma nul_free_simps [simp]:
  "nul_free []" "nul_free (x # xs) \<longleftrightarrow> x \<noteq> 0 \<and> nul_free xs"
  "nul_free (xs @ ys) \<longleftrightarrow> nul_free xs \<and> nul_free ys"
  by (auto simp: nul_free_def)

lemma cstr_append [simp]: "nul_free s \<Longrightarrow> cstr (s @ 0 # r) = Some s"
  by (induction s) auto

lemma cstr_nul_free: "cstr bs = Some s \<Longrightarrow> nul_free s"
  by (induction bs arbitrary: s) (auto split: if_splits)

lemma strlen_append [simp]: "nul_free s \<Longrightarrow> strlen (s @ 0 # r) = Some (length s)"
  by (simp add: strlen_def)

lemma strnlen_append [simp]:
  "nul_free s \<Longrightarrow> length s < n \<Longrightarrow> strnlen (s @ 0 # r) n = Some (length s)"
proof (induction s arbitrary: n)
  case Nil
  then show ?case by (cases n) auto
next
  case (Cons b s)
  then show ?case by (cases n) auto
qed

subsection \<open>Integers\<close>

text \<open>
  C's \<open>%\<close> truncates towards zero and is undefined for a zero divisor; \<open>memcpy\<close> takes a
  \<open>size_t\<close>, so a negative count is no count at all.
\<close>

definition c_rem :: "int \<Rightarrow> int \<Rightarrow> int option" where
  "c_rem a b = (if b = 0 then None else Some (a smod b))"

definition memcpy :: "'a list \<Rightarrow> int \<Rightarrow> 'a list \<Rightarrow> int \<Rightarrow> int \<Rightarrow> 'a list option" where
  "memcpy dst d src p n = do {
     guard (0 \<le> d \<and> 0 \<le> p \<and> 0 \<le> n);
     bs \<leftarrow> mem_read src (nat p) (nat n);
     mem_write dst (nat d) bs
   }"

lemma c_rem_pos [mem_simps]: "0 \<le> a \<Longrightarrow> 0 < b \<Longrightarrow> c_rem a b = Some (a mod b)"
  by (simp add: c_rem_def signed_modulo_int_def signed_divide_int_def sgn_if
      minus_mult_div_eq_mod mult.commute)

lemma memcpy_eq_Some_iff:
  "memcpy dst d src p n = Some r \<longleftrightarrow>
     0 \<le> d \<and> 0 \<le> p \<and> 0 \<le> n \<and> nat p + nat n \<le> length src \<and> nat d + nat n \<le> length dst \<and>
     r = overwrite dst (nat d) (take (nat n) (drop (nat p) src))"
  by (auto simp: memcpy_def mem_read_def mem_write_def)

lemma nth_overwrite_int:
  assumes "0 \<le> h" "0 \<le> p" "0 \<le> n" "nat n \<le> length ys" "nat h + nat n \<le> length xs"
    "nat p < length xs"
  shows "overwrite xs (nat h) (take (nat n) ys) ! nat p =
    (if h \<le> p \<and> p < h + n then ys ! nat (p - h) else xs ! nat p)"
proof -
  have iff: "(nat h \<le> nat p \<and> nat p < nat h + nat n) = (h \<le> p \<and> p < h + n)"
    using assms(1-3) by linarith
  have "overwrite xs (nat h) (take (nat n) ys) ! nat p =
      (if nat h \<le> nat p \<and> nat p < nat h + nat n then take (nat n) ys ! (nat p - nat h)
       else xs ! nat p)"
    using assms by (subst nth_overwrite) (auto simp: min_def)
  moreover have "nat p - nat h = nat (p - h)" "nat (p - h) < nat n" if "h \<le> p" "p < h + n"
    using that assms(1-3) by linarith+
  ultimately show ?thesis unfolding iff by simp
qed

lemma mod_add_cancel_bounded:
  fixes a b t m :: int
  assumes "(t + a) mod m = (t + b) mod m" "0 \<le> a" "a < m" "0 \<le> b" "b < m"
  shows "a = b"
proof -
  from assms(1) have "a mod m = b mod m"
    by (metis add_diff_cancel_left' mod_diff_left_eq)
  with assms show ?thesis by simp
qed

subsection \<open>Words\<close>

text \<open>The masks of the source as \<open>mask\<close>, which the bitwise simplification rules know.\<close>

lemma mask_numerals:
  "(0x7F :: 'a::len word) = mask 7" "(0xFF :: 'a::len word) = mask 8"
  "(0x7FFFFFFF :: 'a::len word) = mask 31" "(0x3FFFFFFF :: 'a::len word) = mask 30"
  "(0xFFFFFF :: 'a::len word) = mask 24"
  by (simp_all add: mask_eq_exp_minus_1)

lemma unat_byte_less [simp]: "unat (b :: byte) < 256"
  using unsigned_less [where 'a = nat, of b] by simp

text \<open>A number in range is what its word denotes.\<close>

lemma unat_of_nat_u32: "n < 2 ^ 32 \<Longrightarrow> unat (of_nat n :: u32) = n"
  by (simp only: unat_of_nat) simp

lemma unat_of_nat_byte: "n < 256 \<Longrightarrow> unat (of_nat n :: byte) = n"
  by (simp only: unat_of_nat) simp

lemma bit_small_unat:
  fixes b :: "'a::len word"
  assumes "unat b < 2 ^ k" "k \<le> n"
  shows "\<not> bit b n"
proof -
  from assms have "unat b < 2 ^ n" by (meson less_le_trans one_le_numeral power_increasing)
  then have "\<not> bit (unat b) n" by (simp add: bit_iff_odd)
  then show ?thesis by (simp add: bit_unsigned_iff bit_imp_le_length)
qed

lemma word_add_disjoint:
  fixes a b :: "'a::len word"
  assumes "a AND b = 0"
  shows "a + b = a OR b"
  using assms by (rule disjunctive_add_eq_or)

end
