(* ===== verification/Buffer.thy ===== *)
theory Buffer
  imports Prelude
begin

text \<open>
  \<open>src/src/buffer.c\<close>: big-endian integers in byte buffers. A pointer \<open>bytes + p\<close> is the pair of the
  array and the offset \<open>p\<close>. The code shifts a byte that was promoted to \<open>int\<close> by 24 (\<open>buffer.c\<close> 7); for a
  byte of 128 or more C leaves the result undefined, and the definition has the value that compilers
  give it, the bits of the byte on top of a 32-bit word.
\<close>

definition buffer_get_u32 :: "byte list \<Rightarrow> nat \<Rightarrow> u32 option" where
  "buffer_get_u32 bytes p = do {
     b0 \<leftarrow> rd bytes p;
     b1 \<leftarrow> rd bytes (p + 1);
     b2 \<leftarrow> rd bytes (p + 2);
     b3 \<leftarrow> rd bytes (p + 3);
     Some (push_bit 24 (ucast b0) + push_bit 16 (ucast b1) + push_bit 8 (ucast b2) + ucast b3)
   }"

definition buffer_get_u31 :: "byte list \<Rightarrow> nat \<Rightarrow> u32 option" where
  "buffer_get_u31 bytes p = do {
     b0 \<leftarrow> rd bytes p;
     b1 \<leftarrow> rd bytes (p + 1);
     b2 \<leftarrow> rd bytes (p + 2);
     b3 \<leftarrow> rd bytes (p + 3);
     Some (push_bit 24 (ucast (b0 AND 0x7F)) + push_bit 16 (ucast b1) + push_bit 8 (ucast b2)
           + ucast b3)
   }"

definition buffer_get_u24 :: "byte list \<Rightarrow> nat \<Rightarrow> u32 option" where
  "buffer_get_u24 bytes p = do {
     b0 \<leftarrow> rd bytes p;
     b1 \<leftarrow> rd bytes (p + 1);
     b2 \<leftarrow> rd bytes (p + 2);
     Some (push_bit 16 (ucast b0) + push_bit 8 (ucast b1) + ucast b2)
   }"

definition buffer_get_u16 :: "byte list \<Rightarrow> nat \<Rightarrow> u16 option" where
  "buffer_get_u16 bytes p = do {
     b0 \<leftarrow> rd bytes p;
     b1 \<leftarrow> rd bytes (p + 1);
     Some (push_bit 8 (ucast b0) + ucast b1)
   }"

definition buffer_get_u8 :: "byte list \<Rightarrow> nat \<Rightarrow> byte option" where
  "buffer_get_u8 bytes p = rd bytes p"

definition buffer_put_u32 :: "byte list \<Rightarrow> nat \<Rightarrow> u32 \<Rightarrow> byte list option" where
  "buffer_put_u32 bytes p x = do {
     m \<leftarrow> wr bytes p (ucast (drop_bit 24 x AND 0xFF));
     m \<leftarrow> wr m (p + 1) (ucast (drop_bit 16 x AND 0xFF));
     m \<leftarrow> wr m (p + 2) (ucast (drop_bit 8 x AND 0xFF));
     wr m (p + 3) (ucast (drop_bit 0 x AND 0xFF))
   }"

definition buffer_put_u31 :: "byte list \<Rightarrow> nat \<Rightarrow> u32 \<Rightarrow> byte list option" where
  "buffer_put_u31 bytes p x = do {
     m \<leftarrow> wr bytes p (ucast (drop_bit 24 x AND 0x7F));
     m \<leftarrow> wr m (p + 1) (ucast (drop_bit 16 x AND 0xFF));
     m \<leftarrow> wr m (p + 2) (ucast (drop_bit 8 x AND 0xFF));
     wr m (p + 3) (ucast (drop_bit 0 x AND 0xFF))
   }"

definition buffer_put_u24 :: "byte list \<Rightarrow> nat \<Rightarrow> u32 \<Rightarrow> byte list option" where
  "buffer_put_u24 bytes p x = do {
     m \<leftarrow> wr bytes p (ucast (drop_bit 16 x AND 0xFF));
     m \<leftarrow> wr m (p + 1) (ucast (drop_bit 8 x AND 0xFF));
     wr m (p + 2) (ucast (drop_bit 0 x AND 0xFF))
   }"

definition buffer_put_u16 :: "byte list \<Rightarrow> nat \<Rightarrow> u16 \<Rightarrow> byte list option" where
  "buffer_put_u16 bytes p x = do {
     m \<leftarrow> wr bytes p (ucast (drop_bit 8 x AND 0xFF));
     wr m (p + 1) (ucast (drop_bit 0 x AND 0xFF))
   }"

definition buffer_put_u8 :: "byte list \<Rightarrow> nat \<Rightarrow> byte \<Rightarrow> byte list option" where
  "buffer_put_u8 bytes p x = wr bytes p x"

lemmas buffer_get_defs = buffer_get_u32_def buffer_get_u31_def buffer_get_u24_def
  buffer_get_u16_def buffer_get_u8_def

lemmas buffer_put_defs = buffer_put_u32_def buffer_put_u31_def buffer_put_u24_def
  buffer_put_u16_def buffer_put_u8_def

subsection \<open>The bytes written\<close>

definition be32 :: "u32 \<Rightarrow> byte list" where
  "be32 x = [ucast (drop_bit 24 x), ucast (drop_bit 16 x), ucast (drop_bit 8 x), ucast x]"

definition be31 :: "u32 \<Rightarrow> byte list" where
  "be31 x = be32 (x AND 0x7FFFFFFF)"

definition be24 :: "u32 \<Rightarrow> byte list" where
  "be24 x = [ucast (drop_bit 16 x), ucast (drop_bit 8 x), ucast x]"

definition be16 :: "u16 \<Rightarrow> byte list" where
  "be16 x = [ucast (drop_bit 8 x), ucast x]"

lemma length_be [simp]:
  "length (be32 x) = 4" "length (be31 x) = 4" "length (be24 x) = 3" "length (be16 y) = 2"
  by (simp_all add: be32_def be31_def be24_def be16_def)

lemma low_bytes:
  "(ucast (x AND 0xFF) :: byte) = ucast (x :: u32)"
  "(ucast (y AND 0xFF) :: byte) = ucast (y :: u16)"
  unfolding mask_numerals by (rule bit_eqI; auto simp: bit_simps)+

lemma be31_bytes:
  "be31 x = [ucast (drop_bit 24 x AND 0x7F), ucast (drop_bit 16 x), ucast (drop_bit 8 x), ucast x]"
proof -
  have "(ucast (drop_bit 24 (x AND 0x7FFFFFFF)) :: byte) = ucast (drop_bit 24 x AND 0x7F)"
    "(ucast (drop_bit 16 (x AND 0x7FFFFFFF)) :: byte) = ucast (drop_bit 16 x)"
    "(ucast (drop_bit 8 (x AND 0x7FFFFFFF)) :: byte) = ucast (drop_bit 8 x)"
    "(ucast (x AND 0x7FFFFFFF) :: byte) = ucast x"
    unfolding mask_numerals by (rule bit_eqI; auto simp: bit_simps)+
  then show ?thesis unfolding be31_def be32_def by metis
qed

text \<open>Each \<open>put\<close> overwrites exactly its bytes, and fails only when they do not fit.\<close>

lemma put_u32_eq:
  "buffer_put_u32 m p x = mem_write m p (be32 x)"
proof (cases "p + 4 \<le> length m")
  case True
  then show ?thesis
    by (simp add: buffer_put_u32_def mem_write_def be32_def low_bytes wr_first [of p m] wr_next)
next
  case False
  then show ?thesis
    by (simp add: buffer_put_u32_def mem_write_def wr_def)
qed

lemma put_u31_eq: "buffer_put_u31 m p x = mem_write m p (be31 x)"
proof (cases "p + 4 \<le> length m")
  case True
  then show ?thesis
    by (simp add: buffer_put_u31_def mem_write_def be31_bytes low_bytes wr_first [of p m] wr_next)
next
  case False
  then show ?thesis
    by (simp add: buffer_put_u31_def mem_write_def wr_def)
qed

lemma put_u24_eq: "buffer_put_u24 m p x = mem_write m p (be24 x)"
proof (cases "p + 3 \<le> length m")
  case True
  then show ?thesis
    by (simp add: buffer_put_u24_def mem_write_def be24_def low_bytes wr_first [of p m] wr_next)
next
  case False
  then show ?thesis
    by (simp add: buffer_put_u24_def mem_write_def wr_def)
qed

lemma put_u16_eq: "buffer_put_u16 m p x = mem_write m p (be16 x)"
proof (cases "p + 2 \<le> length m")
  case True
  then show ?thesis
    by (simp add: buffer_put_u16_def mem_write_def be16_def low_bytes wr_first [of p m] wr_next)
next
  case False
  then show ?thesis
    by (simp add: buffer_put_u16_def mem_write_def wr_def)
qed

lemma put_u8_eq: "buffer_put_u8 m p x = mem_write m p [x]"
  by (simp add: buffer_put_u8_def mem_write_def wr_def list_update_overwrite)

lemmas buffer_put_eqs = put_u32_eq put_u31_eq put_u24_eq put_u16_eq put_u8_eq

subsection \<open>Reading back\<close>

lemma get_at:
  assumes "p + 4 \<le> length m" "take 4 (drop p m) = [a, b, c, d]"
  shows "rd m p = Some a" "rd m (p + 1) = Some b" "rd m (p + 2) = Some c" "rd m (p + 3) = Some d"
proof -
  have "m ! (p + k) = [a, b, c, d] ! k" if "k < 4" for k
    using assms that by (metis add_leD1 nth_drop nth_take)
  from this [of 0] this [of 1] this [of 2] this [of 3] assms(1)
  show "rd m p = Some a" "rd m (p + 1) = Some b" "rd m (p + 2) = Some c" "rd m (p + 3) = Some d"
    by (simp_all add: rd_def)
qed

lemma join32:
  "push_bit 24 (ucast a) + push_bit 16 (ucast b) + push_bit 8 (ucast c) + ucast d =
   (push_bit 24 (ucast (a :: byte)) OR push_bit 16 (ucast (b :: byte))
    OR push_bit 8 (ucast (c :: byte)) OR ucast (d :: byte) :: u32)"
proof -
  have *: "(push_bit 24 (ucast a) :: u32) AND push_bit 16 (ucast b) = 0"
    "(push_bit 24 (ucast a) OR push_bit 16 (ucast b) :: u32) AND push_bit 8 (ucast c) = 0"
    "(push_bit 24 (ucast a) OR push_bit 16 (ucast b) OR push_bit 8 (ucast c) :: u32) AND ucast d = 0"
    by (rule bit_eqI; auto simp: bit_simps dest: bit_imp_le_length)+
  then show ?thesis by (simp add: word_add_disjoint or.assoc)
qed

text \<open>Equality of words, one byte at a time.\<close>

lemma word_of_bytes_eqI:
  fixes x y :: u32
  assumes "\<And>n. n < 8 \<Longrightarrow> bit x n = bit y n"
    "\<And>n. n < 8 \<Longrightarrow> bit x (8 + n) = bit y (8 + n)"
    "\<And>n. n < 8 \<Longrightarrow> bit x (16 + n) = bit y (16 + n)"
    "\<And>n. n < 8 \<Longrightarrow> bit x (24 + n) = bit y (24 + n)"
  shows "x = y"
proof (rule bit_eqI)
  fix n :: nat
  consider "n < 8" | "8 \<le> n" "n < 16" | "16 \<le> n" "n < 24" | "24 \<le> n" "n < 32" | "32 \<le> n"
    by linarith
  then show "bit x n = bit y n"
    using assms(1) [of n] assms(2) [of "n - 8"] assms(3) [of "n - 16"] assms(4) [of "n - 24"]
    by cases (auto dest: bit_imp_le_length)
qed

lemma get_u32_be32:
  assumes "p + 4 \<le> length m" "take 4 (drop p m) = be32 x"
  shows "buffer_get_u32 m p = Some x"
proof -
  have "push_bit 24 (ucast (ucast (drop_bit 24 x) :: byte)) OR
        push_bit 16 (ucast (ucast (drop_bit 16 x) :: byte)) OR
        push_bit 8 (ucast (ucast (drop_bit 8 x) :: byte)) OR ucast (ucast x :: byte) = x"
    by (rule word_of_bytes_eqI) (auto simp: bit_simps)
  with get_at [OF assms(1) assms(2) [unfolded be32_def]] show ?thesis
    by (simp add: buffer_get_u32_def join32)
qed

lemma get_u31_be32:
  assumes "p + 4 \<le> length m" "take 4 (drop p m) = be32 x"
  shows "buffer_get_u31 m p = Some (x AND 0x7FFFFFFF)"
proof -
  have "push_bit 24 (ucast (ucast (drop_bit 24 x) AND 0x7F :: byte)) OR
        push_bit 16 (ucast (ucast (drop_bit 16 x) :: byte)) OR
        push_bit 8 (ucast (ucast (drop_bit 8 x) :: byte)) OR ucast (ucast x :: byte)
        = x AND 0x7FFFFFFF"
    unfolding mask_numerals by (rule word_of_bytes_eqI) (auto simp: bit_simps)
  with get_at [OF assms(1) assms(2) [unfolded be32_def]] show ?thesis
    by (simp add: buffer_get_u31_def join32)
qed

lemma get_u24_be24:
  assumes "p + 3 \<le> length m" "take 3 (drop p m) = be24 x"
  shows "buffer_get_u24 m p = Some (x AND 0xFFFFFF)"
proof -
  have rds: "rd m p = Some (ucast (drop_bit 16 x))" "rd m (p + 1) = Some (ucast (drop_bit 8 x))"
    "rd m (p + 2) = Some (ucast x)"
    using assms by (auto simp: be24_def rd_def take_Suc_conv_app_nth numeral_3_eq_3 numeral_2_eq_2)
  let ?b = "\<lambda>w. ucast (ucast (w :: u32) :: byte) :: u32"
  have disj: "push_bit 16 (?b (drop_bit 16 x)) AND push_bit 8 (?b (drop_bit 8 x)) = 0"
    "(push_bit 16 (?b (drop_bit 16 x)) OR push_bit 8 (?b (drop_bit 8 x))) AND ?b x = 0"
    by (rule bit_eqI; auto simp: bit_simps)+
  have "push_bit 16 (?b (drop_bit 16 x)) OR push_bit 8 (?b (drop_bit 8 x)) OR ?b x
        = x AND 0xFFFFFF"
    unfolding mask_numerals by (rule word_of_bytes_eqI) (auto simp: bit_simps)
  with disj rds show ?thesis
    by (simp add: buffer_get_u24_def word_add_disjoint or.assoc)
qed

lemma get_u16_be16:
  assumes "p + 2 \<le> length m" "take 2 (drop p m) = be16 x"
  shows "buffer_get_u16 m p = Some x"
proof -
  have rds: "rd m p = Some (ucast (drop_bit 8 x))" "rd m (p + 1) = Some (ucast x)"
    using assms by (auto simp: be16_def rd_def take_Suc_conv_app_nth numeral_2_eq_2)
  let ?b = "\<lambda>w. ucast (ucast (w :: u16) :: byte) :: u16"
  have disj: "push_bit 8 (?b (drop_bit 8 x)) AND ?b x = 0"
    by (rule bit_eqI; auto simp: bit_simps)+
  have "push_bit 8 (?b (drop_bit 8 x)) OR ?b x = x"
    by (rule bit_eqI) (auto simp: bit_simps)
  with disj rds show ?thesis
    by (simp add: buffer_get_u16_def word_add_disjoint)
qed

text \<open>Encode/decode laws at an arbitrary position, as the frame code uses them.\<close>

lemma get_put_u32: "buffer_put_u32 m p x = Some m' \<Longrightarrow> buffer_get_u32 m' p = Some x"
  using get_u32_be32 take_drop_overwrite [of p "be32 x" m]
  by (auto simp: put_u32_eq mem_write_eq_Some_iff)

lemma get_put_u31:
  "buffer_put_u31 m p x = Some m' \<Longrightarrow> buffer_get_u31 m' p = Some (x AND 0x7FFFFFFF)"
  using get_u31_be32 [of p m' "x AND 0x7FFFFFFF"] take_drop_overwrite [of p "be31 x" m]
  by (auto simp: put_u31_eq mem_write_eq_Some_iff be31_def and.assoc)

lemma get_put_u24:
  "buffer_put_u24 m p x = Some m' \<Longrightarrow> buffer_get_u24 m' p = Some (x AND 0xFFFFFF)"
  using get_u24_be24 take_drop_overwrite [of p "be24 x" m]
  by (auto simp: put_u24_eq mem_write_eq_Some_iff)

lemma get_put_u16: "buffer_put_u16 m p x = Some m' \<Longrightarrow> buffer_get_u16 m' p = Some x"
  using get_u16_be16 take_drop_overwrite [of p "be16 x" m]
  by (auto simp: put_u16_eq mem_write_eq_Some_iff)

lemma get_put_u8: "buffer_put_u8 m p x = Some m' \<Longrightarrow> buffer_get_u8 m' p = Some x"
  by (auto simp: buffer_put_u8_def buffer_get_u8_def wr_eq_Some_iff rd_def)

end
