(* ===== verification/Hpack_Utils.thy ===== *)
theory Hpack_Utils
  imports Prelude
begin

text \<open>
  \<open>src/src/hpack/structs.h\<close> and \<open>src/src/hpack/utils.c\<close>: the configuration constants, the preambles
  of the header representations, the error codes, and the size of an encoded integer. \<open>1u << n\<close> with
  \<open>n \<ge> 32\<close> is undefined and is \<open>None\<close>. The lemmas show that \<open>hpack_utils_log128\<close> is the integer
  logarithm on its domain, and that \<open>hpack_utils_get_preamble\<close> classifies every octet.
\<close>

definition HPACK_MAXIMUM_INTEGER :: nat where "HPACK_MAXIMUM_INTEGER = 4096"
definition HPACK_MAX_DYNAMIC_TABLE_SIZE :: nat where "HPACK_MAX_DYNAMIC_TABLE_SIZE = 4096"
definition HPACK_HEADER_NAME_LEN :: nat where "HPACK_HEADER_NAME_LEN = 32"
definition HPACK_HEADER_VALUE_LEN :: nat where "HPACK_HEADER_VALUE_LEN = 64"

definition HPACK_NO_ERROR :: int where "HPACK_NO_ERROR = 0"
definition HPACK_COMPRESSION_ERROR :: int where "HPACK_COMPRESSION_ERROR = - 1"
definition HPACK_INTERNAL_ERROR :: int where "HPACK_INTERNAL_ERROR = - 2"
definition HPACK_MEMORY_ERROR :: int where "HPACK_MEMORY_ERROR = - 3"

lemmas hpack_error_defs =
  HPACK_NO_ERROR_def HPACK_COMPRESSION_ERROR_def HPACK_INTERNAL_ERROR_def HPACK_MEMORY_ERROR_def

lemmas hpack_conf_defs =
  HPACK_MAXIMUM_INTEGER_def HPACK_MAX_DYNAMIC_TABLE_SIZE_def HPACK_HEADER_NAME_LEN_def
  HPACK_HEADER_VALUE_LEN_def

text \<open>
  The enumeration of preambles; \<open>WRONG_PREAMBLE\<close> is the \<open>-1\<close> that \<open>hpack_utils_get_preamble\<close>
  returns when no preamble matches.
\<close>

datatype hpack_preamble =
    INDEXED_HEADER_FIELD
  | LITERAL_HEADER_FIELD_WITH_INCREMENTAL_INDEXING
  | LITERAL_HEADER_FIELD_WITHOUT_INDEXING
  | LITERAL_HEADER_FIELD_NEVER_INDEXED
  | DYNAMIC_TABLE_SIZE_UPDATE
  | WRONG_PREAMBLE

fun preamble_val :: "hpack_preamble \<Rightarrow> u32" where
  "preamble_val INDEXED_HEADER_FIELD = 128"
| "preamble_val LITERAL_HEADER_FIELD_WITH_INCREMENTAL_INDEXING = 64"
| "preamble_val LITERAL_HEADER_FIELD_WITHOUT_INDEXING = 0"
| "preamble_val LITERAL_HEADER_FIELD_NEVER_INDEXED = 16"
| "preamble_val DYNAMIC_TABLE_SIZE_UPDATE = 32"
| "preamble_val WRONG_PREAMBLE = - 1"

function log128_loop :: "u32 \<Rightarrow> nat \<Rightarrow> u32 \<Rightarrow> (nat \<times> u32) option" where
  "log128_loop x n m =
     (if m < x then
        let n = n + 1
        in if 7 * n < 32 then log128_loop x n (push_bit (7 * n) 1) else None
      else Some (n, m))"
  by pat_completeness auto
termination
  by (relation "measure (\<lambda>(x, n, m). 32 - 7 * n)") auto

declare log128_loop.simps [simp del]

definition hpack_utils_log128 :: "u32 \<Rightarrow> u32 option" where
  "hpack_utils_log128 x = do {
     (n, m) \<leftarrow> log128_loop x 0 1;
     Some (if m = x then of_nat n else of_nat n - 1)
   }"

definition hpack_utils_get_preamble :: "byte \<Rightarrow> hpack_preamble" where
  "hpack_utils_get_preamble preamble =
     (if preamble AND 128 \<noteq> 0 then INDEXED_HEADER_FIELD
      else if preamble AND 64 \<noteq> 0 then LITERAL_HEADER_FIELD_WITH_INCREMENTAL_INDEXING
      else if preamble AND 32 \<noteq> 0 then DYNAMIC_TABLE_SIZE_UPDATE
      else if preamble AND 16 \<noteq> 0 then LITERAL_HEADER_FIELD_NEVER_INDEXED
      else if preamble < 16 then LITERAL_HEADER_FIELD_WITHOUT_INDEXING
      else WRONG_PREAMBLE)"

definition hpack_utils_find_prefix_size :: "hpack_preamble \<Rightarrow> nat" where
  "hpack_utils_find_prefix_size octet =
     (if 128 AND preamble_val octet = 128 then 7
      else if 64 AND preamble_val octet = 64 then 6
      else if 32 AND preamble_val octet = 32 then 5
      else 4)"

definition hpack_utils_encoded_integer_size :: "u32 \<Rightarrow> nat \<Rightarrow> u32 option" where
  "hpack_utils_encoded_integer_size num prefix = do {
     guard (prefix < 32);
     let p = (ucast (push_bit prefix 1 - 1 :: u32) :: byte);
     if num < ucast p then Some 1
     else if num = ucast p then Some 2
     else do {
       k \<leftarrow> hpack_utils_log128 (num - ucast p);
       Some (k + 2)
     }
   }"

subsection \<open>Preambles\<close>

lemma find_prefix_size_simps [simp]:
  "hpack_utils_find_prefix_size INDEXED_HEADER_FIELD = 7"
  "hpack_utils_find_prefix_size LITERAL_HEADER_FIELD_WITH_INCREMENTAL_INDEXING = 6"
  "hpack_utils_find_prefix_size LITERAL_HEADER_FIELD_WITHOUT_INDEXING = 4"
  "hpack_utils_find_prefix_size LITERAL_HEADER_FIELD_NEVER_INDEXED = 4"
  "hpack_utils_find_prefix_size DYNAMIC_TABLE_SIZE_UPDATE = 5"
  by (simp_all add: hpack_utils_find_prefix_size_def)

lemma find_prefix_size_bounds [bounds]:
  "4 \<le> hpack_utils_find_prefix_size p" "hpack_utils_find_prefix_size p \<le> 7"
  by (simp_all add: hpack_utils_find_prefix_size_def)

text \<open>
  An octet made of the value of a preamble and any bits of the prefix is classified as that preamble.
\<close>

lemma byte_mask_eq_0_iff:
  fixes b :: byte
  shows "b AND 128 = 0 \<longleftrightarrow> \<not> bit b 7" "b AND 64 = 0 \<longleftrightarrow> \<not> bit b 6"
    "b AND 32 = 0 \<longleftrightarrow> \<not> bit b 5" "b AND 16 = 0 \<longleftrightarrow> \<not> bit b 4"
  using and_exp_eq_0_iff_not_bit [of b 7] and_exp_eq_0_iff_not_bit [of b 6]
    and_exp_eq_0_iff_not_bit [of b 5] and_exp_eq_0_iff_not_bit [of b 4] by simp_all

lemma get_preamble_never_wrong: "hpack_utils_get_preamble b \<noteq> WRONG_PREAMBLE"
proof -
  have "b < 16" if nb: "\<not> bit b 7" "\<not> bit b 6" "\<not> bit b 5" "\<not> bit b 4"
  proof -
    have "take_bit 4 b = b"
    proof (rule bit_word_eqI)
      fix n assume "n < LENGTH(8)"
      then have "n < 4 \<or> n = 4 \<or> n = 5 \<or> n = 6 \<or> n = 7" by auto
      with nb show "bit (take_bit 4 b) n = bit b n" by (auto simp: bit_take_bit_iff)
    qed
    then have "unat b = unat b mod 2 ^ 4" by (metis take_bit_eq_mod unsigned_take_bit_eq)
    also have "\<dots> < 2 ^ 4" by (rule mod_less_divisor) simp
    finally show ?thesis by (simp add: word_less_nat_alt)
  qed
  then show ?thesis
    by (auto simp: hpack_utils_get_preamble_def byte_mask_eq_0_iff)
qed

lemma get_preamble_or:
  assumes "unat b < 2 ^ hpack_utils_find_prefix_size p" "p \<noteq> WRONG_PREAMBLE"
  shows "hpack_utils_get_preamble (b OR ucast (preamble_val p)) = p"
proof -
  have pow: "bit (128::byte) n = (n = 7)" "bit (64::byte) n = (n = 6)" "bit (32::byte) n = (n = 5)"
    "bit (16::byte) n = (n = 4)" if "n < 8" for n
    using that bit_exp_iff [where 'a = byte, of 7 n] bit_exp_iff [where 'a = byte, of 6 n]
      bit_exp_iff [where 'a = byte, of 5 n] bit_exp_iff [where 'a = byte, of 4 n]
    by auto
  have "b < 16" if "p = LITERAL_HEADER_FIELD_WITHOUT_INDEXING"
    using that assms(1) by (simp add: word_less_nat_alt)
  with assms bit_small_unat [OF assms(1)] show ?thesis
    by (cases p) (simp_all add: hpack_utils_get_preamble_def byte_mask_eq_0_iff bit_or_iff pow)
qed

subsection \<open>The logarithm and the size of an encoded integer\<close>

lemma log128_loop_correct:
  assumes "unat x \<le> 2 ^ 28" "unat m = 128 ^ n" "n \<le> 4" "n \<noteq> 0 \<longrightarrow> 128 ^ (n - 1) < unat x" "0 < unat x"
  shows "\<exists>k. log128_loop x n m = Some (k, of_nat (128 ^ k)) \<and> k \<le> 4 \<and> unat x \<le> 128 ^ k \<and>
    (k \<noteq> 0 \<longrightarrow> 128 ^ (k - 1) < unat x)"
  using assms
proof (induction x n m rule: log128_loop.induct)
  case (1 x n m)
  have m: "m = of_nat (128 ^ n)" by (metis "1.prems"(2) of_nat_unat ucast_id)
  show ?case
  proof (cases "m < x")
    case True
    then have lt: "128 ^ n < unat x" using "1.prems"(2) by (simp add: word_less_nat_alt)
    have n: "n < 4"
    proof (rule ccontr)
      assume "\<not> n < 4"
      with "1.prems"(3) have "n = 4" by simp
      with lt "1.prems"(1) show False by simp
    qed
    have "(push_bit (7 * (n + 1)) 1 :: u32) = of_nat (128 ^ (n + 1))"
      by (simp add: push_bit_eq_mult power_mult power_add)
    moreover have "128 ^ (n + 1) \<le> (128 ^ 4 :: nat)" using n by (intro power_increasing) auto
    then have "unat (of_nat (128 ^ (n + 1)) :: u32) = 128 ^ (n + 1)"
      by (intro unat_of_nat_u32) simp
    ultimately show ?thesis
      using "1.IH" [OF True refl] True n lt "1.prems" by (subst log128_loop.simps) simp
  next
    case False
    with "1.prems" m show ?thesis
      by (subst log128_loop.simps) (auto simp: word_less_nat_alt not_less)
  qed
qed

lemma log128_floor:
  assumes "0 < unat x" "unat x \<le> 2 ^ 28"
  shows "\<exists>k. hpack_utils_log128 x = Some (of_nat k) \<and> k \<le> 4 \<and> 128 ^ k \<le> unat x \<and> unat x < 128 ^ (k + 1)"
proof -
  obtain k where k: "log128_loop x 0 1 = Some (k, of_nat (128 ^ k))" "k \<le> 4" "unat x \<le> 128 ^ k"
    "k \<noteq> 0 \<longrightarrow> 128 ^ (k - 1) < unat x"
    using log128_loop_correct [of x 1 0] assms by auto
  show ?thesis
  proof (cases "(of_nat (128 ^ k) :: u32) = x")
    case True
    have "128 ^ k \<le> (128 ^ 4 :: nat)" using k(2) by (intro power_increasing) auto
    then have "unat (of_nat (128 ^ k) :: u32) = 128 ^ k" by (intro unat_of_nat_u32) simp
    with True have "unat x = 128 ^ k" by simp
    with True k show ?thesis by (auto simp: hpack_utils_log128_def intro!: exI [of _ k])
  next
    case False
    then have ne: "unat x \<noteq> 128 ^ k" by (metis of_nat_unat ucast_id)
    obtain j where "k = Suc j" using ne k(3) assms(1) by (cases k) auto
    with False ne k show ?thesis
      by (auto simp: hpack_utils_log128_def intro!: exI [of _ j])
  qed
qed

end
