(* ===== verification/Hpack_Integer.thy ===== *)
theory Hpack_Integer
  imports Hpack_Utils
begin

text \<open>
  The integer representation of HPACK (RFC 7541, section 5.1): \<open>hpack_encoder_encode_integer\<close> of
  \<open>src/src/hpack/encoder.c\<close> and \<open>hpack_decoder_decode_integer\<close> of \<open>src/src/hpack/decoder.c\<close>.
  \<open>int_code\<close> is the reference encoding; the encoder writes exactly it, its length is what
  \<open>hpack_utils_encoded_integer_size\<close> predicts, and the decoder inverts it whatever the bits in front
  of the prefix and the bytes behind the code are.
\<close>

function encode_integer_loop :: "u32 \<Rightarrow> nat \<Rightarrow> byte list \<Rightarrow> nat \<Rightarrow> (byte list \<times> nat \<times> u32) option" where
  "encode_integer_loop integer i m p =
     (if integer \<ge> 128 then do {
        let encoded = integer mod 128;
        let encoded = encoded + 128;
        m \<leftarrow> wr m (p + i) (ucast encoded);
        encode_integer_loop (integer div 128) (i + 1) m p
      }
      else Some (m, i, integer))"
  by pat_completeness auto
termination
proof (relation "measure (\<lambda>(integer, i, m, p). unat integer)")
  fix integer :: u32
  assume "128 \<le> integer"
  then have "0 < unat integer" by (simp add: word_le_nat_alt)
  then show "((integer div 128, i + 1, m', p), integer, i, m, p) \<in> measure (\<lambda>(integer, i, m, p). unat integer)"
    for i :: nat and m m' :: "byte list" and p :: nat
    by (simp add: unat_div)
qed simp

declare encode_integer_loop.simps [simp del]

text \<open>
  \<open>8u - prefix\<close> is unsigned, so a prefix above 8 makes it a shift by far more than the width.
\<close>

definition hpack_encoder_encode_integer ::
  "u32 \<Rightarrow> nat \<Rightarrow> byte list \<Rightarrow> nat \<Rightarrow> (byte list \<times> int) option" where
  "hpack_encoder_encode_integer integer prefix m p =
     (if unat integer > HPACK_MAXIMUM_INTEGER then Some (m, - 1)
      else do {
        octets_size \<leftarrow> hpack_utils_encoded_integer_size integer prefix;
        let max_first_octet = (ucast (push_bit prefix 1 - 1 :: u32) :: byte);
        if integer < ucast max_first_octet then do {
          guard (prefix \<le> 8);
          m \<leftarrow> wr m p (ucast (push_bit (8 - prefix) integer));
          b \<leftarrow> rd m p;
          m \<leftarrow> wr m p (drop_bit (8 - prefix) b);
          Some (m, sint octets_size)
        }
        else do {
          let b0 = (ucast (push_bit prefix 1 - 1 :: u32) :: byte);
          let integer = integer - ucast b0;
          m \<leftarrow> wr m p b0;
          (m, i, integer) \<leftarrow> encode_integer_loop integer 1 m p;
          let bi = (ucast (integer AND 0xFF) :: byte);
          m \<leftarrow> wr m (p + i) bi;
          Some (m, sint octets_size)
        }
      })"

function decode_integer_loop :: "byte list \<Rightarrow> nat \<Rightarrow> nat \<Rightarrow> u32 \<Rightarrow> nat \<Rightarrow> int option" where
  "decode_integer_loop bytes q i integer depth = do {
     bi \<leftarrow> rd bytes (q + i);
     if depth \<ge> 32 then None
     else if bi AND 128 = 0 then
       let integer = integer + ucast bi * push_bit depth 1
       in if unat integer > HPACK_MAXIMUM_INTEGER then Some (- 1) else Some (sint integer)
     else
       let bi = push_bit 1 bi;
           bi = drop_bit 1 bi;
           integer = integer + ucast bi * push_bit depth 1
       in decode_integer_loop bytes q (i + 1) integer (depth + 7)
   }"
  by pat_completeness auto
termination
  by (relation "measure (\<lambda>(bytes, q, i, integer, depth). 32 - depth)") auto

declare decode_integer_loop.simps [simp del]

definition hpack_decoder_decode_integer :: "byte list \<Rightarrow> nat \<Rightarrow> nat \<Rightarrow> int option" where
  "hpack_decoder_decode_integer bytes q prefix = do {
     b0 \<leftarrow> rd bytes q;
     guard (prefix \<le> 8);
     let b0 = push_bit (8 - prefix) b0;
     let b0 = drop_bit (8 - prefix) b0;
     let p = drop_bit (8 - prefix) (255 :: byte);
     if b0 \<noteq> p then Some (int (unat b0))
     else decode_integer_loop bytes q 1 (ucast p) 0
   }"

subsection \<open>The reference encoding\<close>

fun base128 :: "nat \<Rightarrow> byte list" where
  "base128 n = (if n < 128 then [of_nat n] else of_nat (128 + n mod 128) # base128 (n div 128))"

declare base128.simps [simp del]

definition int_code :: "nat \<Rightarrow> nat \<Rightarrow> byte list" where
  "int_code prefix n =
     (if n < 2 ^ prefix - 1 then [of_nat n]
      else of_nat (2 ^ prefix - 1) # base128 (n - (2 ^ prefix - 1)))"

lemma base128_not_Nil [simp]: "base128 n \<noteq> []"
  by (subst base128.simps) simp

lemma int_code_not_Nil [simp]: "int_code prefix n \<noteq> []"
  by (simp add: int_code_def)

lemma length_base128:
  "128 ^ k \<le> n \<Longrightarrow> n < 128 ^ (k + 1) \<Longrightarrow> length (base128 n) = k + 1"
proof (induction k arbitrary: n)
  case 0
  then show ?case by (subst base128.simps) simp
next
  case (Suc k)
  have "128 ^ k \<le> n div 128" using div_le_mono [OF Suc.prems(1), of 128] by simp
  moreover have "n div 128 < 128 ^ (k + 1)" using Suc.prems(2) by (simp add: less_mult_imp_div_less mult.commute)
  moreover have "\<not> n < 128"
  proof -
    have "(1::nat) \<le> 128 ^ k" by simp
    with Suc.prems(1) show ?thesis unfolding power_Suc by linarith
  qed
  ultimately show ?case using Suc.IH by (subst base128.simps) simp
qed

lemma length_base128_small: "n < 128 \<Longrightarrow> length (base128 n) = 1"
  by (subst base128.simps) simp

lemma max_first_octet:
  assumes "prefix \<le> 8"
  shows "unat (ucast (push_bit prefix 1 - 1 :: u32) :: byte) = 2 ^ prefix - 1"
    "unat (ucast (ucast (push_bit prefix 1 - 1 :: u32) :: byte) :: u32) = 2 ^ prefix - 1"
proof -
  have "prefix \<in> {0, 1, 2, 3, 4, 5, 6, 7, 8}" using assms by auto
  then show "unat (ucast (push_bit prefix 1 - 1 :: u32) :: byte) = 2 ^ prefix - 1"
    "unat (ucast (ucast (push_bit prefix 1 - 1 :: u32) :: byte) :: u32) = 2 ^ prefix - 1"
    by (elim insertE; simp add: push_bit_eq_mult)+
qed

text \<open>\<open>hpack_utils_encoded_integer_size\<close> predicts the length of the code.\<close>

lemma encoded_integer_size_correct:
  assumes "prefix \<le> 8" "unat n \<le> 2 ^ 28"
  shows "hpack_utils_encoded_integer_size n prefix = Some (of_nat (length (int_code prefix (unat n))))"
proof -
  let ?p = "ucast (push_bit prefix 1 - 1 :: u32) :: byte"
  have p: "unat (ucast ?p :: u32) = 2 ^ prefix - 1"
    by (rule max_first_octet(2) [OF assms(1)])
  consider (lt) "unat n < 2 ^ prefix - 1" | (eq) "unat n = 2 ^ prefix - 1" | (gt) "2 ^ prefix - 1 < unat n"
    by linarith
  then show ?thesis
  proof cases
    case lt
    then show ?thesis using assms p
      by (simp add: hpack_utils_encoded_integer_size_def word_less_nat_alt int_code_def)
  next
    case eq
    then have "n = ucast ?p" using p by (simp add: word_unat_eq_iff)
    with eq p assms show ?thesis
      by (simp add: hpack_utils_encoded_integer_size_def word_less_nat_alt int_code_def length_base128_small)
  next
    case gt
    then have d: "unat (n - ucast ?p) = unat n - (2 ^ prefix - 1)" using p by (simp add: unat_sub word_le_nat_alt)
    have b: "0 < unat (n - ucast ?p)" "unat (n - ucast ?p) \<le> 2 ^ 28"
      unfolding d using gt assms(2) by linarith+
    obtain k where k: "hpack_utils_log128 (n - ucast ?p) = Some (of_nat k)"
      "128 ^ k \<le> unat n - (2 ^ prefix - 1)" "unat n - (2 ^ prefix - 1) < 128 ^ (k + 1)"
      using log128_floor [OF b] unfolding d by blast
    have "\<not> n < ucast ?p" "n \<noteq> ucast ?p" using gt p by (auto simp: word_less_nat_alt)
    then show ?thesis using k length_base128 [OF k(2,3)] gt assms(1)
      by (simp add: hpack_utils_encoded_integer_size_def int_code_def)
  qed
qed

subsection \<open>The encoder writes the reference encoding\<close>

lemma ucast_of_nat_byte: "(ucast (of_nat n :: u32) :: byte) = of_nat n" if "n < 2 ^ 32"
  using that by (simp add: unsigned_of_nat take_bit_nat_eq_self)

lemma encode_integer_loop_correct:
  assumes "p + i + length (base128 (unat n)) \<le> length m" "length ys = i"
  shows "\<exists>zs r. encode_integer_loop n i (overwrite m p ys) p =
      Some (overwrite m p (ys @ zs), i + length zs, of_nat r) \<and> r < 128 \<and>
      base128 (unat n) = zs @ [of_nat r]"
  using assms
proof (induction n i "overwrite m p ys" p arbitrary: ys rule: encode_integer_loop.induct)
  case (1 n i p)
  show ?case
  proof (cases "128 \<le> n")
    case True
    then have ge: "\<not> unat n < 128" by (simp add: word_le_nat_alt not_less)
    then have code: "base128 (unat n) = of_nat (128 + unat n mod 128) # base128 (unat n div 128)"
      by (subst base128.simps) simp
    let ?b = "of_nat (128 + unat n mod 128) :: byte"
    have e: "n mod 128 + 128 = (of_nat (128 + unat n mod 128) :: u32)"
      by (simp add: word_arith_nat_mod)
    have b: "ucast (n mod 128 + 128) = ?b"
      unfolding e by (rule ucast_of_nat_byte) simp
    have room: "p + i < length m" "p + length (ys @ [?b]) \<le> length m"
      using "1.prems" unfolding code by auto
    have w: "wr (overwrite m p ys) (p + i) ?b = Some (overwrite m p (ys @ [?b]))"
      using "1.prems"(2) room by (intro wr_next) auto
    have d: "unat (n div 128) = unat n div 128" by (simp add: unat_div)
    have "\<exists>zs r. encode_integer_loop (n div 128) (i + 1) (overwrite m p (ys @ [?b])) p =
      Some (overwrite m p ((ys @ [?b]) @ zs), i + 1 + length zs, of_nat r) \<and> r < 128 \<and>
      base128 (unat (n div 128)) = zs @ [of_nat r]"
      using "1.prems" code d b w
      by (intro "1.hyps" [OF True refl refl]) auto
    then obtain zs r where "encode_integer_loop (n div 128) (i + 1) (overwrite m p (ys @ [?b])) p =
      Some (overwrite m p (ys @ ?b # zs), i + 1 + length zs, of_nat r)" "r < 128"
      "base128 (unat n div 128) = zs @ [of_nat r]"
      unfolding d by auto
    with True w b code show ?thesis
      by (subst encode_integer_loop.simps) (auto intro!: exI [of _ "?b # zs"] exI [of _ r])
  next
    case False
    then have lt: "unat n < 128" by (simp add: word_le_nat_alt not_le)
    then have "base128 (unat n) = [of_nat (unat n)]" by (subst base128.simps) simp
    with False lt show ?thesis
      by (subst encode_integer_loop.simps) (auto intro!: exI [of _ "unat n"])
  qed
qed

lemma push_drop_small:
  fixes n :: u32
  assumes "prefix \<le> 8" "unat n < 2 ^ prefix"
  shows "drop_bit (8 - prefix) (ucast (push_bit (8 - prefix) n) :: byte) = ucast n"
proof (rule bit_word_eqI)
  fix j assume "j < LENGTH(8)"
  then show "bit (drop_bit (8 - prefix) (ucast (push_bit (8 - prefix) n) :: byte)) j = bit (ucast n :: byte) j"
    using bit_small_unat [OF assms(2), of j] assms(1)
    by (cases "prefix \<le> j") (auto simp: bit_simps)
qed

lemma length_int_code [bounds]:
  assumes "n \<le> HPACK_MAXIMUM_INTEGER"
  shows "1 \<le> length (int_code prefix n)" "length (int_code prefix n) \<le> 3"
proof -
  have "length (base128 k) \<le> 2" if "k < 16384" for k
  proof (cases "k < 128")
    case True
    then show ?thesis by (simp add: length_base128_small)
  next
    case False
    with that show ?thesis by (simp add: length_base128 [of 1])
  qed
  moreover have "n - (2 ^ prefix - 1) < 16384" using assms by (simp add: HPACK_MAXIMUM_INTEGER_def)
  ultimately have "length (base128 (n - (2 ^ prefix - 1))) \<le> 2" by blast
  then show "1 \<le> length (int_code prefix n)" "length (int_code prefix n) \<le> 3"
    unfolding int_code_def by (simp_all add: Suc_le_eq)
qed

lemma sint_of_nat_max: "k \<le> HPACK_MAXIMUM_INTEGER \<Longrightarrow> sint (of_nat k :: u32) = int k"
  by (simp add: HPACK_MAXIMUM_INTEGER_def signed_of_nat signed_take_bit_int_eq_self)

lemma encode_integer_correct:
  assumes "prefix \<le> 8" "unat n \<le> HPACK_MAXIMUM_INTEGER" "p + length (int_code prefix (unat n)) \<le> length m"
  shows "hpack_encoder_encode_integer n prefix m p =
    Some (overwrite m p (int_code prefix (unat n)), int (length (int_code prefix (unat n))))"
proof -
  let ?c = "int_code prefix (unat n)" and ?p = "ucast (push_bit prefix 1 - 1 :: u32) :: byte"
  have small: "unat n < 2 ^ 28" using assms(2) by (simp add: HPACK_MAXIMUM_INTEGER_def)
  have size: "hpack_utils_encoded_integer_size n prefix = Some (of_nat (length ?c))"
    using small by (intro encoded_integer_size_correct [OF assms(1)]) simp
  have sint: "sint (of_nat (length ?c) :: u32) = int (length ?c)"
    using length_int_code(2) [OF assms(2), of prefix]
    by (intro sint_of_nat_max) (simp add: HPACK_MAXIMUM_INTEGER_def)
  have p: "unat (ucast ?p :: u32) = 2 ^ prefix - 1" by (rule max_first_octet(2) [OF assms(1)])
  have pos: "p < length m" using assms(3) length_int_code(1) [OF assms(2), of prefix] by linarith
  show ?thesis
  proof (cases "unat n < 2 ^ prefix - 1")
    case True
    then have lt: "n < ucast ?p" using p by (simp add: word_less_nat_alt)
    have c: "?c = [ucast n]" using True by (simp add: int_code_def)
    have d: "drop_bit (8 - prefix) (ucast (push_bit (8 - prefix) n) :: byte) = ucast n"
      using True by (intro push_drop_small [OF assms(1)]) simp
    have "overwrite m p [ucast n] = m[p := ucast n]" using pos by (simp add: list_update_overwrite)
    with lt d pos assms(1,2) size sint c show ?thesis
      by (simp add: hpack_encoder_encode_integer_def wr_def rd_def not_less)
  next
    case False
    then have ge: "\<not> n < ucast ?p" using p by (simp add: word_less_nat_alt)
    have m: "unat (n - ucast ?p) = unat n - (2 ^ prefix - 1)"
      using False p by (simp add: unat_sub word_le_nat_alt not_less)
    have c: "?c = ?p # base128 (unat (n - ucast ?p))"
      using False arg_cong [OF max_first_octet(1) [OF assms(1)], of "of_nat :: nat \<Rightarrow> byte"]
      unfolding m int_code_def by (simp only: of_nat_unat ucast_id if_False)
    obtain zs r where zs: "encode_integer_loop (n - ucast ?p) 1 (overwrite m p [?p]) p =
        Some (overwrite m p (?p # zs), 1 + length zs, of_nat r)" "r < 128"
      "base128 (unat (n - ucast ?p)) = zs @ [of_nat r]"
      using encode_integer_loop_correct [of p 1 "n - ucast ?p" m "[?p]"] assms(3) c by auto
    have w0: "wr m p ?p = Some (overwrite m p [?p])" using pos by (rule wr_first)
    have w1: "wr (overwrite m p (?p # zs)) (p + (1 + length zs)) (of_nat r) = Some (overwrite m p ?c)"
      using wr_next [of "p + (1 + length zs)" p "?p # zs" m "of_nat r"] assms(3) c zs(3) by simp
    have bi: "ucast ((of_nat r :: u32) AND 0xFF) = (of_nat r :: byte)"
    proof -
      have "(of_nat r :: u32) AND 0xFF = of_nat r"
        unfolding mask_numerals take_bit_eq_mask [symmetric] take_bit_of_nat
        using zs(2) by (simp add: take_bit_nat_eq_self)
      then show ?thesis using zs(2) ucast_of_nat_byte by simp
    qed
    from ge size sint w0 w1 bi zs leD [OF assms(2)] show ?thesis
      by (simp add: hpack_encoder_encode_integer_def)
  qed
qed

text \<open>An integer above the limit is refused and nothing is written.\<close>

lemma encode_integer_refuses:
  "HPACK_MAXIMUM_INTEGER < unat n \<Longrightarrow> hpack_encoder_encode_integer n prefix m p = Some (m, - 1)"
  by (simp add: hpack_encoder_encode_integer_def)

subsection \<open>The decoder inverts it\<close>

text \<open>\<open>code_here m q c\<close>: the bytes of \<open>m\<close> from \<open>q\<close> on start with \<open>c\<close>.\<close>

definition code_here :: "byte list \<Rightarrow> nat \<Rightarrow> byte list \<Rightarrow> bool" where
  "code_here m q c \<longleftrightarrow> q + length c \<le> length m \<and> take (length c) (drop q m) = c"

lemma code_here_nth:
  assumes "code_here m q c" "j < length c"
  shows "rd m (q + j) = Some (c ! j)"
proof -
  have "take (length c) (drop q m) ! j = c ! j" using assms(1) by (simp add: code_here_def)
  moreover have "take (length c) (drop q m) ! j = m ! (q + j)"
    using assms by (subst nth_take) (auto simp: code_here_def)
  ultimately show ?thesis using assms by (simp add: code_here_def rd_def)
qed

lemma code_here_Cons:
  "code_here m q (b # c) \<longleftrightarrow> rd m q = Some b \<and> code_here m (q + 1) c"
proof (cases "q < length m")
  case True
  then have "drop q m = m ! q # drop (q + 1) m" by (metis Cons_nth_drop_Suc Suc_eq_plus1)
  with True show ?thesis by (auto simp: code_here_def rd_def)
next
  case False
  then show ?thesis by (auto simp: code_here_def rd_def)
qed

lemma code_here_append:
  "code_here m q (c @ d) \<longleftrightarrow> code_here m q c \<and> code_here m (q + length c) d"
proof (induction c arbitrary: q)
  case Nil
  then show ?case by (auto simp: code_here_def)
next
  case (Cons b c)
  show ?case by (simp add: code_here_Cons Cons.IH ac_simps)
qed

lemma code_here_overwrite:
  "p + length c \<le> length m \<Longrightarrow> code_here (overwrite m p c) p c"
  by (simp add: code_here_def take_drop_overwrite)

text \<open>One byte of the continuation, with and without its top bit.\<close>

lemma continuation_byte:
  assumes "r < 128"
  shows "(of_nat r :: byte) AND 128 = 0" "(of_nat (128 + r) :: byte) AND 128 \<noteq> 0"
    "drop_bit 1 (push_bit 1 (of_nat (128 + r) :: byte)) = of_nat r"
    "ucast (of_nat r :: byte) = (of_nat r :: u32)"
proof -
  have u: "unat (of_nat r :: byte) = r" using assms by (simp add: unat_of_nat_byte)
  show "(of_nat r :: byte) AND 128 = 0"
    unfolding byte_mask_eq_0_iff using assms u by (intro bit_small_unat [of _ 7]) simp_all
  show "(of_nat (128 + r) :: byte) AND 128 \<noteq> 0"
  proof -
    have "(128 + r) div 128 = 1" using assms by simp
    then have "bit (128 + r) 7" by (simp add: bit_iff_odd)
    then show ?thesis unfolding byte_mask_eq_0_iff bit_of_nat_iff by simp
  qed
  have "drop_bit 1 (push_bit 1 b) = take_bit 7 b" for b :: byte
  proof (rule bit_word_eqI)
    fix n assume "n < LENGTH(8)"
    then show "bit (drop_bit 1 (push_bit 1 b)) n = bit (take_bit 7 b) n"
      by (simp only: bit_drop_bit_eq bit_push_bit_iff bit_take_bit_iff o_apply) auto
  qed
  moreover have "take_bit 7 (128 + r) = r" using assms by (simp add: take_bit_eq_mod)
  ultimately show "drop_bit 1 (push_bit 1 (of_nat (128 + r) :: byte)) = of_nat r"
    by (simp only: take_bit_of_nat)
  show "ucast (of_nat r :: byte) = (of_nat r :: u32)"
    using assms by (simp add: unsigned_of_nat take_bit_nat_eq_self)
qed

lemma decode_base128:
  assumes "code_here m (q + i) (base128 n)" "depth + 7 * (length (base128 n) - 1) < 32"
    "a + n * 2 ^ depth \<le> HPACK_MAXIMUM_INTEGER"
  shows "decode_integer_loop m q i (of_nat a) depth = Some (int (a + n * 2 ^ depth))"
  using assms
proof (induction n arbitrary: i a depth rule: base128.induct)
  case (1 n)
  show ?case
  proof (cases "n < 128")
    case True
    then have c: "base128 n = [of_nat n]" by (subst base128.simps) simp
    have r: "rd m (q + i) = Some (of_nat n)" using "1.prems"(1) c by (simp add: code_here_Cons)
    let ?v = "a + n * 2 ^ depth"
    have v: "of_nat a + ucast (of_nat n :: byte) * push_bit depth 1 = (of_nat ?v :: u32)"
      using continuation_byte(4) [OF True] by (simp add: push_bit_eq_mult)
    have u: "unat (of_nat ?v :: u32) = ?v"
      using "1.prems"(3) by (intro unat_of_nat_u32) (simp add: HPACK_MAXIMUM_INTEGER_def)
    have s: "sint (of_nat ?v :: u32) = int ?v"
      using "1.prems"(3) by (intro sint_of_nat_max)
    show ?thesis
      using r "1.prems"(2,3) continuation_byte(1) [OF True] v u s c
      by (subst decode_integer_loop.simps) (simp add: Let_def)
  next
    case False
    then have c: "base128 n = of_nat (128 + n mod 128) # base128 (n div 128)"
      by (subst base128.simps) simp
    have r: "rd m (q + i) = Some (of_nat (128 + n mod 128))" "code_here m (q + (i + 1)) (base128 (n div 128))"
      using "1.prems"(1) c by (simp_all add: code_here_Cons)
    have lt: "n mod 128 < 128" by simp
    have v: "of_nat a + ucast (of_nat (n mod 128) :: byte) * push_bit depth 1 =
        (of_nat (a + n mod 128 * 2 ^ depth) :: u32)"
      using continuation_byte(4) [OF lt] by (simp add: push_bit_eq_mult)
    have sum: "a + n mod 128 * 2 ^ depth + n div 128 * 2 ^ (depth + 7) = a + n * 2 ^ depth"
    proof -
      have "n * 2 ^ depth = (n mod 128 + 128 * (n div 128)) * 2 ^ depth" by simp
      then show ?thesis by (simp only: add_mult_distrib power_add) simp
    qed
    have len: "1 \<le> length (base128 (n div 128))" by (simp add: Suc_le_eq)
    have "decode_integer_loop m q (i + 1) (of_nat (a + n mod 128 * 2 ^ depth)) (depth + 7) =
        Some (int (a + n mod 128 * 2 ^ depth + n div 128 * 2 ^ (depth + 7)))"
      using "1.prems"(2,3) r(2) len unfolding c sum [symmetric]
      by (intro "1.IH" [OF False]) simp_all
    then show ?thesis
      unfolding sum using r(1) "1.prems"(2) continuation_byte(2,3) [OF lt] v
      by (subst decode_integer_loop.simps) (simp add: Let_def del: of_nat_add)
  qed
qed

lemma prefix_bits:
  fixes b :: byte
  assumes "prefix \<le> 8"
  shows "drop_bit (8 - prefix) (push_bit (8 - prefix) b) = take_bit prefix b"
    "drop_bit (8 - prefix) (255 :: byte) = of_nat (2 ^ prefix - 1)"
proof -
  show "drop_bit (8 - prefix) (push_bit (8 - prefix) b) = take_bit prefix b"
  proof (rule bit_word_eqI)
    fix n assume "n < LENGTH(8)"
    then show "bit (drop_bit (8 - prefix) (push_bit (8 - prefix) b)) n = bit (take_bit prefix b) n"
      using assms by (simp only: bit_drop_bit_eq bit_push_bit_iff bit_take_bit_iff o_apply) auto
  qed
  have "prefix \<in> {0, 1, 2, 3, 4, 5, 6, 7, 8}" using assms by auto
  then show "drop_bit (8 - prefix) (255 :: byte) = of_nat (2 ^ prefix - 1)"
    by (elim insertE; simp)
qed

lemma take_bit_hd_int_code:
  assumes "prefix \<le> 8"
  shows "take_bit prefix (hd (int_code prefix n)) = hd (int_code prefix n)"
proof -
  define k where "k = min n (2 ^ prefix - 1)"
  have "k < 2 ^ prefix" unfolding k_def by (simp add: min.strict_coboundedI2)
  moreover have "hd (int_code prefix n) = of_nat k"
    by (auto simp: int_code_def k_def min_def simp del: of_nat_diff)
  ultimately show ?thesis using take_bit_nat_eq_self by (simp add: take_bit_of_nat)
qed

lemma decode_integer_correct:
  assumes "prefix \<le> 8" "n \<le> HPACK_MAXIMUM_INTEGER" "rd m q = Some b"
    "take_bit prefix b = hd (int_code prefix n)" "code_here m (q + 1) (tl (int_code prefix n))"
  shows "hpack_decoder_decode_integer m q prefix = Some (int n)"
proof (cases "n < 2 ^ prefix - 1")
  case True
  have "(2::nat) ^ prefix \<le> 2 ^ 8" using assms(1) by (intro power_increasing) auto
  with True have "unat (of_nat n :: byte) = n" "unat (of_nat (2 ^ prefix - 1) :: byte) = 2 ^ prefix - 1"
    by (auto intro!: unat_of_nat_byte simp del: of_nat_diff)
  with True have "take_bit prefix b \<noteq> of_nat (2 ^ prefix - 1)" "unat (take_bit prefix b) = n"
    using assms(4) unfolding int_code_def by (auto simp del: of_nat_diff)
  then show ?thesis
    using assms(1,3) by (simp add: hpack_decoder_decode_integer_def prefix_bits Let_def del: of_nat_diff)
next
  case False
  let ?a = "2 ^ prefix - 1 :: nat"
  have a: "?a < 256" using power_increasing [OF assms(1), of "2::nat"] by simp
  have "take_bit prefix b = of_nat ?a" "code_here m (q + 1) (base128 (n - ?a))"
    using False assms(4,5) by (simp_all add: int_code_def del: of_nat_diff)
  moreover have "ucast (of_nat ?a :: byte) = (of_nat ?a :: u32)"
    using a by (simp add: unsigned_of_nat take_bit_nat_eq_self del: of_nat_diff)
  moreover have "length (base128 (n - ?a)) \<le> 2"
    using length_int_code(2) [OF assms(2), of prefix] False by (simp add: int_code_def)
  ultimately show ?thesis
    using decode_base128 [of m q 1 "n - ?a" 0 ?a] assms(1,2,3) False
    by (simp add: hpack_decoder_decode_integer_def prefix_bits Let_def del: of_nat_diff)
qed

text \<open>What the decoder returns is an error or within the limit of the implementation.\<close>

lemma decode_integer_loop_range:
  "decode_integer_loop m q i a depth = Some v \<Longrightarrow> - 1 \<le> v \<and> v \<le> int HPACK_MAXIMUM_INTEGER"
proof (induction m q i a depth rule: decode_integer_loop.induct)
  case (1 m q i a depth)
  have s: "- 1 \<le> sint x \<and> sint x \<le> int HPACK_MAXIMUM_INTEGER"
    if "\<not> HPACK_MAXIMUM_INTEGER < unat x" for x :: u32
  proof -
    have "sint x = int (unat x)" using that sint_of_nat_max [of "unat x"] by simp
    with that show ?thesis by linarith
  qed
  from "1.prems" obtain b where b: "rd m (q + i) = Some b" "depth < 32"
    by (subst (asm) decode_integer_loop.simps) (auto split: bind_splits if_splits)
  show ?case
  proof (cases "b AND 128 = 0")
    case True
    with b "1.prems" s show ?thesis
      by (subst (asm) decode_integer_loop.simps) (auto simp: Let_def split: if_splits)
  next
    case False
    with b "1.prems" "1.IH" [OF b(1)] show ?thesis
      by (subst (asm) decode_integer_loop.simps) (simp add: Let_def)
  qed
qed

lemma decode_integer_range [bounds]:
  assumes "hpack_decoder_decode_integer m q prefix = Some v"
  shows "- 1 \<le> v" "v \<le> int HPACK_MAXIMUM_INTEGER"
proof -
  have "- 1 \<le> v \<and> v \<le> int HPACK_MAXIMUM_INTEGER"
  proof (cases "\<exists>b :: byte. v = int (unat b)")
    case True
    then obtain b :: byte where "v = int (unat b)" by blast
    moreover have "unat b < 256" by simp
    ultimately show ?thesis unfolding HPACK_MAXIMUM_INTEGER_def by linarith
  next
    case False
    with assms show ?thesis
      by (auto simp: hpack_decoder_decode_integer_def Let_def
          dest: decode_integer_loop_range split: bind_splits if_splits)
  qed
  then show "- 1 \<le> v" "v \<le> int HPACK_MAXIMUM_INTEGER" by auto
qed

text \<open>
  Claim C8. The integer codec: for every prefix of at most 8 bits and every integer up to the limit, the
  encoder writes exactly the number of octets that \<open>hpack_utils_encoded_integer_size\<close> announces
  (at most three), touches nothing else, and the decoder gives the integer back, whatever bits
  are set in front of the prefix afterwards.
\<close>

theorem integer_roundtrip:
  assumes "prefix \<le> 8" "unat n \<le> HPACK_MAXIMUM_INTEGER" "p + 3 \<le> length m" "take_bit prefix hi = 0"
  shows "\<exists>m' k. hpack_encoder_encode_integer n prefix m p = Some (m', int k) \<and>
    hpack_utils_encoded_integer_size n prefix = Some (of_nat k) \<and> 1 \<le> k \<and> k \<le> 3 \<and>
    length m' = length m \<and> (\<forall>i. i < p \<or> p + k \<le> i \<longrightarrow> rd m' i = rd m i) \<and>
    hpack_decoder_decode_integer (m'[p := m' ! p OR hi]) p prefix = Some (int (unat n))"
proof -
  let ?c = "int_code prefix (unat n)"
  let ?m = "overwrite m p ?c"
  have room: "p + length ?c \<le> length m" using assms(3) length_int_code(2) [OF assms(2), of prefix] by linarith
  have "unat n \<le> 2 ^ 28" using assms(2) by (simp add: HPACK_MAXIMUM_INTEGER_def)
  note size = encoded_integer_size_correct [OF assms(1) this]
  obtain b c where c: "?c = b # c" by (cases ?c) auto
  have here: "rd ?m p = Some b" "code_here ?m (p + 1) c"
    using code_here_overwrite [OF room] c by (simp_all add: code_here_Cons)
  have "hpack_decoder_decode_integer (?m[p := ?m ! p OR hi]) p prefix = Some (int (unat n))"
  proof (rule decode_integer_correct [OF assms(1,2)])
    show "rd (?m[p := ?m ! p OR hi]) p = Some (b OR hi)"
      using here(1) by (simp add: rd_eq_Some_iff)
    show "take_bit prefix (b OR hi) = hd (int_code prefix (unat n))"
      using c assms(4) take_bit_hd_int_code [OF assms(1), of "unat n"] by simp
    show "code_here (?m[p := ?m ! p OR hi]) (p + 1) (tl ?c)"
      using here(2) c by (simp add: code_here_def)
  qed
  with encode_integer_correct [OF assms(1,2) room] size length_int_code [OF assms(2), of prefix] room
  show ?thesis by (auto simp: rd_overwrite)
qed

lemma integer_roundtrip_witness:
  "\<exists>m' k. hpack_encoder_encode_integer 1337 5 [9, 9, 9, 9] 1 = Some (m', int k) \<and>
    hpack_utils_encoded_integer_size 1337 5 = Some (of_nat k) \<and> 1 \<le> k \<and> k \<le> 3 \<and>
    length m' = length [9, 9, 9, 9 :: byte] \<and> (\<forall>i. i < 1 \<or> 1 + k \<le> i \<longrightarrow> rd m' i = rd [9, 9, 9, 9] i) \<and>
    hpack_decoder_decode_integer (m'[1 := m' ! 1 OR 32]) 1 5 = Some 1337"
  using integer_roundtrip [of 5 1337 1 "[9, 9, 9, 9]" 32]
  by (simp add: HPACK_MAXIMUM_INTEGER_def)

subsection \<open>Encodings the decoder should refuse\<close>

text \<open>
  The decoder accepts a code that is not the shortest one. The size of the code is then computed from
  the value and not from the octets read, so the caller continues one octet too early.
\<close>

lemma overlong_integer_size_mismatch:
  "hpack_decoder_decode_integer [0x1F, 0x80, 0x00] 0 5 = Some 31"
  "hpack_utils_encoded_integer_size 31 5 = Some 2"
  by (simp_all add: hpack_decoder_decode_integer_def decode_integer_loop.simps rd_def
      hpack_utils_encoded_integer_size_def HPACK_MAXIMUM_INTEGER_def)

text \<open>
  The accumulator wraps before it is compared with the limit: an encoding of \<open>127 + 2 ^ 32\<close> is
  accepted as 127. With one more continuation octet the shift count reaches the width.
\<close>

lemma integer_limit_wraps:
  "hpack_decoder_decode_integer [0x7F, 0x80, 0x80, 0x80, 0x80, 0x10] 0 7 = Some 127"
  "hpack_decoder_decode_integer [0x7F, 0x80, 0x80, 0x80, 0x80, 0x80, 0x00] 0 7 = None"
  by (simp_all add: hpack_decoder_decode_integer_def decode_integer_loop.simps rd_def
      HPACK_MAXIMUM_INTEGER_def)

end
