(* ===== verification/Huffman.thy ===== *)
theory Huffman
  imports Prelude
begin

text \<open>
  \<open>src/src/hpack/huffman.c\<close>: the HPACK Huffman code in its compact form. \<open>L\<close> lists the symbols by
  increasing code, \<open>L_inverse\<close> is its inverse, \<open>F\<close> gives for each code length the first position of
  \<open>L\<close> and \<open>C\<close> the first code of that length. The tables are those of the source. The lemmas show that
  the tables are consistent (\<open>L_inverse\<close> inverts \<open>L\<close>, and the code is canonical), that every symbol
  has a code of 5 to 30 bits, and that decoding any 30-bit window that starts with the code of a
  symbol gives that symbol and the length of its code, whatever the bits that follow.
\<close>

definition HUFFMAN_TABLE_SIZE :: nat where
  "HUFFMAN_TABLE_SIZE = 256"

definition NUMBER_OF_CODE_LENGTHS :: nat where
  "NUMBER_OF_CODE_LENGTHS = 31"

definition huffman_L :: "nat list" where
  "huffman_L =
    [48, 49, 50, 97, 99, 101, 105, 111, 115, 116, 32, 37, 45, 46, 47, 51, 52, 53, 54, 55, 56,
     57, 61, 65, 95, 98, 100, 102, 103, 104, 108, 109, 110, 112, 114, 117, 58, 66, 67, 68, 69,
     70, 71, 72, 73, 74, 75, 76, 77, 78, 79, 80, 81, 82, 83, 84, 85, 86, 87, 89, 106, 107, 113,
     118, 119, 120, 121, 122, 38, 42, 44, 59, 88, 90, 33, 34, 40, 41, 63, 39, 43, 124, 35, 62,
     0, 36, 64, 91, 93, 126, 94, 125, 60, 96, 123, 92, 195, 208, 128, 130, 131, 162, 184, 194,
     224, 226, 153, 161, 167, 172, 176, 177, 179, 209, 216, 217, 227, 229, 230, 129, 132, 133,
     134, 136, 146, 154, 156, 160, 163, 164, 169, 170, 173, 178, 181, 185, 186, 187, 189, 190,
     196, 198, 228, 232, 233, 1, 135, 137, 138, 139, 140, 141, 143, 147, 149, 150, 151, 152,
     155, 157, 158, 165, 166, 168, 174, 175, 180, 182, 183, 188, 191, 197, 231, 239, 9, 142,
     144, 145, 148, 159, 171, 206, 215, 225, 236, 237, 199, 207, 234, 235, 192, 193, 200, 201,
     202, 205, 210, 213, 218, 219, 238, 240, 242, 243, 255, 203, 204, 211, 212, 214, 221, 222,
     223, 241, 244, 245, 246, 247, 248, 250, 251, 252, 253, 254, 2, 3, 4, 5, 6, 7, 8, 11, 12,
     14, 15, 16, 17, 18, 19, 20, 21, 23, 24, 25, 26, 27, 28, 29, 30, 31, 127, 220, 249, 10, 13,
     22]"

definition huffman_L_inverse :: "nat list" where
  "huffman_L_inverse =
    [84, 145, 224, 225, 226, 227, 228, 229, 230, 174, 253, 231, 232, 254, 233, 234, 235, 236,
     237, 238, 239, 240, 255, 241, 242, 243, 244, 245, 246, 247, 248, 249, 10, 74, 75, 82, 85,
     11, 68, 79, 76, 77, 69, 80, 70, 12, 13, 14, 0, 1, 2, 15, 16, 17, 18, 19, 20, 21, 36, 71,
     92, 22, 83, 78, 86, 23, 37, 38, 39, 40, 41, 42, 43, 44, 45, 46, 47, 48, 49, 50, 51, 52, 53,
     54, 55, 56, 57, 58, 72, 59, 73, 87, 95, 88, 90, 24, 93, 3, 25, 4, 26, 5, 27, 28, 29, 6, 60,
     61, 30, 31, 32, 7, 33, 62, 34, 8, 9, 35, 63, 64, 65, 66, 67, 94, 81, 91, 89, 250, 98, 119,
     99, 100, 120, 121, 122, 146, 123, 147, 148, 149, 150, 151, 175, 152, 176, 177, 124, 153,
     178, 154, 155, 156, 157, 106, 125, 158, 126, 159, 160, 179, 127, 107, 101, 128, 129, 161,
     162, 108, 163, 130, 131, 180, 109, 132, 164, 165, 110, 111, 133, 112, 166, 134, 167, 168,
     102, 135, 136, 137, 169, 138, 139, 170, 190, 191, 103, 96, 140, 171, 141, 186, 192, 193,
     194, 205, 206, 195, 181, 187, 97, 113, 196, 207, 208, 197, 209, 182, 114, 115, 198, 199,
     251, 210, 211, 212, 104, 183, 105, 116, 142, 117, 118, 172, 143, 144, 188, 189, 184, 185,
     200, 173, 201, 213, 202, 203, 214, 215, 216, 217, 218, 252, 219, 220, 221, 222, 223, 204]"

definition huffman_F :: "nat list" where
  "huffman_F =
    [0, 0, 0, 0, 0, 0, 10, 36, 68, 74, 74, 79, 82, 84, 90, 92, 95, 95, 95, 95, 98, 106, 119,
     145, 174, 186, 190, 205, 224, 253, 253]"

definition huffman_C :: "nat list" where
  "huffman_C =
    [0, 0, 0, 0, 0, 0, 20, 92, 248, 508, 1016, 2042, 4090, 8184, 16380, 32764, 65534, 131068,
     262136, 524272, 1048550, 2097116, 4194258, 8388568, 16777194, 33554412, 67108832,
     134217694, 268435426, 536870910, 1073741820]"

record huffman_encoded_word =
  hw_code :: u32
  hw_length :: byte

text \<open>
  The entries are unsigned and promoted to \<open>uint32_t\<close> before they are added and subtracted. Both
  functions write their result through a pointer; here they return it with the return code.
\<close>

function huffman_encode_loop :: "huffman_encoded_word \<Rightarrow> nat \<Rightarrow> nat \<Rightarrow> huffman_encoded_word \<times> int" where
  "huffman_encode_loop result k i =
     (if i < NUMBER_OF_CODE_LENGTHS then
        if k < huffman_F ! i then
          (result\<lparr>hw_code := of_nat k - of_nat (huffman_F ! (i - 1)) + of_nat (huffman_C ! (i - 1)),
                  hw_length := of_nat (i - 1)\<rparr>, 0)
        else huffman_encode_loop result k (i + 1)
      else (result, - 1))"
  by pat_completeness auto
termination
  by (relation "measure (\<lambda>(result, k, i). NUMBER_OF_CODE_LENGTHS - i)") auto

declare huffman_encode_loop.simps [simp del]

definition hpack_huffman_encode ::
  "huffman_encoded_word \<Rightarrow> byte \<Rightarrow> huffman_encoded_word \<times> int" where
  "hpack_huffman_encode result symbol =
     (let k = huffman_L_inverse ! unat symbol; h = NUMBER_OF_CODE_LENGTHS - 1
      in if k \<ge> huffman_F ! h then
           (result\<lparr>hw_code := of_nat k - of_nat (huffman_F ! h) + of_nat (huffman_C ! h),
                   hw_length := of_nat h\<rparr>, 0)
         else huffman_encode_loop result k 1)"

function huffman_length_loop :: "u32 \<Rightarrow> nat \<Rightarrow> nat \<times> u32" where
  "huffman_length_loop code i =
     (if i < NUMBER_OF_CODE_LENGTHS - 1 then
        if code < of_nat (huffman_C ! (i + 1)) * push_bit (NUMBER_OF_CODE_LENGTHS - 1 - i - 1) 1
        then (i, drop_bit (NUMBER_OF_CODE_LENGTHS - 1 - i) code)
        else huffman_length_loop code (i + 1)
      else (30, code))"
  by pat_completeness auto
termination
  by (relation "measure (\<lambda>(code, i). NUMBER_OF_CODE_LENGTHS - i)") auto

declare huffman_length_loop.simps [simp del]

definition hpack_huffman_decode :: "huffman_encoded_word \<Rightarrow> byte \<Rightarrow> byte \<times> int" where
  "hpack_huffman_decode encoded symbol =
     (let (len, code) = huffman_length_loop (hw_code encoded) 5;
          pos = of_nat (huffman_F ! len) + code - of_nat (huffman_C ! len)
      in if pos < of_nat HUFFMAN_TABLE_SIZE then (of_nat (huffman_L ! unat pos), int len)
         else (symbol, - 1))"

subsection \<open>The tables are consistent\<close>

lemma huffman_table_lengths [simp]:
  "length huffman_L = 256" "length huffman_L_inverse = 256" "length huffman_F = 31"
  "length huffman_C = 31"
  by (simp_all add: huffman_L_def huffman_L_inverse_def huffman_F_def huffman_C_def)

lemma L_inverse_all: "map (\<lambda>k. huffman_L ! k) huffman_L_inverse = [0..<256]"
  unfolding huffman_L_inverse_def list.map huffman_L_def by (simp add: upt_rec)

lemma L_inverse:
  assumes "s < 256"
  shows "huffman_L ! (huffman_L_inverse ! s) = s"
proof -
  have "map (\<lambda>k. huffman_L ! k) huffman_L_inverse ! s = [0..<256] ! s"
    by (simp only: L_inverse_all)
  with assms show ?thesis by simp
qed

lemma L_inverse_range: "list_all (\<lambda>k. k < 256) huffman_L_inverse"
  by (simp add: huffman_L_inverse_def)

lemma L_inverse_less: "s < 256 \<Longrightarrow> huffman_L_inverse ! s < 256"
  using L_inverse_range by (simp add: list_all_length)

lemma F_C_table:
  "list_all (\<lambda>i. huffman_C ! (i + 1) = 2 * (huffman_C ! i + (huffman_F ! (i + 1) - huffman_F ! i)) \<and>
     huffman_F ! i \<le> huffman_F ! (i + 1)) [0..<30]"
  by (simp add: huffman_C_def huffman_F_def upt_rec)

text \<open>The code is canonical: the first code of a length is twice the first unused one before it.\<close>

lemma canonical:
  assumes "i < 30"
  shows "huffman_C ! (i + 1) = 2 * (huffman_C ! i + (huffman_F ! (i + 1) - huffman_F ! i))"
    "huffman_F ! i \<le> huffman_F ! (i + 1)"
  using bspec [OF F_C_table [unfolded list_all_iff], of i] assms by auto

lemma F_C_ends:
  "huffman_F ! 0 = 0" "huffman_F ! 5 = 0" "huffman_F ! 30 = 253" "huffman_C ! 30 = 2 ^ 30 - 4"
  by (simp_all add: huffman_F_def huffman_C_def)

lemma F_mono: "i \<le> j \<Longrightarrow> j \<le> 30 \<Longrightarrow> huffman_F ! i \<le> huffman_F ! j"
proof (induction j)
  case (Suc j)
  then show ?case using canonical(2) [of j] by (cases "i = Suc j") auto
qed simp

text \<open>The first codes, aligned to 30 bits, increase with the length.\<close>

lemma C_step: "i < 30 \<Longrightarrow> huffman_C ! i * 2 ^ (30 - i) \<le> huffman_C ! (i + 1) * 2 ^ (29 - i)"
proof -
  assume i: "i < 30"
  then have "30 - i = Suc (29 - i)" by simp
  then have "2 ^ (30 - i) = 2 * (2::nat) ^ (29 - i)" by (simp only: power_Suc)
  then show ?thesis using canonical(1) [OF i] by (simp add: algebra_simps)
qed

lemma C_mono: "i \<le> j \<Longrightarrow> j \<le> 30 \<Longrightarrow> huffman_C ! i * 2 ^ (30 - i) \<le> huffman_C ! j * 2 ^ (30 - j)"
proof (induction j)
  case (Suc j)
  show ?case
  proof (cases "i = Suc j")
    case False
    with Suc have "huffman_C ! i * 2 ^ (30 - i) \<le> huffman_C ! j * 2 ^ (30 - j)" by simp
    also have "\<dots> \<le> huffman_C ! (j + 1) * 2 ^ (29 - j)" using Suc.prems by (intro C_step) simp
    finally show ?thesis by simp
  qed simp
qed simp

lemma C_bound: "i \<le> 30 \<Longrightarrow> huffman_C ! i * 2 ^ (30 - i) < 2 ^ 30"
  using C_mono [of i 30] F_C_ends(4) by simp

subsection \<open>Encoding\<close>

text \<open>The code word of a position of \<open>L\<close>: its length \<open>l\<close> is the one whose range holds the position.\<close>

definition code_at :: "nat \<Rightarrow> nat \<Rightarrow> bool" where
  "code_at k l \<longleftrightarrow> 5 \<le> l \<and> l \<le> 30 \<and> huffman_F ! l \<le> k \<and> (l < 30 \<longrightarrow> k < huffman_F ! (l + 1)) \<and> k < 256"

lemma encode_loop_finds:
  assumes "k < 253" "1 \<le> i" "i \<le> 30" "huffman_F ! (i - 1) \<le> k"
  shows "\<exists>l. code_at k l \<and> l < 30 \<and> huffman_encode_loop w k i =
    (w\<lparr>hw_code := of_nat k - of_nat (huffman_F ! l) + of_nat (huffman_C ! l), hw_length := of_nat l\<rparr>, 0)"
  using assms
proof (induction w k i rule: huffman_encode_loop.induct)
  case (1 w k i)
  have i: "i < NUMBER_OF_CODE_LENGTHS" using "1.prems" by (simp add: NUMBER_OF_CODE_LENGTHS_def)
  show ?case
  proof (cases "k < huffman_F ! i")
    case True
    have "5 \<le> i - 1"
    proof (rule ccontr)
      assume "\<not> 5 \<le> i - 1"
      then have "i \<le> 5" by simp
      then have "huffman_F ! i \<le> huffman_F ! 5" by (intro F_mono) auto
      with True show False by (simp add: F_C_ends)
    qed
    with True "1.prems" have "code_at k (i - 1)" by (simp add: code_at_def)
    with True i "1.prems" show ?thesis
      by (subst huffman_encode_loop.simps) (auto intro!: exI [of _ "i - 1"])
  next
    case False
    then have "i < 30" using "1.prems" F_C_ends(3) by (cases "i = 30") auto
    with False i "1.IH" "1.prems" show ?thesis
      by (subst huffman_encode_loop.simps) simp
  qed
qed

lemma encode_correct:
  "\<exists>l. code_at (huffman_L_inverse ! unat s) l \<and>
     hpack_huffman_encode w s =
       (w\<lparr>hw_code := of_nat (huffman_L_inverse ! unat s) - of_nat (huffman_F ! l)
            + of_nat (huffman_C ! l), hw_length := of_nat l\<rparr>, 0)"
proof -
  let ?k = "huffman_L_inverse ! unat s"
  have k: "?k < 256" using L_inverse_less by simp
  show ?thesis
  proof (cases "?k < 253")
    case True
    with encode_loop_finds [of ?k 1 w] show ?thesis
      by (auto simp: hpack_huffman_encode_def NUMBER_OF_CODE_LENGTHS_def F_C_ends)
  next
    case False
    with k have "code_at ?k 30" by (simp add: code_at_def F_C_ends)
    with False show ?thesis
      by (auto simp: hpack_huffman_encode_def NUMBER_OF_CODE_LENGTHS_def F_C_ends Let_def)
  qed
qed

text \<open>The code as a number; it has at most \<open>l\<close> bits.\<close>

definition code_nat :: "nat \<Rightarrow> nat \<Rightarrow> nat" where
  "code_nat k l = k - huffman_F ! l + huffman_C ! l"

lemma code_nat_aligned:
  assumes "code_at k l"
  shows "huffman_C ! l \<le> code_nat k l"
    "l < 30 \<Longrightarrow> (code_nat k l + 1) * 2 ^ (30 - l) \<le> huffman_C ! (l + 1) * 2 ^ (29 - l)"
    "code_nat k l < 2 ^ l"
proof -
  show "huffman_C ! l \<le> code_nat k l" by (simp add: code_nat_def)
  show up: "(code_nat k l + 1) * 2 ^ (30 - l) \<le> huffman_C ! (l + 1) * 2 ^ (29 - l)" if l: "l < 30"
  proof -
    have "30 - l = Suc (29 - l)" using l by simp
    moreover have "k - huffman_F ! l + 1 \<le> huffman_F ! (l + 1) - huffman_F ! l"
      using assms l unfolding code_at_def by linarith
    then have "2 * (code_nat k l + 1) \<le> huffman_C ! (l + 1)"
      unfolding canonical(1) [OF l] code_nat_def by simp
    then have "2 * (code_nat k l + 1) * 2 ^ (29 - l) \<le> huffman_C ! (l + 1) * 2 ^ (29 - l)"
      by (rule mult_le_mono1)
    ultimately show ?thesis by (simp add: algebra_simps)
  qed
  show "code_nat k l < 2 ^ l"
  proof (cases "l < 30")
    case True
    have "huffman_C ! (l + 1) * 2 ^ (29 - l) < 2 ^ 30" using C_bound [of "l + 1"] True by simp
    with up [OF True] have "(code_nat k l + 1) * 2 ^ (30 - l) < 2 ^ 30" by simp
    also have "(2::nat) ^ 30 = 2 ^ l * 2 ^ (30 - l)" using True by (simp flip: power_add)
    finally have "code_nat k l + 1 < 2 ^ l" by (simp only: mult_less_cancel2)
    then show ?thesis by simp
  next
    case False
    with assms have "l = 30" "k < 256" by (auto simp: code_at_def)
    then show ?thesis by (simp add: code_nat_def F_C_ends)
  qed
qed

subsection \<open>Decoding\<close>

text \<open>
  The search for the length on 30-bit windows, on numbers: the aligned bound of length \<open>i\<close> is the
  first window that belongs to a longer code.
\<close>

lemma aligned_bound:
  assumes "i < 30"
  shows "of_nat (huffman_C ! (i + 1)) * push_bit (NUMBER_OF_CODE_LENGTHS - 1 - i - 1) 1 =
      (of_nat (huffman_C ! (i + 1) * 2 ^ (29 - i)) :: u32)"
    "unat (of_nat (huffman_C ! (i + 1) * 2 ^ (29 - i)) :: u32) = huffman_C ! (i + 1) * 2 ^ (29 - i)"
proof -
  show "of_nat (huffman_C ! (i + 1)) * push_bit (NUMBER_OF_CODE_LENGTHS - 1 - i - 1) 1 =
      (of_nat (huffman_C ! (i + 1) * 2 ^ (29 - i)) :: u32)"
    using assms by (simp add: NUMBER_OF_CODE_LENGTHS_def push_bit_eq_mult)
  have "huffman_C ! (i + 1) * 2 ^ (29 - i) < 2 ^ 30" using C_bound [of "i + 1"] assms by simp
  then show "unat (of_nat (huffman_C ! (i + 1) * 2 ^ (29 - i)) :: u32) =
      huffman_C ! (i + 1) * 2 ^ (29 - i)"
    by (simp only: unat_of_nat) simp
qed

lemma length_loop_finds:
  assumes "code_at k l" "code_nat k l * 2 ^ (30 - l) \<le> unat w"
    "unat w < (code_nat k l + 1) * 2 ^ (30 - l)" "5 \<le> i" "i \<le> l"
  shows "huffman_length_loop w i = (l, drop_bit (30 - l) w)"
  using assms
proof (induction w i rule: huffman_length_loop.induct)
  case (1 w i)
  note [simp] = NUMBER_OF_CODE_LENGTHS_def
  have l: "l \<le> 30" using "1.prems"(1) by (simp add: code_at_def)
  show ?case
  proof (cases "i = l")
    case True
    show ?thesis
    proof (cases "l < 30")
      case l30: True
      with True have i30: "i < 30" by simp
      have "unat w < huffman_C ! (i + 1) * 2 ^ (29 - i)"
        using "1.prems"(3) code_nat_aligned(2) [OF "1.prems"(1) l30] True by simp
      then have "w < of_nat (huffman_C ! (i + 1)) * push_bit (NUMBER_OF_CODE_LENGTHS - 1 - i - 1) 1"
        using True l30 unfolding aligned_bound(1) [OF i30] word_less_nat_alt aligned_bound(2) [OF i30]
        by blast
      with True l30 show ?thesis by (subst huffman_length_loop.simps) simp
    next
      case False
      with True l show ?thesis by (subst huffman_length_loop.simps) simp
    qed
  next
    case False
    with "1.prems" l have i: "i < 30" "i + 1 \<le> l" by auto
    have "huffman_C ! (i + 1) * 2 ^ (30 - (i + 1)) \<le> huffman_C ! l * 2 ^ (30 - l)"
      using i l by (intro C_mono) auto
    also have "\<dots> \<le> code_nat k l * 2 ^ (30 - l)"
      using code_nat_aligned(1) [OF "1.prems"(1)] by simp
    also have "\<dots> \<le> unat w" by (rule "1.prems")
    finally have ge: "\<not> w < of_nat (huffman_C ! (i + 1)) * push_bit (NUMBER_OF_CODE_LENGTHS - 1 - i - 1) 1"
      unfolding aligned_bound(1) [OF i(1)] word_less_nat_alt aligned_bound(2) [OF i(1)] by simp
    with i "1.IH" "1.prems" show ?thesis
      by (subst huffman_length_loop.simps) simp
  qed
qed

lemma decode_window:
  assumes "code_at k l" "code_nat k l * 2 ^ (30 - l) \<le> unat (hw_code w)"
    "unat (hw_code w) < (code_nat k l + 1) * 2 ^ (30 - l)"
  shows "hpack_huffman_decode w d = (of_nat (huffman_L ! k), int l)"
proof -
  have l: "5 \<le> l" "l \<le> 30" "huffman_F ! l \<le> k" "k < 256" using assms(1) by (auto simp: code_at_def)
  from length_loop_finds [OF assms _ l(1)]
  have loop: "huffman_length_loop (hw_code w) 5 = (l, drop_bit (30 - l) (hw_code w))" by simp
  have "unat (drop_bit (30 - l) (hw_code w)) = unat (hw_code w) div 2 ^ (30 - l)"
    unfolding unat_drop_bit_eq by (rule drop_bit_eq_div)
  also have "\<dots> = code_nat k l"
    using assms(2,3) by (intro div_nat_eqI) (simp_all add: mult.commute)
  finally have "of_nat (unat (drop_bit (30 - l) (hw_code w))) = (of_nat (code_nat k l) :: u32)"
    by (rule arg_cong)
  then have "of_nat (huffman_F ! l) + drop_bit (30 - l) (hw_code w) - of_nat (huffman_C ! l)
      = (of_nat k :: u32)"
    using l(3) by (simp add: code_nat_def)
  with loop l show ?thesis
    by (simp add: hpack_huffman_decode_def HUFFMAN_TABLE_SIZE_def word_less_nat_alt unat_of_nat)
qed

subsection \<open>The code word of a symbol\<close>

text \<open>\<open>huff_word s\<close> is what the encoder computes for the symbol \<open>s\<close>.\<close>

definition huff_word :: "byte \<Rightarrow> huffman_encoded_word" where
  "huff_word s = fst (hpack_huffman_encode \<lparr>hw_code = 0, hw_length = 0\<rparr> s)"

lemma encode_huff_word: "hpack_huffman_encode w s = (huff_word s, 0)"
proof -
  obtain l where "hpack_huffman_encode w s = (w\<lparr>hw_code := of_nat (huffman_L_inverse ! unat s)
      - of_nat (huffman_F ! l) + of_nat (huffman_C ! l), hw_length := of_nat l\<rparr>, 0)"
    and l: "code_at (huffman_L_inverse ! unat s) l"
    using encode_correct by blast
  moreover obtain l' where "hpack_huffman_encode \<lparr>hw_code = 0, hw_length = 0\<rparr> s =
      (\<lparr>hw_code = 0, hw_length = 0\<rparr>\<lparr>hw_code := of_nat (huffman_L_inverse ! unat s)
      - of_nat (huffman_F ! l') + of_nat (huffman_C ! l'), hw_length := of_nat l'\<rparr>, 0)"
    and l': "code_at (huffman_L_inverse ! unat s) l'"
    using encode_correct by blast
  moreover have "l = l'"
  proof (rule ccontr)
    assume "l \<noteq> l'"
    then consider "l + 1 \<le> l'" | "l' + 1 \<le> l" by linarith
    then show False
      using l l' F_mono [of "l + 1" l'] F_mono [of "l' + 1" l] by cases (auto simp: code_at_def)
  qed
  ultimately show ?thesis by (simp add: huff_word_def)
qed

lemma huff_word_code:
  obtains l where "code_at (huffman_L_inverse ! unat s) l" "unat (hw_length (huff_word s)) = l"
    "unat (hw_code (huff_word s)) = code_nat (huffman_L_inverse ! unat s) l"
proof -
  let ?k = "huffman_L_inverse ! unat s"
  obtain l where e: "hpack_huffman_encode \<lparr>hw_code = 0, hw_length = 0\<rparr> s =
      (\<lparr>hw_code = 0, hw_length = 0\<rparr>\<lparr>hw_code := of_nat ?k - of_nat (huffman_F ! l)
         + of_nat (huffman_C ! l), hw_length := of_nat l\<rparr>, 0)"
    and l: "code_at ?k l"
    using encode_correct by blast
  from l have b: "l \<le> 30" "huffman_F ! l \<le> ?k" by (auto simp: code_at_def)
  have "code_nat ?k l < 2 ^ l" by (rule code_nat_aligned(3) [OF l])
  also have "(2::nat) ^ l \<le> 2 ^ 30" using b by (intro power_increasing) auto
  finally have "code_nat ?k l < 2 ^ 30" .
  moreover from b e have "hw_code (huff_word s) = of_nat (code_nat ?k l)"
    by (simp add: huff_word_def code_nat_def)
  ultimately have "unat (hw_code (huff_word s)) = code_nat ?k l" by (simp add: unat_of_nat)
  moreover from b e have "unat (hw_length (huff_word s)) = l"
    by (simp add: huff_word_def unat_of_nat)
  ultimately show ?thesis using l that by blast
qed

lemma huff_word_bounds [bounds]:
  "5 \<le> unat (hw_length (huff_word s))" "unat (hw_length (huff_word s)) \<le> 30"
  "unat (hw_code (huff_word s)) < 2 ^ unat (hw_length (huff_word s))"
  by (rule huff_word_code [of s]; auto simp: code_at_def intro: code_nat_aligned(3))+

text \<open>
  Any 30-bit window that starts with the code of \<open>s\<close> decodes to \<open>s\<close> and the length of the code.
\<close>

lemma decode_huff_word:
  assumes "l = unat (hw_length (huff_word s))"
    "unat (hw_code w) div 2 ^ (30 - l) = unat (hw_code (huff_word s))"
  shows "hpack_huffman_decode w d = (s, int l)"
proof -
  let ?k = "huffman_L_inverse ! unat s"
  have k: "code_at ?k l" "unat (hw_code (huff_word s)) = code_nat ?k l"
    by (rule huff_word_code [of s]; simp add: assms(1))+
  let ?n = "unat (hw_code w)" and ?p = "(2::nat) ^ (30 - l)"
  have e: "?n = code_nat ?k l * ?p + ?n mod ?p"
    using assms(2) k(2) by (metis div_mult_mod_eq)
  have m: "?n mod ?p < ?p" by simp
  have r: "code_nat ?k l * ?p \<le> ?n" "?n < (code_nat ?k l + 1) * ?p"
    unfolding add_mult_distrib mult_1 using e m by linarith+
  from decode_window [OF k(1) r] show ?thesis
    using L_inverse [of "unat s"] by simp
qed

text \<open>
  Claim C11. Every symbol has a code of 5 to 30 bits, and any window of 30 bits that starts with that code
  decodes to the symbol and to the length of its code, whatever the following bits are.
\<close>

theorem huffman_symbol_roundtrip:
  assumes "hpack_huffman_encode w s = (e, rc)"
    "unat (hw_code v) div 2 ^ (30 - unat (hw_length e)) = unat (hw_code e)"
  shows "rc = 0 \<and> 5 \<le> unat (hw_length e) \<and> unat (hw_length e) \<le> 30 \<and>
    unat (hw_code e) < 2 ^ unat (hw_length e) \<and>
    hpack_huffman_decode v d = (s, int (unat (hw_length e)))"
proof -
  have "e = huff_word s" "rc = 0" using assms(1) encode_huff_word [of w s] by simp_all
  with assms(2) decode_huff_word [OF refl, of v s d] huff_word_bounds [of s] show ?thesis by blast
qed

lemma huffman_symbol_roundtrip_witness:
  "hpack_huffman_decode \<lparr>hw_code = 0x3FFFFA9F, hw_length = 30\<rparr> 7 = (9, 24) \<and>
   hpack_huffman_encode \<lparr>hw_code = 0, hw_length = 0\<rparr> 9 = (\<lparr>hw_code = 0xFFFFEA, hw_length = 24\<rparr>, 0)"
proof -
  have e: "hpack_huffman_encode \<lparr>hw_code = 0, hw_length = 0\<rparr> 9 = (\<lparr>hw_code = 0xFFFFEA, hw_length = 24\<rparr>, 0)"
    by (simp add: hpack_huffman_encode_def huffman_encode_loop.simps huffman_L_inverse_def huffman_F_def
        huffman_C_def NUMBER_OF_CODE_LENGTHS_def)
  show ?thesis
    using huffman_symbol_roundtrip [OF e, of "\<lparr>hw_code = 0x3FFFFA9F, hw_length = 30\<rparr>" 7] e by simp
qed

end
