(* ===== verification/Hpack_String.thy ===== *)
theory Hpack_String
  imports Hpack_Integer Huffman
begin

text \<open>
  The string representation of HPACK (RFC 7541, section 5.2): the string half of
  \<open>src/src/hpack/encoder.c\<close> and of \<open>src/src/hpack/decoder.c\<close>. A Huffman-coded string is the
  concatenation of the codes of its symbols, packed into bytes from the most significant bit and
  filled up with ones.

  Bits are addressed by \<open>gbit\<close>, the bit of a byte array at a bit position. The packing routine
  is shown to write the code bits one after the other and then the padding; the window the decoder
  reads is shown to be the bits at its position; both meet in the round trip of strings.
\<close>

subsection \<open>Encoding\<close>

text \<open>
  The inner loop of \<open>hpack_encoder_pack_encoded_words_to_bytes\<close>. The variables \<open>byte_offset\<close> and
  \<open>bit_offset\<close> of the code are always \<open>cur / 8\<close> and the remainder, and are recomputed here.
\<close>

function pack_bits_loop :: "u32 \<Rightarrow> nat \<Rightarrow> byte list \<Rightarrow> nat \<Rightarrow> (byte list \<times> nat) option" where
  "pack_bits_loop code code_length buffer cur =
     (if code_length = 0 then Some (buffer, cur)
      else do {
        let byte_offset = cur div 8;
        let bit_offset = cur - 8 * byte_offset;
        let bits_to_write = (if 8 - bit_offset > code_length then code_length else 8 - bit_offset);
        let mask = (push_bit bits_to_write 1 - 1 :: u32);
        let mask = push_bit (32 - bits_to_write) mask;
        let bits = mask AND code;
        let bits = drop_bit (32 - (8 - bit_offset)) bits;
        b \<leftarrow> rd buffer byte_offset;
        buffer \<leftarrow> wr buffer byte_offset (ucast (ucast b OR bits));
        pack_bits_loop (push_bit bits_to_write code) (code_length - bits_to_write) buffer
          (cur + bits_to_write)
      })"
  by pat_completeness auto
termination
  by (relation "measure (\<lambda>(code, code_length, buffer, cur). code_length)")
    (auto simp: minus_mult_div_eq_mod)

declare pack_bits_loop.simps [simp del]

text \<open>The outer loop: \<open>code <<= 32u - code_length\<close> is defined for lengths from 1 to 32 only.\<close>

fun pack_words_loop :: "huffman_encoded_word list \<Rightarrow> byte list \<Rightarrow> nat \<Rightarrow> (byte list \<times> nat) option" where
  "pack_words_loop [] buffer cur = Some (buffer, cur)"
| "pack_words_loop (word # words) buffer cur = do {
     let code_length = unat (hw_length word);
     guard (1 \<le> code_length \<and> code_length \<le> 32);
     (buffer, cur) \<leftarrow> pack_bits_loop (push_bit (32 - code_length) (hw_code word)) code_length buffer cur;
     pack_words_loop words buffer cur
   }"

definition hpack_encoder_pack_encoded_words_to_bytes ::
  "huffman_encoded_word list \<Rightarrow> byte list \<Rightarrow> nat \<Rightarrow> (byte list \<times> int) option" where
  "hpack_encoder_pack_encoded_words_to_bytes encoded_words buffer buffer_size =
     (let sum = sum_list (map (\<lambda>w. unat (hw_length w)) encoded_words);
          required_bytes = (if sum mod 8 \<noteq> 0 then sum div 8 + 1 else sum div 8)
      in if required_bytes > buffer_size then Some (buffer, HPACK_MEMORY_ERROR)
         else do {
           (buffer, cur) \<leftarrow> pack_words_loop encoded_words buffer 0;
           let byte_offset = cur div 8;
           let bit_offset = cur - 8 * byte_offset;
           if bit_offset > 0 then do {
             let padding = (ucast (push_bit (8 - bit_offset) 1 - 1 :: u32) :: byte);
             b \<leftarrow> rd buffer byte_offset;
             buffer \<leftarrow> wr buffer byte_offset (b OR padding);
             Some (buffer, 0)
           }
           else Some (buffer, 0)
         })"

definition hpack_encoder_encode_non_huffman_string ::
  "byte list \<Rightarrow> byte list \<Rightarrow> nat \<Rightarrow> nat \<Rightarrow> (byte list \<times> int) option" where
  "hpack_encoder_encode_non_huffman_string str m p buffer_size = do {
     str_length \<leftarrow> strlen str;
     (m, encoded_string_length_size) \<leftarrow> hpack_encoder_encode_integer (of_nat str_length) 7 m p;
     if encoded_string_length_size < 0 then Some (m, - 1)
     else if str_length + nat encoded_string_length_size \<ge> buffer_size then Some (m, - 2)
     else do {
       bs \<leftarrow> mem_read str 0 str_length;
       m \<leftarrow> mem_write m (p + nat encoded_string_length_size) bs;
       Some (m, int str_length + encoded_string_length_size)
     }
   }"

fun encode_huffman_word_loop ::
  "byte list \<Rightarrow> nat \<Rightarrow> nat \<Rightarrow> huffman_encoded_word list \<Rightarrow> nat \<Rightarrow> (huffman_encoded_word list \<times> nat) option" where
  "encode_huffman_word_loop str 0 i encoded_words bit_length = Some (encoded_words, bit_length)"
| "encode_huffman_word_loop str (Suc n) i encoded_words bit_length = do {
     c \<leftarrow> rd str i;
     w \<leftarrow> rd encoded_words i;
     let w = fst (hpack_huffman_encode w c);
     encoded_words \<leftarrow> wr encoded_words i w;
     encode_huffman_word_loop str n (i + 1) encoded_words (bit_length + unat (hw_length w))
   }"

definition hpack_encoder_encode_huffman_word ::
  "byte list \<Rightarrow> nat \<Rightarrow> huffman_encoded_word list \<Rightarrow> (huffman_encoded_word list \<times> nat) option" where
  "hpack_encoder_encode_huffman_word str str_length encoded_words =
     encode_huffman_word_loop str str_length 0 encoded_words 0"

text \<open>
  The local arrays \<open>encoded_words\<close> and \<open>encoded_buffer\<close> have the length of the string and of its
  code; every word is written before it is read, so their initial contents do not matter.
\<close>

definition hpack_encoder_encode_huffman_string ::
  "byte list \<Rightarrow> byte list \<Rightarrow> nat \<Rightarrow> nat \<Rightarrow> (byte list \<times> int) option" where
  "hpack_encoder_encode_huffman_string str m p buffer_size = do {
     str_length \<leftarrow> strlen str;
     (encoded_words, bit_length) \<leftarrow> hpack_encoder_encode_huffman_word str str_length
        (replicate str_length \<lparr>hw_code = 0, hw_length = 0\<rparr>);
     let byte_length = (if bit_length mod 8 \<noteq> 0 then bit_length div 8 + 1 else bit_length div 8);
     (m, length_size) \<leftarrow> hpack_encoder_encode_integer (of_nat byte_length) 7 m p;
     if length_size < 0 then Some (m, - 1)
     else if byte_length + nat length_size \<ge> buffer_size then Some (m, - 2)
     else do {
       (encoded_buffer, rc) \<leftarrow> hpack_encoder_pack_encoded_words_to_bytes encoded_words
          (replicate byte_length 0) byte_length;
       b \<leftarrow> rd m p;
       m \<leftarrow> wr m p (b OR 128);
       m \<leftarrow> mem_write m (p + nat length_size) encoded_buffer;
       Some (m, int byte_length + length_size)
     }
   }"

definition hpack_encoder_encode_string ::
  "byte list \<Rightarrow> byte list \<Rightarrow> nat \<Rightarrow> nat \<Rightarrow> (byte list \<times> int) option" where
  "hpack_encoder_encode_string str m p buffer_size = do {
     (m, rc) \<leftarrow> hpack_encoder_encode_huffman_string str m p buffer_size;
     str_length \<leftarrow> strlen str;
     if rc < 0 \<or> rc > int str_length then hpack_encoder_encode_non_huffman_string str m p buffer_size
     else Some (m, rc)
   }"

subsection \<open>Decoding\<close>

text \<open>
  The arithmetic of \<open>hpack_decoder_read_bits_from_bytes\<close> is written with the wrap-around of the
  types it is done in; \<open>q\<close> is the offset of the string in the array \<open>buffer\<close>.
\<close>

fun read_middle_bytes :: "byte list \<Rightarrow> nat \<Rightarrow> nat \<Rightarrow> u32 \<Rightarrow> u32 option" where
  "read_middle_bytes buffer q 0 code = Some code"
| "read_middle_bytes buffer q (Suc n) code = do {
     let code = push_bit 8 code;
     b \<leftarrow> rd buffer q;
     read_middle_bytes buffer (q + 1) n (code OR ucast b)
   }"

definition hpack_decoder_read_bits_from_bytes :: "nat \<Rightarrow> nat \<Rightarrow> byte list \<Rightarrow> nat \<Rightarrow> u32 option" where
  "hpack_decoder_read_bits_from_bytes current_bit_pointer number_of_bits_to_read buffer q = do {
     let byte_offset = current_bit_pointer div 8;
     let bit_offset = current_bit_pointer - 8 * byte_offset;
     let num_bytes = nat (((int number_of_bits_to_read + int current_bit_pointer - 1) mod 2 ^ 32 div 8
           - int current_bit_pointer div 8 + 1) mod 2 ^ 16);
     let first_byte_mask = drop_bit bit_offset (255 :: byte);
     b \<leftarrow> rd buffer (q + byte_offset);
     let code = (ucast (first_byte_mask AND b) :: u32);
     let last_bit_offset = nat ((8 * (int num_bytes + int byte_offset)
           - (int current_bit_pointer + int number_of_bits_to_read)) mod 2 ^ 8);
     if num_bytes = 1 then do {
       guard (last_bit_offset < 32);
       Some (drop_bit last_bit_offset code)
     }
     else do {
       code \<leftarrow> read_middle_bytes buffer (q + byte_offset + 1) (num_bytes - 2) code;
       guard (last_bit_offset \<le> 8 \<and> 0 < num_bytes);
       let last_byte_mask = (ucast (push_bit last_bit_offset (255 :: u32)) :: byte);
       b \<leftarrow> rd buffer (q + (byte_offset + num_bytes - 1));
       let last_byte = last_byte_mask AND b;
       let last_byte = drop_bit last_bit_offset last_byte;
       Some (push_bit (8 - last_bit_offset) code OR ucast last_byte)
     }
   }"

definition hpack_decoder_check_huffman_padding :: "nat \<Rightarrow> byte list \<Rightarrow> nat \<Rightarrow> nat \<Rightarrow> int option" where
  "hpack_decoder_check_huffman_padding bits_left encoded_buffer q str_length = do {
     guard (0 < str_length);
     last_byte \<leftarrow> rd encoded_buffer (q + (str_length - 1));
     if bits_left < 8 then
       let mask = (ucast (push_bit bits_left 1 - 1 :: u32) :: byte)
       in if last_byte AND mask = mask then Some HPACK_NO_ERROR else Some HPACK_COMPRESSION_ERROR
     else Some HPACK_COMPRESSION_ERROR
   }"

text \<open>
  The 30-bit window of \<open>hpack_decoder_decode_huffman_word\<close>, filled up with ones behind the string.
\<close>

definition huffman_word_window :: "nat \<Rightarrow> nat \<Rightarrow> byte list \<Rightarrow> nat \<Rightarrow> nat \<Rightarrow> u32 option" where
  "huffman_word_window bit_position bits_left encoded_string q encoded_string_size =
     (let length = 30 in
      if bit_position + length > 8 * encoded_string_size then do {
        let number_of_padding_bits = nat ((int length - int bits_left) mod 2 ^ 8);
        guard (number_of_padding_bits < 32);
        let padding = (push_bit number_of_padding_bits 1 - 1 :: u32);
        result \<leftarrow> hpack_decoder_read_bits_from_bytes bit_position bits_left encoded_string q;
        Some (push_bit number_of_padding_bits result OR padding)
      }
      else hpack_decoder_read_bits_from_bytes bit_position length encoded_string q)"

text \<open>
  \<open>str\<close> is the output array, written at offset \<open>i\<close>. \<open>bits_left\<close> is a \<open>uint8_t\<close>.
\<close>

definition hpack_decoder_decode_huffman_word ::
  "byte list \<Rightarrow> nat \<Rightarrow> byte list \<Rightarrow> nat \<Rightarrow> nat \<Rightarrow> nat \<Rightarrow> (byte list \<times> int) option" where
  "hpack_decoder_decode_huffman_word str i encoded_string q encoded_string_size bit_position = do {
     let length = 30;
     let bits_left = nat ((8 * int encoded_string_size - int bit_position) mod 2 ^ 8);
     if bit_position + length > 8 * encoded_string_size \<and> bits_left < 5 then do {
       rc \<leftarrow> hpack_decoder_check_huffman_padding bits_left encoded_string q encoded_string_size;
       Some (str, rc)
     }
     else do {
       result \<leftarrow> huffman_word_window bit_position bits_left encoded_string q encoded_string_size;
       let (decoded_sym, bit_size) = hpack_huffman_decode \<lparr>hw_code = result, hw_length = 0\<rparr> 0;
       if bit_size \<ge> 0 then do {
         str \<leftarrow> wr str i decoded_sym;
         Some (str, bit_size)
       }
       else do {
         rc \<leftarrow> hpack_decoder_check_huffman_padding bits_left encoded_string q encoded_string_size;
         Some (str, rc)
       }
     }
   }"

text \<open>
  \<open>(bit_position - 1) / 8\<close> is signed and truncates towards zero, so it is 0 for the first position.
\<close>

partial_function (option) decode_huffman_loop ::
  "byte list \<Rightarrow> nat \<Rightarrow> byte list \<Rightarrow> nat \<Rightarrow> nat \<Rightarrow> nat \<Rightarrow> nat \<Rightarrow> (byte list \<times> int) option" where
  "decode_huffman_loop str str_length encoded_string q encoded_str_length i bit_position =
     (if (int bit_position - 1) sdiv 8 < int encoded_str_length then
        if str_length < i then Some (str, HPACK_MEMORY_ERROR)
        else do {
          (str, word_length) \<leftarrow>
            hpack_decoder_decode_huffman_word str i encoded_string q encoded_str_length bit_position;
          if word_length = 0 then Some (str, 0)
          else if word_length < 0 then Some (str, word_length)
          else decode_huffman_loop str str_length encoded_string q encoded_str_length
                 ((i + 1) mod 2 ^ 16) ((bit_position + nat word_length) mod 2 ^ 16)
        }
      else Some (str, 0))"

declare decode_huffman_loop.simps [code]

definition hpack_decoder_decode_huffman_string ::
  "byte list \<Rightarrow> nat \<Rightarrow> byte list \<Rightarrow> nat \<Rightarrow> nat \<Rightarrow> (byte list \<times> int) option" where
  "hpack_decoder_decode_huffman_string str str_length encoded_string q encoded_str_length = do {
     str_length_size \<leftarrow> hpack_utils_encoded_integer_size (of_nat encoded_str_length) 7;
     (str, rc) \<leftarrow> decode_huffman_loop str str_length encoded_string q encoded_str_length 0 0;
     if rc < 0 then Some (str, rc)
     else Some (str, int encoded_str_length + int (unat str_length_size))
   }"

definition hpack_decoder_decode_non_huffman_string ::
  "byte list \<Rightarrow> nat \<Rightarrow> byte list \<Rightarrow> nat \<Rightarrow> nat \<Rightarrow> (byte list \<times> int) option" where
  "hpack_decoder_decode_non_huffman_string str str_length encoded_string q encoded_str_length = do {
     str_length_size \<leftarrow> hpack_utils_encoded_integer_size (of_nat encoded_str_length) 7;
     if encoded_str_length > str_length then Some (str, HPACK_MEMORY_ERROR)
     else do {
       bs \<leftarrow> mem_read encoded_string q encoded_str_length;
       str \<leftarrow> mem_write str 0 bs;
       Some (str, int encoded_str_length + int (unat str_length_size))
     }
   }"

definition hpack_decoder_decode_string ::
  "byte list \<Rightarrow> nat \<Rightarrow> byte list \<Rightarrow> nat \<Rightarrow> nat \<Rightarrow> byte \<Rightarrow> (byte list \<times> int) option" where
  "hpack_decoder_decode_string str str_length encoded_buffer q encoded_buffer_length huffman_bit =
     (if huffman_bit \<noteq> 0
      then hpack_decoder_decode_huffman_string str str_length encoded_buffer q encoded_buffer_length
      else hpack_decoder_decode_non_huffman_string str str_length encoded_buffer q encoded_buffer_length)"

subsection \<open>Bits of a byte array\<close>

definition gbit :: "byte list \<Rightarrow> nat \<Rightarrow> bool" where
  "gbit buf j = bit (buf ! (j div 8)) (7 - j mod 8)"

lemma gbit_replicate_0 [simp]: "j < 8 * n \<Longrightarrow> gbit (replicate n 0) j = False"
  by (simp add: gbit_def less_mult_imp_div_less mult.commute)

lemma gbit_update:
  assumes "c div 8 < length buf"
  shows "gbit (buf[c div 8 := b]) j = (if j div 8 = c div 8 then bit b (7 - j mod 8) else gbit buf j)"
  using assms by (auto simp: gbit_def)

text \<open>One step of the packing loop adds the next bits of the code, and leaves the others.\<close>

lemma bit_packed_byte:
  fixes code :: u32 and b :: byte
  assumes "o8 < 8" "0 < w" "w \<le> 8 - o8" "k < 8"
  shows "bit (ucast (ucast b OR drop_bit (32 - (8 - o8))
      (push_bit (32 - w) (push_bit w 1 - 1) AND code)) :: byte) k =
    (bit b k \<or> (o8 \<le> 7 - k \<and> 7 - k < o8 + w \<and> bit code (31 - (7 - k - o8))))"
proof -
  have "push_bit w 1 - 1 = (mask w :: u32)" by (simp add: mask_eq_decr_exp push_bit_eq_mult)
  moreover have "32 - (8 - o8) + k = 31 - (7 - k - o8)" if "o8 \<le> 7 - k" using assms that by linarith
  ultimately show ?thesis using assms
    by (auto simp: bit_simps ac_simps simp del: push_bit_of_1)
qed

lemma bit_push_aligned:
  fixes code :: u32
  assumes "w \<le> d" "d \<le> 31"
  shows "bit (push_bit w code) (31 - (d - w)) = bit code (31 - d)"
proof -
  have "31 - (d - w) = 31 - d + w" using assms by linarith
  moreover have "w \<le> 31 - d + w" "31 - d + w < 32" using assms by linarith+
  ultimately show ?thesis by (simp only: bit_push_bit_iff) simp
qed

lemma bit_left_aligned:
  fixes code :: u32
  assumes "i < l" "l \<le> 32"
  shows "bit (push_bit (32 - l) code) (31 - i) = bit code (l - 1 - i)"
proof -
  have "31 - i = (l - 1 - i) + (32 - l)" "l - 1 - i + (32 - l) < 32" using assms by linarith+
  then show ?thesis by (simp only: bit_push_bit_iff) simp
qed

text \<open>The number of bytes that \<open>k\<close> bits need.\<close>

lemma ceil8:
  fixes k :: nat
  shows "(if k mod 8 \<noteq> 0 then k div 8 + 1 else k div 8) = (k + 7) div 8"
    "k \<le> 8 * ((k + 7) div 8)" "8 * ((k + 7) div 8) \<le> k + 7"
    "k mod 8 = 0 \<Longrightarrow> 8 * ((k + 7) div 8) = k"
    "k mod 8 \<noteq> 0 \<Longrightarrow> (k + 7) div 8 = k div 8 + 1"
proof -
  define d r where dr: "d = k div 8" "r = k mod 8"
  have k: "k = 8 * d + r" "r < 8" unfolding dr by simp_all
  have c: "(k + 7) div 8 = (if r \<noteq> 0 then d + 1 else d)"
    by (rule div_nat_eqI) (cases "r = 0"; use k in simp)+
  show "(if k mod 8 \<noteq> 0 then k div 8 + 1 else k div 8) = (k + 7) div 8"
    "k mod 8 = 0 \<Longrightarrow> 8 * ((k + 7) div 8) = k" "k mod 8 \<noteq> 0 \<Longrightarrow> (k + 7) div 8 = k div 8 + 1"
    "k \<le> 8 * ((k + 7) div 8)" "8 * ((k + 7) div 8) \<le> k + 7"
    unfolding c dr [symmetric] using k by (cases "r = 0"; simp)+
qed

lemma same_byte:
  fixes j k :: nat
  assumes "j div 8 = k div 8"
  shows "(7 - j mod 8 < 8 - k mod 8) = (k \<le> j)"
proof -
  have "j = 8 * (k div 8) + j mod 8" "k = 8 * (k div 8) + k mod 8" "j mod 8 < 8"
    using assms by (metis mult_div_mod_eq) simp_all
  then show ?thesis by linarith
qed

lemma earlier_byte:
  fixes j k :: nat
  assumes "j div 8 \<noteq> k div 8" "j < 8 * (k div 8 + 1)"
  shows "j < k"
proof (rule ccontr)
  assume "\<not> j < k"
  then have "k div 8 < j div 8" using div_le_mono [of k j 8] assms(1) by linarith
  then have "8 * (k div 8 + 1) \<le> 8 * (j div 8)" by (intro mult_le_mono) simp_all
  also have "\<dots> \<le> j" by simp
  finally show False using assms(2) by simp
qed

lemma pack_step:
  fixes code :: u32
  assumes "cur div 8 < length buf" "w = (if 8 - cur mod 8 > cl then cl else 8 - cur mod 8)" "0 < cl"
  defines "b \<equiv> ucast (ucast (buf ! (cur div 8)) OR drop_bit (32 - (8 - cur mod 8))
      (push_bit (32 - w) (push_bit w 1 - 1 :: u32) AND code))"
  shows "gbit (buf[cur div 8 := b]) j =
    (gbit buf j \<or> (cur \<le> j \<and> j < cur + w \<and> bit code (31 - (j - cur))))"
proof (cases "j div 8 = cur div 8")
  case True
  have j: "j = 8 * (cur div 8) + j mod 8" by (metis True mult_div_mod_eq)
  have c: "cur = 8 * (cur div 8) + cur mod 8" by simp
  have lt: "cur mod 8 < 8" "j mod 8 < 8" by simp_all
  have w: "0 < w" "w \<le> 8 - cur mod 8" using assms(2,3) lt by auto
  have "bit b (7 - j mod 8) = (gbit buf j \<or> (cur mod 8 \<le> j mod 8 \<and> j mod 8 < cur mod 8 + w \<and>
      bit code (31 - (j mod 8 - cur mod 8))))"
    unfolding b_def using bit_packed_byte [OF lt(1) w, of "7 - j mod 8" "buf ! (cur div 8)" code] lt True
    by (simp add: gbit_def)
  moreover have "cur mod 8 \<le> j mod 8 \<longleftrightarrow> cur \<le> j" "j mod 8 < cur mod 8 + w \<longleftrightarrow> j < cur + w"
    "j mod 8 - cur mod 8 = j - cur"
    using j c by linarith+
  ultimately show ?thesis using gbit_update [OF assms(1)] True by simp
next
  case False
  have "cur mod 8 + w \<le> 8" using assms(2) by (auto split: if_splits)
  moreover have "cur = 8 * (cur div 8) + cur mod 8" "j = 8 * (j div 8) + j mod 8" by simp_all
  ultimately have "\<not> (cur \<le> j \<and> j < cur + w)" using False by linarith
  with False show ?thesis using gbit_update [OF assms(1)] by auto
qed

lemma pack_bits_loop_correct:
  assumes "cur + cl \<le> 8 * length buf" "cl \<le> 32"
  shows "\<exists>buf'. pack_bits_loop code cl buf cur = Some (buf', cur + cl) \<and> length buf' = length buf \<and>
    (\<forall>j. gbit buf' j = (gbit buf j \<or> (cur \<le> j \<and> j < cur + cl \<and> bit code (31 - (j - cur)))))"
  using assms
proof (induction cl arbitrary: code buf cur rule: less_induct)
  case (less cl)
  show ?case
  proof (cases "cl = 0")
    case True
    then show ?thesis by (subst pack_bits_loop.simps) auto
  next
    case False
    define w where "w = (if 8 - cur mod 8 > cl then cl else 8 - cur mod 8)"
    define b :: byte where "b = ucast (ucast (buf ! (cur div 8)) OR drop_bit (32 - (8 - cur mod 8))
      (push_bit (32 - w) (push_bit w 1 - 1 :: u32) AND code))"
    let ?buf = "buf[cur div 8 := b]"
    have d: "cur - 8 * (cur div 8) = cur mod 8" by (simp add: minus_mult_div_eq_mod)
    have i: "cur div 8 < length buf" using less.prems(1) False by linarith
    have w: "w \<le> cl" "0 < w" using False by (auto simp: w_def)
    have step: "gbit ?buf j = (gbit buf j \<or> (cur \<le> j \<and> j < cur + w \<and> bit code (31 - (j - cur))))" for j
      unfolding b_def using pack_step [OF i w_def, of code j] False by simp
    have unfold: "pack_bits_loop code cl buf cur = pack_bits_loop (push_bit w code) (cl - w) ?buf (cur + w)"
      using False i by (subst pack_bits_loop.simps) (simp only: d rd_Some wr_Some Let_def bind.bind_lunit
          w_def [symmetric] b_def [symmetric] if_False)
    have pre: "cl - w < cl" "cur + w + (cl - w) \<le> 8 * length ?buf" "cl - w \<le> 32"
      using w less.prems by auto
    obtain buf' where r: "pack_bits_loop (push_bit w code) (cl - w) ?buf (cur + w) = Some (buf', cur + w + (cl - w))"
      "length buf' = length ?buf"
      and g: "\<And>j. gbit buf' j = (gbit ?buf j \<or> (cur + w \<le> j \<and> j < cur + w + (cl - w) \<and>
        bit (push_bit w code) (31 - (j - (cur + w)))))"
      using less.IH [OF pre, of "push_bit w code"] by blast
    have shift: "bit (push_bit w code) (31 - (j - (cur + w))) = bit code (31 - (j - cur))"
      if "cur + w \<le> j" "j < cur + cl" for j
      using bit_push_aligned [of w "j - cur" code] that less.prems(2) w by (simp only: diff_diff_left)
    have "gbit buf' j = (gbit buf j \<or> (cur \<le> j \<and> j < cur + cl \<and> bit code (31 - (j - cur))))" for j
    proof -
      have "cur + w + (cl - w) = cur + cl" using w by simp
      with g [of j] shift [of j]
      have "gbit buf' j = (gbit ?buf j \<or> (cur + w \<le> j \<and> j < cur + cl \<and> bit code (31 - (j - cur))))"
        by metis
      then show ?thesis unfolding step using w by auto
    qed
    with r w show ?thesis unfolding unfold by auto
  qed
qed

text \<open>The bits of a code word, from the most significant one.\<close>

definition word_bits :: "huffman_encoded_word \<Rightarrow> bool list" where
  "word_bits w = map (\<lambda>i. bit (hw_code w) (unat (hw_length w) - 1 - i)) [0..<unat (hw_length w)]"

lemma length_word_bits [simp]: "length (word_bits w) = unat (hw_length w)"
  by (simp add: word_bits_def)

lemma nth_word_bits:
  "i < unat (hw_length w) \<Longrightarrow> word_bits w ! i = bit (hw_code w) (unat (hw_length w) - 1 - i)"
  by (simp add: word_bits_def)

lemma pack_words_loop_correct:
  assumes "\<And>w. w \<in> set ws \<Longrightarrow> 1 \<le> unat (hw_length w) \<and> unat (hw_length w) \<le> 32"
    "cur + length (concat (map word_bits ws)) \<le> 8 * length buf"
  shows "\<exists>buf'. pack_words_loop ws buf cur = Some (buf', cur + length (concat (map word_bits ws))) \<and>
    length buf' = length buf \<and>
    (\<forall>j. gbit buf' j = (gbit buf j \<or> (cur \<le> j \<and> j < cur + length (concat (map word_bits ws)) \<and>
       concat (map word_bits ws) ! (j - cur))))"
  using assms
proof (induction ws arbitrary: buf cur)
  case Nil
  then show ?case by auto
next
  case (Cons w ws)
  let ?l = "unat (hw_length w)" and ?S = "concat (map word_bits ws)"
  let ?c = "push_bit (32 - ?l) (hw_code w)"
  have l: "1 \<le> ?l" "?l \<le> 32" using Cons.prems(1) [of w] by auto
  have room: "cur + ?l \<le> 8 * length buf" using Cons.prems(2) by simp
  obtain b1 where b1: "pack_bits_loop ?c ?l buf cur = Some (b1, cur + ?l)" "length b1 = length buf"
    "\<And>j. gbit b1 j = (gbit buf j \<or> (cur \<le> j \<and> j < cur + ?l \<and> bit ?c (31 - (j - cur))))"
    using pack_bits_loop_correct [OF room l(2)] by blast
  obtain b2 where b2: "pack_words_loop ws b1 (cur + ?l) = Some (b2, cur + ?l + length ?S)"
    "length b2 = length buf"
    "\<And>j. gbit b2 j = (gbit b1 j \<or> (cur + ?l \<le> j \<and> j < cur + ?l + length ?S \<and> ?S ! (j - (cur + ?l))))"
    using Cons.IH [of "cur + ?l" b1] Cons.prems b1(2) by auto
  have bits: "bit ?c (31 - (j - cur)) = word_bits w ! (j - cur)" if "cur \<le> j" "j < cur + ?l" for j
    using bit_left_aligned [of "j - cur" ?l "hw_code w"] that l by (simp add: nth_word_bits)
  have "gbit b2 j = (gbit buf j \<or> (cur \<le> j \<and> j < cur + length (word_bits w @ ?S) \<and>
      (word_bits w @ ?S) ! (j - cur)))" for j
    unfolding b2(3) b1(3) nth_append using bits [of j] by auto
  with b1(1) b2(1,2) l show ?case by simp
qed

text \<open>
  The bit stream of a list of words, padded with ones to whole bytes: \<open>packs buf S\<close> says that the
  array is that stream.
\<close>

definition packs :: "byte list \<Rightarrow> bool list \<Rightarrow> bool" where
  "packs buf S \<longleftrightarrow> length buf = (length S + 7) div 8 \<and>
     (\<forall>j < 8 * length buf. gbit buf j = (j < length S \<longrightarrow> S ! j))"

lemma pack_encoded_words_correct:
  assumes "\<And>w. w \<in> set ws \<Longrightarrow> 1 \<le> unat (hw_length w) \<and> unat (hw_length w) \<le> 32"
    "n = (length (concat (map word_bits ws)) + 7) div 8"
  shows "\<exists>buf. hpack_encoder_pack_encoded_words_to_bytes ws (replicate n 0) n = Some (buf, 0) \<and>
    packs buf (concat (map word_bits ws))"
proof -
  let ?S = "concat (map word_bits ws)"
  let ?k = "length ?S"
  have sum: "sum_list (map (\<lambda>w. unat (hw_length w)) ws) = ?k" by (simp add: length_concat o_def)
  have "0 + ?k \<le> 8 * length (replicate n (0::byte))"
    unfolding assms(2) length_replicate using ceil8(2) by simp
  from pack_words_loop_correct [OF assms(1) this] obtain buf where
    b: "pack_words_loop ws (replicate n 0) 0 = Some (buf, ?k)" "length buf = n"
    "\<And>j. gbit buf j = (gbit (replicate n 0) j \<or> (j < ?k \<and> ?S ! j))"
    by auto
  note defs = hpack_encoder_pack_encoded_words_to_bytes_def packs_def Let_def sum ceil8(1)
    minus_mult_div_eq_mod
  show ?thesis
  proof (cases "?k mod 8 = 0")
    case True
    with b ceil8(4) [OF True] assms(2) show ?thesis unfolding defs by simp
  next
    case False
    then have n: "n = ?k div 8 + 1" using ceil8(5) assms(2) by simp
    let ?pad = "ucast (push_bit (8 - ?k mod 8) 1 - 1 :: u32) :: byte"
    let ?buf = "buf[?k div 8 := buf ! (?k div 8) OR ?pad]"
    have "push_bit (8 - ?k mod 8) 1 - 1 = (mask (8 - ?k mod 8) :: u32)"
      by (simp add: mask_eq_decr_exp push_bit_eq_mult)
    then have pad: "bit ?pad (7 - j mod 8) = (7 - j mod 8 < 8 - ?k mod 8)" for j
      by (auto simp: bit_simps simp del: push_bit_of_1)
    have gb: "gbit buf j = (j < ?k \<and> ?S ! j)" if "j < 8 * n" for j
      using b(3) [of j] that by simp
    have i: "?k div 8 < length buf" using b(2) n by simp
    have "gbit ?buf j = (j < ?k \<longrightarrow> ?S ! j)" if "j < 8 * n" for j
    proof (cases "j div 8 = ?k div 8")
      case True
      have "gbit ?buf j = (gbit buf j \<or> bit ?pad (7 - j mod 8))"
        using True b(2) n by (simp add: gbit_update bit_or_iff) (simp add: gbit_def)
      moreover note gb [OF that]
      moreover have "bit ?pad (7 - j mod 8) = (?k \<le> j)" using pad same_byte [OF True] by blast
      ultimately show ?thesis by auto
    next
      case False
      have "j < ?k" by (rule earlier_byte [OF False that [unfolded n]])
      moreover have "gbit ?buf j = gbit buf j" using False i by (simp add: gbit_update)
      ultimately show ?thesis using gb [OF that] by simp
    qed
    with False b n assms(2) show ?thesis
      unfolding defs by (simp add: rd_def wr_def)
  qed
qed

subsection \<open>The window the decoder reads\<close>

text \<open>\<open>window buf p n r\<close>: the number \<open>r\<close> is the \<open>n\<close> bits of the array from the bit position \<open>p\<close> on.\<close>

definition window :: "byte list \<Rightarrow> nat \<Rightarrow> nat \<Rightarrow> u32 \<Rightarrow> bool" where
  "window buf p n r \<longleftrightarrow> (\<forall>k. bit r k = (k < n \<and> gbit buf (p + (n - 1 - k))))"

lemma gbit_in_byte: "x < 8 \<Longrightarrow> gbit buf (8 * i + x) = bit (buf ! i) (7 - x)"
  by (simp add: gbit_def)

lemma window_first:
  assumes "p = 8 * d + b" "b < 8"
  shows "window buf p (8 - b) (ucast (drop_bit b (255 :: byte) AND buf ! d))"
  unfolding window_def
proof
  fix k
  have m: "bit (drop_bit b (255 :: byte)) k = (k < 8 - b)"
    unfolding mask_numerals by (auto simp: bit_simps)
  show "bit (ucast (drop_bit b (255 :: byte) AND buf ! d) :: u32) k =
      (k < 8 - b \<and> gbit buf (p + (8 - b - 1 - k)))"
  proof (cases "k < 8 - b")
    case True
    then have "p + (8 - b - 1 - k) = 8 * d + (7 - k)" using assms by linarith
    moreover have "7 - (7 - k) = k" "7 - k < 8" using True by linarith+
    ultimately have "gbit buf (p + (8 - b - 1 - k)) = bit (buf ! d) k" by (simp only: gbit_in_byte)
    with True m show ?thesis by (auto simp: bit_unsigned_iff bit_and_iff)
  next
    case False
    with m show ?thesis by (simp add: bit_unsigned_iff bit_and_iff)
  qed
qed

lemma window_next:
  assumes "window buf p m c" "p + m = 8 * i" "t \<le> 8" "m + t \<le> 32"
    "\<And>k. bit x k = (k < t \<and> bit (buf ! i) (8 - t + k))"
  shows "window buf p (m + t) (push_bit t c OR ucast (x :: byte))"
  unfolding window_def
proof
  fix k
  show "bit (push_bit t c OR ucast x) k = (k < m + t \<and> gbit buf (p + (m + t - 1 - k)))"
  proof (cases "k < t")
    case True
    then have "p + (m + t - 1 - k) = 8 * i + (t - 1 - k)" "7 - (t - 1 - k) = 8 - t + k" "t - 1 - k < 8"
      using assms(2,3) by linarith+
    then have "gbit buf (p + (m + t - 1 - k)) = bit (buf ! i) (8 - t + k)" by (simp only: gbit_in_byte)
    with True assms(3) show ?thesis by (auto simp: bit_or_iff bit_push_bit_iff bit_unsigned_iff assms(5))
  next
    case False
    then have "bit (push_bit t c OR ucast x) k = (k < 32 \<and> bit c (k - t))"
      using assms(5) by (auto simp: bit_or_iff bit_push_bit_iff bit_unsigned_iff)
    also have "bit c (k - t) = (k - t < m \<and> gbit buf (p + (m - 1 - (k - t))))"
      using assms(1) unfolding window_def by blast
    also have "(k < 32 \<and> k - t < m \<and> gbit buf (p + (m - 1 - (k - t)))) =
        (k < m + t \<and> gbit buf (p + (m - 1 - (k - t))))"
      using assms(4) False by auto
    also have "m - 1 - (k - t) = m + t - 1 - k" using False by linarith
    finally show ?thesis .
  qed
qed

lemma read_middle_bytes_correct:
  assumes "window (drop q buf) p m c" "p + m = 8 * i" "m + 8 * n \<le> 32" "q + i + n \<le> length buf"
  shows "\<exists>c'. read_middle_bytes buf (q + i) n c = Some c' \<and> window (drop q buf) p (m + 8 * n) c'"
  using assms
proof (induction n arbitrary: m c i)
  case (Suc n)
  have i: "q + i < length buf" using Suc.prems(4) by simp
  have "window (drop q buf) p (m + 8) (push_bit 8 c OR ucast (buf ! (q + i)))"
    using Suc.prems(1,2,3) i
    by (intro window_next [of _ p m c i 8]) (auto dest: bit_imp_le_length)
  from Suc.IH [OF this, of "i + 1"] Suc.prems show ?case
    using i by (auto simp: rd_def ac_simps)
qed simp

text \<open>Dropping the low bits of a window leaves the window of the first bits.\<close>

lemma window_drop:
  assumes "window buf p m c" "t \<le> m"
  shows "window buf p (m - t) (drop_bit t c)"
  unfolding window_def
proof
  fix k
  have "bit (drop_bit t c) k = bit c (t + k)" by (simp only: bit_drop_bit_eq o_apply)
  also have "\<dots> = (t + k < m \<and> gbit buf (p + (m - 1 - (t + k))))" using assms(1) unfolding window_def by blast
  also have "(t + k < m) = (k < m - t)" using assms(2) by auto
  also have "m - 1 - (t + k) = m - t - 1 - k" by simp
  finally show "bit (drop_bit t c) k = (k < m - t \<and> gbit buf (p + (m - t - 1 - k)))" .
qed

text \<open>The number of bytes and the offset in the last one, as the code computes them at 32, 16 and 8
  bits, do not wrap.\<close>

lemma read_bits_bytes:
  assumes "1 \<le> n" "n \<le> 32" "p < 2 ^ 16" "d = p div 8" "e = (p + n - 1) div 8"
  shows "d \<le> e" "nat (((int n + int p - 1) mod 2 ^ 32 div 8 - int p div 8 + 1) mod 2 ^ 16) = e - d + 1"
proof -
  show le: "d \<le> e" unfolding assms(4,5) using assms(1) by (intro div_le_mono) simp
  have "int n + int p - 1 = int (p + n - 1)" using assms(1) by simp
  moreover have "int (p + n - 1) mod 2 ^ 32 = int (p + n - 1)" using assms(2,3) by simp
  moreover have "int (p + n - 1) div 8 = int e" "int p div 8 = int d" unfolding assms(4,5) by (simp_all add: zdiv_int)
  moreover have "e - d + 1 < 2 ^ 16" unfolding assms(5) using assms(2,3) by simp
  then have "(int e - int d + 1) mod 2 ^ 16 = int (e - d + 1)" using le by simp
  ultimately show "nat (((int n + int p - 1) mod 2 ^ 32 div 8 - int p div 8 + 1) mod 2 ^ 16) = e - d + 1"
    by (simp only: nat_int)
qed

lemma read_bits_correct:
  assumes "1 \<le> n" "n \<le> 32" "p < 2 ^ 16" "q + (p + n + 7) div 8 \<le> length buf"
  shows "\<exists>r. hpack_decoder_read_bits_from_bytes p n buf q = Some r \<and> window (drop q buf) p n r"
proof -
  define d b e where deb: "d = p div 8" "b = p mod 8" "e = (p + n - 1) div 8"
  have p: "p = 8 * d + b" "b < 8" "p - 8 * d = b" unfolding deb by (simp_all add: minus_mult_div_eq_mod)
  define f where "f = (p + n - 1) mod 8"
  have f: "p + n - 1 = 8 * e + f" "f < 8" unfolding deb f_def by simp_all
  have pn: "p + n = 8 * e + f + 1" using f(1) assms(1) by simp
  then have "p + n + 7 = 8 * (e + 1) + f" by simp
  then have "(p + n + 7) div 8 = e + 1" using f(2) by simp
  with assms(4) have room: "q + e < length buf" by simp
  note le = read_bits_bytes(1) [OF assms(1-3) deb(1,3)] and nb = read_bits_bytes(2) [OF assms(1-3) deb(1,3)]
  have lbo: "nat ((8 * (int (e - d + 1) + int d) - (int p + int n)) mod 2 ^ 8) = 7 - f"
  proof -
    have "8 * (int (e - d + 1) + int d) - (int p + int n) = int (7 - f)"
      using pn f(2) le by simp
    then show ?thesis using f(2) by simp
  qed
  let ?c = "ucast (drop_bit b (255 :: byte) AND buf ! (q + d)) :: u32"
  have qd: "q + d < length buf" using room le by linarith
  have first: "window (drop q buf) p (8 - b) ?c"
    using window_first [OF p(1,2), of "drop q buf"] qd by simp
  note defs = hpack_decoder_read_bits_from_bytes_def Let_def nb lbo deb(1) [symmetric] p(3)
  show ?thesis
  proof (cases "e = d")
    case True
    have "8 - b - (7 - f) = n" "7 - f \<le> 8 - b" using pn p(1) True f(2) assms(1) by simp_all
    with window_drop [OF first] have "window (drop q buf) p n (drop_bit (7 - f) ?c)" by metis
    with True qd f(2) show ?thesis unfolding defs by (simp add: rd_def)
  next
    case False
    have pm: "p + (8 - b) = 8 * (d + 1)" "8 - b + 8 * (e - d - 1) + (f + 1) = n"
      "p + (8 - b + 8 * (e - d - 1)) = 8 * e"
      using p(1,2) pn False le by simp_all
    obtain c where c: "read_middle_bytes buf (q + (d + 1)) (e - d - 1) ?c = Some c"
      "window (drop q buf) p (8 - b + 8 * (e - d - 1)) c"
      using read_middle_bytes_correct [OF first pm(1), of "e - d - 1"] pm(2) assms(2) room le False
      by auto
    let ?x = "drop_bit (7 - f) (ucast (push_bit (7 - f) (255 :: u32)) AND buf ! (q + e)) :: byte"
    have x: "bit ?x k = (k < f + 1 \<and> bit (buf ! (q + e)) (8 - (f + 1) + k))" for k
      unfolding mask_numerals using f(2) by (auto simp: bit_simps dest: bit_imp_le_length)
    have "window (drop q buf) p n (push_bit (f + 1) c OR ucast ?x)"
      using window_next [OF c(2) pm(3), of "f + 1" ?x] pm(2) assms(2) f(2) x room by simp
    with c(1) False le room qd f(2) show ?thesis unfolding defs
      by (simp add: rd_def Suc_diff_le)
  qed
qed

text \<open>
  An array that holds a padded bit stream at offset \<open>q\<close>. Behind the end of the stream, and of the
  array, the window sees ones.
\<close>

definition holds_stream :: "byte list \<Rightarrow> nat \<Rightarrow> nat \<Rightarrow> bool list \<Rightarrow> bool" where
  "holds_stream es q n S \<longleftrightarrow> q + n \<le> length es \<and> n < 2 ^ 13 \<and> packs (take n (drop q es)) S"

lemma holds_streamD:
  assumes "holds_stream es q n S"
  shows "q + n \<le> length es" "n < 2 ^ 13" "n = (length S + 7) div 8" "length S \<le> 8 * n"
    "\<And>j. j < 8 * n \<Longrightarrow> gbit (drop q es) j = (j < length S \<longrightarrow> S ! j)"
proof -
  have len: "length (take n (drop q es)) = n" using assms by (auto simp: holds_stream_def)
  note P = assms [unfolded holds_stream_def packs_def len]
  then show n: "q + n \<le> length es" "n < 2 ^ 13" "n = (length S + 7) div 8" by blast+
  show "length S \<le> 8 * n" unfolding n(3) by (rule ceil8(2))
  fix j assume j: "j < 8 * n"
  then have "j div 8 < n" by (simp add: less_mult_imp_div_less mult.commute)
  then have "gbit (drop q es) j = gbit (take n (drop q es)) j" by (simp add: gbit_def)
  with j P show "gbit (drop q es) j = (j < length S \<longrightarrow> S ! j)" by blast
qed

lemma bit_low_ones: "bit (push_bit k 1 - 1 :: u32) i = (i < k)" if "k \<le> 32"
proof -
  have "push_bit k 1 - 1 = (mask k :: u32)" by (simp add: mask_eq_decr_exp push_bit_eq_mult)
  with that show ?thesis by (auto simp: bit_simps simp del: push_bit_of_1)
qed

lemma bits_left_small:
  assumes "pos \<le> 8 * n" "8 * n - pos < 256"
  shows "nat ((8 * int n - int pos) mod 2 ^ 8) = 8 * n - pos"
proof -
  define k where "k = 8 * n - pos"
  have "8 * int n - int pos = int k" using assms(1) by (simp add: k_def)
  with assms(2) show ?thesis by (simp flip: k_def)
qed

lemma huffman_window_correct:
  assumes "holds_stream es q n S" "pos + 5 \<le> 8 * n"
  shows "\<exists>r. huffman_word_window pos (nat ((8 * int n - int pos) mod 2 ^ 8)) es q n = Some r \<and>
    (\<forall>k. bit r k = (k < 30 \<and> (pos + (29 - k) < length S \<longrightarrow> S ! (pos + (29 - k)))))"
proof -
  note H = holds_streamD [OF assms(1)]
  have p: "pos < 2 ^ 16" using assms(2) H(2) by simp
  show ?thesis
  proof (cases "pos + 30 > 8 * n")
    case False
    have "(pos + 30 + 7) div 8 \<le> n" using False by simp
    then have "q + (pos + 30 + 7) div 8 \<le> length es" using H(1) by linarith
    then obtain r where r: "hpack_decoder_read_bits_from_bytes pos 30 es q = Some r" "window (drop q es) pos 30 r"
      using read_bits_correct [of 30 pos q es] p by auto
    have "bit r k = (k < 30 \<and> (pos + (29 - k) < length S \<longrightarrow> S ! (pos + (29 - k))))" for k
    proof -
      have "bit r k = (k < 30 \<and> gbit (drop q es) (pos + (29 - k)))"
        using r(2) unfolding window_def by simp
      then show ?thesis using H(5) [of "pos + (29 - k)"] False by auto
    qed
    with r(1) False show ?thesis by (auto simp: huffman_word_window_def)
  next
    case True
    define l where "l = 8 * n - pos"
    have l: "5 \<le> l" "l < 30" "pos + l = 8 * n" using assms(2) True by (auto simp: l_def)
    have bl: "nat ((8 * int n - int pos) mod 2 ^ 8) = l"
      using bits_left_small [of pos n] l(2,3) by (simp add: l_def)
    have pb: "nat ((int 30 - int l) mod 2 ^ 8) = 30 - l" using l by simp
    have "(pos + l + 7) div 8 = n" using l(3) by simp
    then obtain r where r: "hpack_decoder_read_bits_from_bytes pos l es q = Some r" "window (drop q es) pos l r"
      using read_bits_correct [of l pos q es] p l H(1) by auto
    let ?r = "push_bit (30 - l) r OR (push_bit (30 - l) 1 - 1)"
    have "bit ?r k = (k < 30 \<and> (pos + (29 - k) < length S \<longrightarrow> S ! (pos + (29 - k))))" for k
    proof (cases "k < 30 - l")
      case True
      then have "\<not> pos + (29 - k) < length S" using l H(4) by linarith
      with True l show ?thesis by (simp add: bit_or_iff bit_low_ones del: push_bit_of_1)
    next
      case False
      have "bit ?r k = (k < 32 \<and> bit r (k - (30 - l)))"
        using False l by (auto simp: bit_or_iff bit_low_ones bit_push_bit_iff simp del: push_bit_of_1)
      also have "bit r (k - (30 - l)) = (k - (30 - l) < l \<and> gbit (drop q es) (pos + (l - 1 - (k - (30 - l)))))"
        using r(2) unfolding window_def by blast
      also have "l - 1 - (k - (30 - l)) = 29 - k" using False l by auto
      finally show ?thesis using H(5) [of "pos + (29 - k)"] False l by auto
    qed
    with r(1) True show ?thesis unfolding bl huffman_word_window_def Let_def pb by simp
  qed
qed

text \<open>At the code of a symbol the decoder returns that symbol and the length of its code.\<close>

lemma decode_word_symbol:
  assumes "holds_stream es q n (pre @ word_bits (huff_word c) @ post)" "i < length out"
  shows "hpack_decoder_decode_huffman_word out i es q n (length pre) =
    Some (out[i := c], int (unat (hw_length (huff_word c))))"
proof -
  let ?S = "pre @ word_bits (huff_word c) @ post" and ?l = "unat (hw_length (huff_word c))"
  note H = holds_streamD [OF assms(1)]
  note l = huff_word_bounds [of c]
  have fits: "length pre + ?l \<le> 8 * n" using H(4) by simp
  then have "length pre + 5 \<le> 8 * n" using l by linarith
  from huffman_window_correct [OF assms(1) this] obtain r where
    r: "huffman_word_window (length pre) (nat ((8 * int n - int (length pre)) mod 2 ^ 8)) es q n = Some r"
    and b: "\<And>k. bit r k = (k < 30 \<and> (length pre + (29 - k) < length ?S \<longrightarrow> ?S ! (length pre + (29 - k))))"
    by blast
  have "drop_bit (30 - ?l) r = hw_code (huff_word c)"
  proof (rule bit_word_eqI)
    fix k assume "k < LENGTH(32)"
    show "bit (drop_bit (30 - ?l) r) k = bit (hw_code (huff_word c)) k"
    proof (cases "k < ?l")
      case True
      have e: "29 - (30 - ?l + k) = ?l - 1 - k" using True l by linarith
      have "?S ! (length pre + (?l - 1 - k)) = bit (hw_code (huff_word c)) k"
        unfolding nth_append_length_plus using True by (simp add: nth_append nth_word_bits)
      moreover have "length pre + (?l - 1 - k) < length ?S" using True by simp
      moreover have "30 - ?l + k < 30" using True l by linarith
      ultimately have "bit r (30 - ?l + k) = bit (hw_code (huff_word c)) k"
        using b [of "30 - ?l + k", unfolded e] by blast
      then show ?thesis by (simp only: bit_drop_bit_eq o_apply)
    next
      case False
      then have "\<not> bit (hw_code (huff_word c)) k" using bit_small_unat [OF l(3), of k] by simp
      moreover have "\<not> bit r (30 - ?l + k)" using b [of "30 - ?l + k"] False l by linarith
      ultimately show ?thesis by (simp add: bit_drop_bit_eq)
    qed
  qed
  then have "unat r div 2 ^ (30 - ?l) = unat (hw_code (huff_word c))"
    by (metis unat_drop_bit_eq drop_bit_eq_div)
  then have dec: "hpack_huffman_decode \<lparr>hw_code = r, hw_length = 0\<rparr> 0 = (c, int ?l)"
    by (intro decode_huff_word) simp_all
  have no_pad: "\<not> (length pre + 30 > 8 * n \<and> nat ((8 * int n - int (length pre)) mod 2 ^ 8) < 5)"
  proof
    assume a: "length pre + 30 > 8 * n \<and> nat ((8 * int n - int (length pre)) mod 2 ^ 8) < 5"
    then have "8 * n < length pre + 30" by blast
    then have "nat ((8 * int n - int (length pre)) mod 2 ^ 8) = 8 * n - length pre"
      using fits by (intro bits_left_small) linarith+
    with a fits l(1) show False by linarith
  qed
  show ?thesis unfolding hpack_decoder_decode_huffman_word_def Let_def if_not_P [OF no_pad]
    using r dec assms(2) by (simp add: wr_def)
qed

text \<open>At the end of the stream the rest is padding, which is accepted.\<close>

lemma padding_accepted:
  assumes "holds_stream es q n S" "0 < n"
  shows "hpack_decoder_check_huffman_padding (8 * n - length S) es q n = Some 0"
proof -
  note H = holds_streamD [OF assms(1)]
  have bl: "8 * n - length S < 8" using ceil8(3) [of "length S"] H(3) by simp
  let ?b = "es ! (q + (n - 1))" and ?m = "ucast (push_bit (8 - (8 - (8 * n - length S))) 1 - 1 :: u32) :: byte"
  let ?m = "ucast (push_bit (8 * n - length S) 1 - 1 :: u32) :: byte"
  have "?b AND ?m = ?m"
  proof (rule bit_word_eqI)
    fix k assume k: "k < LENGTH(8)"
    have "bit ?b k" if "k < 8 * n - length S"
    proof -
      have "gbit (drop q es) (8 * (n - 1) + (7 - k)) = bit ?b k"
        using k H(1) assms(2) by (subst gbit_in_byte) auto
      moreover have "8 * (n - 1) + (7 - k) < 8 * n" "\<not> 8 * (n - 1) + (7 - k) < length S"
        using that k assms(2) by auto
      ultimately show ?thesis using H(5) by blast
    qed
    then show "bit (?b AND ?m) k = bit ?m k"
      using bl k by (auto simp: bit_and_iff bit_unsigned_iff bit_low_ones simp del: push_bit_of_1)
  qed
  then show ?thesis using bl assms(2) H(1)
    by (simp add: hpack_decoder_check_huffman_padding_def rd_def HPACK_NO_ERROR_def)
qed

lemma decode_all_ones: "hpack_huffman_decode \<lparr>hw_code = 0x3FFFFFFF, hw_length = 0\<rparr> 0 = (0, - 1)"
  by (simp add: hpack_huffman_decode_def huffman_length_loop.simps NUMBER_OF_CODE_LENGTHS_def
      huffman_C_def huffman_F_def HUFFMAN_TABLE_SIZE_def)

lemma decode_word_end:
  assumes "holds_stream es q n S" "0 < n"
  shows "hpack_decoder_decode_huffman_word out i es q n (length S) = Some (out, 0)"
proof -
  note H = holds_streamD [OF assms(1)]
  have bl: "8 * n - length S < 8" using ceil8(3) [of "length S"] H(3) by simp
  have bits_left: "nat ((8 * int n - int (length S)) mod 2 ^ 8) = 8 * n - length S"
    using bl by (intro bits_left_small [OF H(4)]) simp
  show ?thesis
  proof (cases "8 * n - length S < 5")
    case True
    then have "8 * n < length S + 30" by linarith
    with True padding_accepted [OF assms] show ?thesis
      unfolding hpack_decoder_decode_huffman_word_def Let_def bits_left by simp
  next
    case False
    then have "length S + 5 \<le> 8 * n" by simp
    from huffman_window_correct [OF assms(1) this] obtain r where
      r: "huffman_word_window (length S) (8 * n - length S) es q n = Some r" and b: "\<And>k. bit r k = (k < 30)"
      unfolding bits_left by auto
    have "r = mask 30" by (rule bit_word_eqI) (simp add: b bit_mask_iff)
    then have "hpack_huffman_decode \<lparr>hw_code = r, hw_length = 0\<rparr> 0 = (0, - 1)"
      using decode_all_ones by (simp add: mask_eq_exp_minus_1)
    with r False padding_accepted [OF assms] show ?thesis
      unfolding hpack_decoder_decode_huffman_word_def Let_def bits_left by simp
  qed
qed

subsection \<open>Round trip of Huffman strings\<close>

text \<open>The bit stream of a string.\<close>

definition huff_bits :: "byte list \<Rightarrow> bool list" where
  "huff_bits s = concat (map (\<lambda>c. word_bits (huff_word c)) s)"

lemma huff_bits_simps [simp]:
  "huff_bits [] = []" "huff_bits (c # s) = word_bits (huff_word c) @ huff_bits s"
  "huff_bits (s @ s') = huff_bits s @ huff_bits s'"
  by (simp_all add: huff_bits_def)

lemma length_huff_bits_ge: "5 * length s \<le> length (huff_bits s)"
proof (induction s)
  case (Cons c s)
  then show ?case using huff_word_bounds(1) [of c] by simp
qed simp

lemma bit_position_guard:
  assumes "pos \<le> 8 * n" "0 < n"
  shows "(int pos - 1) sdiv 8 < int n"
proof (cases "pos = 0")
  case True
  with assms show ?thesis by (simp add: signed_divide_int_def)
next
  case False
  then have "(int pos - 1) sdiv 8 = int (pos - 1) div 8" by (auto simp: signed_divide_int_def sgn_if)
  also have "\<dots> = int ((pos - 1) div 8)" by (simp add: zdiv_int)
  also have "(pos - 1) div 8 < n" using assms False by (intro less_mult_imp_div_less) simp
  finally show ?thesis by simp
qed

lemma decode_loop_correct:
  assumes "holds_stream es q n (huff_bits (s1 @ s2))" "0 < n" "length (s1 @ s2) \<le> length out"
    "length (s1 @ s2) \<le> str_length"
  shows "decode_huffman_loop out str_length es q n (length s1) (length (huff_bits s1)) =
    Some (overwrite out (length s1) s2, 0)"
  using assms
proof (induction s2 arbitrary: s1 out)
  case Nil
  note H = holds_streamD [OF Nil.prems(1)]
  have "hpack_decoder_decode_huffman_word out (length s1) es q n (length (huff_bits s1)) = Some (out, 0)"
    using decode_word_end [OF Nil.prems(1,2)] by simp
  then show ?case using bit_position_guard [of "length (huff_bits s1)" n] H(4) Nil.prems
    by (subst decode_huffman_loop.simps) simp
next
  case (Cons c s2)
  note H = holds_streamD [OF Cons.prems(1)]
  let ?l = "unat (hw_length (huff_word c))" and ?out = "out[length s1 := c]"
  have lt: "length s1 < length out" "length s1 \<le> str_length" using Cons.prems by simp_all
  have word: "hpack_decoder_decode_huffman_word out (length s1) es q n (length (huff_bits s1)) =
      Some (?out, int ?l)"
    using decode_word_symbol [of es q n "huff_bits s1" c "huff_bits s2"] Cons.prems(1) lt by simp
  have l: "5 \<le> ?l" by (rule huff_word_bounds)
  have pos: "length (huff_bits s1) + ?l \<le> 8 * n" using H(4) by simp
  have "length s1 + 1 \<le> 8 * n" using pos length_huff_bits_ge [of s1] l by linarith
  then have mods: "(length s1 + 1) mod 2 ^ 16 = length (s1 @ [c])"
    "(length (huff_bits s1) + nat (int ?l)) mod 2 ^ 16 = length (huff_bits (s1 @ [c]))"
    using pos H(2) by simp_all
  have "decode_huffman_loop ?out str_length es q n (length (s1 @ [c])) (length (huff_bits (s1 @ [c]))) =
      Some (overwrite ?out (length (s1 @ [c])) s2, 0)"
    using Cons.prems by (intro Cons.IH) simp_all
  moreover have "overwrite ?out (length (s1 @ [c])) s2 = overwrite out (length s1) (c # s2)"
    using overwrite_overwrite_adjacent [of "length s1" "[c]" s2 out] Cons.prems(3)
    by (simp add: list_update_overwrite)
  ultimately have rest: "decode_huffman_loop ?out str_length es q n ((length s1 + 1) mod 2 ^ 16)
      ((length (huff_bits s1) + nat (int ?l)) mod 2 ^ 16) = Some (overwrite out (length s1) (c # s2), 0)"
    unfolding mods by simp
  have guard: "(int (length (huff_bits s1)) - 1) sdiv 8 < int n"
    using bit_position_guard pos Cons.prems(2) by simp
  show ?case
    using guard lt word rest l by (subst decode_huffman_loop.simps) (simp del: of_nat_unat)
qed

lemma decode_huffman_string_correct:
  assumes "holds_stream es q n (huff_bits s)" "n \<le> HPACK_MAXIMUM_INTEGER"
    "length s \<le> length out" "length s \<le> str_length"
  shows "hpack_decoder_decode_huffman_string out str_length es q n =
    Some (overwrite out 0 s, int n + int (length (int_code 7 n)))"
proof -
  have u: "unat (of_nat n :: u32) = n"
    using assms(2) by (intro unat_of_nat_u32) (simp add: HPACK_MAXIMUM_INTEGER_def)
  have "hpack_utils_encoded_integer_size (of_nat n) 7 = Some (of_nat (length (int_code 7 n)))"
    using encoded_integer_size_correct [of 7 "of_nat n"] assms(2) unfolding u
    by (simp add: HPACK_MAXIMUM_INTEGER_def)
  moreover have "unat (of_nat (length (int_code 7 n)) :: u32) = length (int_code 7 n)"
    using length_int_code(2) [OF assms(2), of 7] by (intro unat_of_nat_u32) simp
  moreover have "decode_huffman_loop out str_length es q n 0 0 = Some (overwrite out 0 s, 0)"
  proof (cases "n = 0")
    case True
    then have "huff_bits s = []" using holds_streamD(4) [OF assms(1)] by simp
    then have "s = []" using length_huff_bits_ge [of s] by simp
    with True show ?thesis
      by (subst decode_huffman_loop.simps) (simp add: signed_divide_int_def)
  next
    case False
    then show ?thesis using decode_loop_correct [of es q n "[]" s] assms by simp
  qed
  ultimately show ?thesis by (simp add: hpack_decoder_decode_huffman_string_def del: of_nat_unat)
qed

subsection \<open>Strings: the encoder writes a representation, the decoder reads every one\<close>

text \<open>
  \<open>hpack_string c s\<close>: the bytes \<open>c\<close> are a representation of the string \<open>s\<close>, with \<open>n\<close> octets behind
  the length; \<open>h\<close> is the Huffman flag.
\<close>

definition hpack_string :: "byte \<Rightarrow> nat \<Rightarrow> byte list \<Rightarrow> byte list \<Rightarrow> bool" where
  "hpack_string h n c s \<longleftrightarrow> n \<le> HPACK_MAXIMUM_INTEGER \<and>
     (\<exists>body. length body = n \<and> (if h = 0 then body = s else h = 128 \<and> packs body (huff_bits s)) \<and>
        c = (hd (int_code 7 n) OR h) # tl (int_code 7 n) @ body)"

lemma hpack_string_length: "hpack_string h n c s \<Longrightarrow> length c = length (int_code 7 n) + n"
  by (cases "int_code 7 n") (auto simp: hpack_string_def)

lemma unat_hd_int_code: "unat (hd (int_code 7 n)) < 128"
proof -
  have "hd (int_code 7 n) = take_bit 7 (hd (int_code 7 n))" by (simp add: take_bit_hd_int_code)
  then have "unat (hd (int_code 7 n)) = take_bit 7 (unat (hd (int_code 7 n)))"
    by (metis unsigned_take_bit_eq)
  also have "\<dots> < 128" using take_bit_nat_less_exp [of 7] by simp
  finally show ?thesis .
qed

lemma hd_int_code_and_128: "hd (int_code 7 n) AND 128 = 0"
  unfolding byte_mask_eq_0_iff by (rule bit_small_unat [of _ 7]) (simp_all add: unat_hd_int_code)

lemma decode_string_correct:
  assumes "hpack_string h n c s" "code_here m q c" "length s \<le> length out" "length s \<le> str_length"
  shows "hpack_decoder_decode_integer m q 7 = Some (int n)"
    "\<exists>b. rd m q = Some b \<and> b AND 128 = h"
    "hpack_decoder_decode_string out str_length m (q + length (int_code 7 n)) n h =
       Some (overwrite out 0 s, int (length c))"
proof -
  obtain body where n: "n \<le> HPACK_MAXIMUM_INTEGER" "length body = n"
    and body: "if h = 0 then body = s else h = 128 \<and> packs body (huff_bits s)"
    and c: "c = (hd (int_code 7 n) OR h) # tl (int_code 7 n) @ body"
    using assms(1) by (auto simp: hpack_string_def)
  have k: "q + 1 + length (tl (int_code 7 n)) = q + length (int_code 7 n)"
    by (cases "int_code 7 n") simp_all
  have here: "rd m q = Some (hd (int_code 7 n) OR h)" "code_here m (q + 1) (tl (int_code 7 n))"
    "code_here m (q + length (int_code 7 n)) body"
    using assms(2) unfolding c code_here_Cons code_here_append k by blast+
  have h: "h = 0 \<or> h = 128" using body by (auto split: if_splits)
  have "take_bit 7 h = 0" using h by auto
  then have tb: "take_bit 7 (hd (int_code 7 n) OR h) = hd (int_code 7 n)"
    using take_bit_hd_int_code [of 7 n] by (simp only: take_bit_or) simp
  show "hpack_decoder_decode_integer m q 7 = Some (int n)"
    by (rule decode_integer_correct [OF _ n(1) here(1) tb here(2)]) simp
  show "\<exists>b. rd m q = Some b \<and> b AND 128 = h"
    using here(1) h hd_int_code_and_128 [of n] by (auto simp: bit.conj_disj_distrib2)
  have len: "int (length c) = int n + int (length (int_code 7 n))"
    using hpack_string_length [OF assms(1)] by simp
  have u: "unat (of_nat n :: u32) = n" "unat (of_nat (length (int_code 7 n)) :: u32) = length (int_code 7 n)"
    using n(1) length_int_code(2) [OF n(1), of 7]
    by (auto intro!: unat_of_nat_u32 simp: HPACK_MAXIMUM_INTEGER_def)
  have size: "hpack_utils_encoded_integer_size (of_nat n) 7 = Some (of_nat (length (int_code 7 n)))"
    using encoded_integer_size_correct [of 7 "of_nat n"] n(1) unfolding u
    by (simp add: HPACK_MAXIMUM_INTEGER_def)
  show "hpack_decoder_decode_string out str_length m (q + length (int_code 7 n)) n h =
       Some (overwrite out 0 s, int (length c))"
  proof (cases "h = 0")
    case True
    with body have "body = s" by simp
    with here(3) n True size u(2) assms(3,4) show ?thesis unfolding len
      by (simp add: hpack_decoder_decode_string_def hpack_decoder_decode_non_huffman_string_def
          mem_read_def mem_write_def code_here_def del: of_nat_unat)
  next
    case False
    then have "holds_stream m (q + length (int_code 7 n)) n (huff_bits s)"
      using body here(3) n by (auto simp: holds_stream_def code_here_def HPACK_MAXIMUM_INTEGER_def)
    from decode_huffman_string_correct [OF this n(1) assms(3,4)] False show ?thesis unfolding len
      by (simp add: hpack_decoder_decode_string_def)
  qed
qed

subsubsection \<open>The encoder\<close>

lemma rd_c_string: "i < length s \<Longrightarrow> rd (s @ 0 # r) i = Some (s ! i)"
  by (simp add: rd_def nth_append)

lemma encode_huffman_word_loop_correct:
  assumes "length s = i + n" "length ws = length s"
  shows "encode_huffman_word_loop (s @ 0 # r) n i ws k =
    Some (take i ws @ map huff_word (drop i s), k + length (huff_bits (drop i s)))"
  using assms
proof (induction n arbitrary: i ws k)
  case (Suc n)
  have i: "i < length s" using Suc.prems by simp
  then have d: "drop i s = s ! i # drop (i + 1) s" by (metis Cons_nth_drop_Suc Suc_eq_plus1)
  have "take (i + 1) (ws[i := huff_word (s ! i)]) = take i ws @ [huff_word (s ! i)]"
    using i Suc.prems by (simp add: take_Suc_conv_app_nth)
  then show ?case using Suc.IH [of "i + 1" "ws[i := huff_word (s ! i)]"] Suc.prems i unfolding d
    by (simp add: rd_c_string rd_Some wr_Some encode_huff_word Let_def nth_append)
qed simp

lemma encode_huffman_word_correct:
  "hpack_encoder_encode_huffman_word (s @ 0 # r) (length s) (replicate (length s) w) =
    Some (map huff_word s, length (huff_bits s))"
  using encode_huffman_word_loop_correct [of s 0 "length s" "replicate (length s) w" r 0]
  by (simp add: hpack_encoder_encode_huffman_word_def)

lemma huff_bits_word_bits: "concat (map word_bits (map huff_word s)) = huff_bits s"
  by (simp add: huff_bits_def o_def)

lemma length_huff_bits_le: "length (huff_bits s) \<le> 30 * length s"
proof (induction s)
  case (Cons c s)
  then show ?case using huff_word_bounds(2) [of c] by simp
qed simp

text \<open>The bytes outside of a range are untouched.\<close>

definition same_outside :: "byte list \<Rightarrow> byte list \<Rightarrow> nat \<Rightarrow> nat \<Rightarrow> bool" where
  "same_outside m m' p e \<longleftrightarrow> length m' = length m \<and> (\<forall>i. i < p \<or> e \<le> i \<longrightarrow> rd m' i = rd m i)"

lemma same_outside_refl [simp]: "same_outside m m p e"
  by (simp add: same_outside_def)

lemma same_outside_trans: "same_outside m m' p e \<Longrightarrow> same_outside m' m'' p e \<Longrightarrow> same_outside m m'' p e"
  by (simp add: same_outside_def)

lemma same_outside_overwrite:
  "p \<le> i \<Longrightarrow> i + length ys \<le> e \<Longrightarrow> i + length ys \<le> length m \<Longrightarrow> same_outside m (overwrite m i ys) p e"
  by (auto simp: same_outside_def rd_overwrite)

lemma huffman_string_unfold:
  assumes "nul_free s" "n = (length (huff_bits s) + 7) div 8"
  shows "hpack_encoder_encode_huffman_string (s @ 0 # r) m p bs = do {
      (m, k) \<leftarrow> hpack_encoder_encode_integer (of_nat n) 7 m p;
      if k < 0 then Some (m, - 1) else if n + nat k \<ge> bs then Some (m, - 2)
      else do {
        (encoded_buffer, rc) \<leftarrow> hpack_encoder_pack_encoded_words_to_bytes (map huff_word s) (replicate n 0) n;
        b \<leftarrow> rd m p;
        m \<leftarrow> wr m p (b OR 128);
        m \<leftarrow> mem_write m (p + nat k) encoded_buffer;
        Some (m, int n + k)
      }
    }"
  using assms(1) unfolding hpack_encoder_encode_huffman_string_def assms(2)
  by (simp only: strlen_append encode_huffman_word_correct bind.bind_lunit Let_def ceil8(1) prod.case)

lemma huffman_string_packed:
  assumes "n = (length (huff_bits s) + 7) div 8"
  obtains buf where "hpack_encoder_pack_encoded_words_to_bytes (map huff_word s) (replicate n 0) n = Some (buf, 0)"
    "packs buf (huff_bits s)" "length buf = n"
proof -
  have "1 \<le> unat (hw_length w) \<and> unat (hw_length w) \<le> 32" if "w \<in> set (map huff_word s)" for w
  proof -
    from that obtain c where "w = huff_word c" by auto
    then show ?thesis using huff_word_bounds [of c] by simp
  qed
  from pack_encoded_words_correct [of "map huff_word s", OF this refl] that show ?thesis
    unfolding huff_bits_word_bits assms by (auto simp: packs_def)
qed

text \<open>The H flag is set in the first byte of the length prefix, then the packed string follows it.\<close>

lemma huffman_string_written:
  assumes "pre = b0 # bs0" "p + length pre + length buf \<le> length m"
  shows "rd (overwrite m p pre) p = Some b0"
    "wr (overwrite m p pre) p (b0 OR 128) = Some (overwrite m p ((b0 OR 128) # bs0))"
    "mem_write (overwrite m p ((b0 OR 128) # bs0)) (p + length pre) buf =
      Some (overwrite m p (((b0 OR 128) # bs0) @ buf))"
proof -
  show "rd (overwrite m p pre) p = Some b0" using assms by (simp add: rd_overwrite)
  show "wr (overwrite m p pre) p (b0 OR 128) = Some (overwrite m p ((b0 OR 128) # bs0))"
    using assms by (simp add: wr_def overwrite_def list_update_append)
  show "mem_write (overwrite m p ((b0 OR 128) # bs0)) (p + length pre) buf =
      Some (overwrite m p (((b0 OR 128) # bs0) @ buf))"
    using assms overwrite_overwrite_adjacent [of p "(b0 OR 128) # bs0" buf m] by (simp add: mem_write_def)
qed

lemma huffman_string_fits:
  assumes "nul_free s" "n = (length (huff_bits s) + 7) div 8" "n \<le> HPACK_MAXIMUM_INTEGER" "p + bs \<le> length m"
    "hpack_encoder_encode_integer (of_nat n) 7 m p = Some (overwrite m p (int_code 7 n), int (length (int_code 7 n)))"
    "n + length (int_code 7 n) < bs"
  shows "\<exists>c. hpack_encoder_encode_huffman_string (s @ 0 # r) m p bs = Some (overwrite m p c, int (length c)) \<and>
    hpack_string 128 n c s \<and> p + length c \<le> length m \<and> length c < bs"
proof -
  obtain b0 bs0 where ic: "int_code 7 n = b0 # bs0" by (cases "int_code 7 n") auto
  obtain buf where buf: "hpack_encoder_pack_encoded_words_to_bytes (map huff_word s) (replicate n 0) n = Some (buf, 0)"
    "packs buf (huff_bits s)" "length buf = n" by (rule huffman_string_packed [OF assms(2)])
  let ?c = "((b0 OR 128) # bs0) @ buf"
  have len: "length ?c = n + length (int_code 7 n)" by (simp add: ic buf(3))
  have "p + length (int_code 7 n) + length buf \<le> length m" unfolding buf(3) using assms(4,6) by linarith
  note wr = huffman_string_written [OF ic this]
  have "hpack_encoder_encode_huffman_string (s @ 0 # r) m p bs = Some (overwrite m p ?c, int (length ?c))"
    unfolding huffman_string_unfold [OF assms(1,2)] len using assms(5,6) buf(1) wr by simp
  moreover have "hpack_string 128 n ?c s" using assms(3) buf ic by (simp add: hpack_string_def)
  moreover have "p + length ?c \<le> length m" "length ?c < bs" unfolding len using assms(4,6) by linarith+
  ultimately show ?thesis by blast
qed

lemma encode_huffman_string_correct:
  assumes "nul_free s" "length s \<le> HPACK_MAXIMUM_INTEGER" "p + bs \<le> length m" "3 \<le> bs"
  shows "\<exists>m' rc. hpack_encoder_encode_huffman_string (s @ 0 # r) m p bs = Some (m', rc) \<and>
    same_outside m m' p (p + bs) \<and>
    (0 \<le> rc \<longrightarrow> (\<exists>n c. hpack_string 128 n c s \<and> code_here m' p c \<and> rc = int (length c) \<and> length c < bs))"
proof -
  define n where n: "n = (length (huff_bits s) + 7) div 8"
  have "n \<le> 30 * 4096" using length_huff_bits_le [of s] assms(2) by (simp add: HPACK_MAXIMUM_INTEGER_def n)
  then have u: "unat (of_nat n :: u32) = n" by (intro unat_of_nat_u32) simp
  note unfold = huffman_string_unfold [OF assms(1) n]
  show ?thesis
  proof (cases "n \<le> HPACK_MAXIMUM_INTEGER")
    case False
    then have "hpack_encoder_encode_integer (of_nat n) 7 m p = Some (m, - 1)"
      using encode_integer_refuses [of "of_nat n"] u by simp
    then show ?thesis unfolding unfold by simp
  next
    case True
    let ?ic = "int_code 7 n"
    have k: "length ?ic \<le> 3" by (rule length_int_code(2) [OF True])
    then have room: "p + length ?ic \<le> length m" using assms(3,4) by linarith
    have enc: "hpack_encoder_encode_integer (of_nat n) 7 m p = Some (overwrite m p ?ic, int (length ?ic))"
      using encode_integer_correct [of 7 "of_nat n" p m] True room unfolding u by simp
    show ?thesis
    proof (cases "n + length ?ic \<ge> bs")
      case True
      have "same_outside m (overwrite m p ?ic) p (p + bs)"
        using room k assms(4) by (intro same_outside_overwrite) auto
      with True enc show ?thesis unfolding unfold by simp
    next
      case False
      then obtain c where c: "hpack_encoder_encode_huffman_string (s @ 0 # r) m p bs = Some (overwrite m p c, int (length c))"
        "hpack_string 128 n c s" "p + length c \<le> length m" "length c < bs"
        using huffman_string_fits [OF assms(1) n True assms(3) enc] by auto
      moreover have "same_outside m (overwrite m p c) p (p + bs)"
        using c(3,4) by (intro same_outside_overwrite) auto
      ultimately show ?thesis using code_here_overwrite [OF c(3)] by blast
    qed
  qed
qed

lemma encode_non_huffman_string_correct:
  assumes "nul_free s" "length s \<le> HPACK_MAXIMUM_INTEGER" "p + bs \<le> length m" "3 \<le> bs"
  shows "\<exists>m'. hpack_encoder_encode_non_huffman_string (s @ 0 # r) m p bs =
      Some (m', if length (int_code 7 (length s)) + length s < bs
                then int (length (int_code 7 (length s)) + length s) else - 2) \<and>
    same_outside m m' p (p + bs) \<and>
    (length (int_code 7 (length s)) + length s < bs \<longrightarrow>
       (\<exists>c. hpack_string 0 (length s) c s \<and> code_here m' p c))"
proof -
  let ?n = "length s"
  let ?ic = "int_code 7 ?n"
  let ?k = "length ?ic" and ?c = "?ic @ s"
  have u: "unat (of_nat ?n :: u32) = ?n"
    using assms(2) by (intro unat_of_nat_u32) (simp add: HPACK_MAXIMUM_INTEGER_def)
  have k: "?k \<le> 3" by (rule length_int_code(2) [OF assms(2)])
  then have room: "p + ?k \<le> length m" using assms(3,4) by linarith
  have enc: "hpack_encoder_encode_integer (of_nat ?n) 7 m p = Some (overwrite m p ?ic, int ?k)"
    using encode_integer_correct [of 7 "of_nat ?n" p m] assms(2) room unfolding u by simp
  note defs = hpack_encoder_encode_non_huffman_string_def strlen_append [OF assms(1)]
  show ?thesis
  proof (cases "?k + ?n < bs")
    case True
    then have cfits: "p + length ?c \<le> length m" using assms(3) by simp
    have wrb: "mem_write (overwrite m p ?ic) (p + ?k) s = Some (overwrite m p ?c)"
      using overwrite_overwrite_adjacent [of p ?ic s m] cfits by (simp add: mem_write_def)
    have "hpack_encoder_encode_non_huffman_string (s @ 0 # r) m p bs = Some (overwrite m p ?c, int (?k + ?n))"
      unfolding defs using enc wrb True by (simp add: mem_read_def)
    moreover have "hpack_string 0 ?n ?c s"
      using assms(2) by (cases ?ic) (simp_all add: hpack_string_def)
    moreover have "code_here (overwrite m p ?c) p ?c" by (rule code_here_overwrite [OF cfits])
    moreover have "same_outside m (overwrite m p ?c) p (p + bs)"
      using cfits True by (intro same_outside_overwrite) auto
    ultimately show ?thesis using True by auto
  next
    case False
    have "same_outside m (overwrite m p ?ic) p (p + bs)"
      using room k assms(4) by (intro same_outside_overwrite) auto
    with False enc show ?thesis unfolding defs by simp
  qed
qed

lemma encode_string_correct:
  assumes "nul_free s" "length s \<le> HPACK_MAXIMUM_INTEGER" "p + bs \<le> length m" "3 \<le> bs"
  shows "\<exists>m' rc. hpack_encoder_encode_string (s @ 0 # r) m p bs = Some (m', rc) \<and>
    same_outside m m' p (p + bs) \<and>
    (if 0 \<le> rc then \<exists>h n c. hpack_string h n c s \<and> code_here m' p c \<and> rc = int (length c) \<and> length c < bs
     else rc = - 2 \<and> bs \<le> length (int_code 7 (length s)) + length s)"
proof -
  obtain m1 rc1 where h: "hpack_encoder_encode_huffman_string (s @ 0 # r) m p bs = Some (m1, rc1)"
    "same_outside m m1 p (p + bs)"
    "0 \<le> rc1 \<longrightarrow> (\<exists>n c. hpack_string 128 n c s \<and> code_here m1 p c \<and> rc1 = int (length c) \<and> length c < bs)"
    using encode_huffman_string_correct [OF assms] by blast
  show ?thesis
  proof (cases "rc1 < 0 \<or> int (length s) < rc1")
    case False
    then have "hpack_encoder_encode_string (s @ 0 # r) m p bs = Some (m1, rc1)"
      using h(1) assms(1) by (simp add: hpack_encoder_encode_string_def)
    with False h show ?thesis by fastforce
  next
    case True
    then have e: "hpack_encoder_encode_string (s @ 0 # r) m p bs =
        hpack_encoder_encode_non_huffman_string (s @ 0 # r) m1 p bs"
      using h(1) assms(1) by (simp add: hpack_encoder_encode_string_def)
    have "p + bs \<le> length m1" using assms(3) h(2) by (simp add: same_outside_def)
    from encode_non_huffman_string_correct [OF assms(1,2) this assms(4), of r] obtain m' where
      n: "hpack_encoder_encode_non_huffman_string (s @ 0 # r) m1 p bs =
        Some (m', if length (int_code 7 (length s)) + length s < bs
                then int (length (int_code 7 (length s)) + length s) else - 2)"
      "same_outside m1 m' p (p + bs)"
      "length (int_code 7 (length s)) + length s < bs \<longrightarrow>
         (\<exists>c. hpack_string 0 (length s) c s \<and> code_here m' p c)"
      by blast
    have so: "same_outside m m' p (p + bs)" by (rule same_outside_trans [OF h(2) n(2)])
    show ?thesis
    proof (cases "length (int_code 7 (length s)) + length s < bs")
      case True
      with n(3) obtain c where c: "hpack_string 0 (length s) c s" "code_here m' p c" by blast
      have "hpack_encoder_encode_string (s @ 0 # r) m p bs = Some (m', int (length c))" "length c < bs"
        unfolding e using n(1) True hpack_string_length [OF c(1)] by simp_all
      with c so show ?thesis by (intro exI [of _ m'] exI [of _ "int (length c)"]) auto
    next
      case False
      with n(1) so show ?thesis unfolding e by auto
    qed
  qed
qed

text \<open>
  Claim C5. Round trip of strings: for every string without a zero byte whose plain representation fits
  the buffer, \<open>hpack_encoder_encode_string\<close> succeeds without touching the memory outside of the
  buffer it was given, whether it chose the Huffman code or not; decoding the length it wrote and then
  the string gives back exactly the string and the number of bytes that were written, for every
  output buffer that can hold it.
\<close>

theorem string_roundtrip:
  assumes "nul_free s" "length s \<le> HPACK_MAXIMUM_INTEGER" "p + bs \<le> length m"
    "length s + 3 < bs" "length s \<le> length out" "length s \<le> str_length"
  shows "\<exists>m' rc b n k. hpack_encoder_encode_string (s @ 0 # r) m p bs = Some (m', int rc) \<and> rc < bs \<and>
    length m' = length m \<and> (\<forall>i. i < p \<or> p + bs \<le> i \<longrightarrow> rd m' i = rd m i) \<and>
    rd m' p = Some b \<and> hpack_decoder_decode_integer m' p 7 = Some (int n) \<and>
    hpack_utils_encoded_integer_size (of_nat n) 7 = Some (of_nat k) \<and> rc = k + n \<and>
    hpack_decoder_decode_string out str_length m' (p + k) n (b AND 128) = Some (s @ drop (length s) out, int rc)"
proof -
  have "length (int_code 7 (length s)) \<le> 3" by (rule length_int_code(2) [OF assms(2)])
  then have fits: "\<not> bs \<le> length (int_code 7 (length s)) + length s" "3 \<le> bs" using assms(4) by linarith+
  obtain m' rc where e: "hpack_encoder_encode_string (s @ 0 # r) m p bs = Some (m', rc)"
    "same_outside m m' p (p + bs)"
    "if 0 \<le> rc then \<exists>h n c. hpack_string h n c s \<and> code_here m' p c \<and> rc = int (length c) \<and> length c < bs
     else rc = - 2 \<and> bs \<le> length (int_code 7 (length s)) + length s"
    using encode_string_correct [OF assms(1-3) fits(2)] by blast
  then obtain h n c where c: "hpack_string h n c s" "code_here m' p c" "rc = int (length c)" "length c < bs"
    using fits(1) by (auto split: if_splits)
  have n: "n \<le> HPACK_MAXIMUM_INTEGER" using c(1) by (simp add: hpack_string_def)
  then have u: "unat (of_nat n :: u32) = n"
    by (intro unat_of_nat_u32) (simp add: HPACK_MAXIMUM_INTEGER_def)
  have size: "hpack_utils_encoded_integer_size (of_nat n) 7 = Some (of_nat (length (int_code 7 n)))"
    using encoded_integer_size_correct [of 7 "of_nat n"] n unfolding u
    by (simp add: HPACK_MAXIMUM_INTEGER_def)
  note d = decode_string_correct [OF c(1,2) assms(5,6)]
  have "overwrite out 0 s = s @ drop (length s) out" by (simp add: overwrite_def)
  moreover obtain b where b: "rd m' p = Some b" "b AND 128 = h" using d(2) by blast
  moreover note d(1,3) e(1,2) [unfolded c(3) same_outside_def] c(4) hpack_string_length [OF c(1)] size
  ultimately show ?thesis
    by (intro exI [of _ m'] exI [of _ "length c"] exI [of _ b] exI [of _ n]
        exI [of _ "length (int_code 7 n)"]) simp
qed

lemma string_roundtrip_witness:
  "\<exists>m' rc b n k. hpack_encoder_encode_string (lit ''gzip'' @ 0 # [7]) (replicate 12 9) 1 8 = Some (m', int rc) \<and>
    rc < 8 \<and> length m' = length (replicate 12 (9 :: byte)) \<and>
    (\<forall>i. i < 1 \<or> 1 + 8 \<le> i \<longrightarrow> rd m' i = rd (replicate 12 9) i) \<and>
    rd m' 1 = Some b \<and> hpack_decoder_decode_integer m' 1 7 = Some (int n) \<and>
    hpack_utils_encoded_integer_size (of_nat n) 7 = Some (of_nat k) \<and> rc = k + n \<and>
    hpack_decoder_decode_string (replicate 5 0) 5 m' (1 + k) n (b AND 128) =
      Some (lit ''gzip'' @ drop (length (lit ''gzip'')) (replicate 5 0), int rc)"
  by (rule string_roundtrip) (simp_all add: lit_def HPACK_MAXIMUM_INTEGER_def)

subsection \<open>Inputs the decoder should refuse\<close>

lemmas decode_huffman_eval =
  hpack_decoder_decode_huffman_string_def decode_huffman_loop.simps hpack_decoder_decode_huffman_word_def
  huffman_word_window_def hpack_decoder_read_bits_from_bytes_def hpack_huffman_decode_def
  huffman_length_loop.simps NUMBER_OF_CODE_LENGTHS_def huffman_C_def huffman_F_def huffman_L_def
  HUFFMAN_TABLE_SIZE_def hpack_utils_encoded_integer_size_def rd_def wr_def signed_divide_int_def

text \<open>
  The window is filled up with ones, so a code that is cut off by the end of the string still decodes:
  the 16 bits below are the code of a colon and the first 9 of the 11 bits of the code of a plus sign.
\<close>

lemma truncated_code_accepted:
  "hpack_decoder_decode_huffman_string [0, 0, 0] 3 [0xB9, 0xFE] 0 2 = Some ([58, 43, 0], 3)"
  by (simp add: decode_huffman_eval)

text \<open>
  The output index is compared with \<open>str_length < i\<close>: a string of two symbols is decoded into a buffer of
  one byte, and the second symbol is written behind it.
\<close>

lemma decode_huffman_string_overflow:
  "hpack_decoder_decode_huffman_string [0] 1 [0x18, 0xFF] 0 2 = None"
  by (simp add: decode_huffman_eval)

end
