(* ===== verification/Dynamic_Table.thy ===== *)
theory Dynamic_Table
  imports Hpack_Utils
begin

text \<open>
  \<open>src/src/hpack/tables.c\<close>, the dynamic table of HPACK: a ring of \<open>max_size\<close> bytes at the start of
  \<open>buffer\<close>. An entry is stored as a zero, its name, a zero and its value; the zero that ends the value of
  an entry is the first zero of the next one. \<open>first\<close> is the zero in front of the oldest entry and
  \<open>next\<close> the zero behind the newest.

  The abstraction is the list of entries, newest first, as RFC 7541 numbers them. \<open>dt_rel\<close> relates the
  ring to that list; every operation is shown to refine its counterpart on lists: look-up, eviction,
  insertion and resizing.
\<close>

record hpack_dynamic_table =
  dt_max_size :: nat
  dt_first :: nat
  dt_next :: nat
  dt_actual_size :: nat
  dt_n_entries :: nat
  dt_settings_max_table_size :: nat
  dt_buffer :: "byte list"

text \<open>
  \<open>buffer[k % max_size]\<close>: \<open>%\<close> by zero is undefined, and a negative remainder is an index outside of
  the array.
\<close>

definition dt_read :: "hpack_dynamic_table \<Rightarrow> int \<Rightarrow> byte option" where
  "dt_read t k = do {
     j \<leftarrow> c_rem k (int (dt_max_size t));
     guard (0 \<le> j);
     rd (dt_buffer t) (nat j)
   }"

definition dt_write :: "hpack_dynamic_table \<Rightarrow> int \<Rightarrow> byte \<Rightarrow> hpack_dynamic_table option" where
  "dt_write t k b = do {
     j \<leftarrow> c_rem k (int (dt_max_size t));
     guard (0 \<le> j);
     buf \<leftarrow> wr (dt_buffer t) (nat j) b;
     Some (t\<lparr>dt_buffer := buf\<rparr>)
   }"

text \<open>
  A loop \<open>for (i = 1; i < max_size; i++)\<close> is a recursion on the number of iterations that are left.
\<close>

fun pos_of_index_loop :: "hpack_dynamic_table \<Rightarrow> nat \<Rightarrow> nat \<Rightarrow> nat \<Rightarrow> nat \<Rightarrow> nat \<Rightarrow> int option" where
  "pos_of_index_loop t index 0 i entries_counter counter0 = Some HPACK_INTERNAL_ERROR"
| "pos_of_index_loop t index (Suc n) i entries_counter counter0 = do {
     b \<leftarrow> dt_read t (int (dt_next t) - int i + int (dt_max_size t));
     let counter0 = (if b = 0 then counter0 + 1 else counter0);
     let entries_counter = (if b = 0 \<and> counter0 mod 2 = 0 then entries_counter + 1 else entries_counter);
     if entries_counter = index - 61 then Some (int i)
     else pos_of_index_loop t index n (i + 1) entries_counter counter0
   }"

definition hpack_tables_dynamic_pos_of_index :: "hpack_dynamic_table \<Rightarrow> nat \<Rightarrow> int option" where
  "hpack_tables_dynamic_pos_of_index t index = do {
     guard (index > 61);
     pos_of_index_loop t index (dt_max_size t - 1) 1 0 0
   }"

fun copy_to_ext_loop ::
  "hpack_dynamic_table \<Rightarrow> int \<Rightarrow> nat \<Rightarrow> nat \<Rightarrow> byte list \<Rightarrow> (byte list \<times> int) option" where
  "copy_to_ext_loop t initial_position 0 i ext_buffer = Some (ext_buffer, HPACK_INTERNAL_ERROR)"
| "copy_to_ext_loop t initial_position (Suc n) i ext_buffer = do {
     b \<leftarrow> dt_read t (int (dt_next t) - initial_position + int i + int (dt_max_size t));
     if b = 0 then do {
       ext_buffer \<leftarrow> wr ext_buffer (i - 1) 0;
       Some (ext_buffer, initial_position - int i)
     }
     else do {
       ext_buffer \<leftarrow> wr ext_buffer (i - 1) b;
       copy_to_ext_loop t initial_position n (i + 1) ext_buffer
     }
   }"

definition hpack_tables_dynamic_copy_to_ext ::
  "hpack_dynamic_table \<Rightarrow> int \<Rightarrow> byte list \<Rightarrow> (byte list \<times> int) option" where
  "hpack_tables_dynamic_copy_to_ext t initial_position ext_buffer =
     copy_to_ext_loop t initial_position (dt_max_size t - 1) 1 ext_buffer"

text \<open>
  \<open>buffer\<close> is a C string; \<open>initial_position\<close> is a \<open>uint16_t\<close>. The length of the string and the result
  are converted to \<open>int16_t\<close>: of a string with \<open>65536 + k\<close> bytes only the first \<open>k\<close> are compared, and
  with a length that is negative as an \<open>int16_t\<close> nothing is.
\<close>

fun compare_string_loop :: "hpack_dynamic_table \<Rightarrow> nat \<Rightarrow> byte list \<Rightarrow> nat \<Rightarrow> nat \<Rightarrow> bool option" where
  "compare_string_loop t initial_position buffer 0 i = Some True"
| "compare_string_loop t initial_position buffer (Suc n) i = do {
     c \<leftarrow> rd buffer i;
     b \<leftarrow> dt_read t (int (dt_next t) - int initial_position + 1 + int i + int (dt_max_size t));
     if c \<noteq> b then Some False else compare_string_loop t initial_position buffer n (i + 1)
   }"

definition hpack_tables_dynamic_compare_string :: "hpack_dynamic_table \<Rightarrow> nat \<Rightarrow> byte list \<Rightarrow> int option" where
  "hpack_tables_dynamic_compare_string t initial_position buffer = do {
     len \<leftarrow> strlen buffer;
     let max_size = int16 (int len);
     eq \<leftarrow> compare_string_loop t initial_position buffer (nat max_size) 0;
     Some (if eq then int16 (max_size + 1) else - 1)
   }"

fun copy_from_ext_loop ::
  "hpack_dynamic_table \<Rightarrow> int \<Rightarrow> byte list \<Rightarrow> nat \<Rightarrow> nat \<Rightarrow> (hpack_dynamic_table \<times> int) option" where
  "copy_from_ext_loop t initial_position ext_buffer 0 i = Some (t, HPACK_INTERNAL_ERROR)"
| "copy_from_ext_loop t initial_position ext_buffer (Suc n) i = do {
     c \<leftarrow> rd ext_buffer (i - 1);
     if c = 0 then do {
       t \<leftarrow> dt_write t (int (dt_next t) + initial_position + int i + int (dt_max_size t)) 0;
       Some (t, initial_position + int i)
     }
     else do {
       t \<leftarrow> dt_write t (int (dt_next t) + initial_position + int i + int (dt_max_size t)) c;
       copy_from_ext_loop t initial_position ext_buffer n (i + 1)
     }
   }"

definition hpack_tables_dynamic_copy_from_ext ::
  "hpack_dynamic_table \<Rightarrow> int \<Rightarrow> byte list \<Rightarrow> (hpack_dynamic_table \<times> int) option" where
  "hpack_tables_dynamic_copy_from_ext t initial_position ext_buffer = do {
     t \<leftarrow> dt_write t (int (dt_next t) + initial_position + int (dt_max_size t)) 0;
     copy_from_ext_loop t initial_position ext_buffer (dt_max_size t - 1) 1
   }"

fun pop_loop :: "hpack_dynamic_table \<Rightarrow> nat \<Rightarrow> nat \<Rightarrow> nat \<Rightarrow> nat \<Rightarrow> (hpack_dynamic_table \<times> int) option" where
  "pop_loop t 0 i entry_length counter0 = Some (t, HPACK_INTERNAL_ERROR)"
| "pop_loop t (Suc n) i entry_length counter0 = do {
     b \<leftarrow> dt_read t (int (dt_first t) + int i + int (dt_max_size t));
     if b = 0 then
       if counter0 + 1 = 2 then do {
         first \<leftarrow> c_rem (int (dt_first t) + int i + int (dt_max_size t)) (int (dt_max_size t));
         Some (t\<lparr>dt_first := nat first,
                 dt_actual_size := nat ((int (dt_actual_size t) - (int entry_length + 32)) mod 2 ^ 16),
                 dt_n_entries := nat ((int (dt_n_entries t) - 1) mod 2 ^ 16)\<rparr>, 0)
       }
       else pop_loop t n (i + 1) entry_length (counter0 + 1)
     else pop_loop t n (i + 1) (entry_length + 1) counter0
   }"

definition hpack_tables_dynamic_pop :: "hpack_dynamic_table \<Rightarrow> (hpack_dynamic_table \<times> int) option" where
  "hpack_tables_dynamic_pop t =
     (if dt_n_entries t = 0 then Some (t, HPACK_INTERNAL_ERROR)
      else pop_loop t (dt_max_size t - 1) 1 0 0)"

text \<open>\<open>index - 61\<close> is unsigned; the callers pass an index of at least 62.\<close>

definition hpack_tables_dynamic_find_entry_name_and_value ::
  "hpack_dynamic_table \<Rightarrow> nat \<Rightarrow> byte list \<Rightarrow> byte list \<Rightarrow> (byte list \<times> byte list \<times> int) option" where
  "hpack_tables_dynamic_find_entry_name_and_value t index name val =
     (if int (dt_n_entries t) < (int index - 61) mod 2 ^ 32 then Some (name, val, HPACK_COMPRESSION_ERROR)
      else do {
        initial_position \<leftarrow> hpack_tables_dynamic_pos_of_index t index;
        if initial_position < 0 then Some (name, val, HPACK_INTERNAL_ERROR)
        else do {
          (name, initial_position) \<leftarrow> hpack_tables_dynamic_copy_to_ext t initial_position name;
          if initial_position < 0 then Some (name, val, HPACK_INTERNAL_ERROR)
          else do {
            (val, rc) \<leftarrow> hpack_tables_dynamic_copy_to_ext t initial_position val;
            if rc < 0 then Some (name, val, HPACK_INTERNAL_ERROR) else Some (name, val, 0)
          }
        }
      })"

definition hpack_tables_dynamic_find_entry_name ::
  "hpack_dynamic_table \<Rightarrow> nat \<Rightarrow> byte list \<Rightarrow> (byte list \<times> int) option" where
  "hpack_tables_dynamic_find_entry_name t index name =
     (if int (dt_n_entries t) < (int index - 61) mod 2 ^ 32 then Some (name, HPACK_COMPRESSION_ERROR)
      else do {
        initial_position \<leftarrow> hpack_tables_dynamic_pos_of_index t index;
        if initial_position < 0 then Some (name, HPACK_INTERNAL_ERROR)
        else do {
          (name, rc) \<leftarrow> hpack_tables_dynamic_copy_to_ext t initial_position name;
          if rc < 0 then Some (name, HPACK_INTERNAL_ERROR) else Some (name, 0)
        }
      })"

text \<open>
  The eviction loops of \<open>resize\<close> and \<open>add_entry\<close> ignore the result of \<open>pop\<close>, so a failing \<open>pop\<close> repeats
  forever; not returning is \<open>None\<close>.
\<close>

partial_function (option) evict_loop :: "hpack_dynamic_table \<Rightarrow> nat \<Rightarrow> nat \<Rightarrow> hpack_dynamic_table option" where
  "evict_loop t extra limit =
     (if extra + dt_actual_size t > limit then do {
        (t, rc) \<leftarrow> hpack_tables_dynamic_pop t;
        evict_loop t extra limit
      }
      else Some t)"

declare evict_loop.simps [code]

text \<open>
  \<open>for (i = 0; i < n; i++) dst[i + d] = src[i + s]\<close> for arrays, in ascending order; \<open>move_up\<close> is the loop
  that copies from right to left.
\<close>

fun move_down :: "byte list \<Rightarrow> nat \<Rightarrow> nat \<Rightarrow> nat \<Rightarrow> nat \<Rightarrow> byte list option" where
  "move_down buf d s 0 i = Some buf"
| "move_down buf d s (Suc n) i = do {
     b \<leftarrow> rd buf (i + s);
     buf \<leftarrow> wr buf (i + d) b;
     move_down buf d s n (i + 1)
   }"

fun move_up :: "byte list \<Rightarrow> nat \<Rightarrow> nat \<Rightarrow> byte list option" where
  "move_up buf shift 0 = Some buf"
| "move_up buf shift (Suc n) = do {
     b \<leftarrow> rd buf n;
     buf \<leftarrow> wr buf (n + shift) b;
     move_up buf shift n
   }"

definition hpack_tables_dynamic_table_resize ::
  "hpack_dynamic_table \<Rightarrow> nat \<Rightarrow> (hpack_dynamic_table \<times> int) option" where
  "hpack_tables_dynamic_table_resize t new_max_size =
     (if new_max_size > dt_settings_max_table_size t then Some (t, HPACK_COMPRESSION_ERROR)
      else do {
        t \<leftarrow> evict_loop t 0 new_max_size;
        t \<leftarrow>
          (if dt_next t \<le> dt_first t then
             if dt_n_entries t = 0 then Some (t\<lparr>dt_first := 0, dt_next := 0\<rparr>)
             else if int (dt_next t) \<le> int (dt_max_size t) - int (dt_first t) then do {
               aux_buffer \<leftarrow> mem_read (dt_buffer t) 0 (dt_next t + 1);
               let shift = dt_first t;
               buf \<leftarrow> move_down (dt_buffer t) 0 shift (dt_max_size t - dt_first t) 0;
               let next_pos = dt_max_size t - dt_first t;
               buf \<leftarrow> mem_write buf next_pos aux_buffer;
               Some (t\<lparr>dt_buffer := buf, dt_first := dt_first t - shift, dt_next := next_pos + dt_next t,
                       dt_max_size := new_max_size mod 2 ^ 16\<rparr>)
             }
             else do {
               let shift = dt_max_size t - dt_first t;
               aux_buffer \<leftarrow> mem_read (dt_buffer t) (dt_first t) shift;
               buf \<leftarrow> move_up (dt_buffer t) shift (dt_next t + 1);
               buf \<leftarrow> mem_write buf 0 aux_buffer;
               Some (t\<lparr>dt_buffer := buf, dt_first := 0, dt_next := shift + dt_next t\<rparr>)
             }
           else do {
             let shift = dt_first t;
             buf \<leftarrow> move_down (dt_buffer t) 0 shift (dt_next t - dt_first t + 1) 0;
             Some (t\<lparr>dt_buffer := buf, dt_first := dt_first t - shift, dt_next := dt_next t - shift\<rparr>)
           });
        Some (t\<lparr>dt_max_size := new_max_size mod 2 ^ 16\<rparr>, 0)
      })"

definition hpack_tables_dynamic_table_add_entry ::
  "hpack_dynamic_table \<Rightarrow> byte list \<Rightarrow> byte list \<Rightarrow> (hpack_dynamic_table \<times> int) option" where
  "hpack_tables_dynamic_table_add_entry t name val = do {
     name_length \<leftarrow> strlen name;
     value_length \<leftarrow> strlen val;
     let entry_size = (name_length + value_length + 32) mod 2 ^ 16;
     if entry_size > dt_max_size t then Some (t, HPACK_INTERNAL_ERROR)
     else do {
       t \<leftarrow> evict_loop t entry_size (dt_max_size t);
       (t, continue_pos) \<leftarrow> hpack_tables_dynamic_copy_from_ext t 0 name;
       if continue_pos < 0 then Some (t, continue_pos)
       else do {
         (t, continue_pos) \<leftarrow> hpack_tables_dynamic_copy_from_ext t continue_pos val;
         if continue_pos < 0 then Some (t, continue_pos)
         else do {
           next \<leftarrow> c_rem (int (dt_next t) + continue_pos + int (dt_max_size t)) (int (dt_max_size t));
           Some (t\<lparr>dt_n_entries := (dt_n_entries t + 1) mod 2 ^ 16,
                   dt_actual_size := (dt_actual_size t + entry_size) mod 2 ^ 16,
                   dt_next := nat next\<rparr>, 0)
         }
       }
     }
   }"

definition hpack_tables_init_dynamic_table ::
  "hpack_dynamic_table \<Rightarrow> nat \<Rightarrow> hpack_dynamic_table option" where
  "hpack_tables_init_dynamic_table t dynamic_table_max_size = do {
     buf \<leftarrow> mem_write (dt_buffer t) 0 (replicate dynamic_table_max_size 0);
     let max_size = dynamic_table_max_size mod 2 ^ 16;
     Some (t\<lparr>dt_buffer := buf, dt_settings_max_table_size := max_size, dt_max_size := max_size,
             dt_actual_size := 0, dt_n_entries := 0, dt_first := 0, dt_next := 0\<rparr>)
   }"

text \<open>The loops are unfolded on purpose only.\<close>

declare pos_of_index_loop.simps(2) [simp del] copy_to_ext_loop.simps(2) [simp del]
  compare_string_loop.simps(2) [simp del] copy_from_ext_loop.simps(2) [simp del]
  pop_loop.simps(2) [simp del]

subsection \<open>Abstraction: the list of entries, newest first\<close>

type_synonym entry = "byte list \<times> byte list"

definition entry_size :: "entry \<Rightarrow> nat" where
  "entry_size e = length (fst e) + length (snd e) + 32"

definition table_size :: "entry list \<Rightarrow> nat" where
  "table_size es = sum_list (map entry_size es)"

definition entry_ok :: "entry \<Rightarrow> bool" where
  "entry_ok e \<longleftrightarrow> nul_free (fst e) \<and> nul_free (snd e)"

text \<open>The bytes of the entries in the ring, from the oldest one.\<close>

definition entry_bytes :: "entry \<Rightarrow> byte list" where
  "entry_bytes e = fst e @ 0 # snd e @ [0]"

definition layout :: "entry list \<Rightarrow> byte list" where
  "layout es = 0 # concat (map entry_bytes (rev es))"

definition ring_here :: "byte list \<Rightarrow> nat \<Rightarrow> nat \<Rightarrow> byte list \<Rightarrow> bool" where
  "ring_here buf M k xs \<longleftrightarrow> 0 < M \<and> M \<le> length buf \<and> (\<forall>i < length xs. buf ! ((k + i) mod M) = xs ! i)"

definition dt_rel :: "hpack_dynamic_table \<Rightarrow> entry list \<Rightarrow> bool" where
  "dt_rel t es \<longleftrightarrow>
     dt_max_size t \<le> length (dt_buffer t) \<and>
     dt_settings_max_table_size t \<le> length (dt_buffer t) \<and> length (dt_buffer t) < 2 ^ 15 \<and>
     dt_first t < max 1 (dt_max_size t) \<and>
     dt_next t = (dt_first t + length (layout es) - 1) mod dt_max_size t \<and>
     dt_n_entries t = length es \<and> dt_actual_size t = table_size es \<and> table_size es \<le> dt_max_size t \<and>
     list_all entry_ok es \<and>
     (es \<noteq> [] \<longrightarrow> ring_here (dt_buffer t) (dt_max_size t) (dt_first t) (layout es))"

lemma table_size_simps [simp]:
  "table_size [] = 0" "table_size (e # es) = entry_size e + table_size es"
  "table_size (es @ es') = table_size es + table_size es'"
  by (simp_all add: table_size_def)

lemma length_entry_bytes [simp]: "length (entry_bytes e) = length (fst e) + length (snd e) + 2"
  by (simp add: entry_bytes_def)

lemma layout_Nil [simp]: "layout [] = [0]"
  by (simp add: layout_def)

lemma layout_Cons: "layout (e # es) = layout es @ entry_bytes e"
  by (simp add: layout_def)

lemma layout_snoc: "layout (es @ [e]) = 0 # entry_bytes e @ tl (layout es)"
  by (simp add: layout_def)

lemma layout_split: "layout (es @ es') = layout es' @ tl (layout es)"
  by (induction es) (simp_all add: layout_Cons, simp add: layout_def)

lemma length_layout: "length (layout es) + 30 * length es = table_size es + 1"
  by (induction es) (simp_all add: layout_Cons entry_size_def)

lemma layout_not_Nil [simp]: "layout es \<noteq> []"
  by (simp add: layout_def)

lemma length_layout_pos [simp]: "0 < length (layout es)"
  by simp

lemma last_layout: "layout es ! (length (layout es) - 1) = 0"
  by (cases es) (simp_all add: layout_Cons entry_bytes_def nth_append)

lemma first_layout: "layout es ! 0 = 0"
  by (simp add: layout_def)

text \<open>The bytes never fill the ring: every entry counts 32 bytes of overhead and uses two.\<close>

lemma dt_relD:
  assumes "dt_rel t es"
  shows "dt_max_size t \<le> length (dt_buffer t)" "dt_max_size t < 2 ^ 15"
    "dt_next t = (dt_first t + length (layout es) - 1) mod dt_max_size t"
    "dt_n_entries t = length es" "dt_actual_size t = table_size es" "table_size es \<le> dt_max_size t"
    "\<And>e. e \<in> set es \<Longrightarrow> entry_ok e"
    "es \<noteq> [] \<Longrightarrow> ring_here (dt_buffer t) (dt_max_size t) (dt_first t) (layout es)"
    "es \<noteq> [] \<Longrightarrow> length (layout es) + 29 \<le> dt_max_size t"
    "es \<noteq> [] \<Longrightarrow> dt_first t < dt_max_size t"
proof -
  show "dt_max_size t \<le> length (dt_buffer t)" "dt_max_size t < 2 ^ 15"
    "dt_next t = (dt_first t + length (layout es) - 1) mod dt_max_size t"
    "dt_n_entries t = length es" "dt_actual_size t = table_size es" "table_size es \<le> dt_max_size t"
    "\<And>e. e \<in> set es \<Longrightarrow> entry_ok e"
    "es \<noteq> [] \<Longrightarrow> ring_here (dt_buffer t) (dt_max_size t) (dt_first t) (layout es)"
    using assms by (auto simp: dt_rel_def list_all_iff)
  assume "es \<noteq> []"
  then have "1 \<le> length es" by (cases es) auto
  moreover have "table_size es \<le> dt_max_size t" using assms by (simp add: dt_rel_def)
  ultimately show "length (layout es) + 29 \<le> dt_max_size t"
    using length_layout [of es] by linarith
  with assms show "dt_first t < dt_max_size t" by (auto simp: dt_rel_def)
qed

lemma ring_here_nth: "ring_here buf M k xs \<Longrightarrow> i < length xs \<Longrightarrow> buf ! ((k + i) mod M) = xs ! i"
  by (simp add: ring_here_def)

lemma ring_here_Nil [simp]: "ring_here buf M k [] \<longleftrightarrow> 0 < M \<and> M \<le> length buf"
  by (simp add: ring_here_def)

lemma ring_here_append:
  "ring_here buf M k (xs @ ys) \<longleftrightarrow> ring_here buf M k xs \<and> ring_here buf M ((k + length xs) mod M) ys"
proof -
  have e: "((k + length xs) mod M + j) mod M = (k + (length xs + j)) mod M" for j
    by (simp only: mod_add_left_eq add.assoc)
  have "(\<forall>i < length (xs @ ys). buf ! ((k + i) mod M) = (xs @ ys) ! i) \<longleftrightarrow>
      (\<forall>i < length xs. buf ! ((k + i) mod M) = xs ! i) \<and>
      (\<forall>j < length ys. buf ! ((k + (length xs + j)) mod M) = ys ! j)" (is "?l \<longleftrightarrow> ?r1 \<and> ?r2")
  proof (intro iffI conjI allI impI)
    show "buf ! ((k + i) mod M) = xs ! i" if ?l "i < length xs" for i
      using that by (auto simp: nth_append)
    show "buf ! ((k + (length xs + j)) mod M) = ys ! j" if ?l "j < length ys" for j
      using that by (metis add_less_cancel_left length_append nth_append_length_plus)
    show "buf ! ((k + i) mod M) = (xs @ ys) ! i" if "?r1 \<and> ?r2" "i < length (xs @ ys)" for i
    proof (cases "i < length xs")
      case False
      then have "i = length xs + (i - length xs)" "i - length xs < length ys" using that(2) by auto
      with that(1) show ?thesis by (metis nth_append_length_plus)
    qed (use that in \<open>simp add: nth_append\<close>)
  qed
  then show ?thesis unfolding ring_here_def e by blast
qed

text \<open>Writing behind the bytes extends them.\<close>

lemma ring_here_snoc:
  assumes "ring_here buf M k xs" "length xs < M"
  shows "ring_here (buf[(k + length xs) mod M := b]) M k (xs @ [b])"
proof -
  have M: "0 < M" "M \<le> length buf" using assms(1) by (auto simp: ring_here_def)
  have lt: "(k + i) mod M < length buf" for i using M by (meson less_le_trans mod_less_divisor)
  have ne: "(k + i) mod M \<noteq> (k + length xs) mod M" if "i < length xs" for i
  proof
    assume "(k + i) mod M = (k + length xs) mod M"
    then have "(int k + int i) mod int M = (int k + int (length xs)) mod int M"
      by (metis of_nat_add of_nat_mod)
    from mod_add_cancel_bounded [OF this] assms(2) that show False by simp
  qed
  have "buf[(k + length xs) mod M := b] ! ((k + i) mod M) = (xs @ [b]) ! i" if "i < length (xs @ [b])" for i
  proof (cases "i = length xs")
    case True
    with lt show ?thesis by simp
  next
    case False
    with that have i: "i < length xs" by simp
    with ne [OF i] ring_here_nth [OF assms(1) i] show ?thesis by (simp add: nth_append)
  qed
  with M show ?thesis by (simp add: ring_here_def)
qed

subsection \<open>Reading the ring\<close>

lemma dt_read_ring:
  assumes "ring_here (dt_buffer t) (dt_max_size t) k xs" "i < length xs" "0 \<le> z"
    "z mod int (dt_max_size t) = (int k + int i) mod int (dt_max_size t)"
  shows "dt_read t z = Some (xs ! i)"
proof -
  let ?M = "dt_max_size t"
  have M: "0 < ?M" "?M \<le> length (dt_buffer t)" using assms(1) by (auto simp: ring_here_def)
  have "(int k + int i) mod int ?M = int ((k + i) mod ?M)" by (simp add: zmod_int)
  moreover have "(k + i) mod ?M < length (dt_buffer t)" using M by (meson less_le_trans mod_less_divisor)
  ultimately show ?thesis
    using M assms ring_here_nth [OF assms(1,2)] by (simp add: dt_read_def c_rem_pos rd_def)
qed

text \<open>Relative to \<open>next\<close>, as the look-ups read, and relative to \<open>first\<close>, as the eviction reads.\<close>

lemma dt_read_from_next:
  assumes "dt_rel t es" "es \<noteq> []" "0 \<le> int (length (layout es)) - 1 + z" "z \<le> 0"
  shows "dt_read t (int (dt_next t) + z + int (dt_max_size t)) =
    Some (layout es ! nat (int (length (layout es)) - 1 + z))"
proof (rule dt_read_ring [OF dt_relD(8) [OF assms(1,2)]])
  note R = dt_relD [OF assms(1)]
  let ?L = "length (layout es)" and ?M = "dt_max_size t"
  show "nat (int ?L - 1 + z) < ?L" using assms(3,4) by (simp add: nat_less_iff)
  show "0 \<le> int (dt_next t) + z + int ?M" using assms(3,4) R(9) [OF assms(2)] by linarith
  have "int (dt_next t) = (int (dt_first t) + (int ?L - 1)) mod int ?M"
    unfolding R(3) by (simp add: zmod_int Suc_le_eq add_diff_eq)
  then have "(int (dt_next t) + z) mod int ?M = (int (dt_first t) + (int ?L - 1) + z) mod int ?M"
    by (simp only: mod_add_left_eq)
  then show "(int (dt_next t) + z + int ?M) mod int ?M = (int (dt_first t) + int (nat (int ?L - 1 + z))) mod int ?M"
    unfolding mod_add_self2 using assms(3) by (simp add: algebra_simps)
qed

lemma dt_read_back:
  assumes "dt_rel t es" "es \<noteq> []" "i < length (layout es)"
  shows "dt_read t (int (dt_next t) - int i + int (dt_max_size t)) = Some (rev (layout es) ! i)"
proof -
  have "nat (int (length (layout es)) - 1 + - int i) = length (layout es) - Suc i" using assms(3) by simp
  then show ?thesis
    using dt_read_from_next [OF assms(1,2), of "- int i"] assms(3) by (simp add: rev_nth)
qed

lemma dt_read_first:
  assumes "dt_rel t es" "es \<noteq> []" "i < length (layout es)"
  shows "dt_read t (int (dt_first t) + int i + int (dt_max_size t)) = Some (layout es ! i)"
  by (rule dt_read_ring [OF dt_relD(8) [OF assms(1,2)] assms(3)]) simp_all

subsection \<open>Look-up by index\<close>

text \<open>Bytes that are not zero are skipped; a zero is counted.\<close>

lemma pos_loop_skip:
  assumes "dt_rel t es" "es \<noteq> []" "rev (layout es) = pre @ seg @ post" "nul_free seg" "i = length pre"
    "ec \<noteq> index - 61"
  shows "pos_of_index_loop t index (length seg + n) i ec c0 =
    pos_of_index_loop t index n (i + length seg) ec c0"
  using assms
proof (induction seg arbitrary: pre i)
  case (Cons b seg)
  have len: "length pre + length (b # seg) + length post = length (layout es)"
    using arg_cong [OF Cons.prems(3), of length] by simp
  have "dt_read t (int (dt_next t) - int i + int (dt_max_size t)) = Some b"
    using dt_read_back [OF Cons.prems(1,2), of i] Cons.prems(3,5) len by (simp add: nth_append)
  moreover have "b \<noteq> 0" using Cons.prems(4) by simp
  moreover have "pos_of_index_loop t index (length seg + n) (i + 1) ec c0 =
      pos_of_index_loop t index n (i + 1 + length seg) ec c0"
    using Cons.prems by (intro Cons.IH [of "pre @ [b]"]) simp_all
  ultimately show ?case using Cons.prems(6) by (simp add: pos_of_index_loop.simps(2))
qed simp

lemma pos_loop_zero:
  assumes "dt_rel t es" "es \<noteq> []" "rev (layout es) = pre @ 0 # post" "i = length pre"
  shows "pos_of_index_loop t index (Suc n) i ec c0 =
    (let ec' = if (c0 + 1) mod 2 = 0 then ec + 1 else ec
     in if ec' = index - 61 then Some (int i) else pos_of_index_loop t index n (i + 1) ec' (c0 + 1))"
proof -
  have "length (layout es) = length pre + Suc (length post)"
    using arg_cong [OF assms(3), of length] by simp
  then have "dt_read t (int (dt_next t) - int i + int (dt_max_size t)) = Some 0"
    using dt_read_back [OF assms(1,2), of i] assms(3,4) by simp
  then show ?thesis by (simp add: pos_of_index_loop.simps(2) Let_def)
qed

definition entry_span :: "entry \<Rightarrow> nat" where
  "entry_span e = length (fst e) + length (snd e) + 2"

lemma rev_layout_Cons: "rev (layout (e # es)) = 0 # rev (snd e) @ 0 # rev (fst e) @ rev (layout es)"
  by (simp add: layout_Cons entry_bytes_def)

lemma rev_layout_split:
  "rev (layout (es @ e # es')) =
     rev (tl (layout es)) @ 0 # rev (snd e) @ 0 # rev (fst e) @ rev (layout es')"
  by (simp add: layout_split rev_layout_Cons)

lemma length_tl_layout: "length (tl (layout es)) = sum_list (map entry_span es)"
  by (induction es) (simp_all add: layout_Cons entry_span_def)

text \<open>Entry \<open>k\<close>, counted from the newest one, starts \<open>sum (take (k + 1) spans)\<close> bytes before \<open>next\<close>.\<close>

lemma rev_layout_first: "rev (layout es) = 0 # tl (rev (layout es))"
  by (cases es) (simp_all add: rev_layout_Cons)

lemma pos_loop_entry:
  assumes "dt_rel t (es1 @ e # es2)" "length es1 < j"
  shows "pos_of_index_loop t (j + 61) (entry_span e + n) (length (tl (layout es1)) + 1) (length es1)
      (2 * length es1) =
    (if length es1 + 1 = j then Some (int (length (tl (layout es1)) + entry_span e))
     else pos_of_index_loop t (j + 61) n (length (tl (layout (es1 @ [e]))) + 1) (length (es1 @ [e]))
       (2 * length (es1 @ [e])))"
proof -
  obtain nm vl where e: "e = (nm, vl)" by (cases e)
  let ?p = "rev (tl (layout es1)) @ [0]"
  let ?rl = "tl (rev (layout es2))"
  have rl: "rev (layout (es1 @ e # es2)) = ?p @ rev vl @ 0 # rev nm @ 0 # ?rl"
    using rev_layout_first [of es2] unfolding rev_layout_split e by simp
  have ok: "nul_free (rev nm)" "nul_free (rev vl)"
    using dt_relD(7) [OF assms(1), of e] by (auto simp: entry_ok_def e nul_free_def)
  have len: "length (tl (layout (es1 @ [e]))) = length (tl (layout es1)) + entry_span e"
    unfolding length_tl_layout by simp
  let ?i = "length (tl (layout es1)) + 1"
  have "pos_of_index_loop t (j + 61) (length (rev vl) + (Suc (length nm + Suc n))) ?i (length es1) (2 * length es1) =
      pos_of_index_loop t (j + 61) (Suc (length nm + Suc n)) (?i + length vl) (length es1) (2 * length es1)"
    using pos_loop_skip [OF assms(1) _ rl ok(2), of ?i "length es1" "j + 61"
        "Suc (length nm + Suc n)" "2 * length es1"] assms(2) by simp
  also have "\<dots> = pos_of_index_loop t (j + 61) (length (rev nm) + Suc n) (?i + length vl + 1) (length es1) (2 * length es1 + 1)"
    using pos_loop_zero [OF assms(1) _ rl [unfolded append_assoc [symmetric]], of "?i + length vl" "j + 61"
        "length nm + Suc n" "length es1" "2 * length es1"] assms(2) by (simp add: Let_def)
  also have "\<dots> = pos_of_index_loop t (j + 61) (Suc n) (?i + length vl + 1 + length nm) (length es1) (2 * length es1 + 1)"
    using pos_loop_skip [OF assms(1) _ _ ok(1), of "?p @ rev vl @ [0]" "0 # ?rl" "?i + length vl + 1"
        "length es1" "j + 61" "Suc n" "2 * length es1 + 1"] rl assms(2) by simp
  also have "\<dots> = (if length es1 + 1 = j then Some (int (?i + length vl + 1 + length nm))
     else pos_of_index_loop t (j + 61) n (?i + length vl + 1 + length nm + 1) (length es1 + 1) (2 * length es1 + 2))"
    using pos_loop_zero [OF assms(1) _, of "?p @ rev vl @ 0 # rev nm" ?rl "?i + length vl + 1 + length nm" "j + 61"
        n "length es1" "2 * length es1 + 1"] rl assms(2) by (simp add: Let_def)
  finally show ?thesis unfolding len by (simp add: entry_span_def e ac_simps del: length_tl)
qed

lemma pos_loop_correct:
  assumes "dt_rel t (es1 @ es2)" "length es1 < j" "j \<le> length (es1 @ es2)"
  shows "pos_of_index_loop t (j + 61) (sum_list (map entry_span (take (j - length es1) es2)) + n)
      (length (tl (layout es1)) + 1) (length es1) (2 * length es1) =
    Some (int (sum_list (map entry_span (take j (es1 @ es2)))))"
  using assms
proof (induction es2 arbitrary: es1)
  case (Cons e es2)
  have spans: "sum_list (map entry_span (take (j - length es1) (e # es2))) =
      entry_span e + sum_list (map entry_span (take (j - length (es1 @ [e])) es2))"
    using less_imp_Suc_add [OF Cons.prems(2)] by auto
  show ?case
  proof (cases "length es1 + 1 = j")
    case True
    then show ?thesis
      unfolding spans add.assoc pos_loop_entry [OF Cons.prems(1,2)]
      unfolding length_tl_layout by auto
  next
    case False
    have "pos_of_index_loop t (j + 61) (sum_list (map entry_span (take (j - length (es1 @ [e])) es2)) + n)
      (length (tl (layout (es1 @ [e]))) + 1) (length (es1 @ [e])) (2 * length (es1 @ [e])) =
      Some (int (sum_list (map entry_span (take j ((es1 @ [e]) @ es2)))))"
      using Cons.prems False by (intro Cons.IH) simp_all
    with False show ?thesis
      unfolding spans add.assoc pos_loop_entry [OF Cons.prems(1,2)] by simp
  qed
qed simp

text \<open>\<open>offset es k\<close>: how far before \<open>next\<close> the entry with position \<open>k\<close> starts.\<close>

definition offset :: "entry list \<Rightarrow> nat \<Rightarrow> nat" where
  "offset es k = sum_list (map entry_span (take (k + 1) es))"

lemma offset_less: "k < length es \<Longrightarrow> offset es k < length (layout es)"
proof -
  have "length (layout es) = sum_list (map entry_span es) + 1"
    using length_tl_layout [of es] by (cases "layout es") auto
  moreover have "sum_list (map entry_span (take (k + 1) es)) \<le> sum_list (map entry_span es)"
    by (metis append_take_drop_id le_add1 map_append sum_list_append)
  ultimately show ?thesis by (simp add: offset_def)
qed

lemma pos_of_index_correct:
  assumes "dt_rel t es" "k < length es"
  shows "hpack_tables_dynamic_pos_of_index t (k + 62) = Some (int (offset es k))"
proof -
  have ne: "es \<noteq> []" using assms(2) by auto
  have "offset es k \<le> dt_max_size t - 1"
    using offset_less [OF assms(2)] dt_relD(9) [OF assms(1) ne] by linarith
  then obtain n where "dt_max_size t - 1 = offset es k + n" by (metis le_add_diff_inverse)
  then show ?thesis
    using pos_loop_correct [of t "[]" es "k + 1" n] assms
    by (simp add: hpack_tables_dynamic_pos_of_index_def offset_def ac_simps)
qed

lemma copy_to_ext_loop_correct:
  assumes "dt_rel t es" "es \<noteq> []" "layout es = pre @ 0 # (s1 @ s2) @ 0 # post" "nul_free s2"
    "ip = int (length (layout es)) - 1 - int (length pre)" "length s1 + length s2 < length ext"
  shows "copy_to_ext_loop t ip (length s2 + 1 + n) (length s1 + 1) (overwrite ext 0 s1) =
    Some (overwrite ext 0 (s1 @ s2 @ [0]), ip - int (length s1 + length s2 + 1))"
  using assms
proof (induction s2 arbitrary: s1)
  case Nil
  have len: "length (layout es) = length pre + length s1 + length post + 2"
    using arg_cong [OF Nil.prems(3), of length] by simp
  have "nat (int (length (layout es)) - 1 + (int (length s1 + 1) - ip)) = length pre + length s1 + 1"
    using Nil.prems(5) by simp
  then have "dt_read t (int (dt_next t) + (int (length s1 + 1) - ip) + int (dt_max_size t)) = Some 0"
    using dt_read_from_next [OF Nil.prems(1,2), of "int (length s1 + 1) - ip"] Nil.prems(3,5) len
    by (simp add: nth_append)
  moreover have "wr (overwrite ext 0 s1) (length s1) 0 = Some (overwrite ext 0 (s1 @ [0]))"
    using Nil.prems(6) by (intro wr_next) simp_all
  ultimately show ?case by (simp add: copy_to_ext_loop.simps(2) algebra_simps)
next
  case (Cons b s2)
  have len: "length (layout es) = length pre + length s1 + length s2 + length post + 3"
    using arg_cong [OF Cons.prems(3), of length] by simp
  have "nat (int (length (layout es)) - 1 + (int (length s1 + 1) - ip)) = length pre + length s1 + 1"
    using Cons.prems(5) by simp
  then have "dt_read t (int (dt_next t) + (int (length s1 + 1) - ip) + int (dt_max_size t)) = Some b"
    using dt_read_from_next [OF Cons.prems(1,2), of "int (length s1 + 1) - ip"] Cons.prems(3,5) len
    by (simp add: nth_append)
  moreover have "wr (overwrite ext 0 s1) (length s1) b = Some (overwrite ext 0 (s1 @ [b]))"
    using Cons.prems(6) by (intro wr_next) simp_all
  moreover have "copy_to_ext_loop t ip (length s2 + 1 + n) (length (s1 @ [b]) + 1) (overwrite ext 0 (s1 @ [b])) =
      Some (overwrite ext 0 ((s1 @ [b]) @ s2 @ [0]), ip - int (length (s1 @ [b]) + length s2 + 1))"
    using Cons.prems by (intro Cons.IH) simp_all
  ultimately show ?case using Cons.prems(4) by (simp add: copy_to_ext_loop.simps(2) algebra_simps)
qed

lemma copy_to_ext_correct:
  assumes "dt_rel t es" "es \<noteq> []" "layout es = pre @ 0 # s @ 0 # post" "nul_free s"
    "ip = int (length (layout es)) - 1 - int (length pre)" "length s < length ext"
  shows "hpack_tables_dynamic_copy_to_ext t ip ext =
    Some (overwrite ext 0 (s @ [0]), ip - int (length s + 1))"
proof -
  have "length s + 2 \<le> length (layout es)" using arg_cong [OF assms(3), of length] by simp
  then have "length s + 1 \<le> dt_max_size t - 1" using dt_relD(9) [OF assms(1,2)] by linarith
  then obtain n where "dt_max_size t - 1 = length s + 1 + n" by (metis le_add_diff_inverse)
  then show ?thesis
    using copy_to_ext_loop_correct [of t es pre "[]" s post ip ext n] assms
    by (simp add: hpack_tables_dynamic_copy_to_ext_def)
qed

text \<open>Where the name and the value of an entry are in the layout.\<close>

lemma layout_at_entry:
  assumes "k < length es"
  obtains pre post where
    "layout es = pre @ 0 # fst (es ! k) @ 0 # snd (es ! k) @ 0 # post"
    "length (layout es) - 1 - length pre = offset es k" "length pre < length (layout es)"
proof -
  let ?es1 = "take k es" and ?e = "es ! k" and ?es2 = "drop (Suc k) es"
  have es: "es = ?es1 @ ?e # ?es2" using assms by (simp add: id_take_nth_drop)
  define pre where "pre = butlast (layout ?es2)"
  have pre: "layout ?es2 = pre @ [0]"
    unfolding pre_def using last_layout [of ?es2]
    by (metis append_butlast_last_id last_conv_nth layout_not_Nil)
  have l: "layout es = pre @ 0 # fst ?e @ 0 # snd ?e @ 0 # tl (layout ?es1)"
    using layout_split [of ?es1 "?e # ?es2"] es pre by (simp add: layout_Cons entry_bytes_def)
  have "offset es k = sum_list (map entry_span ?es1) + entry_span ?e"
    using assms by (simp add: offset_def take_Suc_conv_app_nth)
  moreover have "length (layout es) = length pre + entry_span ?e + 1 + length (tl (layout ?es1))"
    unfolding l by (simp add: entry_span_def del: length_tl)
  ultimately show ?thesis
    by (intro that [OF l]) (simp_all add: length_tl_layout del: length_tl)
qed

lemma find_entry_correct:
  assumes "dt_rel t es" "k < length es" "length (fst (es ! k)) < length name" "length (snd (es ! k)) < length val"
  shows "hpack_tables_dynamic_find_entry_name_and_value t (k + 62) name val =
      Some (overwrite name 0 (fst (es ! k) @ [0]), overwrite val 0 (snd (es ! k) @ [0]), 0)"
    "hpack_tables_dynamic_find_entry_name t (k + 62) name =
      Some (overwrite name 0 (fst (es ! k) @ [0]), 0)"
proof -
  let ?n = "fst (es ! k)" and ?v = "snd (es ! k)"
  have ne: "es \<noteq> []" using assms(2) by auto
  note R = dt_relD [OF assms(1)]
  obtain pre post where l: "layout es = pre @ 0 # ?n @ 0 # ?v @ 0 # post"
    "length (layout es) - 1 - length pre = offset es k" "length pre < length (layout es)"
    using layout_at_entry [OF assms(2)] .
  have ok: "nul_free ?n" "nul_free ?v" using R(7) [of "es ! k"] assms(2) by (auto simp: entry_ok_def)
  have ip: "int (offset es k) = int (length (layout es)) - 1 - int (length pre)"
    using l(2,3) by linarith
  have c1: "hpack_tables_dynamic_copy_to_ext t (int (offset es k)) name =
      Some (overwrite name 0 (?n @ [0]), int (offset es k) - int (length ?n + 1))"
    by (rule copy_to_ext_correct [OF assms(1) ne l(1) ok(1) ip assms(3)])
  have l': "layout es = (pre @ 0 # ?n) @ 0 # ?v @ 0 # post" using l(1) by simp
  have "int (offset es k) - int (length ?n + 1) = int (length (layout es)) - 1 - int (length (pre @ 0 # ?n))"
    using ip by simp
  note c2 = copy_to_ext_correct [OF assms(1) ne l' ok(2) this assms(4)]
  have pos: "int (length ?n + length ?v + 2) \<le> int (offset es k)"
    unfolding ip l(1) by simp
  have "length es < 2 ^ 15" using length_layout [of es] R(9) [OF ne] R(2,6) by linarith
  then have "\<not> int (dt_n_entries t) < (int (k + 62) - 61) mod 2 ^ 32"
    using assms(2) R(4) by simp
  with pos_of_index_correct [OF assms(1,2)] c1 c2 pos
  show "hpack_tables_dynamic_find_entry_name_and_value t (k + 62) name val =
      Some (overwrite name 0 (?n @ [0]), overwrite val 0 (?v @ [0]), 0)"
    "hpack_tables_dynamic_find_entry_name t (k + 62) name = Some (overwrite name 0 (?n @ [0]), 0)"
    by (simp_all add: hpack_tables_dynamic_find_entry_name_and_value_def
        hpack_tables_dynamic_find_entry_name_def)
qed

lemma find_entry_missing:
  assumes "dt_rel t es" "length es \<le> k" "k < 2 ^ 31"
  shows "hpack_tables_dynamic_find_entry_name_and_value t (k + 62) name val =
      Some (name, val, HPACK_COMPRESSION_ERROR)"
    "hpack_tables_dynamic_find_entry_name t (k + 62) name = Some (name, HPACK_COMPRESSION_ERROR)"
  using assms dt_relD(4) [OF assms(1)]
  by (simp_all add: hpack_tables_dynamic_find_entry_name_and_value_def
      hpack_tables_dynamic_find_entry_name_def)

subsection \<open>Eviction\<close>

lemma pop_loop_skip:
  assumes "dt_rel t es" "es \<noteq> []" "layout es = pre @ seg @ post" "nul_free seg" "i = length pre"
  shows "pop_loop t (length seg + n) i el c0 = pop_loop t n (i + length seg) (el + length seg) c0"
  using assms
proof (induction seg arbitrary: pre i el)
  case (Cons b seg)
  have len: "length pre + length (b # seg) + length post = length (layout es)"
    using arg_cong [OF Cons.prems(3), of length] by simp
  have "dt_read t (int (dt_first t) + int i + int (dt_max_size t)) = Some b"
    using dt_read_first [OF Cons.prems(1,2), of i] Cons.prems(3,5) len by (simp add: nth_append)
  moreover have "b \<noteq> 0" using Cons.prems(4) by simp
  moreover have "pop_loop t (length seg + n) (i + 1) (el + 1) c0 =
      pop_loop t n (i + 1 + length seg) (el + 1 + length seg) c0"
    using Cons.prems by (intro Cons.IH [of "pre @ [b]"]) simp_all
  ultimately show ?case by (simp add: pop_loop.simps(2))
qed simp

lemma pop_loop_zero:
  assumes "dt_rel t es" "es \<noteq> []" "layout es = pre @ 0 # post" "i = length pre"
  shows "pop_loop t (Suc n) i el c0 =
    (if c0 = 1 then Some (t\<lparr>dt_first := (dt_first t + i) mod dt_max_size t,
         dt_actual_size := nat ((int (dt_actual_size t) - (int el + 32)) mod 2 ^ 16),
         dt_n_entries := nat ((int (dt_n_entries t) - 1) mod 2 ^ 16)\<rparr>, 0)
     else pop_loop t n (i + 1) el (c0 + 1))"
proof -
  have "length (layout es) = length pre + Suc (length post)"
    using arg_cong [OF assms(3), of length] by simp
  then have "dt_read t (int (dt_first t) + int i + int (dt_max_size t)) = Some 0"
    using dt_read_first [OF assms(1,2), of i] assms(3,4) by simp
  moreover have "0 < dt_max_size t" using dt_relD(10) [OF assms(1,2)] by simp
  then have "c_rem (int (dt_first t) + int i + int (dt_max_size t)) (int (dt_max_size t)) =
      Some (int ((dt_first t + i) mod dt_max_size t))"
    by (simp add: c_rem_pos zmod_int)
  ultimately show ?thesis by (simp add: pop_loop.simps(2))
qed

text \<open>\<open>pop\<close> removes the oldest entry.\<close>

lemma pop_correct:
  assumes "dt_rel t (es @ [e])"
  shows "\<exists>t'. hpack_tables_dynamic_pop t = Some (t', 0) \<and> dt_rel t' es \<and> dt_max_size t' = dt_max_size t \<and>
    dt_settings_max_table_size t' = dt_settings_max_table_size t \<and> dt_buffer t' = dt_buffer t"
proof -
  obtain nm vl where e: "e = (nm, vl)" by (cases e)
  note R = dt_relD [OF assms]
  let ?rest = "tl (layout es)" and ?M = "dt_max_size t"
  have l: "layout (es @ [e]) = [0] @ nm @ 0 # vl @ 0 # ?rest"
    by (simp add: layout_snoc entry_bytes_def e)
  have ok: "nul_free nm" "nul_free vl" using R(7) [of e] by (auto simp: entry_ok_def e)
  let ?s = "length nm + length vl + 2"
  let ?t = "t\<lparr>dt_first := (dt_first t + ?s) mod ?M, dt_actual_size := table_size es, dt_n_entries := length es\<rparr>"
  have len: "length (layout (es @ [e])) = ?s + length (layout es)"
    unfolding l using length_layout_pos [of es] by simp
  then have fits: "length (layout es) + ?s + 29 \<le> ?M" using R(9) by simp
  then have "length nm + Suc (length vl + Suc 0) \<le> ?M - 1" by linarith
  from le_Suc_ex [OF this] obtain n where n: "?M - 1 = length nm + (Suc (length vl + Suc n))" by auto
  have "pop_loop t (length nm + (Suc (length vl + Suc n))) 1 0 0 =
      pop_loop t (Suc (length vl + Suc n)) (1 + length nm) (length nm) 0"
    using pop_loop_skip [OF assms _ l ok(1), of 1 "Suc (length vl + Suc n)" 0 0] by simp
  also have "\<dots> = pop_loop t (length vl + Suc n) (length nm + 2) (length nm) 1"
    using pop_loop_zero [OF assms _, of "[0] @ nm" "vl @ 0 # ?rest" "1 + length nm" "length vl + Suc n"
        "length nm" 0] l by simp
  also have "\<dots> = pop_loop t (Suc n) (length nm + 2 + length vl) (length nm + length vl) 1"
    using pop_loop_skip [OF assms _ _ ok(2), of "[0] @ nm @ [0]" "0 # ?rest" "length nm + 2" "Suc n" "length nm" 1] l
    by simp
  also have "\<dots> = Some (t\<lparr>dt_first := (dt_first t + ?s) mod ?M,
         dt_actual_size := nat ((int (dt_actual_size t) - (int (length nm + length vl) + 32)) mod 2 ^ 16),
         dt_n_entries := nat ((int (dt_n_entries t) - 1) mod 2 ^ 16)\<rparr>, 0)"
    using pop_loop_zero [OF assms _, of "[0] @ nm @ 0 # vl" ?rest "length nm + 2 + length vl" n
        "length nm + length vl" 1] l by (simp add: ac_simps)
  also have "nat ((int (dt_actual_size t) - (int (length nm + length vl) + 32)) mod 2 ^ 16) = table_size es"
    using R(2,5,6) by (simp add: entry_size_def e)
  also have "nat ((int (dt_n_entries t) - 1) mod 2 ^ 16) = length es"
    using R(4) length_layout [of "es @ [e]"] R(2,6) by simp
  finally have "hpack_tables_dynamic_pop t = Some (?t, 0)"
    unfolding hpack_tables_dynamic_pop_def n using R(4) by simp
  moreover have "dt_rel ?t es"
  proof -
    have le: "layout es = 0 # ?rest" by (simp add: layout_def)
    have M: "0 < ?M" using fits by simp
    obtain j where j: "length (layout es) = Suc j" using length_layout_pos gr0_conv_Suc by blast
    have "dt_next t = ((dt_first t + ?s) + (length (layout es) - 1)) mod ?M"
      unfolding R(3) len j by (simp add: ac_simps)
    also have "\<dots> = ((dt_first t + ?s) mod ?M + length (layout es) - 1) mod ?M"
      unfolding j by (simp add: mod_add_left_eq)
    finally have nxt: "dt_next t = ((dt_first t + ?s) mod ?M + length (layout es) - 1) mod ?M" .
    have "layout (es @ [e]) = ([0] @ nm @ 0 # vl) @ layout es" using le unfolding l by simp
    then have ring: "ring_here (dt_buffer t) ?M ((dt_first t + ?s) mod ?M) (layout es)"
      using R(8) ring_here_append [of "dt_buffer t" ?M "dt_first t" "[0] @ nm @ 0 # vl" "layout es"]
      by (simp add: ac_simps)
    show ?thesis
      using assms nxt ring M R(6) by (auto simp: dt_rel_def less_max_iff_disj)
  qed
  ultimately show ?thesis by auto
qed

text \<open>
  The reference for eviction (RFC 7541, section 4.3): drop entries from the end of the list until the
  rest fits. The loop returns because every \<open>pop\<close> succeeds on a table in relation to a list.
\<close>

function evict :: "nat \<Rightarrow> entry list \<Rightarrow> entry list" where
  "evict limit es = (if table_size es \<le> limit then es else evict limit (butlast es))"
  by pat_completeness auto
termination
proof (relation "measure (\<lambda>(limit, es). length es)")
  fix limit es
  assume "\<not> table_size es \<le> limit"
  then have "es \<noteq> []" by auto
  then show "((limit, butlast es), (limit, es)) \<in> measure (\<lambda>(limit, es). length es)" by simp
qed simp

declare evict.simps [simp del]

lemma evict_prefix: "\<exists>k. evict limit es = take k es"
proof (induction limit es rule: evict.induct)
  case (1 limit es)
  show ?case
  proof (cases "table_size es \<le> limit")
    case True
    then show ?thesis by (subst evict.simps) (auto intro: exI [of _ "length es"])
  next
    case False
    with "1.IH" show ?thesis by (subst evict.simps) (auto simp: butlast_conv_take)
  qed
qed

lemma evict_size: "table_size (evict limit es) \<le> limit"
proof (induction limit es rule: evict.induct)
  case (1 limit es)
  then show ?case by (cases "table_size es \<le> limit") (subst evict.simps, simp)+
qed

lemma evict_fits: "table_size es \<le> limit \<Longrightarrow> evict limit es = es"
  by (subst evict.simps) simp

lemma evict_loop_correct:
  assumes "dt_rel t es" "extra \<le> limit"
  shows "\<exists>t'. evict_loop t extra limit = Some t' \<and> dt_rel t' (evict (limit - extra) es) \<and>
    dt_max_size t' = dt_max_size t \<and> dt_settings_max_table_size t' = dt_settings_max_table_size t \<and>
    dt_buffer t' = dt_buffer t"
  using assms
proof (induction es arbitrary: t rule: rev_induct)
  case Nil
  with dt_relD(5) [OF Nil.prems(1)] show ?case
    by (subst evict_loop.simps) (simp add: evict_fits)
next
  case (snoc e es)
  note sz = dt_relD(5) [OF snoc.prems(1)]
  show ?case
  proof (cases "extra + dt_actual_size t > limit")
    case False
    then have "table_size (es @ [e]) \<le> limit - extra" using sz snoc.prems(2) by simp
    with False snoc.prems(1) show ?thesis
      by (subst evict_loop.simps) (simp add: evict_fits)
  next
    case True
    have ev: "evict (limit - extra) (es @ [e]) = evict (limit - extra) es"
    proof -
      have "\<not> table_size (es @ [e]) \<le> limit - extra" using True sz snoc.prems(2) by linarith
      then show ?thesis by (subst evict.simps) simp
    qed
    obtain t1 where t1: "hpack_tables_dynamic_pop t = Some (t1, 0)" "dt_rel t1 es" "dt_max_size t1 = dt_max_size t"
      "dt_settings_max_table_size t1 = dt_settings_max_table_size t" "dt_buffer t1 = dt_buffer t"
      using pop_correct [OF snoc.prems(1)] by blast
    from snoc.IH [OF t1(2) snoc.prems(2)] True t1 show ?thesis
      unfolding ev by (subst evict_loop.simps) auto
  qed
qed

subsection \<open>Insertion\<close>

lemma dt_write_ring:
  assumes "0 < dt_max_size t" "dt_max_size t \<le> length (dt_buffer t)" "0 \<le> z"
    "z mod int (dt_max_size t) = int k mod int (dt_max_size t)"
  shows "dt_write t z b = Some (t\<lparr>dt_buffer := (dt_buffer t)[k mod dt_max_size t := b]\<rparr>)"
proof -
  have "int k mod int (dt_max_size t) = int (k mod dt_max_size t)" by (simp add: zmod_int)
  moreover have "k mod dt_max_size t < length (dt_buffer t)"
    using assms(1,2) by (meson less_le_trans mod_less_divisor)
  ultimately show ?thesis using assms by (simp add: dt_write_def c_rem_pos wr_def)
qed

text \<open>A write at a distance from \<open>next\<close> that extends the bytes \<open>ys\<close> already in the ring.\<close>

lemma dt_write_extends:
  assumes "ring_here (dt_buffer t) (dt_max_size t) k ys" "length ys < dt_max_size t" "0 \<le> ip"
    "(int (dt_next t) + ip) mod int (dt_max_size t) = int (k + l) mod int (dt_max_size t)"
    "l + i = length ys"
  shows "\<exists>buf. dt_write t (int (dt_next t) + ip + int i + int (dt_max_size t)) b = Some (t\<lparr>dt_buffer := buf\<rparr>) \<and>
    length buf = length (dt_buffer t) \<and> ring_here buf (dt_max_size t) k (ys @ [b])"
proof -
  let ?M = "dt_max_size t"
  have M: "0 < ?M" "?M \<le> length (dt_buffer t)" using assms(1) by (auto simp: ring_here_def)
  have "(int (dt_next t) + ip + int i + int ?M) mod int ?M = ((int (dt_next t) + ip) mod int ?M + int i) mod int ?M"
    by (simp add: mod_add_left_eq)
  also have "\<dots> = int (k + length ys) mod int ?M"
    unfolding assms(4) assms(5) [symmetric] by (simp add: mod_add_right_eq ac_simps)
  finally have "dt_write t (int (dt_next t) + ip + int i + int ?M) b =
      Some (t\<lparr>dt_buffer := (dt_buffer t)[(k + length ys) mod ?M := b]\<rparr>)"
    using M assms(3) by (intro dt_write_ring) simp_all
  with ring_here_snoc [OF assms(1,2), of b] show ?thesis by auto
qed

lemma copy_from_ext_loop_correct:
  assumes "ring_here (dt_buffer t) (dt_max_size t) k (xs @ 0 # s1)" "nul_free s2" "0 \<le> ip"
    "(int (dt_next t) + ip) mod int (dt_max_size t) = int (k + length xs) mod int (dt_max_size t)"
    "length xs + length s1 + length s2 + 2 \<le> dt_max_size t"
  shows "\<exists>buf. copy_from_ext_loop t ip (s1 @ s2 @ 0 # r) (length s2 + 1 + n) (length s1 + 1) =
      Some (t\<lparr>dt_buffer := buf\<rparr>, ip + int (length s1 + length s2 + 1)) \<and> length buf = length (dt_buffer t) \<and>
    ring_here buf (dt_max_size t) k (xs @ 0 # s1 @ s2 @ [0])"
  using assms
proof (induction s2 arbitrary: s1 t)
  case Nil
  obtain buf where b: "dt_write t (int (dt_next t) + ip + int (length s1 + 1) + int (dt_max_size t)) 0 =
      Some (t\<lparr>dt_buffer := buf\<rparr>)" "length buf = length (dt_buffer t)"
    "ring_here buf (dt_max_size t) k ((xs @ 0 # s1) @ [0])"
    using dt_write_extends [OF Nil.prems(1) _ Nil.prems(3,4), of "length s1 + 1" 0] Nil.prems(5) by auto
  then show ?case by (auto simp: copy_from_ext_loop.simps(2) rd_def nth_append ac_simps)
next
  case (Cons b s2)
  obtain buf where w: "dt_write t (int (dt_next t) + ip + int (length s1 + 1) + int (dt_max_size t)) b =
      Some (t\<lparr>dt_buffer := buf\<rparr>)" "length buf = length (dt_buffer t)"
    "ring_here buf (dt_max_size t) k ((xs @ 0 # s1) @ [b])"
    using dt_write_extends [OF Cons.prems(1) _ Cons.prems(3,4), of "length s1 + 1" b] Cons.prems(5) by auto
  let ?t = "t\<lparr>dt_buffer := buf\<rparr>"
  obtain buf' where "copy_from_ext_loop ?t ip ((s1 @ [b]) @ s2 @ 0 # r) (length s2 + 1 + n) (length (s1 @ [b]) + 1) =
      Some (?t\<lparr>dt_buffer := buf'\<rparr>, ip + int (length (s1 @ [b]) + length s2 + 1))" "length buf' = length buf"
    "ring_here buf' (dt_max_size t) k (xs @ 0 # (s1 @ [b]) @ s2 @ [0])"
    using Cons.IH [of ?t "s1 @ [b]"] Cons.prems w(3) by auto
  with w Cons.prems(2) show ?case
    by (auto simp: copy_from_ext_loop.simps(2) rd_def nth_append ac_simps)
qed

text \<open>
  A string is stored behind the bytes \<open>xs\<close>, with a zero on either side; the position in front of it may
  already hold a zero or be fresh.
\<close>

lemma copy_from_ext_correct:
  assumes "ring_here (dt_buffer t) (dt_max_size t) k xs" "nul_free s" "0 \<le> ip"
    "(int (dt_next t) + ip) mod int (dt_max_size t) = int (k + length xs) mod int (dt_max_size t)"
    "length xs + length s + 2 \<le> dt_max_size t"
  shows "\<exists>buf. hpack_tables_dynamic_copy_from_ext t ip (s @ 0 # r) =
      Some (t\<lparr>dt_buffer := buf\<rparr>, ip + int (length s + 1)) \<and> length buf = length (dt_buffer t) \<and>
    ring_here buf (dt_max_size t) k (xs @ 0 # s @ [0])"
proof -
  obtain buf where w: "dt_write t (int (dt_next t) + ip + int 0 + int (dt_max_size t)) 0 =
      Some (t\<lparr>dt_buffer := buf\<rparr>)" "length buf = length (dt_buffer t)"
    "ring_here buf (dt_max_size t) k (xs @ [0])"
    using dt_write_extends [OF assms(1) _ assms(3,4), of 0 0] assms(5) by auto
  have "length s + 1 \<le> dt_max_size t - 1" using assms(5) by linarith
  from le_Suc_ex [OF this] obtain n where n: "dt_max_size t - 1 = length s + 1 + n" by blast
  have "\<exists>buf'. copy_from_ext_loop (t\<lparr>dt_buffer := buf\<rparr>) ip ([] @ s @ 0 # r) (length s + 1 + n) (length ([] :: byte list) + 1) =
      Some (t\<lparr>dt_buffer := buf, dt_buffer := buf'\<rparr>, ip + int (length ([] :: byte list) + length s + 1)) \<and>
      length buf' = length (dt_buffer (t\<lparr>dt_buffer := buf\<rparr>)) \<and>
    ring_here buf' (dt_max_size (t\<lparr>dt_buffer := buf\<rparr>)) k (xs @ 0 # [] @ s @ [0])"
    using assms w(3) by (intro copy_from_ext_loop_correct) simp_all
  with w n show ?thesis by (auto simp: hpack_tables_dynamic_copy_from_ext_def)
qed

lemma layout_butlast: "layout es = butlast (layout es) @ [0]"
  using last_layout [of es] by (metis append_butlast_last_id last_conv_nth layout_not_Nil)

text \<open>Storing an entry in a table that has room for it.\<close>

lemma store_entry_correct:
  assumes "dt_rel t es" "entry_ok (nm, vl)" "table_size es + entry_size (nm, vl) \<le> dt_max_size t"
  shows "\<exists>b1 b2. hpack_tables_dynamic_copy_from_ext t 0 (nm @ 0 # r1) = Some (t\<lparr>dt_buffer := b1\<rparr>, int (length nm + 1)) \<and>
    hpack_tables_dynamic_copy_from_ext (t\<lparr>dt_buffer := b1\<rparr>) (int (length nm + 1)) (vl @ 0 # r2) =
      Some (t\<lparr>dt_buffer := b2\<rparr>, int (length nm + length vl + 2)) \<and>
    length b2 = length (dt_buffer t) \<and>
    ring_here b2 (dt_max_size t) (dt_first t) (layout ((nm, vl) # es))"
proof -
  note R = dt_relD [OF assms(1)]
  let ?M = "dt_max_size t" and ?xs = "butlast (layout es)"
  have M: "0 < ?M" "?M \<le> length (dt_buffer t)" using assms(3) R(1) by (auto simp: entry_size_def)
  have ok: "nul_free nm" "nul_free vl" using assms(2) by (auto simp: entry_ok_def)
  have room: "length (layout es) + length nm + length vl + 31 \<le> ?M"
    using assms(3) length_layout [of es] by (simp add: entry_size_def)
  obtain j where j: "length (layout es) = Suc j" using length_layout_pos gr0_conv_Suc by blast
  have ring: "ring_here (dt_buffer t) ?M (dt_first t) ?xs"
  proof (cases "es = []")
    case True
    with M show ?thesis by simp
  next
    case False
    have "ring_here (dt_buffer t) ?M (dt_first t) (?xs @ [0])"
      using R(8) [OF False] by (simp flip: layout_butlast)
    then show ?thesis by (simp only: ring_here_append)
  qed
  have next0: "int (dt_next t) mod int ?M = int (dt_first t + length ?xs) mod int ?M"
    unfolding R(3) using j by (simp add: zmod_int)
  obtain b1 where b1: "hpack_tables_dynamic_copy_from_ext t 0 (nm @ 0 # r1) = Some (t\<lparr>dt_buffer := b1\<rparr>, int (length nm + 1))"
    "length b1 = length (dt_buffer t)" "ring_here b1 ?M (dt_first t) (?xs @ 0 # nm @ [0])"
    using copy_from_ext_correct [OF ring ok(1), of 0 r1] next0 room j by auto
  let ?t = "t\<lparr>dt_buffer := b1\<rparr>" and ?ys = "?xs @ 0 # nm"
  have "ring_here b1 ?M (dt_first t) (?ys @ [0])" using b1(3) by simp
  then have ring1: "ring_here (dt_buffer ?t) (dt_max_size ?t) (dt_first t) ?ys"
    by (simp only: ring_here_append) simp
  have "(int (dt_next t) + int (length nm + 1)) mod int ?M = (int (dt_first t + length ?xs) + int (length nm + 1)) mod int ?M"
    using next0 by (metis mod_add_left_eq)
  then have next1: "(int (dt_next ?t) + int (length nm + 1)) mod int (dt_max_size ?t) =
      int (dt_first t + length ?ys) mod int (dt_max_size ?t)"
    by (simp add: ac_simps)
  obtain b2 where b2: "hpack_tables_dynamic_copy_from_ext ?t (int (length nm + 1)) (vl @ 0 # r2) =
      Some (?t\<lparr>dt_buffer := b2\<rparr>, int (length nm + 1) + int (length vl + 1))"
    "length b2 = length b1" "ring_here b2 ?M (dt_first t) (?ys @ 0 # vl @ [0])"
    using copy_from_ext_correct [OF ring1 ok(2) _ next1, of r2] room j by auto
  have "layout ((nm, vl) # es) = ?ys @ 0 # vl @ [0]"
    using layout_butlast [of es] by (simp add: layout_Cons entry_bytes_def)
  with b1 b2 show ?thesis by (auto simp: ac_simps)
qed

lemma add_entry_correct:
  assumes "dt_rel t es" "entry_ok (nm, vl)" "entry_size (nm, vl) < 2 ^ 16"
  shows "if entry_size (nm, vl) > dt_max_size t
    then hpack_tables_dynamic_table_add_entry t (nm @ 0 # r1) (vl @ 0 # r2) = Some (t, HPACK_INTERNAL_ERROR)
    else \<exists>t'. hpack_tables_dynamic_table_add_entry t (nm @ 0 # r1) (vl @ 0 # r2) = Some (t', 0) \<and>
      dt_rel t' ((nm, vl) # evict (dt_max_size t - entry_size (nm, vl)) es) \<and>
      dt_max_size t' = dt_max_size t \<and> dt_settings_max_table_size t' = dt_settings_max_table_size t \<and>
      length (dt_buffer t') = length (dt_buffer t)"
proof -
  let ?s = "entry_size (nm, vl)" and ?M = "dt_max_size t"
  have ok: "nul_free nm" "nul_free vl" using assms(2) by (auto simp: entry_ok_def)
  have s: "(length nm + length vl + 32) mod 2 ^ 16 = ?s" using assms(3) by (simp add: entry_size_def)
  show ?thesis
  proof (cases "?s > ?M")
    case True
    with ok s show ?thesis by (simp add: hpack_tables_dynamic_table_add_entry_def)
  next
    case False
    let ?es = "evict (?M - ?s) es"
    obtain t1 where t1: "evict_loop t ?s ?M = Some t1" "dt_rel t1 ?es" "dt_max_size t1 = ?M"
      "dt_settings_max_table_size t1 = dt_settings_max_table_size t" "dt_buffer t1 = dt_buffer t"
      using evict_loop_correct [OF assms(1), of ?s ?M] False by auto
    note R = dt_relD [OF t1(2)]
    have fits: "table_size ?es + ?s \<le> dt_max_size t1" using evict_size [of "?M - ?s" es] False t1(3) by simp
    obtain b1 b2 where b: "hpack_tables_dynamic_copy_from_ext t1 0 (nm @ 0 # r1) = Some (t1\<lparr>dt_buffer := b1\<rparr>, int (length nm + 1))"
      "hpack_tables_dynamic_copy_from_ext (t1\<lparr>dt_buffer := b1\<rparr>) (int (length nm + 1)) (vl @ 0 # r2) =
        Some (t1\<lparr>dt_buffer := b2\<rparr>, int (length nm + length vl + 2))"
      "length b2 = length (dt_buffer t1)" "ring_here b2 (dt_max_size t1) (dt_first t1) (layout ((nm, vl) # ?es))"
      using store_entry_correct [OF t1(2) assms(2) fits] by blast
    let ?n = "(dt_next t1 + (length nm + length vl + 2)) mod ?M"
    let ?t = "t1\<lparr>dt_buffer := b2, dt_n_entries := length ?es + 1, dt_actual_size := table_size ?es + ?s, dt_next := ?n\<rparr>"
    have M: "0 < ?M" using False by (simp add: entry_size_def)
    have "length ?es + 1 < 2 ^ 16" "table_size ?es + ?s < 2 ^ 16"
      using length_layout [of ?es] fits R(2) by (simp_all add: entry_size_def)
    moreover have "c_rem (int (dt_next t1) + int (length nm + length vl + 2) + int ?M) (int ?M) = Some (int ?n)"
      using M by (simp add: c_rem_pos zmod_int ac_simps)
    ultimately have run: "hpack_tables_dynamic_table_add_entry t (nm @ 0 # r1) (vl @ 0 # r2) = Some (?t, 0)"
      using ok s False t1 b(1,2) R(4,5)
      by (simp add: hpack_tables_dynamic_table_add_entry_def Let_def)
    have "?n = (dt_first t1 + length (layout ((nm, vl) # ?es)) - 1) mod ?M"
    proof -
      obtain j where j: "length (layout ?es) = Suc j" using length_layout_pos gr0_conv_Suc by blast
      have "?n = ((dt_first t1 + j) mod ?M + (length nm + length vl + 2)) mod ?M"
        unfolding R(3) t1(3) using j by simp
      then show ?thesis unfolding mod_add_left_eq by (simp add: layout_Cons j ac_simps)
    qed
    then have "dt_rel ?t ((nm, vl) # ?es)"
      using t1(2) b(3,4) t1(3) fits assms(2) by (simp add: dt_rel_def ac_simps)
    with run False t1 b(3) show ?thesis by auto
  qed
qed

subsection \<open>Resizing\<close>

lemma move_down_correct:
  "i + s + n \<le> length buf \<Longrightarrow> move_down buf 0 s n i = Some (overwrite buf i (take n (drop (i + s) buf)))"
proof (induction n arbitrary: buf i)
  case (Suc n)
  let ?b = "buf ! (i + s)"
  have d: "drop (i + s) buf = ?b # drop (i + 1 + s) buf"
    using Suc.prems by (simp add: Cons_nth_drop_Suc [symmetric])
  have "move_down (buf[i := ?b]) 0 s n (i + 1) =
      Some (overwrite (buf[i := ?b]) (i + 1) (take n (drop (i + 1 + s) (buf[i := ?b]))))"
    using Suc.prems by (intro Suc.IH) simp
  moreover have "drop (i + 1 + s) (buf[i := ?b]) = drop (i + 1 + s) buf" by simp
  moreover have "overwrite (buf[i := ?b]) (i + 1) (take n (drop (i + 1 + s) buf)) =
      overwrite buf i (?b # take n (drop (i + 1 + s) buf))"
    using overwrite_overwrite_adjacent [of i "[?b]" "take n (drop (i + 1 + s) buf)" buf] Suc.prems
    by (simp add: list_update_overwrite)
  ultimately show ?case using Suc.prems unfolding d by (simp add: rd_def wr_def)
qed simp

lemma move_up_correct:
  "n + shift \<le> length buf \<Longrightarrow> move_up buf shift n = Some (overwrite buf shift (take n buf))"
proof (induction n arbitrary: buf)
  case (Suc n)
  let ?buf = "buf[n + shift := buf ! n]"
  have "move_up ?buf shift n = Some (overwrite ?buf shift (take n ?buf))"
    using Suc.prems by (intro Suc.IH) simp
  moreover have "overwrite ?buf shift (take n buf) = overwrite buf shift (take (Suc n) buf)"
    using Suc.prems by (intro nth_equalityI)
      (auto simp: nth_overwrite nth_list_update take_Suc_conv_app_nth nth_append)
  ultimately show ?case using Suc.prems by (simp add: rd_def wr_def)
qed simp

text \<open>The bytes in the ring as one or two contiguous pieces.\<close>

lemma ring_straight:
  assumes "ring_here buf M f xs" "f + length xs \<le> M"
  shows "take (length xs) (drop f buf) = xs"
proof (rule nth_equalityI)
  have M: "M \<le> length buf" using assms(1) by (simp add: ring_here_def)
  show "length (take (length xs) (drop f buf)) = length xs" using M assms(2) by simp
  fix i assume "i < length (take (length xs) (drop f buf))"
  then have i: "i < length xs" by simp
  then have "(f + i) mod M = f + i" using assms(2) by simp
  with ring_here_nth [OF assms(1) i] M i assms(2) show "take (length xs) (drop f buf) ! i = xs ! i" by simp
qed

lemma ring_wrapped:
  assumes "ring_here buf M f xs" "f < M" "M < f + length xs" "length xs \<le> M"
  shows "take (M - f) (drop f buf) @ take (f + length xs - M) buf = xs"
proof -
  have xs: "xs = take (M - f) xs @ drop (M - f) xs" by simp
  have lens: "length (take (M - f) xs) = M - f" "length (drop (M - f) xs) = f + length xs - M"
    using assms(2,3) by simp_all
  have ring: "ring_here buf M f (take (M - f) xs)"
    "ring_here buf M ((f + length (take (M - f) xs)) mod M) (drop (M - f) xs)"
    using assms(1) ring_here_append [of buf M f "take (M - f) xs" "drop (M - f) xs"] by simp_all
  have "take (M - f) (drop f buf) = take (M - f) xs"
    using ring_straight [OF ring(1)] assms(2) unfolding lens by simp
  moreover have "take (f + length xs - M) buf = drop (M - f) xs"
    using ring_straight [of buf M 0 "drop (M - f) xs"] ring(2) assms(2,4) unfolding lens by simp
  ultimately show ?thesis by (metis xs)
qed

lemma layout_3: "es \<noteq> [] \<Longrightarrow> 3 \<le> length (layout es)"
  by (cases es) (simp_all add: layout_Cons Suc_le_eq)

lemma ring_here_contiguous:
  assumes "length xs \<le> M" "0 < M" "M \<le> length buf"
  shows "ring_here (overwrite buf 0 xs) M 0 xs"
  using assms by (auto simp: ring_here_def nth_overwrite)

text \<open>A table whose bytes have been moved to the start of the buffer.\<close>

lemma dt_rel_contiguous:
  assumes "dt_rel t es" "es \<noteq> []" "table_size es \<le> new" "new \<le> dt_settings_max_table_size t"
    "t' = t\<lparr>dt_buffer := overwrite (dt_buffer t) 0 (layout es), dt_first := 0,
            dt_next := length (layout es) - 1, dt_max_size := new\<rparr>"
  shows "dt_rel t' es \<and> length (dt_buffer t') = length (dt_buffer t)"
proof -
  have "1 \<le> length es" using assms(2) by (cases es) auto
  then have L: "length (layout es) + 29 \<le> new" using length_layout [of es] assms(3) by linarith
  have S: "new \<le> length (dt_buffer t)" using assms(1,4) by (simp add: dt_rel_def)
  have "ring_here (overwrite (dt_buffer t) 0 (layout es)) new 0 (layout es)"
    using L S by (intro ring_here_contiguous) simp_all
  moreover have "length (layout es) - 1 = (0 + length (layout es) - 1) mod new" using L by simp
  ultimately show ?thesis using assms L S by (simp add: dt_rel_def)
qed

text \<open>Compacting the ring: when the entries do not wrap they move down in one piece; when they do,
  the part up to the end of the ring moves to its start and the wrapped part behind it, in either
  order.\<close>

lemma straight_moves:
  assumes "dt_rel t es" "es \<noteq> []" "dt_first t + length (layout es) \<le> dt_max_size t"
  shows "\<not> dt_next t \<le> dt_first t" "dt_next t - dt_first t + 1 = length (layout es)"
    "dt_next t - dt_first t = length (layout es) - 1"
    "move_down (dt_buffer t) 0 (dt_first t) (length (layout es)) 0 = Some (overwrite (dt_buffer t) 0 (layout es))"
proof -
  note R = dt_relD [OF assms(1)]
  have L: "length (layout es) + 29 \<le> dt_max_size t" "dt_max_size t \<le> length (dt_buffer t)"
    by (rule R(9) [OF assms(2)], rule R(1))
  have L3: "3 \<le> length (layout es)" by (rule layout_3 [OF assms(2)])
  then have nxt: "dt_next t = dt_first t + length (layout es) - 1" using R(3) assms(3) by simp
  with L3 show "\<not> dt_next t \<le> dt_first t" "dt_next t - dt_first t + 1 = length (layout es)"
    "dt_next t - dt_first t = length (layout es) - 1" by linarith+
  show "move_down (dt_buffer t) 0 (dt_first t) (length (layout es)) 0 = Some (overwrite (dt_buffer t) 0 (layout es))"
    using move_down_correct [of 0 "dt_first t" "length (layout es)" "dt_buffer t"]
      ring_straight [OF R(8) [OF assms(2)] assms(3)] L assms(3) by simp
qed

lemma wrapped_moves:
  assumes "dt_rel t es" "es \<noteq> []" "\<not> dt_first t + length (layout es) \<le> dt_max_size t"
    and a: "a = take (dt_max_size t - dt_first t) (drop (dt_first t) (dt_buffer t))"
    and b: "b = take (dt_next t + 1) (dt_buffer t)"
  shows "dt_next t \<le> dt_first t" "dt_max_size t - dt_first t + dt_next t = length (layout es) - 1"
    "move_down (dt_buffer t) 0 (dt_first t) (dt_max_size t - dt_first t) 0 = Some (overwrite (dt_buffer t) 0 a)"
    "move_up (dt_buffer t) (dt_max_size t - dt_first t) (dt_next t + 1) =
      Some (overwrite (dt_buffer t) (dt_max_size t - dt_first t) b)"
    "mem_write (overwrite (dt_buffer t) 0 a) (dt_max_size t - dt_first t) b = Some (overwrite (dt_buffer t) 0 (layout es))"
    "mem_write (overwrite (dt_buffer t) (dt_max_size t - dt_first t) b) 0 a = Some (overwrite (dt_buffer t) 0 (layout es))"
    "mem_read (dt_buffer t) 0 (dt_next t + 1) = Some b"
    "mem_read (dt_buffer t) (dt_first t) (dt_max_size t - dt_first t) = Some a"
proof -
  let ?M = "dt_max_size t" and ?f = "dt_first t" and ?L = "length (layout es)" and ?buf = "dt_buffer t"
  note R = dt_relD [OF assms(1)]
  have L: "?L + 29 \<le> ?M" "?f < ?M" "?M \<le> length ?buf"
    by (rule R(9) [OF assms(2)], rule R(10) [OF assms(2)], rule R(1))
  have "(?f + ?L - 1) mod ?M = ?f + ?L - 1 - ?M" using assms(3) L by (subst mod_if) simp
  then have nxt: "dt_next t + 1 = ?f + ?L - ?M" using R(3) assms(3) by linarith
  then show small: "dt_next t \<le> ?f" "?M - ?f + dt_next t = ?L - 1" using L by linarith+
  have next_in: "dt_next t + 1 \<le> length ?buf" using nxt L by linarith
  have ab: "a @ b = layout es"
    using ring_wrapped [OF R(8) [OF assms(2)] L(2)] assms(3) L unfolding a b nxt by simp
  have lens: "length a = ?M - ?f" "length b = dt_next t + 1" using L next_in by (simp_all add: a b)
  have fits: "?M - ?f + length b \<le> length ?buf" unfolding lens using nxt L by linarith
  show "move_down ?buf 0 ?f (?M - ?f) 0 = Some (overwrite ?buf 0 a)"
    using move_down_correct [of 0 ?f "?M - ?f" ?buf] L by (simp add: a)
  show "move_up ?buf (?M - ?f) (dt_next t + 1) = Some (overwrite ?buf (?M - ?f) b)"
    using move_up_correct [of "dt_next t + 1" "?M - ?f" ?buf] fits unfolding lens by (simp add: b del: move_up.simps)
  have "overwrite (overwrite ?buf 0 a) (?M - ?f) b = overwrite ?buf 0 (layout es)"
    using overwrite_overwrite_adjacent [of 0 a b ?buf] fits lens unfolding ab [symmetric] by simp
  moreover have "overwrite (overwrite ?buf (?M - ?f) b) 0 a = overwrite ?buf 0 (layout es)"
    unfolding ab [symmetric] using fits lens by (simp add: overwrite_def)
  ultimately show "mem_write (overwrite ?buf 0 a) (?M - ?f) b = Some (overwrite ?buf 0 (layout es))"
    "mem_write (overwrite ?buf (?M - ?f) b) 0 a = Some (overwrite ?buf 0 (layout es))"
    using fits lens by (simp_all add: mem_write_def)
  show "mem_read ?buf 0 (dt_next t + 1) = Some b" "mem_read ?buf ?f (?M - ?f) = Some a"
    using next_in L by (simp_all add: mem_read_def a b)
qed

lemma resize_correct:
  assumes "dt_rel t es"
  shows "if new > dt_settings_max_table_size t
    then hpack_tables_dynamic_table_resize t new = Some (t, HPACK_COMPRESSION_ERROR)
    else \<exists>t'. hpack_tables_dynamic_table_resize t new = Some (t', 0) \<and> dt_rel t' (evict new es) \<and>
      dt_max_size t' = new \<and> dt_settings_max_table_size t' = dt_settings_max_table_size t \<and>
      length (dt_buffer t') = length (dt_buffer t)"
proof (cases "new > dt_settings_max_table_size t")
  case True
  then show ?thesis by (simp add: hpack_tables_dynamic_table_resize_def)
next
  case False
  let ?es = "evict new es"
  obtain t1 where t1: "evict_loop t 0 new = Some t1" "dt_rel t1 ?es" "dt_max_size t1 = dt_max_size t"
    "dt_settings_max_table_size t1 = dt_settings_max_table_size t" "dt_buffer t1 = dt_buffer t"
    using evict_loop_correct [OF assms, of 0 new] by auto
  note R = dt_relD [OF t1(2)]
  let ?M = "dt_max_size t1" and ?f = "dt_first t1" and ?L = "length (layout ?es)" and ?buf = "dt_buffer t1"
  have new: "new mod 2 ^ 16 = new" "new \<le> dt_settings_max_table_size t1"
    using False assms t1(4) by (simp_all add: dt_rel_def)
  note def = hpack_tables_dynamic_table_resize_def t1(1) new(1)
  show ?thesis
  proof (cases "?es = []")
    case True
    then have "dt_next t1 = ?f mod ?M" "dt_n_entries t1 = 0" using R(3,4) by simp_all
    moreover have "dt_next t1 \<le> ?f" using calculation(1) by simp
    moreover have "dt_rel (t1\<lparr>dt_first := 0, dt_next := 0, dt_max_size := new\<rparr>) []"
      using t1(2) new(2) True by (simp add: dt_rel_def)
    ultimately show ?thesis using False t1 True unfolding def by simp
  next
    case ne: False
    let ?t = "t1\<lparr>dt_buffer := overwrite ?buf 0 (layout ?es), dt_first := 0, dt_next := ?L - 1, dt_max_size := new\<rparr>"
    have rel: "dt_rel ?t ?es \<and> length (dt_buffer ?t) = length (dt_buffer t1)"
      by (rule dt_rel_contiguous [OF t1(2) ne evict_size new(2) refl])
    have n0: "dt_n_entries t1 \<noteq> 0" using R(4) ne by simp
    have "hpack_tables_dynamic_table_resize t new = Some (?t, 0)"
    proof (cases "?f + ?L \<le> ?M")
      case True
      then show ?thesis using straight_moves [OF t1(2) ne True] False unfolding def t1(4) by simp
    next
      case wrapped: False
      show ?thesis
        using wrapped_moves [OF t1(2) ne wrapped refl refl] False n0 unfolding def t1(4)
        by (simp add: Let_def del: move_up.simps move_down.simps)
    qed
    with rel False t1 show ?thesis by auto
  qed
qed

lemma init_correct:
  assumes "n \<le> length (dt_buffer t)" "length (dt_buffer t) < 2 ^ 15"
  shows "\<exists>t'. hpack_tables_init_dynamic_table t n = Some t' \<and> dt_rel t' [] \<and> dt_max_size t' = n \<and>
    dt_settings_max_table_size t' = n \<and> length (dt_buffer t') = length (dt_buffer t)"
  using assms by (simp add: hpack_tables_init_dynamic_table_def mem_write_def dt_rel_def Let_def)

subsection \<open>The table as an interface\<close>

text \<open>
  The abstract table: its maximum size, the limit of the settings and its entries. It is the table of
  RFC 7541 with one exception: an entry that is larger than the table is refused and the table stays as it
  is (\<open>tables.c\<close> 486), where section 4.4 of the RFC empties the table and reports no error. A
  representation is a refinement if every operation returns the code of the abstract operation and
  stays in relation; then whole sequences of operations do, and two tables that run the same
  operations hold the same entries.
\<close>

type_synonym abs_table = "nat \<times> nat \<times> entry list"

datatype table_op = Insert "byte list" "byte list" | Resize nat

fun op_ok :: "table_op \<Rightarrow> bool" where
  "op_ok (Insert nm vl) \<longleftrightarrow> entry_ok (nm, vl) \<and> entry_size (nm, vl) < 2 ^ 16"
| "op_ok (Resize new) \<longleftrightarrow> True"

fun abs_step :: "table_op \<Rightarrow> abs_table \<Rightarrow> abs_table \<times> int" where
  "abs_step (Insert nm vl) (M, S, es) =
     (if entry_size (nm, vl) > M then ((M, S, es), HPACK_INTERNAL_ERROR)
      else ((M, S, (nm, vl) # evict (M - entry_size (nm, vl)) es), 0))"
| "abs_step (Resize new) (M, S, es) =
     (if new > S then ((M, S, es), HPACK_COMPRESSION_ERROR) else ((new, S, evict new es), 0))"

fun abs_run :: "table_op list \<Rightarrow> abs_table \<Rightarrow> abs_table \<times> int list" where
  "abs_run [] a = (a, [])"
| "abs_run (opn # ops) a =
     (let (a, rc) = abs_step opn a; (a, rcs) = abs_run ops a in (a, rc # rcs))"

fun table_step ::
  "('t \<Rightarrow> byte list \<Rightarrow> byte list \<Rightarrow> ('t \<times> int) option) \<Rightarrow> ('t \<Rightarrow> nat \<Rightarrow> ('t \<times> int) option) \<Rightarrow>
   table_op \<Rightarrow> 't \<Rightarrow> ('t \<times> int) option" where
  "table_step add resize (Insert nm vl) t = add t (nm @ [0]) (vl @ [0])"
| "table_step add resize (Resize new) t = resize t new"

fun table_run ::
  "('t \<Rightarrow> byte list \<Rightarrow> byte list \<Rightarrow> ('t \<times> int) option) \<Rightarrow> ('t \<Rightarrow> nat \<Rightarrow> ('t \<times> int) option) \<Rightarrow>
   table_op list \<Rightarrow> 't \<Rightarrow> ('t \<times> int list) option" where
  "table_run add resize [] t = Some (t, [])"
| "table_run add resize (opn # ops) t = do {
     (t, rc) \<leftarrow> table_step add resize opn t;
     (t, rcs) \<leftarrow> table_run add resize ops t;
     Some (t, rc # rcs)
   }"

locale header_table =
  fixes rel :: "'t \<Rightarrow> abs_table \<Rightarrow> bool"
    and add :: "'t \<Rightarrow> byte list \<Rightarrow> byte list \<Rightarrow> ('t \<times> int) option"
    and resize :: "'t \<Rightarrow> nat \<Rightarrow> ('t \<times> int) option"
    and lookup :: "'t \<Rightarrow> nat \<Rightarrow> byte list \<Rightarrow> byte list \<Rightarrow> (byte list \<times> byte list \<times> int) option"
  assumes step: "rel t a \<Longrightarrow> op_ok opn \<Longrightarrow>
      \<exists>t'. table_step add resize opn t = Some (t', snd (abs_step opn a)) \<and> rel t' (fst (abs_step opn a))"
    and look: "rel t (M, S, es) \<Longrightarrow> k < length es \<Longrightarrow> length (fst (es ! k)) < length nm \<Longrightarrow>
      length (snd (es ! k)) < length vl \<Longrightarrow>
      lookup t (k + 62) nm vl = Some (overwrite nm 0 (fst (es ! k) @ [0]), overwrite vl 0 (snd (es ! k) @ [0]), 0)"
begin

lemma run_refines:
  assumes "rel t a" "list_all op_ok ops"
  shows "\<exists>t'. table_run add resize ops t = Some (t', snd (abs_run ops a)) \<and> rel t' (fst (abs_run ops a))"
  using assms
proof (induction ops arbitrary: t a)
  case (Cons opn ops)
  obtain t1 where t1: "table_step add resize opn t = Some (t1, snd (abs_step opn a))"
    "rel t1 (fst (abs_step opn a))"
    using step [of t a opn] Cons.prems by auto
  from Cons.IH [OF t1(2)] Cons.prems(2) t1(1) show ?case
    by (auto simp: Let_def split_beta)
qed simp

lemma tables_stay_synchronised:
  assumes "rel t a" "rel u a" "list_all op_ok ops"
  shows "\<exists>t' u' M S es rcs. table_run add resize ops t = Some (t', rcs) \<and> table_run add resize ops u = Some (u', rcs) \<and>
    rel t' (M, S, es) \<and> rel u' (M, S, es) \<and>
    (\<forall>k nm vl. k < length es \<and> length (fst (es ! k)) < length nm \<and> length (snd (es ! k)) < length vl \<longrightarrow>
       lookup t' (k + 62) nm vl = lookup u' (k + 62) nm vl)"
proof -
  obtain M S es where a: "fst (abs_run ops a) = (M, S, es)" by (metis prod_cases3)
  obtain t' where t': "table_run add resize ops t = Some (t', snd (abs_run ops a))" "rel t' (M, S, es)"
    using run_refines [OF assms(1,3)] a by auto
  obtain u' where u': "table_run add resize ops u = Some (u', snd (abs_run ops a))" "rel u' (M, S, es)"
    using run_refines [OF assms(2,3)] a by auto
  have "lookup t' (k + 62) nm vl = lookup u' (k + 62) nm vl"
    if "k < length es" "length (fst (es ! k)) < length nm" "length (snd (es ! k)) < length vl" for k nm vl
    using look [OF t'(2) that] look [OF u'(2) that] by simp
  with t' u' show ?thesis by blast
qed

end

fun dt_table_rel :: "hpack_dynamic_table \<Rightarrow> abs_table \<Rightarrow> bool" where
  "dt_table_rel t (M, S, es) \<longleftrightarrow> dt_rel t es \<and> dt_max_size t = M \<and> dt_settings_max_table_size t = S"

interpretation dyn: header_table dt_table_rel hpack_tables_dynamic_table_add_entry
  hpack_tables_dynamic_table_resize hpack_tables_dynamic_find_entry_name_and_value
proof
  fix t a opn
  assume r: "dt_table_rel t a" and ok: "op_ok opn"
  obtain M S es where a: "a = (M, S, es)" by (metis prod_cases3)
  from r a have t: "dt_rel t es" "dt_max_size t = M" "dt_settings_max_table_size t = S" by simp_all
  show "\<exists>t'. table_step hpack_tables_dynamic_table_add_entry hpack_tables_dynamic_table_resize opn t =
      Some (t', snd (abs_step opn a)) \<and> dt_table_rel t' (fst (abs_step opn a))"
  proof (cases opn)
    case (Insert nm vl)
    with ok add_entry_correct [OF t(1), of nm vl "[]" "[]"] t a show ?thesis by auto
  next
    case (Resize new)
    with resize_correct [OF t(1), of new] t a show ?thesis by auto
  qed
qed (simp add: find_entry_correct)

text \<open>Eviction keeps as many of the newest entries as fit.\<close>

lemma evict_greatest:
  assumes "k \<le> length es" "table_size (take k es) \<le> limit"
  shows "k \<le> length (evict limit es)"
  using assms
proof (induction limit es rule: evict.induct)
  case (1 limit es)
  show ?case
  proof (cases "table_size es \<le> limit")
    case True
    with "1.prems" show ?thesis by (simp add: evict_fits)
  next
    case False
    with "1.prems" have "k \<noteq> length es" by auto
    with "1.prems" have "k < length es" and k: "k \<le> length (butlast es)" by simp_all
    then have "take k (butlast es) = take k es" by (simp add: take_butlast)
    with "1.IH" [OF False k] "1.prems" False show ?thesis by (subst evict.simps) simp
  qed
qed

text \<open>
  Claim C6. The ring buffer of the dynamic table refines the abstract table, which is the one of RFC 7541 except for
  insertions that are larger than the table: the code refuses them, the RFC empties the table. After initialisation, any
  sequence of insertions and resizes returns, on every step, exactly the code of the abstract
  operation: an insertion evicts the oldest entries until the new one fits and puts it first, one that
  is larger than the table is refused and leaves it unchanged, a resize evicts until the entries fit and is refused above the
  limit of the settings. No operation leaves the buffer or fails to return; afterwards the counters
  agree with the entries, the entries fit, and looking up any index gives exactly its entry, or a
  compression error behind the last one.
\<close>

theorem dynamic_table_refines:
  assumes "S \<le> length (dt_buffer t0)" "length (dt_buffer t0) < 2 ^ 15" "list_all op_ok ops"
  shows "\<exists>t t' rcs M S' es. hpack_tables_init_dynamic_table t0 S = Some t \<and>
    table_run hpack_tables_dynamic_table_add_entry hpack_tables_dynamic_table_resize ops t = Some (t', rcs) \<and>
    abs_run ops (S, S, []) = ((M, S', es), rcs) \<and>
    dt_max_size t' = M \<and> dt_n_entries t' = length es \<and> dt_actual_size t' = table_size es \<and>
    dt_actual_size t' \<le> dt_max_size t' \<and>
    (\<forall>k nm vl. k < length es \<and> length (fst (es ! k)) < length nm \<and> length (snd (es ! k)) < length vl \<longrightarrow>
       hpack_tables_dynamic_find_entry_name_and_value t' (k + 62) nm vl =
         Some (fst (es ! k) @ 0 # drop (length (fst (es ! k)) + 1) nm,
               snd (es ! k) @ 0 # drop (length (snd (es ! k)) + 1) vl, 0)) \<and>
    (\<forall>k nm vl. length es \<le> k \<and> k < 2 ^ 31 \<longrightarrow>
       hpack_tables_dynamic_find_entry_name_and_value t' (k + 62) nm vl = Some (nm, vl, HPACK_COMPRESSION_ERROR))"
proof -
  obtain t where t: "hpack_tables_init_dynamic_table t0 S = Some t" "dt_table_rel t (S, S, [])"
    using init_correct [OF assms(1,2)] by auto
  obtain M S' es where a: "fst (abs_run ops (S, S, [])) = (M, S', es)" by (metis prod_cases3)
  obtain t' where t': "table_run hpack_tables_dynamic_table_add_entry hpack_tables_dynamic_table_resize ops t =
      Some (t', snd (abs_run ops (S, S, [])))" "dt_table_rel t' (M, S', es)"
    using dyn.run_refines [OF t(2) assms(3)] a by auto
  note R = dt_relD [of t' es]
  then have rel: "dt_rel t' es" "dt_max_size t' = M" using t'(2) by simp_all
  have ow: "overwrite xs 0 (ys @ [0]) = ys @ 0 # drop (length ys + 1) xs" for xs ys :: "byte list"
    by (simp add: overwrite_def)
  have "abs_run ops (S, S, []) = ((M, S', es), snd (abs_run ops (S, S, [])))" using a by (metis prod.collapse)
  moreover have "dt_n_entries t' = length es" "dt_actual_size t' = table_size es" "dt_actual_size t' \<le> dt_max_size t'"
    using R(4-6) rel(1) by simp_all
  ultimately show ?thesis
    using t(1) t'(1) rel(2) find_entry_correct(1) [OF rel(1), unfolded ow] find_entry_missing(1) [OF rel(1)]
    by blast
qed

lemma dynamic_table_refines_witness:
  defines "t0 \<equiv> \<lparr>dt_max_size = 0, dt_first = 0, dt_next = 0, dt_actual_size = 0, dt_n_entries = 0,
    dt_settings_max_table_size = 0, dt_buffer = replicate 80 7\<rparr>"
    and "ops \<equiv> [Insert [1, 2] [3], Insert [4] [5, 6], Insert [8] [], Resize 40, Resize 90]"
  shows "abs_run ops (80, 80, []) = ((40, 80, [([8], [])]), [0, 0, 0, 0, - 1]) \<and>
    (\<exists>t t' M S' es. hpack_tables_init_dynamic_table t0 80 = Some t \<and>
    table_run hpack_tables_dynamic_table_add_entry hpack_tables_dynamic_table_resize ops t =
      Some (t', [0, 0, 0, 0, - 1]) \<and>
    abs_run ops (80, 80, []) = ((M, S', es), [0, 0, 0, 0, - 1]) \<and> dt_max_size t' = M \<and>
    dt_actual_size t' = table_size es)"
proof -
  have a: "abs_run ops (80, 80, []) = ((40, 80, [([8], [])]), [0, 0, 0, 0, - 1])"
    by (simp add: ops_def evict.simps entry_size_def HPACK_COMPRESSION_ERROR_def)
  moreover have "list_all op_ok ops" by (simp add: ops_def entry_ok_def entry_size_def)
  ultimately show ?thesis
    using dynamic_table_refines [of 80 t0 ops] by (simp add: t0_def) blast
qed

end
