(* ===== verification/Tables.thy ===== *)
theory Tables
  imports Dynamic_Table
begin

text \<open>
  \<open>src/src/hpack/tables.c\<close> and \<open>src/src/hpack/tables.h\<close>, the index space of HPACK: the static table,
  entries 1 to 61, stored as two arrays of strings that follow one another, and the dynamic table from
  index 62 on. The lemmas give the exact result of every look-up, by index and by content. The
  search by content compares only as many bytes as the given string has, so it also finds entries
  that merely start with it; \<open>entry_matches\<close> says precisely which.
\<close>

definition HPACK_TABLES_FIRST_INDEX_DYNAMIC :: nat where
  "HPACK_TABLES_FIRST_INDEX_DYNAMIC = 62"

definition static_names :: "string list" where
  "static_names =
    ['':authority'', '':method'', '':method'', '':path'', '':path'', '':scheme'',
     '':scheme'', '':status'', '':status'', '':status'', '':status'', '':status'',
     '':status'', '':status'', ''accept-charset'', ''accept-encoding'',
     ''accept-language'', ''accept-ranges'', ''accept'',
     ''access-control-allow-origin'', ''age'', ''allow'', ''authorization'',
     ''cache-control'', ''content-disposition'', ''content-encoding'',
     ''content-language'', ''content-length'', ''content-location'',
     ''content-range'', ''content-type'', ''cookie'', ''date'', ''etag'', ''expect'',
     ''expires'', ''from'', ''host'', ''if-match'', ''if-modified-since'',
     ''if-none-match'', ''if-range'', ''if-unmodified-since'', ''last-modified'',
     ''link'', ''location'', ''max-forwards'', ''proxy-authenticate'',
     ''proxy-authorization'', ''range'', ''referer'', ''refresh'', ''retry-after'',
     ''server'', ''set-cookie'', ''strict-transport-security'',
     ''transfer-encoding'', ''user-agent'', ''vary'', ''via'', ''www-authenticate'']"

definition static_values :: "string list" where
  "static_values =
    ['''', ''GET'', ''POST'', ''/'', ''/index.html'', ''http'',
     ''https'', ''200'', ''204'', ''206'', ''304'', ''400'', ''404'',
     ''500'', '''', ''gzip, deflate'', '''', '''', '''', '''', '''', '''',
     '''', '''', '''', '''', '''', '''', '''', '''', '''', '''', '''', '''', '''',
     '''', '''', '''', '''', '''', '''', '''', '''', '''', '''', '''', '''', '''',
     '''', '''', '''', '''', '''', '''', '''', '''', '''', '''', '''', '''', '''']"

text \<open>
  \<open>CREATE_STATIC_TABLE\<close> puts a separator behind every string; the literal adds a final zero.
\<close>

definition create_static_table :: "byte list list \<Rightarrow> byte list" where
  "create_static_table ss = concat (map (\<lambda>s. s @ [0]) ss) @ [0]"

definition name_table :: "byte list" where
  "name_table = create_static_table (map lit static_names)"

definition value_table :: "byte list" where
  "value_table = create_static_table (map lit static_values)"

text \<open>A table pointer is an offset; \<open>skip_string\<close> is \<open>p += strlen(p) + 1\<close>.\<close>

definition skip_string :: "byte list \<Rightarrow> nat \<Rightarrow> nat option" where
  "skip_string tbl p = do {
     guard (p \<le> length tbl);
     sz \<leftarrow> strlen (drop p tbl);
     Some (p + sz + 1)
   }"

fun skip_strings :: "byte list \<Rightarrow> nat \<Rightarrow> nat \<Rightarrow> nat option" where
  "skip_strings tbl 0 p = Some p"
| "skip_strings tbl (Suc n) p = do {
     p \<leftarrow> skip_string tbl p;
     skip_strings tbl n p
   }"

text \<open>\<open>strncpy(dst, src, strlen(src))\<close> copies the string without its final zero.\<close>

definition strncpy_strlen :: "byte list \<Rightarrow> byte list \<Rightarrow> nat \<Rightarrow> byte list option" where
  "strncpy_strlen dst tbl p = do {
     sz \<leftarrow> strlen (drop p tbl);
     bs \<leftarrow> mem_read tbl p sz;
     mem_write dst 0 bs
   }"

definition hpack_tables_static_find_entry_name_and_value ::
  "nat \<Rightarrow> byte list \<Rightarrow> byte list \<Rightarrow> (byte list \<times> byte list) option" where
  "hpack_tables_static_find_entry_name_and_value index name val = do {
     guard (index > 0);
     guard (index < 62);
     let index = index - 1;
     table_name_pointer \<leftarrow> skip_strings name_table index 0;
     table_value_pointer \<leftarrow> skip_strings value_table index 0;
     name \<leftarrow> strncpy_strlen name name_table table_name_pointer;
     val \<leftarrow> strncpy_strlen val value_table table_value_pointer;
     Some (name, val)
   }"

definition hpack_tables_static_find_entry_name :: "nat \<Rightarrow> byte list \<Rightarrow> byte list option" where
  "hpack_tables_static_find_entry_name index name = do {
     guard (index > 0);
     guard (index < 62);
     let index = index - 1;
     table_name_pointer \<leftarrow> skip_strings name_table index 0;
     strncpy_strlen name name_table table_name_pointer
   }"

definition hpack_tables_find_entry_name_and_value ::
  "hpack_dynamic_table \<Rightarrow> nat \<Rightarrow> byte list \<Rightarrow> byte list \<Rightarrow> (byte list \<times> byte list \<times> int) option" where
  "hpack_tables_find_entry_name_and_value t index name val = do {
     guard (index > 0);
     if index \<ge> HPACK_TABLES_FIRST_INDEX_DYNAMIC
     then hpack_tables_dynamic_find_entry_name_and_value t index name val
     else do {
       (name, val) \<leftarrow> hpack_tables_static_find_entry_name_and_value index name val;
       Some (name, val, 0)
     }
   }"

definition hpack_tables_find_entry_name ::
  "hpack_dynamic_table \<Rightarrow> nat \<Rightarrow> byte list \<Rightarrow> (byte list \<times> int) option" where
  "hpack_tables_find_entry_name t index name = do {
     guard (index > 0);
     if index \<ge> HPACK_TABLES_FIRST_INDEX_DYNAMIC
     then hpack_tables_dynamic_find_entry_name t index name
     else do {
       name \<leftarrow> hpack_tables_static_find_entry_name index name;
       Some (name, 0)
     }
   }"

text \<open>
  \<open>strlen(s) == strlen(p) && strncmp(p, s, strlen(s)) == 0\<close> for a table pointer \<open>p\<close>.
\<close>

definition string_at :: "byte list \<Rightarrow> nat \<Rightarrow> byte list \<Rightarrow> bool option" where
  "string_at tbl p s = do {
     a \<leftarrow> cstr s;
     guard (p \<le> length tbl);
     b \<leftarrow> cstr (drop p tbl);
     Some (length a = length b \<and> take (length a) b = a)
   }"

text \<open>
  The static part of the searches; \<open>None\<close> inside the option means that the loop ran to its end.
\<close>

fun static_search_loop :: "byte list \<Rightarrow> byte list \<Rightarrow> nat \<Rightarrow> nat \<Rightarrow> nat \<Rightarrow> nat \<Rightarrow> int option option" where
  "static_search_loop name val 0 i table_name table_value = Some None"
| "static_search_loop name val (Suc n) i table_name table_value = do {
     eq_name \<leftarrow> string_at name_table table_name name;
     eq_value \<leftarrow> (if eq_name then string_at value_table table_value val else Some False);
     if eq_value then Some (Some (int i + 1))
     else do {
       table_name \<leftarrow> skip_string name_table table_name;
       table_value \<leftarrow> skip_string value_table table_value;
       static_search_loop name val n (i + 1) table_name table_value
     }
   }"

fun static_name_loop :: "byte list \<Rightarrow> nat \<Rightarrow> nat \<Rightarrow> nat \<Rightarrow> int option option" where
  "static_name_loop name 0 i table_name = Some None"
| "static_name_loop name (Suc n) i table_name = do {
     eq_name \<leftarrow> string_at name_table table_name name;
     if eq_name then Some (Some (int i + 1))
     else do {
       table_name \<leftarrow> skip_string name_table table_name;
       static_name_loop name n (i + 1) table_name
     }
   }"

text \<open>
  The dynamic part is the same loop in both searches, up to what they compare at the start of an
  entry; \<open>strings_counter\<close> is a \<open>uint8_t\<close>.
\<close>

fun dynamic_search_loop :: "hpack_dynamic_table \<Rightarrow> (nat \<Rightarrow> bool option) \<Rightarrow> nat \<Rightarrow> nat \<Rightarrow> nat \<Rightarrow> int option" where
  "dynamic_search_loop t matches 0 i strings_counter = Some HPACK_INTERNAL_ERROR"
| "dynamic_search_loop t matches (Suc n) i strings_counter = do {
     b \<leftarrow> dt_read t (int (dt_next t) - int i + int (dt_max_size t));
     let strings_counter = (if b = 0 then (strings_counter + 1) mod 2 ^ 8 else strings_counter);
     found \<leftarrow> (if b = 0 \<and> strings_counter mod 2 = 0 \<and> strings_counter > 0 then matches i else Some False);
     if found then Some (int (strings_counter div 2) + int HPACK_TABLES_FIRST_INDEX_DYNAMIC - 1)
     else if strings_counter div 2 \<ge> dt_n_entries t then Some HPACK_INTERNAL_ERROR
     else dynamic_search_loop t matches n (i + 1) strings_counter
   }"

definition matches_entry :: "hpack_dynamic_table \<Rightarrow> byte list \<Rightarrow> byte list \<Rightarrow> nat \<Rightarrow> bool option" where
  "matches_entry t name val i = do {
     rc \<leftarrow> hpack_tables_dynamic_compare_string t i name;
     if rc > 0 then do {
       rc \<leftarrow> hpack_tables_dynamic_compare_string t (nat ((int i - rc) mod 2 ^ 16)) val;
       Some (rc > 0)
     }
     else Some False
   }"

definition matches_name :: "hpack_dynamic_table \<Rightarrow> byte list \<Rightarrow> nat \<Rightarrow> bool option" where
  "matches_name t name i = do {
     rc \<leftarrow> hpack_tables_dynamic_compare_string t i name;
     Some (rc > 0)
   }"

definition hpack_tables_find_index :: "hpack_dynamic_table \<Rightarrow> byte list \<Rightarrow> byte list \<Rightarrow> int option" where
  "hpack_tables_find_index t name val = do {
     r \<leftarrow> static_search_loop name val HPACK_TABLES_FIRST_INDEX_DYNAMIC 0 0 0;
     case r of
       Some i \<Rightarrow> Some i
     | None \<Rightarrow> dynamic_search_loop t (matches_entry t name val) (dt_max_size t) 1 0
   }"

definition hpack_tables_find_index_name :: "hpack_dynamic_table \<Rightarrow> byte list \<Rightarrow> int option" where
  "hpack_tables_find_index_name t name = do {
     r \<leftarrow> static_name_loop name HPACK_TABLES_FIRST_INDEX_DYNAMIC 0 0;
     case r of
       Some i \<Rightarrow> Some i
     | None \<Rightarrow> dynamic_search_loop t (matches_name t name) (dt_max_size t) 1 0
   }"

subsection \<open>The static table\<close>

text \<open>The position of the first element that satisfies a predicate.\<close>

fun first_index :: "('a \<Rightarrow> bool) \<Rightarrow> 'a list \<Rightarrow> nat option" where
  "first_index P [] = None"
| "first_index P (x # xs) = (if P x then Some 0 else map_option Suc (first_index P xs))"

lemma first_index_SomeD:
  "first_index P xs = Some k \<Longrightarrow> k < length xs \<and> P (xs ! k) \<and> (\<forall>j < k. \<not> P (xs ! j))"
  by (induction xs arbitrary: k) (auto split: if_splits simp: nth_Cons less_Suc_eq_0_disj split: nat.splits)

lemma first_index_NoneD: "first_index P xs = None \<Longrightarrow> x \<in> set xs \<Longrightarrow> \<not> P x"
  by (induction xs) (auto split: if_splits)

text \<open>Strings that follow one another, each with its zero; \<open>strpos\<close> is where a string starts.\<close>

definition strings :: "byte list list \<Rightarrow> byte list" where
  "strings ss = concat (map (\<lambda>s. s @ [0]) ss)"

definition strpos :: "byte list list \<Rightarrow> nat \<Rightarrow> nat" where
  "strpos ss k = length (strings (take k ss))"

lemma create_static_table_strings: "create_static_table ss = strings (ss @ [[]])"
  by (simp add: create_static_table_def strings_def)

lemma strings_split:
  assumes "k < length ss"
  shows "strings ss = strings (take k ss) @ ss ! k @ 0 # strings (drop (Suc k) ss)"
proof -
  have "ss = take k ss @ ss ! k # drop (Suc k) ss" using assms by (rule id_take_nth_drop)
  then have "strings ss = strings (take k ss @ ss ! k # drop (Suc k) ss)" by (rule arg_cong)
  then show ?thesis by (simp add: strings_def)
qed

lemma strings_at:
  assumes "list_all nul_free ss" "k < length ss"
  shows "strpos ss k \<le> length (strings ss)" "cstr (drop (strpos ss k) (strings ss)) = Some (ss ! k)"
    "skip_string (strings ss) (strpos ss k) = Some (strpos ss (Suc k))"
proof -
  have ok: "nul_free (ss ! k)" using assms by (simp add: list_all_length)
  have d: "drop (strpos ss k) (strings ss) = ss ! k @ 0 # strings (drop (Suc k) ss)"
    unfolding strpos_def by (subst strings_split [OF assms(2)]) simp
  show le: "strpos ss k \<le> length (strings ss)"
    unfolding strpos_def by (subst strings_split [OF assms(2)]) simp
  show "cstr (drop (strpos ss k) (strings ss)) = Some (ss ! k)" unfolding d using ok by simp
  have "strpos ss (Suc k) = strpos ss k + length (ss ! k) + 1"
    using assms(2) by (simp add: strpos_def strings_def take_Suc_conv_app_nth)
  then show "skip_string (strings ss) (strpos ss k) = Some (strpos ss (Suc k))"
    unfolding skip_string_def d using ok le by simp
qed

lemma string_at_strings:
  "list_all nul_free ss \<Longrightarrow> k < length ss \<Longrightarrow> nul_free s \<Longrightarrow>
   string_at (strings ss) (strpos ss k) (s @ 0 # r) = Some (s = ss ! k)"
  using strings_at by (auto simp: string_at_def)

lemma skip_strings_strpos:
  "list_all nul_free ss \<Longrightarrow> k + n \<le> length ss \<Longrightarrow>
   skip_strings (strings ss) n (strpos ss k) = Some (strpos ss (k + n))"
  by (induction n arbitrary: k) (simp_all add: strings_at)

lemma strncpy_strings:
  assumes "list_all nul_free ss" "k < length ss" "length (ss ! k) \<le> length dst"
  shows "strncpy_strlen dst (strings ss) (strpos ss k) = Some (overwrite dst 0 (ss ! k))"
proof -
  have d: "drop (strpos ss k) (strings ss) = ss ! k @ 0 # strings (drop (Suc k) ss)"
    unfolding strpos_def by (subst strings_split [OF assms(2)]) simp
  have "strpos ss k + length (ss ! k) \<le> length (strings ss)"
    unfolding strpos_def by (subst strings_split [OF assms(2)]) simp
  moreover have "nul_free (ss ! k)" using assms(1,2) by (simp add: list_all_length)
  ultimately show ?thesis using assms(3) unfolding strncpy_strlen_def mem_read_def d
    by (simp add: mem_write_def)
qed

text \<open>The two tables of the source, with the empty string that the final zero makes.\<close>

definition snames :: "byte list list" where
  "snames = map lit static_names"

definition svalues :: "byte list list" where
  "svalues = map lit static_values"

lemma static_table_facts:
  "length snames = 61" "length svalues = 61" "list_all nul_free snames" "list_all nul_free svalues"
  "list_all (\<lambda>s. length s < HPACK_HEADER_NAME_LEN) snames"
  "list_all (\<lambda>s. length s < HPACK_HEADER_VALUE_LEN) svalues" "list_all (\<lambda>s. s \<noteq> []) snames"
  by (simp_all add: snames_def svalues_def static_names_def static_values_def lit_def nul_free_def
      HPACK_HEADER_NAME_LEN_def HPACK_HEADER_VALUE_LEN_def)

lemma static_tables: "name_table = strings (snames @ [[]])" "value_table = strings (svalues @ [[]])"
  by (simp_all add: name_table_def value_table_def snames_def svalues_def create_static_table_strings)

declare static_table_facts(1-4) [simp]

lemma static_find_entry_correct:
  assumes "0 < index" "index < 62" "length (snames ! (index - 1)) \<le> length nm"
    "length (svalues ! (index - 1)) \<le> length vl"
  shows "hpack_tables_static_find_entry_name_and_value index nm vl =
      Some (overwrite nm 0 (snames ! (index - 1)), overwrite vl 0 (svalues ! (index - 1)))"
    "hpack_tables_static_find_entry_name index nm = Some (overwrite nm 0 (snames ! (index - 1)))"
proof -
  let ?k = "index - 1"
  have k: "?k < 61" using assms by simp
  then have nth: "(snames @ [[]]) ! ?k = snames ! ?k" "(svalues @ [[]]) ! ?k = svalues ! ?k"
    using static_table_facts by (simp_all add: nth_append)
  have p0: "strpos ss 0 = 0" for ss by (simp add: strpos_def strings_def)
  have skip: "skip_strings name_table ?k 0 = Some (strpos (snames @ [[]]) ?k)"
    "skip_strings value_table ?k 0 = Some (strpos (svalues @ [[]]) ?k)"
    using skip_strings_strpos [of "snames @ [[]]" 0 ?k] skip_strings_strpos [of "svalues @ [[]]" 0 ?k] k
    by (simp_all add: static_tables p0)
  have cpy: "strncpy_strlen nm name_table (strpos (snames @ [[]]) ?k) = Some (overwrite nm 0 (snames ! ?k))"
    "strncpy_strlen vl value_table (strpos (svalues @ [[]]) ?k) = Some (overwrite vl 0 (svalues ! ?k))"
    using strncpy_strings [of "snames @ [[]]" ?k nm] strncpy_strings [of "svalues @ [[]]" ?k vl] k assms(3,4)
    unfolding static_tables nth by simp_all
  show "hpack_tables_static_find_entry_name_and_value index nm vl =
      Some (overwrite nm 0 (snames ! ?k), overwrite vl 0 (svalues ! ?k))"
    "hpack_tables_static_find_entry_name index nm = Some (overwrite nm 0 (snames ! ?k))"
    using assms(1,2) skip cpy
    by (simp_all add: hpack_tables_static_find_entry_name_and_value_def
        hpack_tables_static_find_entry_name_def Let_def)
qed

text \<open>
  The static search finds the first equal entry. The loop runs one string too far: index 62 is found
  for an empty name and value.
\<close>

lemma static_search_loop_correct:
  assumes "nul_free nm" "nul_free vl" "i + n = 62"
  shows "static_search_loop (nm @ 0 # r1) (vl @ 0 # r2) n i (strpos (snames @ [[]]) i) (strpos (svalues @ [[]]) i) =
    Some (map_option (\<lambda>j. int (i + j) + 1)
      (first_index (\<lambda>e. nm = fst e \<and> vl = snd e) (drop i (zip (snames @ [[]]) (svalues @ [[]])))))"
  using assms(3)
proof (induction n arbitrary: i)
  case (Suc n)
  let ?N = "snames @ [[]]" and ?V = "svalues @ [[]]"
  have i: "i < length ?N" "i < length ?V" "i < length (zip ?N ?V)" using Suc.prems by simp_all
  have d: "drop i (zip ?N ?V) = (?N ! i, ?V ! i) # drop (i + 1) (zip ?N ?V)"
    using Cons_nth_drop_Suc [OF i(3)] nth_zip [OF i(1,2)] by (simp only: Suc_eq_plus1)
  have ok: "list_all nul_free ?N" "list_all nul_free ?V" by simp_all
  show ?case
    using Suc.IH [of "i + 1"] Suc.prems strings_at(3) [OF ok(1) i(1)] strings_at(3) [OF ok(2) i(2)]
      string_at_strings [OF ok(1) i(1) assms(1), of r1] string_at_strings [OF ok(2) i(2) assms(2), of r2]
    unfolding d by (auto simp: static_tables option.map_comp o_def ac_simps)
qed simp

lemma static_name_loop_correct:
  assumes "nul_free nm" "i + n = 62"
  shows "static_name_loop (nm @ 0 # r1) n i (strpos (snames @ [[]]) i) =
    Some (map_option (\<lambda>j. int (i + j) + 1) (first_index (\<lambda>s. nm = s) (drop i (snames @ [[]]))))"
  using assms(2)
proof (induction n arbitrary: i)
  case (Suc n)
  let ?N = "snames @ [[]]"
  have i: "i < length ?N" using Suc.prems by simp
  have d: "drop i ?N = ?N ! i # drop (i + 1) ?N" using Cons_nth_drop_Suc [OF i] by simp
  have ok: "list_all nul_free ?N" by simp
  show ?case
    using Suc.IH [of "i + 1"] Suc.prems strings_at(3) [OF ok i] string_at_strings [OF ok i assms(1), of r1]
    unfolding d by (auto simp: static_tables option.map_comp o_def ac_simps)
qed simp

subsection \<open>Searching the dynamic table\<close>

lemma compare_loop_correct:
  assumes "dt_rel t es" "es \<noteq> []" "layout es = pre @ b # s1 @ post" "nul_free s2" "0 \<in> set post"
    "int ip = int (length (layout es)) - 1 - int (length pre)"
  shows "compare_string_loop t ip (s1 @ s2 @ 0 # r) (length s2) (length s1) =
    Some (take (length s2) post = s2)"
  using assms
proof (induction s2 arbitrary: s1 post)
  case (Cons c s2)
  obtain x post' where post: "post = x # post'" using Cons.prems(5) by (cases post) auto
  have len: "length (layout es) = length pre + length s1 + length post' + 2"
    using arg_cong [OF Cons.prems(3), of length] post by simp
  have z: "int (dt_next t) - int ip + 1 + int (length s1) + int (dt_max_size t) =
      int (dt_next t) + (1 + int (length s1) - int ip) + int (dt_max_size t)" by simp
  have "nat (int (length (layout es)) - 1 + (1 + int (length s1) - int ip)) = length pre + length s1 + 1"
    unfolding Cons.prems(6) by simp
  then have rd: "dt_read t (int (dt_next t) - int ip + 1 + int (length s1) + int (dt_max_size t)) = Some x"
    unfolding z using dt_read_from_next [OF Cons.prems(1,2), of "1 + int (length s1) - int ip"]
      Cons.prems(3,6) len post by (simp add: nth_append)
  show ?case
  proof (cases "c = x")
    case True
    then have "x \<noteq> 0" using Cons.prems(4) by simp
    then have "compare_string_loop t ip ((s1 @ [c]) @ s2 @ 0 # r) (length s2) (length (s1 @ [c])) =
        Some (take (length s2) post' = s2)"
      using Cons.prems True post by (intro Cons.IH) auto
    with True rd post show ?thesis by (simp add: compare_string_loop.simps(2) rd_def nth_append)
  next
    case False
    with rd post show ?thesis by (auto simp: compare_string_loop.simps(2) rd_def nth_append)
  qed
qed simp

lemma compare_string_correct:
  assumes "dt_rel t es" "es \<noteq> []" "layout es = pre @ b # post" "nul_free s" "0 \<in> set post"
    "length s + 1 < 2 ^ 15" "int ip = int (length (layout es)) - 1 - int (length pre)"
  shows "hpack_tables_dynamic_compare_string t ip (s @ 0 # r) =
    Some (if take (length s) post = s then int (length s) + 1 else - 1)"
proof -
  have "int16 (int (length s)) = int (length s)" "int16 (int (length s) + 1) = int (length s) + 1"
    using assms(6) by (simp_all add: int16_small)
  then show ?thesis
    using compare_loop_correct [of t es pre b "[]" post s ip r] assms
    by (simp add: hpack_tables_dynamic_compare_string_def Let_def)
qed

text \<open>Which entries the searches take for a match.\<close>

definition name_matches :: "byte list \<Rightarrow> entry \<Rightarrow> bool" where
  "name_matches nm e \<longleftrightarrow> take (length nm) (fst e) = nm"

definition entry_matches :: "byte list \<Rightarrow> byte list \<Rightarrow> entry \<Rightarrow> bool" where
  "entry_matches nm vl e \<longleftrightarrow> name_matches nm e \<and>
     (if length nm = length (fst e) then take (length vl) (snd e) = vl
      else take (length vl) (drop (length nm + 1) (fst e)) = vl)"

lemma take_nul_free:
  assumes "nul_free s"
  shows "take (length s) (n @ 0 # post) = s \<longleftrightarrow> take (length s) n = s"
proof (cases "length s \<le> length n")
  case False
  then have "take (length s) (n @ 0 # post) = n @ 0 # take (length s - length n - 1) post"
    by (cases "length s - length n") auto
  with assms have "take (length s) (n @ 0 # post) \<noteq> s" by (metis nul_free_simps(2,3))
  moreover have "take (length s) n \<noteq> s" using False by (metis length_take min.cobounded1)
  ultimately show ?thesis by simp
qed simp

lemma matches_correct:
  assumes "dt_rel t es" "k < length es" "nul_free nm" "nul_free vl" "length nm + 1 < 2 ^ 15" "length vl + 1 < 2 ^ 15"
  shows "matches_name t (nm @ 0 # r1) (offset es k) = Some (name_matches nm (es ! k))"
    "matches_entry t (nm @ 0 # r1) (vl @ 0 # r2) (offset es k) = Some (entry_matches nm vl (es ! k))"
proof -
  have ne: "es \<noteq> []" using assms(2) by auto
  obtain n v where e: "es ! k = (n, v)" by (cases "es ! k")
  obtain pre post where l: "layout es = pre @ 0 # n @ 0 # v @ 0 # post"
    "length (layout es) - 1 - length pre = offset es k" "length pre < length (layout es)"
    using layout_at_entry [OF assms(2)] e by auto
  have ip: "int (offset es k) = int (length (layout es)) - 1 - int (length pre)"
    using l(2,3) by linarith
  let ?post = "n @ 0 # v @ 0 # post"
  have n: "hpack_tables_dynamic_compare_string t (offset es k) (nm @ 0 # r1) =
      Some (if name_matches nm (es ! k) then int (length nm) + 1 else - 1)"
    using compare_string_correct [OF assms(1) ne l(1) assms(3) _ assms(5) ip, of r1] take_nul_free [OF assms(3), of n]
    by (simp add: name_matches_def e)
  then show "matches_name t (nm @ 0 # r1) (offset es k) = Some (name_matches nm (es ! k))"
    by (simp add: matches_name_def)
  show "matches_entry t (nm @ 0 # r1) (vl @ 0 # r2) (offset es k) = Some (entry_matches nm vl (es ! k))"
  proof (cases "name_matches nm (es ! k)")
    case False
    with n show ?thesis by (simp add: matches_entry_def entry_matches_def)
  next
    case True
    then have le: "length nm \<le> length n" and tk: "take (length nm) n = nm"
      unfolding name_matches_def e by (metis fst_conv length_take min.cobounded1, simp)
    let ?q = "pre @ 0 # take (length nm) ?post" and ?b = "?post ! length nm" and ?post2 = "drop (length nm + 1) ?post"
    have lt: "length nm < length ?post" using le by simp
    have l2: "layout es = ?q @ ?b # ?post2"
      unfolding l(1) using id_take_nth_drop [OF lt] by simp
    have "length (layout es) = length pre + length n + length v + length post + 3" unfolding l(1) by simp
    then have off: "length nm + 2 \<le> offset es k" using ip le by linarith
    have off16: "offset es k < 2 ^ 16"
      using offset_less [OF assms(2)] dt_relD(2) [OF assms(1)] dt_relD(9) [OF assms(1) ne] by simp
    have "int (offset es k) - (int (length nm) + 1) = int (offset es k - length nm - 1)" using off by simp
    then have pos: "nat ((int (offset es k) - (int (length nm) + 1)) mod 2 ^ 16) = offset es k - length nm - 1"
      using off16 by simp
    have ip2: "int (offset es k - length nm - 1) = int (length (layout es)) - 1 - int (length ?q)"
      using ip off le by simp
    let ?w = "if length nm = length n then v else drop (length nm + 1) n"
    obtain rest where w: "?post2 = ?w @ 0 # rest"
    proof (cases "length nm = length n")
      case False
      with le have "?post2 = drop (length nm + 1) n @ 0 # v @ 0 # post" by simp
      with False that show ?thesis by auto
    qed (use that in auto)
    have "hpack_tables_dynamic_compare_string t (offset es k - length nm - 1) (vl @ 0 # r2) =
        Some (if take (length vl) (?w @ 0 # rest) = vl then int (length vl) + 1 else - 1)"
      using compare_string_correct [OF assms(1) ne l2 assms(4) _ assms(6) ip2, of r2] unfolding w by simp
    with n True pos show ?thesis
      unfolding matches_entry_def entry_matches_def take_nul_free [OF assms(4)] e by simp
  qed
qed

declare dynamic_search_loop.simps(2) [simp del]

lemma search_skip:
  assumes "dt_rel t es" "es \<noteq> []" "rev (layout es) = pre @ seg @ post" "nul_free seg" "i = length pre"
    "sc div 2 < length es"
  shows "dynamic_search_loop t f (length seg + n) i sc = dynamic_search_loop t f n (i + length seg) sc"
  using assms
proof (induction seg arbitrary: pre i)
  case (Cons b seg)
  have len: "length pre + length (b # seg) + length post = length (layout es)"
    using arg_cong [OF Cons.prems(3), of length] by simp
  have "dt_read t (int (dt_next t) - int i + int (dt_max_size t)) = Some b"
    using dt_read_back [OF Cons.prems(1,2), of i] Cons.prems(3,5) len by (simp add: nth_append)
  moreover have "b \<noteq> 0" using Cons.prems(4) by simp
  moreover have "dynamic_search_loop t f (length seg + n) (i + 1) sc =
      dynamic_search_loop t f n (i + 1 + length seg) sc"
    using Cons.prems by (intro Cons.IH [of "pre @ [b]"]) simp_all
  ultimately show ?case
    using Cons.prems(6) dt_relD(4) [OF Cons.prems(1)] by (simp add: dynamic_search_loop.simps(2))
qed simp

lemma search_zero:
  assumes "dt_rel t es" "es \<noteq> []" "rev (layout es) = pre @ 0 # post" "i = length pre" "sc < 255"
  shows "dynamic_search_loop t f (Suc n) i sc = do {
      found \<leftarrow> (if (sc + 1) mod 2 = 0 then f i else Some False);
      if found then Some (int ((sc + 1) div 2) + 61)
      else if (sc + 1) div 2 \<ge> length es then Some HPACK_INTERNAL_ERROR
      else dynamic_search_loop t f n (i + 1) (sc + 1)
    }"
proof -
  have "length (layout es) = length pre + Suc (length post)"
    using arg_cong [OF assms(3), of length] by simp
  then have "dt_read t (int (dt_next t) - int i + int (dt_max_size t)) = Some 0"
    using dt_read_back [OF assms(1,2), of i] assms(3,4) by simp
  moreover have "(sc + 1) mod 2 ^ 8 = sc + 1" using assms(5) by simp
  ultimately show ?thesis
    using dt_relD(4) [OF assms(1)]
    by (simp add: dynamic_search_loop.simps(2) Let_def HPACK_TABLES_FIRST_INDEX_DYNAMIC_def add.commute
        cong: if_cong)
qed

lemma search_entry:
  assumes "dt_rel t (es1 @ e # es2)" "length (es1 @ e # es2) < 128"
    "f (offset (es1 @ e # es2) (length es1)) = Some hit"
  shows "dynamic_search_loop t f (entry_span e + n) (length (tl (layout es1)) + 1) (2 * length es1) =
    (if hit then Some (int (length es1) + 62)
     else if es2 = [] then Some HPACK_INTERNAL_ERROR
     else dynamic_search_loop t f n (length (tl (layout (es1 @ [e]))) + 1) (2 * length (es1 @ [e])))"
proof -
  let ?es = "es1 @ e # es2"
  obtain nm vl where e: "e = (nm, vl)" by (cases e)
  let ?p = "rev (tl (layout es1)) @ [0]" and ?rl = "tl (rev (layout es2))"
  have rl: "rev (layout ?es) = ?p @ rev vl @ 0 # rev nm @ 0 # ?rl"
    using rev_layout_first [of es2] unfolding rev_layout_split e by simp
  have ok: "nul_free (rev nm)" "nul_free (rev vl)"
    using dt_relD(7) [OF assms(1), of e] by (auto simp: entry_ok_def e nul_free_def)
  have len: "length (tl (layout (es1 @ [e]))) = length (tl (layout es1)) + entry_span e"
    unfolding length_tl_layout by simp
  let ?i = "length (tl (layout es1)) + 1"
  have off: "offset ?es (length es1) = ?i + length vl + 1 + length nm"
    unfolding length_tl_layout by (simp add: offset_def entry_span_def e)
  have "dynamic_search_loop t f (length (rev vl) + Suc (length nm + Suc n)) ?i (2 * length es1) =
      dynamic_search_loop t f (Suc (length nm + Suc n)) (?i + length vl) (2 * length es1)"
    using search_skip [OF assms(1) _ rl ok(2), of ?i "2 * length es1" f "Suc (length nm + Suc n)"] by simp
  also have "\<dots> = dynamic_search_loop t f (length (rev nm) + Suc n) (?i + length vl + 1) (2 * length es1 + 1)"
    using search_zero [OF assms(1) _ rl [unfolded append_assoc [symmetric]], of "?i + length vl" "2 * length es1" f
        "length nm + Suc n"] assms(2) by simp
  also have "\<dots> = dynamic_search_loop t f (Suc n) (?i + length vl + 1 + length nm) (2 * length es1 + 1)"
    using search_skip [OF assms(1) _ _ ok(1), of "?p @ rev vl @ [0]" "0 # ?rl" "?i + length vl + 1"
        "2 * length es1 + 1" f "Suc n"] rl by simp
  also have "\<dots> = (if hit then Some (int (length es1) + 62)
     else if es2 = [] then Some HPACK_INTERNAL_ERROR
     else dynamic_search_loop t f n (?i + length vl + 1 + length nm + 1) (2 * length es1 + 2))"
    using search_zero [OF assms(1) _, of "?p @ rev vl @ 0 # rev nm" ?rl "?i + length vl + 1 + length nm"
        "2 * length es1 + 1" f n] rl assms(2,3) unfolding off by (cases es2) simp_all
  finally show ?thesis unfolding len by (simp add: entry_span_def e ac_simps del: length_tl)
qed

lemma search_loop_correct:
  assumes "dt_rel t (es1 @ es2)" "length (es1 @ es2) < 128" "es2 \<noteq> []"
    "\<And>k. k < length es2 \<Longrightarrow> f (offset (es1 @ es2) (length es1 + k)) = Some (P (es2 ! k))"
  shows "dynamic_search_loop t f (sum_list (map entry_span es2) + n) (length (tl (layout es1)) + 1) (2 * length es1) =
    Some (case first_index P es2 of Some k \<Rightarrow> int (length es1 + k) + 62 | None \<Rightarrow> HPACK_INTERNAL_ERROR)"
  using assms
proof (induction es2 arbitrary: es1)
  case (Cons e es2)
  have hit: "f (offset (es1 @ e # es2) (length es1)) = Some (P e)" using Cons.prems(4) [of 0] by simp
  note step = search_entry [of t es1 e es2 f "P e", OF Cons.prems(1,2) hit, of "sum_list (map entry_span es2) + n"]
  show ?case
  proof (cases "P e \<or> es2 = []")
    case True
    with step show ?thesis by (auto simp: add.assoc)
  next
    case False
    have "dynamic_search_loop t f (sum_list (map entry_span es2) + n) (length (tl (layout (es1 @ [e]))) + 1)
        (2 * length (es1 @ [e])) =
      Some (case first_index P es2 of Some k \<Rightarrow> int (length (es1 @ [e]) + k) + 62 | None \<Rightarrow> HPACK_INTERNAL_ERROR)"
    proof (rule Cons.IH)
      fix k assume "k < length es2"
      then show "f (offset ((es1 @ [e]) @ es2) (length (es1 @ [e]) + k)) = Some (P (es2 ! k))"
        using Cons.prems(4) [of "Suc k"] by simp
    qed (use Cons.prems False in simp_all)
    with False step show ?thesis by (simp add: add.assoc split: option.splits)
  qed
qed simp

lemma dynamic_search_correct:
  assumes "dt_rel t es" "length es < 128"
    "\<And>k. k < length es \<Longrightarrow> f (offset es k) = Some (P (es ! k))"
  shows "dynamic_search_loop t f (dt_max_size t) 1 0 =
    Some (case first_index P es of Some k \<Rightarrow> int k + 62 | None \<Rightarrow> HPACK_INTERNAL_ERROR)"
proof (cases "es = []")
  case False
  have "sum_list (map entry_span es) \<le> dt_max_size t"
    using length_tl_layout [of es] dt_relD(9) [OF assms(1) False] by simp
  then obtain n where "dt_max_size t = sum_list (map entry_span es) + n" using le_Suc_ex by blast
  with search_loop_correct [of t "[]" es f P n] assms False show ?thesis by (simp split: option.splits)
next
  case True
  show ?thesis
  proof (cases "dt_max_size t")
    case 0
    with True show ?thesis by simp
  next
    case (Suc n)
    note R = dt_relD [OF assms(1)]
    let ?z = "(int (dt_next t) - 1 + int (dt_max_size t)) mod int (dt_max_size t)"
    have "?z < int (dt_max_size t)" "0 \<le> ?z" using Suc by simp_all
    then have "nat ?z < length (dt_buffer t)" using R(1) by linarith
    then obtain b where "dt_read t (int (dt_next t) - 1 + int (dt_max_size t)) = Some b"
      using Suc by (simp add: dt_read_def c_rem_pos rd_def)
    with Suc True R(4) show ?thesis by (auto simp: dynamic_search_loop.simps(2))
  qed
qed

subsection \<open>The searches\<close>

text \<open>What the two searches return, as functions of the entries.\<close>

definition index_of :: "entry list \<Rightarrow> byte list \<Rightarrow> byte list \<Rightarrow> int" where
  "index_of es nm vl =
     (case first_index (\<lambda>e. nm = fst e \<and> vl = snd e) (zip (snames @ [[]]) (svalues @ [[]])) of
        Some k \<Rightarrow> int k + 1
      | None \<Rightarrow> (case first_index (entry_matches nm vl) es of
          Some k \<Rightarrow> int k + 62
        | None \<Rightarrow> HPACK_INTERNAL_ERROR))"

definition index_of_name :: "entry list \<Rightarrow> byte list \<Rightarrow> int" where
  "index_of_name es nm =
     (case first_index (\<lambda>s. nm = s) (snames @ [[]]) of
        Some k \<Rightarrow> int k + 1
      | None \<Rightarrow> (case first_index (name_matches nm) es of
          Some k \<Rightarrow> int k + 62
        | None \<Rightarrow> HPACK_INTERNAL_ERROR))"

lemma strpos_0 [simp]: "strpos ss 0 = 0"
  by (simp add: strpos_def strings_def)

lemma find_index_correct:
  assumes "dt_rel t es" "length es < 128" "nul_free nm" "nul_free vl" "length nm + 1 < 2 ^ 15" "length vl + 1 < 2 ^ 15"
  shows "hpack_tables_find_index t (nm @ 0 # r1) (vl @ 0 # r2) = Some (index_of es nm vl)"
    "hpack_tables_find_index_name t (nm @ 0 # r1) = Some (index_of_name es nm)"
proof -
  note m = matches_correct [OF assms(1) _ assms(3-6), of _ r1]
  have "dynamic_search_loop t (matches_entry t (nm @ 0 # r1) (vl @ 0 # r2)) (dt_max_size t) 1 0 =
      Some (case first_index (entry_matches nm vl) es of Some k \<Rightarrow> int k + 62 | None \<Rightarrow> HPACK_INTERNAL_ERROR)"
    by (rule dynamic_search_correct [OF assms(1,2)]) (rule m(2))
  with static_search_loop_correct [OF assms(3,4), of 0 62 r1 r2]
  show "hpack_tables_find_index t (nm @ 0 # r1) (vl @ 0 # r2) = Some (index_of es nm vl)"
    by (simp add: hpack_tables_find_index_def HPACK_TABLES_FIRST_INDEX_DYNAMIC_def index_of_def
        del: static_search_loop.simps split: option.splits)
  have "dynamic_search_loop t (matches_name t (nm @ 0 # r1)) (dt_max_size t) 1 0 =
      Some (case first_index (name_matches nm) es of Some k \<Rightarrow> int k + 62 | None \<Rightarrow> HPACK_INTERNAL_ERROR)"
    by (rule dynamic_search_correct [OF assms(1,2)]) (rule m(1))
  with static_name_loop_correct [OF assms(3), of 0 62 r1]
  show "hpack_tables_find_index_name t (nm @ 0 # r1) = Some (index_of_name es nm)"
    by (simp add: hpack_tables_find_index_name_def HPACK_TABLES_FIRST_INDEX_DYNAMIC_def index_of_name_def
        del: static_name_loop.simps split: option.splits)
qed

text \<open>The whole index space: the entry behind an index.\<close>

definition entry_at :: "entry list \<Rightarrow> nat \<Rightarrow> entry option" where
  "entry_at es i =
     (if 0 < i \<and> i < 62 then Some (snames ! (i - 1), svalues ! (i - 1))
      else if 62 \<le> i \<and> i - 62 < length es then Some (es ! (i - 62)) else None)"

text \<open>The callers clear their buffers first, so the copied strings are terminated.\<close>

lemma overwrite_zeros:
  "length s \<le> n \<Longrightarrow> overwrite (replicate n 0) 0 s = s @ replicate (n - length s) (0 :: byte)"
  "length s < n \<Longrightarrow> overwrite (replicate n 0) 0 (s @ [0]) = s @ replicate (n - length s) (0 :: byte)"
proof -
  show "length s \<le> n \<Longrightarrow> overwrite (replicate n 0) 0 s = s @ replicate (n - length s) (0 :: byte)"
    by (simp add: overwrite_def)
  assume "length s < n"
  then have "n - length s = Suc (n - Suc (length s))" by simp
  then show "overwrite (replicate n 0) 0 (s @ [0]) = s @ replicate (n - length s) (0 :: byte)"
    by (simp add: overwrite_def)
qed

lemma find_entry_space:
  assumes "dt_rel t es" "entry_at es i = Some (n, v)" "length n < a" "length v < b"
  shows "hpack_tables_find_entry_name_and_value t i (replicate a 0) (replicate b 0) =
      Some (n @ replicate (a - length n) 0, v @ replicate (b - length v) 0, 0)"
    "hpack_tables_find_entry_name t i (replicate a 0) = Some (n @ replicate (a - length n) 0, 0)"
proof -
  note defs = hpack_tables_find_entry_name_and_value_def hpack_tables_find_entry_name_def
    HPACK_TABLES_FIRST_INDEX_DYNAMIC_def
  have "hpack_tables_find_entry_name_and_value t i (replicate a 0) (replicate b 0) =
      Some (n @ replicate (a - length n) 0, v @ replicate (b - length v) 0, 0) \<and>
    hpack_tables_find_entry_name t i (replicate a 0) = Some (n @ replicate (a - length n) 0, 0)"
  proof (cases "i < 62")
    case True
    with assms(2) have i: "0 < i" "n = snames ! (i - 1)" "v = svalues ! (i - 1)"
      by (auto simp: entry_at_def split: if_splits)
    with True static_find_entry_correct [of i "replicate a 0" "replicate b 0"] assms(3,4)
    show ?thesis by (simp add: defs overwrite_zeros)
  next
    case False
    define k where "k = i - 62"
    with False have k: "i = k + 62" by simp
    with assms(2) have "k < length es" "es ! k = (n, v)" by (auto simp: entry_at_def split: if_splits)
    moreover have "replicate (a - length n) (0 :: byte) = 0 # replicate (a - Suc (length n)) 0"
      "replicate (b - length v) (0 :: byte) = 0 # replicate (b - Suc (length v)) 0"
      using assms(3,4) by (metis Suc_diff_Suc replicate_Suc)+
    ultimately show ?thesis
      using find_entry_correct [OF assms(1), of k "replicate a 0" "replicate b 0"] assms(3,4)
      by (simp add: defs overwrite_zeros k)
  qed
  then show "hpack_tables_find_entry_name_and_value t i (replicate a 0) (replicate b 0) =
      Some (n @ replicate (a - length n) 0, v @ replicate (b - length v) 0, 0)"
    "hpack_tables_find_entry_name t i (replicate a 0) = Some (n @ replicate (a - length n) 0, 0)"
    by blast+
qed

lemma find_entry_beyond:
  assumes "dt_rel t es" "entry_at es i = None" "0 < i" "i < 2 ^ 31"
  shows "hpack_tables_find_entry_name_and_value t i nm vl = Some (nm, vl, HPACK_COMPRESSION_ERROR)"
    "hpack_tables_find_entry_name t i nm = Some (nm, HPACK_COMPRESSION_ERROR)"
proof -
  define k where "k = i - 62"
  have k: "i = k + 62" "length es \<le> k"
    using assms(2,3) by (auto simp: entry_at_def k_def split: if_splits)
  then show "hpack_tables_find_entry_name_and_value t i nm vl = Some (nm, vl, HPACK_COMPRESSION_ERROR)"
    "hpack_tables_find_entry_name t i nm = Some (nm, HPACK_COMPRESSION_ERROR)"
    using find_entry_missing [OF assms(1), of k] assms(4)
    by (simp_all add: hpack_tables_find_entry_name_and_value_def hpack_tables_find_entry_name_def
        HPACK_TABLES_FIRST_INDEX_DYNAMIC_def)
qed

lemma index_of_sound:
  assumes "(nm, vl) \<noteq> ([], [])"
  shows "index_of es nm vl = HPACK_INTERNAL_ERROR \<and> (\<forall>i. entry_at es i \<noteq> Some (nm, vl)) \<or>
    (\<exists>i e. index_of es nm vl = int i \<and> 0 < i \<and> entry_at es i = Some e \<and>
       (if i < 62 then e = (nm, vl) else entry_matches nm vl e))"
proof -
  let ?P = "\<lambda>e. nm = fst e \<and> vl = snd e" and ?Z = "zip (snames @ [[]]) (svalues @ [[]])"
  have nth: "?Z ! k = (snames ! k, svalues ! k)" if "k < 61" for k
    using that by (simp add: nth_append)
  have last: "?Z ! 61 = ([], [])" by (simp add: nth_append)
  show ?thesis
  proof (cases "first_index ?P ?Z")
    case (Some k)
    from first_index_SomeD [OF Some] have "k < 62" "?P (?Z ! k)" by auto
    moreover have "k \<noteq> 61" using \<open>?P (?Z ! k)\<close> last assms by auto
    ultimately have "k < 61" "(snames ! k, svalues ! k) = (nm, vl)" using nth by auto
    with Some show ?thesis by (auto simp: index_of_def entry_at_def intro!: exI [of _ "k + 1"])
  next
    case None
    have static: "(snames ! k, svalues ! k) \<noteq> (nm, vl)" if "k < 61" for k
    proof
      assume "(snames ! k, svalues ! k) = (nm, vl)"
      then have "?P (?Z ! k)" using nth [OF that] by simp
      moreover have "?Z ! k \<in> set ?Z" using that by (intro nth_mem) simp
      ultimately show False using first_index_NoneD [OF None] by blast
    qed
    show ?thesis
    proof (cases "first_index (entry_matches nm vl) es")
      case (Some k)
      then have "index_of es nm vl = int (k + 62)" using None by (simp add: index_of_def)
      moreover from first_index_SomeD [OF Some] have "entry_at es (k + 62) = Some (es ! k)"
        "entry_matches nm vl (es ! k)" by (simp_all add: entry_at_def)
      ultimately show ?thesis by (intro disjI2 exI [of _ "k + 62"] exI [of _ "es ! k"]) simp
    next
      case dyn: None
      have "entry_at es i \<noteq> Some (nm, vl)" for i
      proof
        assume a: "entry_at es i = Some (nm, vl)"
        moreover have "\<not> (0 < i \<and> i < 62)"
        proof
          assume i: "0 < i \<and> i < 62"
          with a have "(snames ! (i - 1), svalues ! (i - 1)) = (nm, vl)" by (simp add: entry_at_def)
          moreover have "i - 1 < 61" using i by linarith
          ultimately show False using static by blast
        qed
        ultimately have "i - 62 < length es" "es ! (i - 62) = (nm, vl)"
          by (auto simp: entry_at_def split: if_splits)
        then have "(nm, vl) \<in> set es" by (metis nth_mem)
        with first_index_NoneD [OF dyn, of "(nm, vl)"] show False
          by (simp add: entry_matches_def name_matches_def)
      qed
      with None dyn show ?thesis by (simp add: index_of_def)
    qed
  qed
qed

subsection \<open>Properties of the index space\<close>

text \<open>A table with one entry, for the examples below: the name \<open>x\<close> with the value \<open>12\<close>.\<close>

definition example_entries :: "entry list" where
  "example_entries = [(lit ''x'', lit ''12'')]"

definition example_table :: hpack_dynamic_table where
  "example_table = \<lparr>dt_max_size = 64, dt_first = 60, dt_next = 1, dt_actual_size = 35, dt_n_entries = 1,
     dt_settings_max_table_size = 64, dt_buffer = [50, 0] @ replicate 58 9 @ [0, 120, 0, 49]\<rparr>"

lemma example_rel: "dt_rel example_table example_entries"
proof -
  have "layout example_entries = [0, 120, 0, 49, 50, 0]"
    by (simp add: layout_def entry_bytes_def example_entries_def lit_def)
  moreover have "list_all (\<lambda>i. dt_buffer example_table ! ((60 + i) mod 64) = [0, 120, 0, 49, 50, 0] ! i) [0..<6]"
    by (simp add: example_table_def nth_append upt_rec)
  then have "ring_here (dt_buffer example_table) 64 60 [0, 120, 0, 49, 50, 0]"
    by (simp add: ring_here_def list_all_iff) (simp add: example_table_def)
  ultimately show ?thesis
    by (simp add: dt_rel_def example_table_def example_entries_def entry_size_def entry_ok_def lit_def)
qed

text \<open>
  Claim C10. Look-up by index in the whole index space: for every index that has an entry, static or
  dynamic, the cleared buffers receive exactly its name and value, terminated by a zero; every other
  positive index is answered with a compression error and leaves the buffers alone.
\<close>

theorem index_lookup:
  assumes "dt_rel t es" "0 < i" "i < 2 ^ 31"
    "\<And>n v. entry_at es i = Some (n, v) \<Longrightarrow> length n < a \<and> length v < b"
  shows "hpack_tables_find_entry_name_and_value t i (replicate a 0) (replicate b 0) =
      (case entry_at es i of
         Some (n, v) \<Rightarrow> Some (n @ replicate (a - length n) 0, v @ replicate (b - length v) 0, 0)
       | None \<Rightarrow> Some (replicate a 0, replicate b 0, HPACK_COMPRESSION_ERROR)) \<and>
    hpack_tables_find_entry_name t i (replicate a 0) =
      (case entry_at es i of
         Some (n, v) \<Rightarrow> Some (n @ replicate (a - length n) 0, 0)
       | None \<Rightarrow> Some (replicate a 0, HPACK_COMPRESSION_ERROR))"
  using find_entry_space [OF assms(1), of i] find_entry_beyond [OF assms(1) _ assms(2,3)] assms(4)
  by (auto split: option.splits)

lemma index_lookup_witness:
  "hpack_tables_find_entry_name_and_value example_table 62 (replicate 4 0) (replicate 5 0) =
     Some ([120] @ replicate 3 0, [49, 50] @ replicate 3 0, 0) \<and>
   hpack_tables_find_entry_name example_table 62 (replicate 4 0) = Some ([120] @ replicate 3 0, 0)"
proof -
  have "entry_at example_entries 62 = Some ([120], [49, 50])"
    by (simp add: entry_at_def example_entries_def lit_def)
  then show ?thesis
    using index_lookup [OF example_rel, of 62 4 5] by simp
qed



text \<open>
  The comparison stops at the end of the searched string: the value \<open>1\<close> is taken for the entry with the
  value \<open>12\<close>, and a name is taken for any longer one that starts with it.
\<close>

lemma find_index_prefix_match:
  "hpack_tables_find_index example_table (lit ''x'' @ [0]) (lit ''1'' @ [0]) = Some 62"
  "entry_at example_entries 62 = Some (lit ''x'', lit ''12'')"
  using find_index_correct(1) [OF example_rel, of "lit ''x''" "lit ''1''" "[]" "[]"]
  by (simp_all add: index_of_def example_entries_def entry_matches_def name_matches_def snames_def svalues_def
      static_names_def static_values_def lit_def entry_at_def)

text \<open>The length is cut to 16 bits: a string of 65536 bytes is found anywhere.\<close>

lemma long_string_matches:
  assumes "nul_free s" "length s = 65536"
  shows "hpack_tables_dynamic_compare_string t ip (s @ 0 # r) = Some 1"
  using assms by (simp add: hpack_tables_dynamic_compare_string_def int16_def)

end
