(* ===== verification/Header_List.thy ===== *)
theory Header_List
  imports Prelude
begin

text \<open>
  \<open>src/src/header_list.c\<close>: a list of headers in one flat array, every name and every value followed by a
  zero. The names are compared without regard to case, up to the length of the stored name.

  \<open>hl_rel\<close> relates the array to the list of its headers. Every operation is shown to compute its
  counterpart on lists, error paths included, as long as the array is not completely full: the loops
  read the byte behind the last header before they look at the size.
\<close>

definition HEADER_LIST_MAX_SIZE :: nat where
  "HEADER_LIST_MAX_SIZE = 512"

record header_list =
  hl_buffer :: "byte list"
  hl_count :: int
  hl_size :: nat

definition header_list_reset :: "header_list \<Rightarrow> header_list option" where
  "header_list_reset headers = do {
     buf \<leftarrow> mem_write (hl_buffer headers) 0 (replicate HEADER_LIST_MAX_SIZE 0);
     Some (headers\<lparr>hl_buffer := buf, hl_count := 0, hl_size := 0\<rparr>)
   }"

text \<open>\<open>strnlen\<close> with an \<open>int\<close> for its \<open>size_t\<close> argument: a negative bound is no bound.\<close>

definition strnlen_int :: "byte list \<Rightarrow> int \<Rightarrow> nat option" where
  "strnlen_int bs n = (if n < 0 then strlen bs else strnlen bs (nat n))"

text \<open>\<open>strncasecmp(a, b, n) == 0\<close> in the C locale; reading stops at a difference or a zero.\<close>

definition tolower :: "byte \<Rightarrow> byte" where
  "tolower c = (if 65 \<le> c \<and> c \<le> 90 then c + 32 else c)"

fun strncasecmp_eq :: "byte list \<Rightarrow> byte list \<Rightarrow> nat \<Rightarrow> bool option" where
  "strncasecmp_eq a b 0 = Some True"
| "strncasecmp_eq (x # a) (y # b) (Suc n) =
     (if tolower x \<noteq> tolower y then Some False
      else if x = 0 then Some True
      else strncasecmp_eq a b n)"
| "strncasecmp_eq _ _ (Suc n) = None"

text \<open>
  The loops that skip a value and the zeros behind it; \<open>ptr\<close> is always \<open>buffer + pos\<close>, and \<open>*ptr\<close> is
  read before \<open>pos\<close> is compared with the size.
\<close>

function skip_value :: "byte list \<Rightarrow> nat \<Rightarrow> nat \<Rightarrow> nat option" where
  "skip_value buf sz pos = do {
     b \<leftarrow> rd buf pos;
     if b \<noteq> 0 \<and> pos < sz then skip_value buf sz (pos + 1) else Some pos
   }"
  by pat_completeness auto
termination
  by (relation "measure (\<lambda>(buf, sz, pos). sz - pos)") auto

function skip_padding :: "byte list \<Rightarrow> nat \<Rightarrow> nat \<Rightarrow> nat option" where
  "skip_padding buf sz pos = do {
     b \<leftarrow> rd buf pos;
     if b = 0 \<and> pos < sz then skip_padding buf sz (pos + 1) else Some pos
   }"
  by pat_completeness auto
termination
  by (relation "measure (\<lambda>(buf, sz, pos). sz - pos)") auto

declare skip_value.simps [simp del] skip_padding.simps [simp del]

partial_function (option) index_loop :: "byte list \<Rightarrow> nat \<Rightarrow> byte list \<Rightarrow> nat \<Rightarrow> int option" where
  "index_loop buf sz name pos =
     (if pos < sz then do {
        len \<leftarrow> strnlen (drop pos buf) (sz - pos);
        eq \<leftarrow> strncasecmp_eq name (drop pos buf) len;
        if eq then Some (int pos)
        else do {
          pos \<leftarrow> skip_value buf sz (pos + len + 1);
          pos \<leftarrow> skip_padding buf sz pos;
          index_loop buf sz name pos
        }
      }
      else Some (- 1))"

declare index_loop.simps [code]

definition header_list_index :: "header_list \<Rightarrow> byte list \<Rightarrow> int option" where
  "header_list_index headers name = index_loop (hl_buffer headers) (hl_size headers) name 0"

text \<open>\<open>memmove\<close>; the count is \<open>size - start - count\<close> and a negative one is no size at all.\<close>

definition header_list_splice :: "header_list \<Rightarrow> nat \<Rightarrow> nat \<Rightarrow> header_list option" where
  "header_list_splice headers start count = do {
     guard (start + count \<le> hl_size headers);
     bs \<leftarrow> mem_read (hl_buffer headers) (start + count) (hl_size headers - start - count);
     buf \<leftarrow> mem_write (hl_buffer headers) start bs;
     Some (headers\<lparr>hl_buffer := buf, hl_size := hl_size headers - count\<rparr>)
   }"

text \<open>The result is the position of the value, \<open>- 1\<close> for \<open>NULL\<close>.\<close>

definition header_list_get :: "header_list \<Rightarrow> byte list \<Rightarrow> int option" where
  "header_list_get headers name = do {
     pos \<leftarrow> header_list_index headers name;
     if pos < 0 then Some (- 1)
     else do {
       len \<leftarrow> strnlen_int (drop (nat pos) (hl_buffer headers)) (int (hl_size headers) - pos);
       Some (pos + int len + 1)
     }
   }"

definition header_list_append ::
  "header_list \<Rightarrow> byte list \<Rightarrow> byte list \<Rightarrow> (header_list \<times> int) option" where
  "header_list_append headers name val = do {
     nlen \<leftarrow> strlen name;
     vlen \<leftarrow> strlen val;
     if int (nlen + 1 + vlen + 1) > (int HEADER_LIST_MAX_SIZE - int (hl_size headers)) mod 2 ^ 32
     then Some (headers, - 1)
     else do {
       let ptr = hl_size headers;
       n \<leftarrow> mem_read name 0 nlen;
       buf \<leftarrow> mem_write (hl_buffer headers) ptr n;
       buf \<leftarrow> wr buf (ptr + nlen) 0;
       let ptr = ptr + nlen + 1;
       v \<leftarrow> mem_read val 0 vlen;
       buf \<leftarrow> mem_write buf ptr v;
       buf \<leftarrow> wr buf (ptr + vlen) 0;
       Some (headers\<lparr>hl_buffer := buf, hl_size := hl_size headers + (nlen + 1 + vlen + 1),
                     hl_count := hl_count headers + 1\<rparr>, 0)
     }
   }"

definition header_list_add ::
  "header_list \<Rightarrow> byte list \<Rightarrow> byte list \<Rightarrow> (header_list \<times> int) option" where
  "header_list_add headers name val = do {
     start \<leftarrow> header_list_index headers name;
     if start < 0 then header_list_append headers name val
     else do {
       let start = nat start;
       let buf = hl_buffer headers;
       nlen \<leftarrow> strnlen_int (drop start buf) (int (hl_size headers) - int start);
       let v = start + nlen + 1;
       vlen \<leftarrow> strnlen_int (drop v buf) (int (hl_size headers) - int v);
       let end_pos = v + vlen + 1;
       l \<leftarrow> strlen val;
       if int (1 + l) > (int HEADER_LIST_MAX_SIZE - int (hl_size headers)) mod 2 ^ 32
       then Some (headers, - 1)
       else do {
         old \<leftarrow> mem_read buf v vlen;
         new \<leftarrow> mem_read val 0 l;
         let newvalue = old @ of_char CHR '','' # new @ [0];
         headers \<leftarrow> header_list_splice headers start (end_pos - start);
         header_list_append (headers\<lparr>hl_count := hl_count headers - 1\<rparr>) name newvalue
       }
     }
   }"

definition header_list_set ::
  "header_list \<Rightarrow> byte list \<Rightarrow> byte list \<Rightarrow> (header_list \<times> int) option" where
  "header_list_set headers name val = do {
     start \<leftarrow> header_list_index headers name;
     if start < 0 then header_list_append headers name val
     else do {
       let start = nat start;
       let buf = hl_buffer headers;
       nlen \<leftarrow> strnlen_int (drop start buf) (int (hl_size headers) - int start);
       let v = start + nlen + 1;
       vlen \<leftarrow> strnlen_int (drop v buf) (int (hl_size headers) - int v);
       let end_pos = v + vlen + 1;
       l \<leftarrow> strlen val;
       if int (1 + l + 1) > (int HEADER_LIST_MAX_SIZE - int (hl_size headers) - int vlen) mod 2 ^ 32
       then Some (headers, - 1)
       else do {
         headers \<leftarrow> header_list_splice headers start (end_pos - start);
         header_list_append (headers\<lparr>hl_count := hl_count headers - 1\<rparr>) name val
       }
     }
   }"

definition header_list_count :: "header_list \<Rightarrow> int" where
  "header_list_count headers = hl_count headers"

definition header_list_size :: "header_list \<Rightarrow> nat" where
  "header_list_size headers = hl_size headers"

text \<open>\<open>hlist\<close> receives the positions of the names and values.\<close>

partial_function (option) all_loop ::
  "byte list \<Rightarrow> nat \<Rightarrow> (nat \<times> nat) list \<Rightarrow> nat \<Rightarrow> nat \<Rightarrow> (nat \<times> nat) list option" where
  "all_loop buf sz hlist index pos =
     (if pos < sz then do {
        len \<leftarrow> strnlen (drop pos buf) (sz - pos);
        if len = 0 then Some hlist
        else do {
          hlist \<leftarrow> wr hlist index (pos, pos + len + 1);
          pos \<leftarrow> skip_value buf sz (pos + len + 1);
          pos \<leftarrow> skip_padding buf sz pos;
          all_loop buf sz hlist (index + 1) pos
        }
      }
      else Some hlist)"

declare all_loop.simps [code]

definition header_list_all :: "header_list \<Rightarrow> (nat \<times> nat) list \<Rightarrow> (nat \<times> nat) list option" where
  "header_list_all headers hlist = all_loop (hl_buffer headers) (hl_size headers) hlist 0 0"

subsection \<open>What the array stands for\<close>

type_synonym header = "byte list \<times> byte list"

definition flat :: "header list \<Rightarrow> byte list" where
  "flat hs = concat (map (\<lambda>(n, v). n @ 0 # v @ [0]) hs)"

definition header_ok :: "header \<Rightarrow> bool" where
  "header_ok h \<longleftrightarrow> fst h \<noteq> [] \<and> nul_free (fst h) \<and> nul_free (snd h)"

definition hl_rel :: "header_list \<Rightarrow> header list \<Rightarrow> bool" where
  "hl_rel h hs \<longleftrightarrow> length (hl_buffer h) = HEADER_LIST_MAX_SIZE \<and> hl_size h = length (flat hs) \<and>
     hl_size h \<le> HEADER_LIST_MAX_SIZE \<and> take (hl_size h) (hl_buffer h) = flat hs \<and>
     hl_count h = int (length hs) \<and> list_all header_ok hs"

text \<open>The comparison stops at the end of the stored name.\<close>

definition name_starts :: "byte list \<Rightarrow> byte list \<Rightarrow> bool" where
  "name_starts stored q \<longleftrightarrow> map tolower stored = take (length stored) (map tolower q)"

fun position :: "byte list \<Rightarrow> header list \<Rightarrow> nat option" where
  "position q [] = None"
| "position q ((n, v) # hs) = (if name_starts n q then Some 0 else map_option Suc (position q hs))"

text \<open>The operations on lists of headers: the new list and the code returned.\<close>

definition append_hs :: "header list \<Rightarrow> byte list \<Rightarrow> byte list \<Rightarrow> header list \<times> int" where
  "append_hs hs n v =
     (if length n + length v + 2 > HEADER_LIST_MAX_SIZE - length (flat hs) then (hs, - 1)
      else (hs @ [(n, v)], 0))"

definition remove_at :: "nat \<Rightarrow> 'a list \<Rightarrow> 'a list" where
  "remove_at i xs = take i xs @ drop (i + 1) xs"

definition add_hs :: "header list \<Rightarrow> byte list \<Rightarrow> byte list \<Rightarrow> header list \<times> int" where
  "add_hs hs n v =
     (case position n hs of
        None \<Rightarrow> append_hs hs n v
      | Some i \<Rightarrow>
          if 1 + length v > HEADER_LIST_MAX_SIZE - length (flat hs) then (hs, - 1)
          else append_hs (remove_at i hs) n (snd (hs ! i) @ of_char CHR '','' # v))"

definition set_hs :: "header list \<Rightarrow> byte list \<Rightarrow> byte list \<Rightarrow> header list \<times> int" where
  "set_hs hs n v =
     (case position n hs of
        None \<Rightarrow> append_hs hs n v
      | Some i \<Rightarrow>
          if int (length v + 2) >
             (int HEADER_LIST_MAX_SIZE - int (length (flat hs)) - int (length (snd (hs ! i)))) mod 2 ^ 32
          then (hs, - 1)
          else append_hs (remove_at i hs) n v)"

subsection \<open>Walking the array\<close>

lemma flat_simps [simp]:
  "flat [] = []" "flat ((n, v) # hs) = n @ 0 # v @ 0 # flat hs" "flat (hs @ hs') = flat hs @ flat hs'"
  by (simp_all add: flat_def)

lemma length_flat_take_drop: "length (flat (take i hs)) + length (flat (drop i hs)) = length (flat hs)"
  by (metis append_take_drop_id flat_simps(3) length_append)

lemma header_ok_pair [simp]: "header_ok (n, v) \<longleftrightarrow> n \<noteq> [] \<and> nul_free n \<and> nul_free v"
  by (simp add: header_ok_def)

lemma tolower_0_iff [simp]: "tolower c = 0 \<longleftrightarrow> c = 0"
proof -
  have "c + 32 \<noteq> 0" if "65 \<le> c" "c \<le> 90"
  proof
    assume "c + 32 = 0"
    then have "c = - 32" by (simp add: eq_neg_iff_add_eq_0)
    with that show False by simp
  qed
  then show ?thesis by (auto simp: tolower_def)
qed

lemma tolower_0 [simp]: "tolower 0 = 0"
  by simp

lemma strncasecmp_eq_name_starts:
  "nul_free q \<Longrightarrow> nul_free n \<Longrightarrow>
   strncasecmp_eq (q @ 0 # r) (n @ s) (length n) = Some (name_starts n q)"
proof (induction n arbitrary: q)
  case (Cons x n)
  show ?case
  proof (cases q)
    case Nil
    with Cons.prems tolower_0_iff [of x] show ?thesis by (auto simp: name_starts_def simp del: tolower_0_iff)
  next
    case (Cons y q')
    with Cons.IH [of q'] Cons.prems show ?thesis by (auto simp: name_starts_def)
  qed
qed (simp add: name_starts_def)

lemma skip_value_stops:
  "nul_free v \<Longrightarrow> length p + length v \<le> sz \<Longrightarrow>
   skip_value (p @ v @ 0 # r) sz (length p) = Some (length p + length v)"
proof (induction v arbitrary: p)
  case Nil
  show ?case by (subst skip_value.simps) (simp add: rd_def nth_append)
next
  case (Cons b v)
  with Cons.IH [of "p @ [b]"] show ?case
    by (subst skip_value.simps) (simp add: rd_def nth_append)
qed

lemma skip_padding_stops:
  assumes "r \<noteq> []" "hd r \<noteq> 0 \<or> sz = length p + 1" "length p < sz"
  shows "skip_padding (p @ 0 # r) sz (length p) = Some (length p + 1)"
proof -
  have "skip_padding (p @ 0 # r) sz (length p + 1) = Some (length p + 1)"
    using assms by (subst skip_padding.simps, cases r) (auto simp: rd_def nth_append)
  with assms(3) show ?thesis by (subst skip_padding.simps) (simp add: rd_def nth_append)
qed

lemma skip_header:
  assumes "nul_free v" "r \<noteq> []" "hd r \<noteq> 0 \<or> sz = pos + length v + 1" "pos + length v < sz" "pos = length p"
  shows "(skip_value (p @ v @ 0 # r) sz pos \<bind> skip_padding (p @ v @ 0 # r) sz) =
    Some (pos + length v + 1)"
  using assms skip_value_stops [of v p sz r] skip_padding_stops [of r sz "p @ v"] by simp

lemma hd_flat: "hs \<noteq> [] \<Longrightarrow> list_all header_ok hs \<Longrightarrow> hd (flat hs @ r) \<noteq> 0"
  by (cases hs) (auto simp: hd_append nul_free_def, metis hd_in_set)



text \<open>One round of the loops, at the front of \<open>(n, v) # hs\<close>.\<close>

lemma strnlen_int_append [simp]:
  "nul_free s \<Longrightarrow> int (length s) < n \<Longrightarrow> strnlen_int (s @ 0 # r) n = Some (length s)"
  by (simp add: strnlen_int_def)

lemma header_round:
  assumes "nul_free n" "nul_free v" "list_all header_ok hs" "flat hs @ r \<noteq> []" "pos = length p"
    "sz = pos + length (flat ((n, v) # hs))" "buf = p @ flat ((n, v) # hs) @ r"
  shows "\<exists>pos'. skip_value buf sz (pos + length n + 1) = Some pos' \<and>
       skip_padding buf sz pos' = Some (pos + length n + length v + 2)"
proof -
  have "hd (flat hs @ r) \<noteq> 0 \<or> sz = (pos + length n + 1) + length v + 1"
    using hd_flat [of hs r] assms(3,6) by (cases "hs = []") auto
  with skip_header [of v "flat hs @ r" sz "pos + length n + 1" "p @ n @ [0]"] assms
  have "(skip_value buf sz (pos + length n + 1) \<bind> skip_padding buf sz) =
      Some (pos + length n + length v + 2)"
    by simp
  then show "\<exists>pos'. skip_value buf sz (pos + length n + 1) = Some pos' \<and>
      skip_padding buf sz pos' = Some (pos + length n + length v + 2)"
    by (simp add: bind_eq_Some_conv)
qed

lemma index_loop_flat:
  assumes "nul_free q" "list_all header_ok hs" "r \<noteq> [] \<or> position q hs \<noteq> None" "pos = length p" "sz = pos + length (flat hs)"
    "buf = p @ flat hs @ r"
  shows "index_loop buf sz (q @ 0 # qs) pos =
    Some (case position q hs of None \<Rightarrow> - 1 | Some i \<Rightarrow> int (pos + length (flat (take i hs))))"
  using assms(2-)
proof (induction hs arbitrary: p pos)
  case Nil
  then show ?case by (subst index_loop.simps) simp
next
  case (Cons h hs)
  obtain n v where h: "h = (n, v)" by (cases h)
  from Cons.prems have ok: "nul_free n" "nul_free v" "list_all header_ok hs" by (auto simp: h)
  have len: "strnlen (drop pos buf) (sz - pos) = Some (length n)" using ok(1) Cons.prems by (simp add: h)
  have eq: "strncasecmp_eq (q @ 0 # qs) (drop pos buf) (length n) = Some (name_starts n q)"
    using strncasecmp_eq_name_starts [OF assms(1) ok(1), of qs] Cons.prems(3,5) by (simp add: h)
  from Cons.prems have pos: "pos < sz" by (simp add: h)
  show ?case
  proof (cases "name_starts n q")
    case True
    with pos show ?thesis by (subst index_loop.simps) (simp add: len eq h)
  next
    case False
    with Cons.prems(2) have found: "r \<noteq> [] \<or> position q hs \<noteq> None" by (auto simp: h)
    then have "flat hs @ r \<noteq> []" by (cases hs) auto
    note skip = header_round [OF ok this Cons.prems(3,4,5) [unfolded h]]
    have "index_loop buf sz (q @ 0 # qs) (pos + length n + length v + 2) =
        Some (case position q hs of None \<Rightarrow> - 1
              | Some i \<Rightarrow> int (pos + length n + length v + 2 + length (flat (take i hs))))"
      using Cons.IH [of "pos + length n + length v + 2" "p @ n @ 0 # v @ [0]"] ok(3) found Cons.prems(3-5)
      by (simp add: h)
    with False pos skip show ?thesis
      by (subst index_loop.simps) (auto simp: len eq h split: option.splits)
  qed
qed

lemma hl_rel_buffer:
  assumes "hl_rel h hs"
  obtains r where "hl_buffer h = flat hs @ r" "length r = HEADER_LIST_MAX_SIZE - hl_size h"
proof
  show "hl_buffer h = flat hs @ drop (hl_size h) (hl_buffer h)"
    using assms append_take_drop_id [of "hl_size h" "hl_buffer h"] unfolding hl_rel_def by metis
qed (use assms in \<open>simp add: hl_rel_def\<close>)

text \<open>
  With the array full, only a search that succeeds stays inside it: behind the last header the loop reads
  the byte at the size before it compares.
\<close>

definition room_for :: "header_list \<Rightarrow> header list \<Rightarrow> byte list \<Rightarrow> bool" where
  "room_for h hs q \<longleftrightarrow> hl_size h < HEADER_LIST_MAX_SIZE \<or> position q hs \<noteq> None"

lemma header_list_index_correct:
  assumes "hl_rel h hs" "room_for h hs q" "nul_free q"
  shows "header_list_index h (q @ 0 # qs) =
    Some (case position q hs of None \<Rightarrow> - 1 | Some i \<Rightarrow> int (length (flat (take i hs))))"
proof -
  obtain r where r: "hl_buffer h = flat hs @ r" "length r = HEADER_LIST_MAX_SIZE - hl_size h"
    using hl_rel_buffer [OF assms(1)] .
  with assms(2) have "r \<noteq> [] \<or> position q hs \<noteq> None" by (auto simp: room_for_def)
  with index_loop_flat [OF assms(3), of hs r 0 "[]" "hl_size h" "hl_buffer h"] assms(1) r(1)
  show ?thesis by (simp add: header_list_index_def hl_rel_def cong: option.case_cong)
qed

lemma position_split:
  "position q hs = Some i \<Longrightarrow>
   \<exists>n v. hs = take i hs @ (n, v) # drop (i + 1) hs \<and> name_starts n q \<and> hs ! i = (n, v) \<and> i < length hs"
proof (induction hs arbitrary: i)
  case (Cons h hs)
  obtain n v where h: "h = (n, v)" by (cases h)
  show ?case
  proof (cases "name_starts n q")
    case True
    with Cons.prems show ?thesis by (auto simp: h)
  next
    case False
    with Cons.prems obtain j where "position q hs = Some j" "i = Suc j" by (auto simp: h)
    with Cons.IH [of j] show ?thesis by auto
  qed
qed simp



subsection \<open>The operations\<close>

lemma header_list_reset_correct:
  assumes "length (hl_buffer h) = HEADER_LIST_MAX_SIZE"
  obtains h' where "header_list_reset h = Some h'" "hl_rel h' []"
  using assms by (auto simp: header_list_reset_def mem_write_def hl_rel_def overwrite_def)

lemma splice_flat:
  "overwrite (p @ d @ s @ r) (length p) s = p @ s @ drop (length s) (d @ s @ r)"
  by (simp add: overwrite_def)

lemma header_list_splice_correct:
  assumes "hl_rel h (hs @ (n, v) # hs')"
  obtains h' where "header_list_splice h (length (flat hs)) (length n + length v + 2) = Some h'"
    "hl_rel (h'\<lparr>hl_count := hl_count h' - 1\<rparr>) (hs @ hs')"
proof -
  obtain r where r: "hl_buffer h = flat (hs @ (n, v) # hs') @ r"
      "length r = HEADER_LIST_MAX_SIZE - hl_size h"
    using hl_rel_buffer [OF assms] .
  let ?d = "n @ 0 # v @ [0]"
  have buf: "hl_buffer h = flat hs @ ?d @ flat hs' @ r" by (simp add: r)
  have sz: "hl_size h = length (flat hs) + length ?d + length (flat hs')"
    using assms by (simp add: hl_rel_def)
  let ?h = "h\<lparr>hl_buffer := overwrite (hl_buffer h) (length (flat hs)) (flat hs'),
              hl_size := hl_size h - length ?d\<rparr>"
  have rd: "mem_read (hl_buffer h) (length (flat hs) + length ?d) (length (flat hs')) = Some (flat hs')"
    by (simp add: mem_read_def buf)
  have wr: "mem_write (hl_buffer h) (length (flat hs)) (flat hs') =
      Some (overwrite (hl_buffer h) (length (flat hs)) (flat hs'))"
    by (simp add: mem_write_def buf)
  have "header_list_splice h (length (flat hs)) (length ?d) = Some ?h"
    unfolding header_list_splice_def using rd wr by (simp add: sz)
  moreover have "hl_rel (?h\<lparr>hl_count := hl_count h - 1\<rparr>) (hs @ hs')"
  proof -
    have "length (overwrite (hl_buffer h) (length (flat hs)) (flat hs')) = HEADER_LIST_MAX_SIZE"
      using assms by (subst length_overwrite) (simp_all add: buf hl_rel_def)
    moreover have "take (hl_size h - length ?d) (overwrite (hl_buffer h) (length (flat hs)) (flat hs')) =
        flat (hs @ hs')"
      unfolding buf splice_flat by (simp add: sz)
    ultimately show ?thesis using assms by (simp add: hl_rel_def sz)
  qed
  ultimately show ?thesis using that [of ?h] by simp
qed

lemma header_list_append_correct:
  assumes rel: "hl_rel h hs" and n: "n \<noteq> []" "nul_free n" and v: "nul_free v"
  obtains h' where "header_list_append h (n @ 0 # ns) (v @ 0 # vs) = Some (h', snd (append_hs hs n v))"
    "hl_rel h' (fst (append_hs hs n v))"
proof -
  have sz: "hl_size h = length (flat hs)" "length (flat hs) \<le> HEADER_LIST_MAX_SIZE"
    using rel by (auto simp: hl_rel_def)
  have mod: "(int HEADER_LIST_MAX_SIZE - int (length (flat hs))) mod 2 ^ 32 =
      int (HEADER_LIST_MAX_SIZE - length (flat hs))"
    using sz by (simp add: HEADER_LIST_MAX_SIZE_def)
  show ?thesis
  proof (cases "length n + length v + 2 > HEADER_LIST_MAX_SIZE - length (flat hs)")
    case True
    then have "header_list_append h (n @ 0 # ns) (v @ 0 # vs) = Some (h, - 1)"
      unfolding header_list_append_def sz mod by (simp add: n v)
    with True rel that [of h] show ?thesis by (simp add: append_hs_def)
  next
    case False
    let ?s = "length (flat hs)"
    let ?buf = "overwrite (hl_buffer h) ?s (n @ 0 # v @ [0])"
    let ?h = "h\<lparr>hl_buffer := ?buf, hl_size := ?s + (length n + 1 + length v + 1),
                hl_count := hl_count h + 1\<rparr>"
    have len: "length (hl_buffer h) = HEADER_LIST_MAX_SIZE" using rel by (simp add: hl_rel_def)
    have fit: "?s + length (n @ 0 # v @ [0]) \<le> length (hl_buffer h)" using False sz len by simp
    have w1: "mem_write (hl_buffer h) ?s n = Some (overwrite (hl_buffer h) ?s n)"
      using fit by (simp add: mem_write_def)
    have w2: "wr (overwrite (hl_buffer h) ?s n) (?s + length n) 0 =
        Some (overwrite (hl_buffer h) ?s (n @ [0]))"
      using fit by (intro wr_next) simp_all
    have w3: "mem_write (overwrite (hl_buffer h) ?s (n @ [0])) (?s + length n + 1) v =
        Some (overwrite (hl_buffer h) ?s (n @ 0 # v))"
      using fit overwrite_overwrite_adjacent [of ?s "n @ [0]" v "hl_buffer h"]
      by (simp add: mem_write_def)
    have w4: "wr (overwrite (hl_buffer h) ?s (n @ 0 # v)) (?s + length n + 1 + length v) 0 = Some ?buf"
      using fit wr_next [of "?s + length n + 1 + length v" ?s "n @ 0 # v" "hl_buffer h" 0] by simp
    have "header_list_append h (n @ 0 # ns) (v @ 0 # vs) = Some (?h, 0)"
      using False w1 w2 w3 w4 unfolding header_list_append_def sz(1) mod of_nat_less_iff
      by (simp add: n v mem_read_def Let_def del: One_nat_def)
    moreover have "hl_rel ?h (hs @ [(n, v)])"
    proof -
      have "take (?s + length (n @ 0 # v @ [0])) ?buf = flat hs @ n @ 0 # v @ [0]"
        using rel fit unfolding hl_rel_def by (simp add: overwrite_def) metis
      with rel fit len n v show ?thesis by (simp add: hl_rel_def)
    qed
    ultimately show ?thesis using that [of ?h] False by (simp add: append_hs_def)
  qed
qed



text \<open>Where the search succeeds, the header found lies at the position returned.\<close>

lemma found_header:
  assumes rel: "hl_rel h hs" and pos: "position q hs = Some i"
  obtains n v r where "hs = take i hs @ (n, v) # drop (i + 1) hs" "hs ! i = (n, v)" "name_starts n q"
    "hl_buffer h = flat (take i hs) @ n @ 0 # v @ 0 # flat (drop (i + 1) hs) @ r"
    "hl_size h = length (flat (take i hs)) + length n + length v + 2 + length (flat (drop (i + 1) hs))"
    "n \<noteq> []" "nul_free n" "nul_free v"
proof -
  obtain n v where s: "hs = take i hs @ (n, v) # drop (i + 1) hs" "name_starts n q" "hs ! i = (n, v)"
      "i < length hs"
    using position_split [OF pos] by blast
  have fl: "flat hs = flat (take i hs) @ n @ 0 # v @ 0 # flat (drop (i + 1) hs)"
    by (subst s(1)) (simp only: flat_simps append.assoc append_Cons)
  obtain r where r: "hl_buffer h = flat hs @ r" using hl_rel_buffer [OF rel] .
  have "hl_size h = length (flat hs)" using rel by (simp add: hl_rel_def)
  then have "hl_size h = length (flat (take i hs)) + length n + length v + 2 + length (flat (drop (i + 1) hs))"
    by (simp add: fl)
  moreover have "header_ok (n, v)"
    using rel s(3,4) by (metis hl_rel_def list_all_length)
  ultimately show ?thesis using that s r by (simp add: fl)
qed

lemma header_list_get_correct:
  assumes "hl_rel h hs" "room_for h hs q" "nul_free q"
  shows "\<exists>p. header_list_get h (q @ 0 # qs) = Some p \<and>
    (case position q hs of None \<Rightarrow> p = - 1
     | Some i \<Rightarrow> 0 \<le> p \<and> cstr (drop (nat p) (hl_buffer h)) = Some (snd (hs ! i)))"
proof (cases "position q hs")
  case None
  then show ?thesis by (simp add: header_list_get_def header_list_index_correct [OF assms])
next
  case (Some i)
  obtain n v r where f: "hs ! i = (n, v)"
    "hl_buffer h = flat (take i hs) @ n @ 0 # v @ 0 # flat (drop (i + 1) hs) @ r"
    "hl_size h = length (flat (take i hs)) + length n + length v + 2 + length (flat (drop (i + 1) hs))"
    "nul_free n" "nul_free v"
    using found_header [OF assms(1) Some] by metis
  have "strnlen_int (drop (length (flat (take i hs))) (hl_buffer h))
      (int (hl_size h) - int (length (flat (take i hs)))) = Some (length n)"
    using f(4) by (simp add: f(2,3))
  then have g: "header_list_get h (q @ 0 # qs) = Some (int (length (flat (take i hs)) + length n + 1))"
    by (simp add: header_list_get_def header_list_index_correct [OF assms] Some)
  have "cstr (drop (length (flat (take i hs)) + length n + 1) (hl_buffer h)) = Some v"
    using f(5) by (simp add: f(2))
  then show ?thesis unfolding g by (simp only: Some f(1) option.inject option.case snd_conv nat_int
      of_nat_0_le_iff simp_thms ex_simps)
qed


text \<open>
  \<open>header_list_add\<close> and \<open>header_list_set\<close> read the header found, splice it out and append it again;
  the last step can fail, and then the header is gone.
\<close>

lemma replace_header:
  assumes rel: "hl_rel h hs" and room: "room_for h hs n" and n: "n \<noteq> []" "nul_free n"
    and pos: "position n hs = Some i" and v: "nul_free v"
  obtains h1 h2 k l where
    "header_list_index h (n @ 0 # ns) = Some (int k)"
    "strnlen_int (drop k (hl_buffer h)) (int (hl_size h) - int k) = Some l"
    "strnlen_int (drop (k + l + 1) (hl_buffer h)) (int (hl_size h) - int (k + l + 1)) =
       Some (length (snd (hs ! i)))"
    "mem_read (hl_buffer h) (k + l + 1) (length (snd (hs ! i))) = Some (snd (hs ! i))"
    "header_list_splice h k (k + l + 1 + length (snd (hs ! i)) + 1 - k) = Some h1"
    "header_list_append (h1\<lparr>hl_count := hl_count h1 - 1\<rparr>) (n @ 0 # ns) (v @ 0 # vs) =
       Some (h2, snd (append_hs (remove_at i hs) n v))"
    "hl_rel h2 (fst (append_hs (remove_at i hs) n v))"
proof -
  obtain n' v' r where f: "hs = take i hs @ (n', v') # drop (i + 1) hs" "hs ! i = (n', v')"
    "hl_buffer h = flat (take i hs) @ n' @ 0 # v' @ 0 # flat (drop (i + 1) hs) @ r"
    "hl_size h = length (flat (take i hs)) + length n' + length v' + 2 + length (flat (drop (i + 1) hs))"
    "nul_free n'" "nul_free v'"
    using found_header [OF rel pos] by metis
  define k where "k = length (flat (take i hs))"
  have idx: "header_list_index h (n @ 0 # ns) = Some (int k)"
    by (simp add: header_list_index_correct [OF rel room n(2)] pos k_def)
  have l: "strnlen_int (drop k (hl_buffer h)) (int (hl_size h) - int k) = Some (length n')"
    using f(5) by (simp add: f(3,4) k_def)
  have vl: "strnlen_int (drop (k + length n' + 1) (hl_buffer h))
      (int (hl_size h) - int (k + length n' + 1)) = Some (length v')"
    using f(6) by (simp add: f(3,4) k_def)
  have rd: "mem_read (hl_buffer h) (k + length n' + 1) (length v') = Some v'"
    by (simp add: mem_read_def f(3) k_def)
  obtain h1 where h1: "header_list_splice h k (length n' + length v' + 2) = Some h1"
      "hl_rel (h1\<lparr>hl_count := hl_count h1 - 1\<rparr>) (remove_at i hs)"
    using header_list_splice_correct [of h "take i hs" n' v' "drop (i + 1) hs"] rel f(1)
    unfolding k_def remove_at_def by metis
  obtain h2 where "header_list_append (h1\<lparr>hl_count := hl_count h1 - 1\<rparr>) (n @ 0 # ns) (v @ 0 # vs) =
        Some (h2, snd (append_hs (remove_at i hs) n v))"
      "hl_rel h2 (fst (append_hs (remove_at i hs) n v))"
    using header_list_append_correct [OF h1(2) n v] .
  moreover have "k + length n' + 1 + length v' + 1 - k = length n' + length v' + 2" by simp
  ultimately show ?thesis using that [of k "length n'" h1 h2] idx l vl rd h1(1) by (simp add: f(2))
qed

lemma header_list_add_correct:
  assumes rel: "hl_rel h hs" and room: "room_for h hs n" and n: "n \<noteq> []" "nul_free n"
    and v: "nul_free v"
  shows "\<exists>h'. header_list_add h (n @ 0 # ns) (v @ 0 # vs) = Some (h', snd (add_hs hs n v)) \<and>
    hl_rel h' (fst (add_hs hs n v))"
proof (cases "position n hs")
  case None
  obtain h' where "header_list_append h (n @ 0 # ns) (v @ 0 # vs) = Some (h', snd (append_hs hs n v))"
      "hl_rel h' (fst (append_hs hs n v))"
    using header_list_append_correct [OF rel n v] .
  with None show ?thesis
    by (simp add: header_list_add_def add_hs_def header_list_index_correct [OF rel room n(2)])
next
  case (Some i)
  have sz: "hl_size h = length (flat hs)" "length (flat hs) \<le> HEADER_LIST_MAX_SIZE"
    and len: "list_all header_ok hs"
    using rel by (auto simp: hl_rel_def)
  have mod: "(int HEADER_LIST_MAX_SIZE - int (length (flat hs))) mod 2 ^ 32 =
      int (HEADER_LIST_MAX_SIZE - length (flat hs))"
    using sz by (simp add: HEADER_LIST_MAX_SIZE_def)
  let ?new = "snd (hs ! i) @ of_char CHR '','' # v"
  have new: "nul_free ?new"
    using v position_split [OF Some] len by (auto simp: list_all_length header_ok_def)
  obtain h1 h2 k l where c: "header_list_index h (n @ 0 # ns) = Some (int k)"
    "strnlen_int (drop k (hl_buffer h)) (int (hl_size h) - int k) = Some l"
    "strnlen_int (drop (k + l + 1) (hl_buffer h)) (int (hl_size h) - int (k + l + 1)) =
       Some (length (snd (hs ! i)))"
    "mem_read (hl_buffer h) (k + l + 1) (length (snd (hs ! i))) = Some (snd (hs ! i))"
    "header_list_splice h k (k + l + 1 + length (snd (hs ! i)) + 1 - k) = Some h1"
    "header_list_append (h1\<lparr>hl_count := hl_count h1 - 1\<rparr>) (n @ 0 # ns) (?new @ [0]) =
       Some (h2, snd (append_hs (remove_at i hs) n ?new))"
    "hl_rel h2 (fst (append_hs (remove_at i hs) n ?new))"
    using replace_header [OF rel room n Some new, of ns "[]"] by metis
  have rd: "mem_read (v @ 0 # vs) 0 (length v) = Some v" by (simp add: mem_read_def)
  have app: "x @ y # z @ w = (x @ y # z) @ w" for x z w :: "byte list" and y by simp
  show ?thesis
  proof (cases "1 + length v > HEADER_LIST_MAX_SIZE - length (flat hs)")
    case True
    then have "header_list_add h (n @ 0 # ns) (v @ 0 # vs) = Some (h, - 1)"
      using c(1-3) v unfolding header_list_add_def
      by (simp only: bind.bind_lunit Let_def nat_int strlen_append sz(1) mod of_nat_less_iff
          if_True of_nat_less_0_iff if_False)
    with True rel Some show ?thesis by (simp add: add_hs_def)
  next
    case False
    then have "header_list_add h (n @ 0 # ns) (v @ 0 # vs) =
        Some (h2, snd (append_hs (remove_at i hs) n ?new))"
      using c(1-6) v rd unfolding header_list_add_def
      by (simp only: bind.bind_lunit Let_def nat_int strlen_append sz(1) mod of_nat_less_iff
          if_True of_nat_less_0_iff if_False app)
    with False c(7) Some show ?thesis by (simp add: add_hs_def)
  qed
qed


lemma header_list_set_correct:
  assumes rel: "hl_rel h hs" and room: "room_for h hs n" and n: "n \<noteq> []" "nul_free n"
    and v: "nul_free v"
  shows "\<exists>h'. header_list_set h (n @ 0 # ns) (v @ 0 # vs) = Some (h', snd (set_hs hs n v)) \<and>
    hl_rel h' (fst (set_hs hs n v))"
proof (cases "position n hs")
  case None
  obtain h' where "header_list_append h (n @ 0 # ns) (v @ 0 # vs) = Some (h', snd (append_hs hs n v))"
      "hl_rel h' (fst (append_hs hs n v))"
    using header_list_append_correct [OF rel n v] .
  with None show ?thesis
    by (simp add: header_list_set_def set_hs_def header_list_index_correct [OF rel room n(2)])
next
  case (Some i)
  have sz: "hl_size h = length (flat hs)" using rel by (simp add: hl_rel_def)
  let ?rej = "int (length v + 2) >
      (int HEADER_LIST_MAX_SIZE - int (length (flat hs)) - int (length (snd (hs ! i)))) mod 2 ^ 32"
  obtain h1 h2 k l where c: "header_list_index h (n @ 0 # ns) = Some (int k)"
    "strnlen_int (drop k (hl_buffer h)) (int (hl_size h) - int k) = Some l"
    "strnlen_int (drop (k + l + 1) (hl_buffer h)) (int (hl_size h) - int (k + l + 1)) =
       Some (length (snd (hs ! i)))"
    "header_list_splice h k (k + l + 1 + length (snd (hs ! i)) + 1 - k) = Some h1"
    "header_list_append (h1\<lparr>hl_count := hl_count h1 - 1\<rparr>) (n @ 0 # ns) (v @ 0 # vs) =
       Some (h2, snd (append_hs (remove_at i hs) n v))"
    "hl_rel h2 (fst (append_hs (remove_at i hs) n v))"
    using replace_header [OF rel room n Some v, of ns vs] by metis
  have two: "1 + length v + 1 = length v + 2" by simp
  show ?thesis
  proof (cases ?rej)
    case True
    then have "header_list_set h (n @ 0 # ns) (v @ 0 # vs) = Some (h, - 1)"
      using c(1-3) v unfolding header_list_set_def
      by (simp only: bind.bind_lunit Let_def nat_int strlen_append sz(1) two
          if_True of_nat_less_0_iff if_False)
    with True rel Some show ?thesis by (simp add: set_hs_def)
  next
    case False
    then have "header_list_set h (n @ 0 # ns) (v @ 0 # vs) =
        Some (h2, snd (append_hs (remove_at i hs) n v))"
      using c(1-5) v unfolding header_list_set_def
      by (simp only: bind.bind_lunit Let_def nat_int strlen_append sz(1) two
          if_True of_nat_less_0_iff if_False)
    with False c(6) Some show ?thesis by (simp add: set_hs_def)
  qed
qed

lemma all_loop_flat:
  assumes "list_all header_ok hs" "r \<noteq> []" "pos = length p" "sz = pos + length (flat hs)"
    "buf = p @ flat hs @ r" "k + length hs \<le> length hlist"
  shows "\<exists>ps. all_loop buf sz hlist k pos = Some (overwrite hlist k ps) \<and>
    map (\<lambda>(a, b). (cstr (drop a buf), cstr (drop b buf))) ps = map (\<lambda>(n, v). (Some n, Some v)) hs"
  using assms
proof (induction hs arbitrary: p pos k hlist)
  case Nil
  then show ?case by (subst all_loop.simps) simp
next
  case (Cons h hs)
  obtain n v where h: "h = (n, v)" by (cases h)
  from Cons.prems have ok: "n \<noteq> []" "nul_free n" "nul_free v" "list_all header_ok hs" by (auto simp: h)
  have len: "strnlen (drop pos buf) (sz - pos) = Some (length n)" using ok(2) Cons.prems by (simp add: h)
  from Cons.prems have pos: "pos < sz" by (simp add: h)
  from Cons.prems(2) have "flat hs @ r \<noteq> []" by simp
  note skip = header_round [OF ok(2-4) this Cons.prems(3,4,5) [unfolded h]]
  let ?p = "(pos, pos + length n + 1)"
  have k: "k < length hlist" using Cons.prems(6) by simp
  obtain ps where ps: "all_loop buf sz (hlist[k := ?p]) (k + 1) (pos + length n + length v + 2) =
        Some (overwrite (hlist[k := ?p]) (k + 1) ps)"
      "map (\<lambda>(a, b). (cstr (drop a buf), cstr (drop b buf))) ps = map (\<lambda>(n, v). (Some n, Some v)) hs"
    using Cons.IH [of "pos + length n + length v + 2" "p @ n @ 0 # v @ [0]" "k + 1" "hlist[k := ?p]"]
      ok(4) Cons.prems(2-6) by (auto simp: h)
  from ps(2) have "length ps = length hs" using map_eq_imp_length_eq by blast
  then have "overwrite (hlist[k := ?p]) (k + 1) ps = overwrite hlist k (?p # ps)"
    using overwrite_overwrite_adjacent [of k "[?p]" ps hlist] Cons.prems(6) k
    by (simp add: list_update_overwrite)
  with ps(1) skip pos k have "all_loop buf sz hlist k pos = Some (overwrite hlist k (?p # ps))"
    by (subst all_loop.simps) (auto simp: len ok(1) wr_def)
  moreover have "cstr (drop pos buf) = Some n" "cstr (drop (pos + length n + 1) buf) = Some v"
    using ok(2,3) Cons.prems(3,5) by (simp_all add: h)
  ultimately show ?case using ps(2) by (intro exI [of _ "?p # ps"]) (simp add: h)
qed

subsection \<open>The interface of the header list\<close>

text \<open>
  What the HTTP code relies on: a lookup yields the value of the first header whose name the query starts
  with, and a store replaces that header or appends one.
\<close>

definition get_string :: "header_list \<Rightarrow> byte list \<Rightarrow> byte list option option" where
  "get_string h q = do {
     p \<leftarrow> header_list_get h (q @ [0]);
     if p < 0 then Some None else map_option Some (cstr (drop (nat p) (hl_buffer h)))
   }"

lemma get_string_correct:
  assumes "hl_rel h hs" "room_for h hs q" "nul_free q"
  shows "get_string h q = Some (map_option (\<lambda>i. snd (hs ! i)) (position q hs))"
  using header_list_get_correct [OF assms, of "[]"]
  by (cases "position q hs") (auto simp: get_string_def)

lemma position_append:
  "position q (hs @ hs') = (case position q hs of Some i \<Rightarrow> Some i
     | None \<Rightarrow> map_option (\<lambda>i. length hs + i) (position q hs'))"
  by (induction hs; cases "position q hs'") (auto split: option.splits if_splits)

lemma position_None_iff: "position q hs = None \<longleftrightarrow> (\<forall>(n, v) \<in> set hs. \<not> name_starts n q)"
  by (induction hs) (auto split: if_splits)

lemma position_Some: "position q hs = Some i \<Longrightarrow> i < length hs \<and> name_starts (fst (hs ! i)) q"
  by (induction hs arbitrary: i) (auto split: if_splits)

lemma remove_at_nth:
  assumes "x \<in> set (remove_at i xs)"
  shows "\<exists>j < length xs. j \<noteq> i \<and> xs ! j = x"
  using assms unfolding remove_at_def set_append
proof
  assume "x \<in> set (take i xs)"
  then obtain j where "j < length (take i xs)" "take i xs ! j = x" unfolding in_set_conv_nth by blast
  then show ?thesis by (intro exI [of _ j]) simp
next
  assume "x \<in> set (drop (i + 1) xs)"
  then obtain j where "j < length (drop (i + 1) xs)" "drop (i + 1) xs ! j = x"
    unfolding in_set_conv_nth by blast
  then show ?thesis by (intro exI [of _ "i + 1 + j"]) simp
qed

locale header_store =
  fixes rel :: "'s \<Rightarrow> header list \<Rightarrow> bool"
    and room :: "'s \<Rightarrow> header list \<Rightarrow> byte list \<Rightarrow> bool"
    and lookup :: "'s \<Rightarrow> byte list \<Rightarrow> byte list option option"
    and store :: "'s \<Rightarrow> byte list \<Rightarrow> byte list \<Rightarrow> ('s \<times> int) option"
  assumes lookup_law: "rel s hs \<Longrightarrow> room s hs q \<Longrightarrow> nul_free q \<Longrightarrow>
      lookup s q = Some (map_option (\<lambda>i. snd (hs ! i)) (position q hs))"
    and store_law: "rel s hs \<Longrightarrow> room s hs n \<Longrightarrow> n \<noteq> [] \<Longrightarrow> nul_free n \<Longrightarrow> nul_free v \<Longrightarrow>
      \<exists>s'. store s n v = Some (s', snd (set_hs hs n v)) \<and> rel s' (fst (set_hs hs n v))"
    and room_found: "position q hs \<noteq> None \<Longrightarrow> room s hs q"
begin

lemma lookup_after_store:
  assumes "rel s hs" "room s hs n" "n \<noteq> []" "nul_free n" "nul_free v"
    and unique: "\<forall>i < length hs. name_starts (fst (hs ! i)) n \<longrightarrow> position n hs = Some i"
    and "store s n v = Some (s', 0)"
  shows "lookup s' n = Some (Some v)"
proof -
  have st: "snd (set_hs hs n v) = 0" "rel s' (fst (set_hs hs n v))"
    using store_law [OF assms(1-5)] assms(7) by auto
  obtain hs' where hs': "fst (set_hs hs n v) = hs' @ [(n, v)]" "position n hs' = None"
  proof (cases "position n hs")
    case None
    with st(1) that [of hs] show ?thesis by (auto simp: set_hs_def append_hs_def split: if_splits)
  next
    case (Some i)
    have "position n (remove_at i hs) = None"
      unfolding position_None_iff
    proof clarify
      fix a b assume a: "(a, b) \<in> set (remove_at i hs)" "name_starts a n"
      from remove_at_nth [OF a(1)] obtain j where "j < length hs" "j \<noteq> i" "hs ! j = (a, b)" by blast
      with unique a(2) Some show False by auto
    qed
    with Some st(1) that [of "remove_at i hs"] show ?thesis
      by (auto simp: set_hs_def append_hs_def split: if_splits)
  qed
  then have pos: "position n (hs' @ [(n, v)]) = Some (length hs')"
    by (simp add: position_append name_starts_def)
  then have "room s' (hs' @ [(n, v)]) n" by (simp add: room_found)
  with st(2) pos show ?thesis by (simp add: hs'(1) lookup_law [OF _ _ assms(4)])
qed

end

interpretation hl: header_store hl_rel room_for get_string "\<lambda>h n v. header_list_set h (n @ [0]) (v @ [0])"
  by unfold_locales
    (auto simp: get_string_correct header_list_set_correct room_for_def)



subsection \<open>Properties\<close>

text \<open>A list to evaluate the operations on: two headers, at the front of an array of 512 bytes.\<close>

definition example_headers :: "header list" where
  "example_headers = [(lit ''age'', lit ''7''), (lit ''host'', lit ''a'')]"

definition example_list :: header_list where
  "example_list = \<lparr>hl_buffer = flat example_headers @ replicate 499 0, hl_count = 2, hl_size = 13\<rparr>"

lemma example_list_rel: "hl_rel example_list example_headers"
  by (simp add: hl_rel_def example_list_def example_headers_def HEADER_LIST_MAX_SIZE_def lit_def
      header_ok_def nul_free_def)



lemma header_list_all_correct:
  assumes "hl_rel h hs" "hl_size h < HEADER_LIST_MAX_SIZE" "length hs \<le> length hlist"
  shows "\<exists>ps. header_list_all h hlist = Some (overwrite hlist 0 ps) \<and> length ps = length hs \<and>
    map (\<lambda>(a, b). (cstr (drop a (hl_buffer h)), cstr (drop b (hl_buffer h)))) ps =
      map (\<lambda>(n, v). (Some n, Some v)) hs"
proof -
  obtain r where r: "hl_buffer h = flat hs @ r" "length r = HEADER_LIST_MAX_SIZE - hl_size h"
    using hl_rel_buffer [OF assms(1)] .
  with assms(2) have "r \<noteq> []" by auto
  with all_loop_flat [of hs r 0 "[]" "hl_size h" "hl_buffer h" 0 hlist] assms r(1)
  obtain ps where "header_list_all h hlist = Some (overwrite hlist 0 ps)"
    and m: "map (\<lambda>(a, b). (cstr (drop a (hl_buffer h)), cstr (drop b (hl_buffer h)))) ps =
      map (\<lambda>(n, v). (Some n, Some v)) hs"
    by (auto simp: header_list_all_def hl_rel_def)
  moreover from m have "length ps = length hs" using map_eq_imp_length_eq by blast
  ultimately show ?thesis by blast
qed

lemma header_list_all_full:
  assumes "hl_rel h hs" "hl_size h < HEADER_LIST_MAX_SIZE" "length hs = length hlist"
  shows "\<exists>ps. header_list_all h hlist = Some ps \<and>
    map (\<lambda>(a, b). (cstr (drop a (hl_buffer h)), cstr (drop b (hl_buffer h)))) ps =
      map (\<lambda>(n, v). (Some n, Some v)) hs"
  using header_list_all_correct [OF assms(1,2), of hlist] assms(3) by (fastforce simp: overwrite_def)

text \<open>
  Claim C19. When \<open>header_list_set\<close> returns \<open>0\<close>, \<open>header_list_get\<close> with the same name points to the
  value that was set, also when the list is now full, provided that no two of the stored names are
  prefixes of the name.
\<close>

theorem header_list_get_set:
  assumes "hl_rel h hs" "room_for h hs n" "n \<noteq> []" "nul_free n" "nul_free v"
    and "\<forall>i < length hs. name_starts (fst (hs ! i)) n \<longrightarrow> position n hs = Some i"
    and "header_list_set h (n @ [0]) (v @ [0]) = Some (h', 0)"
  shows "\<exists>p. header_list_get h' (n @ [0]) = Some p \<and> 0 \<le> p \<and> cstr (drop (nat p) (hl_buffer h')) = Some v"
  using hl.lookup_after_store [OF assms]
  by (auto simp: get_string_def bind_eq_Some_conv split: if_splits)

theorem header_list_get_set_witness:
  "\<exists>h' p. header_list_set example_list (lit ''age'' @ [0]) (lit ''10'' @ [0]) = Some (h', 0) \<and>
     header_list_get h' (lit ''age'' @ [0]) = Some p \<and> 0 \<le> p \<and>
     cstr (drop (nat p) (hl_buffer h')) = Some (lit ''10'')"
proof -
  have r: "room_for example_list example_headers (lit ''age'')"
    by (simp add: room_for_def example_list_def HEADER_LIST_MAX_SIZE_def)
  have n: "lit ''age'' \<noteq> []" "nul_free (lit ''age'')" "nul_free (lit ''10'')"
    by (simp_all add: lit_def nul_free_def)
  have u: "\<forall>i < length example_headers. name_starts (fst (example_headers ! i)) (lit ''age'') \<longrightarrow>
      position (lit ''age'') example_headers = Some i"
    by (simp add: example_headers_def name_starts_def tolower_def lit_def less_Suc_eq all_conj_distrib
        numeral_2_eq_2)
  have "set_hs example_headers (lit ''age'') (lit ''10'') =
      ([(lit ''host'', lit ''a''), (lit ''age'', lit ''10'')], 0)"
    by (simp add: set_hs_def append_hs_def remove_at_def example_headers_def name_starts_def tolower_def
        lit_def HEADER_LIST_MAX_SIZE_def)
  then obtain h' where h': "header_list_set example_list (lit ''age'' @ [0]) (lit ''10'' @ [0]) = Some (h', 0)"
    using header_list_set_correct [OF example_list_rel r n, of "[]" "[]"] by auto
  with header_list_get_set [OF example_list_rel r n u h'] show ?thesis by blast
qed

text \<open>
  Claim C20. \<open>header_list_all\<close> visits every header of the list once and in order: the pointers it stores
  point to the names and values, one pair for each header the count gives, and nothing else of the
  caller's array changes.
\<close>

theorem header_list_all_complete:
  assumes "hl_rel h hs" "hl_size h < HEADER_LIST_MAX_SIZE" "length hs \<le> length hlist"
  shows "\<exists>ps. header_list_all h hlist = Some (overwrite hlist 0 ps) \<and>
    int (length ps) = header_list_count h \<and>
    map (\<lambda>(a, b). (cstr (drop a (hl_buffer h)), cstr (drop b (hl_buffer h)))) ps =
      map (\<lambda>(n, v). (Some n, Some v)) hs"
  using header_list_all_correct [OF assms] assms(1) by (auto simp: header_list_count_def hl_rel_def)

theorem header_list_all_complete_witness:
  "\<exists>ps. header_list_all example_list [(0, 0), (0, 0), (9, 9)] = Some (overwrite [(0, 0), (0, 0), (9, 9)] 0 ps) \<and>
     length ps = 2"
  using header_list_all_complete [OF example_list_rel, of "[(0, 0), (0, 0), (9, 9)]"]
  by (auto simp: example_list_def example_headers_def HEADER_LIST_MAX_SIZE_def header_list_count_def)

subsection \<open>Behaviour that differs from the documentation\<close>

text \<open>A query finds every stored name it starts with, so \<open>accept-encoding\<close> finds \<open>accept\<close>.\<close>

lemma prefix_of_name_found:
  assumes "hl_rel h [(lit ''accept'', lit ''a'')]" "hl_size h < HEADER_LIST_MAX_SIZE"
  shows "header_list_index h (lit ''accept-encoding'' @ [0]) = Some 0"
  using assms header_list_index_correct [OF assms(1), of "lit ''accept-encoding''" "[]"]
  by (simp add: room_for_def lit_def nul_free_def name_starts_def)

text \<open>
  \<open>header_list_set\<close> subtracts the length of the old value from the space left instead of adding it:
  replacing a value of 199 bytes by one of 150 bytes is refused although 310 bytes are free.
\<close>

lemma set_shorter_value_refused:
  assumes "hs = [(lit ''a'', replicate 199 1)]"
  shows "set_hs hs (lit ''a'') (replicate 150 1) = (hs, - 1)"
  by (simp add: assms set_hs_def name_starts_def lit_def HEADER_LIST_MAX_SIZE_def)

text \<open>
  When the subtraction underflows the check passes, the old header is spliced out and the append fails:
  \<open>- 1\<close> is returned and the header is lost.
\<close>

lemma set_loses_header:
  assumes "hs = [(lit ''a'', replicate 399 1)]"
  shows "set_hs hs (lit ''a'') (replicate 510 1) = ([], - 1)"
  by (simp add: assms set_hs_def append_hs_def remove_at_def name_starts_def lit_def HEADER_LIST_MAX_SIZE_def)

text \<open>With the array full, a search that fails reads the byte behind the array.\<close>

lemma full_list_reads_past_end:
  assumes "hl_rel h [(n, v)]" "hl_size h = HEADER_LIST_MAX_SIZE" "\<not> name_starts n q" "nul_free q"
  shows "header_list_index h (q @ [0]) = None"
proof -
  obtain r where "hl_buffer h = flat [(n, v)] @ r" "length r = HEADER_LIST_MAX_SIZE - hl_size h"
    using hl_rel_buffer [OF assms(1)] .
  with assms(2) have buf: "hl_buffer h = n @ 0 # v @ [0]" by simp
  have sz: "hl_size h = length n + length v + 2" and ok: "nul_free n" "nul_free v"
    using assms(1) by (simp_all add: hl_rel_def)
  have "skip_value (hl_buffer h) (hl_size h) (Suc (length n)) = Some (length n + 1 + length v)"
    using skip_value_stops [of v "n @ [0]" "hl_size h" "[]"] ok by (simp add: buf sz)
  moreover have "skip_padding (hl_buffer h) (hl_size h) (length n + 1 + length v) = None"
    by (subst skip_padding.simps, subst skip_padding.simps) (simp add: buf sz rd_def nth_append)
  moreover have "strncasecmp_eq (q @ [0]) (n @ 0 # v @ [0]) (length n) = Some False"
    using strncasecmp_eq_name_starts [OF assms(4) ok(1), of "[]" "0 # v @ [0]"] assms(3) by simp
  ultimately show ?thesis
    unfolding header_list_index_def using ok by (subst index_loop.simps) (simp add: buf sz)
qed

end
