(* ===== verification/Hpack_Encoder.thy ===== *)
theory Hpack_Encoder
  imports Hpack_String Tables Header_List
begin

text \<open>
  \<open>src/src/hpack/encoder.c\<close>, from the choice of a representation for a header to the header block: which
  preamble and index are used (\<open>hpack_encoder_pack_header\<close>), the bytes of one header
  (\<open>hpack_encoder_encode_header\<close>), the block (\<open>hpack_encoder_encode\<close>) and the size update.

  The bytes are described by \<open>field_repr\<close> and \<open>block_repr\<close>, the representations of RFC 7541 section 6
  relative to a table; the encoder is shown to emit such representations.
\<close>

text \<open>
  \<open>name_string\<close> and \<open>value_string\<close> are offsets in the array of the header block, \<open>None\<close> for the null
  pointer the structure is initialised with.
\<close>

record hpack_encoded_header =
  eh_index :: u32
  eh_name_length :: u32
  eh_value_length :: u32
  eh_name_string :: "nat option"
  eh_value_string :: "nat option"
  eh_dynamic_table_size :: nat
  eh_huffman_bit_of_name :: byte
  eh_huffman_bit_of_value :: byte
  eh_preamble :: hpack_preamble

definition empty_encoded_header :: hpack_encoded_header where
  "empty_encoded_header =
     \<lparr>eh_index = 0, eh_name_length = 0, eh_value_length = 0, eh_name_string = None,
      eh_value_string = None, eh_dynamic_table_size = 0, eh_huffman_bit_of_name = 0,
      eh_huffman_bit_of_value = 0, eh_preamble = LITERAL_HEADER_FIELD_WITHOUT_INDEXING\<rparr>"

definition hpack_encoder_pack_header ::
  "hpack_encoded_header \<Rightarrow> hpack_dynamic_table \<Rightarrow> byte list \<Rightarrow> byte list \<Rightarrow>
   (hpack_encoded_header \<times> hpack_dynamic_table) option" where
  "hpack_encoder_pack_header encoded_header dynamic_table name_string value_string = do {
     index \<leftarrow> hpack_tables_find_index dynamic_table name_string value_string;
     if index > 0
     then Some (encoded_header\<lparr>eh_preamble := INDEXED_HEADER_FIELD, eh_index := of_int index\<rparr>, dynamic_table)
     else do {
       index \<leftarrow> hpack_tables_find_index_name dynamic_table name_string;
       let encoded_header = encoded_header\<lparr>eh_index := (if index < 0 then 0 else of_int index)\<rparr>;
       (dynamic_table, added) \<leftarrow>
         hpack_tables_dynamic_table_add_entry dynamic_table name_string value_string;
       Some (encoded_header\<lparr>eh_preamble :=
               (if added < 0 then LITERAL_HEADER_FIELD_NEVER_INDEXED
                else LITERAL_HEADER_FIELD_WITH_INCREMENTAL_INDEXING)\<rparr>, dynamic_table)
     }
   }"

text \<open>
  \<open>m\<close> is the array behind \<open>encoded_buffer\<close> and \<open>p\<close> its offset. The size of the buffer is handed on
  unchanged while the pointer advances.
\<close>

definition hpack_encoder_encode_header ::
  "hpack_encoded_header \<Rightarrow> byte list \<Rightarrow> byte list \<Rightarrow> byte list \<Rightarrow> nat \<Rightarrow> nat \<Rightarrow> (byte list \<times> int) option" where
  "hpack_encoder_encode_header encoded_header name_string value_string m p buffer_size = do {
     let prefix = hpack_utils_find_prefix_size (eh_preamble encoded_header);
     m \<leftarrow> wr m p 0;
     (m, pointer) \<leftarrow>
       (if eh_index encoded_header = 0 then do {
          (m, rc) \<leftarrow> hpack_encoder_encode_string name_string m (p + 1) buffer_size;
          if rc < 0 then Some (m, rc)
          else do {
            let pointer = 1 + nat rc;
            (m, rc) \<leftarrow> hpack_encoder_encode_string value_string m (p + pointer) buffer_size;
            if rc < 0 then Some (m, rc) else Some (m, int pointer + rc)
          }
        }
        else do {
          (m, rc) \<leftarrow> hpack_encoder_encode_integer (eh_index encoded_header) prefix m p;
          if rc < 0 then Some (m, HPACK_COMPRESSION_ERROR)
          else if eh_preamble encoded_header \<noteq> INDEXED_HEADER_FIELD then do {
            let pointer = nat rc;
            (m, rc) \<leftarrow> hpack_encoder_encode_string value_string m (p + pointer) buffer_size;
            if rc < 0 then Some (m, rc) else Some (m, int pointer + rc)
          }
          else Some (m, rc)
        });
     if pointer < 0 then Some (m, pointer)
     else do {
       b \<leftarrow> rd m p;
       m \<leftarrow> wr m p (b OR ucast (preamble_val (eh_preamble encoded_header)));
       Some (m, pointer)
     }
   }"

text \<open>
  The loop over the headers. The counter of the inner debugging loop is a \<open>uint8_t\<close>, so that loop does
  not end once 256 bytes are written. The code of a failed header is added to the pointer.
\<close>

fun encode_headers_loop ::
  "hpack_dynamic_table \<Rightarrow> header_list \<Rightarrow> (nat \<times> nat) list \<Rightarrow> byte list \<Rightarrow> nat \<Rightarrow> int \<Rightarrow>
   (hpack_dynamic_table \<times> byte list \<times> int) option" where
  "encode_headers_loop dynamic_table headers_out [] m buffer_size pointer = Some (dynamic_table, m, pointer)"
| "encode_headers_loop dynamic_table headers_out ((n, v) # headers) m buffer_size pointer = do {
     let name = drop n (hl_buffer headers_out);
     let val = drop v (hl_buffer headers_out);
     (encoded_header, dynamic_table) \<leftarrow>
       hpack_encoder_pack_header empty_encoded_header dynamic_table name val;
     guard (0 \<le> pointer);
     (m, rc) \<leftarrow> hpack_encoder_encode_header encoded_header name val m (nat pointer) buffer_size;
     guard (rc + pointer < 256);
     encode_headers_loop dynamic_table headers_out headers m buffer_size (pointer + rc)
   }"

definition hpack_encoder_encode ::
  "hpack_dynamic_table \<Rightarrow> header_list \<Rightarrow> byte list \<Rightarrow> nat \<Rightarrow> (hpack_dynamic_table \<times> byte list \<times> int) option" where
  "hpack_encoder_encode dynamic_table headers_out encoded_buffer buffer_size = do {
     let count = nat (header_list_count headers_out);
     headers \<leftarrow> header_list_all headers_out (replicate count (0, 0));
     encode_headers_loop dynamic_table headers_out headers encoded_buffer buffer_size 0
   }"

definition hpack_encoder_encode_dynamic_size_update ::
  "hpack_dynamic_table \<Rightarrow> u32 \<Rightarrow> byte list \<Rightarrow> nat \<Rightarrow> (hpack_dynamic_table \<times> byte list \<times> int) option" where
  "hpack_encoder_encode_dynamic_size_update dynamic_table max_size m p = do {
     (dynamic_table, rc) \<leftarrow> hpack_tables_dynamic_table_resize dynamic_table (unat max_size);
     if rc < 0 then Some (dynamic_table, m, rc)
     else do {
       (m, encoded_max_size_length) \<leftarrow> hpack_encoder_encode_integer max_size 5 m p;
       if encoded_max_size_length < 0 then Some (dynamic_table, m, - 1)
       else do {
         b \<leftarrow> rd m p;
         m \<leftarrow> wr m p (b OR ucast (preamble_val DYNAMIC_TABLE_SIZE_UPDATE));
         Some (dynamic_table, m, encoded_max_size_length)
       }
     }
   }"

subsection \<open>Representations of header fields\<close>

definition coded_int :: "hpack_preamble \<Rightarrow> nat \<Rightarrow> byte list" where
  "coded_int pre i =
     (let c = int_code (hpack_utils_find_prefix_size pre) i
      in (hd c OR ucast (preamble_val pre)) # tl c)"

definition literal_preamble :: "hpack_preamble \<Rightarrow> bool" where
  "literal_preamble pre \<longleftrightarrow> pre \<in> {LITERAL_HEADER_FIELD_WITH_INCREMENTAL_INDEXING,
     LITERAL_HEADER_FIELD_WITHOUT_INDEXING, LITERAL_HEADER_FIELD_NEVER_INDEXED}"

text \<open>The table after a literal, which has to fit when it is to be indexed.\<close>

definition stored :: "hpack_preamble \<Rightarrow> nat \<Rightarrow> entry \<Rightarrow> entry list \<Rightarrow> entry list \<Rightarrow> bool" where
  "stored pre M e es es' \<longleftrightarrow>
     (if pre = LITERAL_HEADER_FIELD_WITH_INCREMENTAL_INDEXING
      then entry_size e \<le> M \<and> es' = e # evict (M - entry_size e) es
      else es' = es)"

inductive field_repr :: "nat \<Rightarrow> entry list \<Rightarrow> byte list \<Rightarrow> header \<Rightarrow> entry list \<Rightarrow> bool" where
  indexed: "entry_at es i = Some h \<Longrightarrow> i \<le> HPACK_MAXIMUM_INTEGER \<Longrightarrow>
    field_repr M es (coded_int INDEXED_HEADER_FIELD i) h es"
| known_name: "literal_preamble pre \<Longrightarrow> entry_at es i = Some (n, v') \<Longrightarrow> i \<le> HPACK_MAXIMUM_INTEGER \<Longrightarrow>
    hpack_string hv kv cv v \<Longrightarrow> stored pre M (n, v) es es' \<Longrightarrow>
    field_repr M es (coded_int pre i @ cv) (n, v) es'"
| new_name: "literal_preamble pre \<Longrightarrow> hpack_string hn kn cn n \<Longrightarrow> hpack_string hv kv cv v \<Longrightarrow>
    stored pre M (n, v) es es' \<Longrightarrow>
    field_repr M es (coded_int pre 0 @ cn @ cv) (n, v) es'"

text \<open>A block: size updates first, then fields. The flag tells whether an update may follow.\<close>

inductive block_repr :: "bool \<Rightarrow> abs_table \<Rightarrow> byte list \<Rightarrow> header list \<Rightarrow> abs_table \<Rightarrow> bool" where
  block_end: "block_repr flag a [] [] a"
| block_update: "new \<le> S \<Longrightarrow> new \<le> HPACK_MAXIMUM_INTEGER \<Longrightarrow> block_repr True (new, S, evict new es) c hs a \<Longrightarrow>
    block_repr True (M, S, es) (coded_int DYNAMIC_TABLE_SIZE_UPDATE new @ c) hs a"
| block_field: "field_repr M es c h es' \<Longrightarrow> block_repr False (M, S, es') cs hs a \<Longrightarrow>
    block_repr flag (M, S, es) (c @ cs) (h # hs) a"

inductive_cases block_repr_NilE: "block_repr flag a [] hs a'"


subsection \<open>Strings, without a bound on the buffer\<close>

text \<open>
  A string of \<open>k\<close> characters never takes more than \<open>4 * k + 4\<close> bytes, even while its Huffman code is
  tried. If that much memory is left, the size the code believes the buffer to have does not matter.
\<close>

lemma encode_integer_small:
  assumes "n \<le> HPACK_MAXIMUM_INTEGER" "p + 3 \<le> length m"
  shows "hpack_encoder_encode_integer (of_nat n) 7 m p =
    Some (overwrite m p (int_code 7 n), int (length (int_code 7 n)))"
proof -
  have "unat (of_nat n :: u32) = n"
    using assms(1) by (intro unat_of_nat_u32) (simp add: HPACK_MAXIMUM_INTEGER_def)
  moreover have "length (int_code 7 n) \<le> 3" by (rule length_int_code(2) [OF assms(1)])
  ultimately show ?thesis using encode_integer_correct [of 7 "of_nat n" p m] assms by simp
qed

lemma encode_string_any_size:
  assumes "nul_free s" "length s \<le> 1000" "p + 4 * length s + 8 \<le> length m" "4 * length s + 8 \<le> bs"
  shows "hpack_encoder_encode_string (s @ 0 # r) m p bs =
    hpack_encoder_encode_string (s @ 0 # r) m p (4 * length s + 8)"
proof -
  let ?n = "(length (huff_bits s) + 7) div 8"
  have n: "?n \<le> 4 * length s + 1" using length_huff_bits_le [of s] by simp
  then have max: "?n \<le> HPACK_MAXIMUM_INTEGER" "length s \<le> HPACK_MAXIMUM_INTEGER"
    using assms(2) by (simp_all add: HPACK_MAXIMUM_INTEGER_def)
  have k: "length (int_code 7 ?n) \<le> 3" "length (int_code 7 (length s)) \<le> 3"
    using length_int_code(2) max by blast+
  have huff: "hpack_encoder_encode_huffman_string (s @ 0 # r) m p bs =
      hpack_encoder_encode_huffman_string (s @ 0 # r) m p (4 * length s + 8)"
    using n k(1) assms(1,3,4) unfolding hpack_encoder_encode_huffman_string_def
    by (simp only: strlen_append encode_huffman_word_correct bind.bind_lunit Let_def ceil8(1) prod.case
        encode_integer_small [OF max(1)]) (simp add: encode_integer_small [OF max(1)])
  obtain m1 rc1 where h: "hpack_encoder_encode_huffman_string (s @ 0 # r) m p (4 * length s + 8) = Some (m1, rc1)"
      "same_outside m m1 p (p + (4 * length s + 8))"
    using encode_huffman_string_correct [OF assms(1) max(2), of p "4 * length s + 8" m r] assms(3)
    by (auto simp: add.assoc)
  have "p + 3 \<le> length m1" using h(2) assms(3) by (simp add: same_outside_def)
  then have "hpack_encoder_encode_non_huffman_string (s @ 0 # r) m1 p bs =
      hpack_encoder_encode_non_huffman_string (s @ 0 # r) m1 p (4 * length s + 8)"
    using k(2) assms(1,4) unfolding hpack_encoder_encode_non_huffman_string_def
    by (simp add: encode_integer_small [OF max(2)])
  with h(1) assms(1) show ?thesis unfolding hpack_encoder_encode_string_def huff by simp
qed

lemma same_outside_mono:
  "same_outside m m' p e \<Longrightarrow> q \<le> p \<Longrightarrow> same_outside m m' q (length m)"
  unfolding same_outside_def by (metis less_le_trans rd_None_iff)

lemma code_here_same:
  assumes "code_here m q c" "same_outside m m' p e" "q + length c \<le> p"
  shows "code_here m' q c"
proof -
  have "length m' = length m" using assms(2) by (simp add: same_outside_def)
  moreover have "take (length c) (drop q m') = take (length c) (drop q m)"
  proof (rule nth_equalityI)
    fix i assume i: "i < length (take (length c) (drop q m'))"
    then have "rd m' (q + i) = rd m (q + i)" using assms by (simp add: same_outside_def)
    moreover have "q \<le> length m" using assms(1) by (simp add: code_here_def)
    ultimately show "take (length c) (drop q m') ! i = take (length c) (drop q m) ! i"
      using i \<open>length m' = length m\<close> by (simp add: rd_def less_diff_conv add.commute)
  qed (simp add: \<open>length m' = length m\<close>)
  ultimately show ?thesis using assms(1) by (simp add: code_here_def)
qed

lemma encode_string_room:
  assumes "nul_free s" "length s \<le> 1000" "p + 4 * length s + 8 \<le> length m" "4 * length s + 8 \<le> bs"
  obtains m' h n c where "hpack_encoder_encode_string (s @ 0 # r) m p bs = Some (m', int (length c))"
    "hpack_string h n c s" "code_here m' p c" "length c \<le> length s + 3"
    "same_outside m m' p (length m)"
proof -
  let ?bs = "4 * length s + 8"
  have max: "length s \<le> HPACK_MAXIMUM_INTEGER" using assms(2) by (simp add: HPACK_MAXIMUM_INTEGER_def)
  have k: "length (int_code 7 (length s)) \<le> 3" by (rule length_int_code(2) [OF max])
  have room: "p + ?bs \<le> length m" using assms(3) by simp
  obtain m' rc where e: "hpack_encoder_encode_string (s @ 0 # r) m p ?bs = Some (m', rc)"
    "same_outside m m' p (p + ?bs)"
    "if 0 \<le> rc then \<exists>h n c. hpack_string h n c s \<and> code_here m' p c \<and> rc = int (length c) \<and> length c < ?bs
     else rc = - 2 \<and> ?bs \<le> length (int_code 7 (length s)) + length s"
    using encode_string_correct [OF assms(1) max room] by fastforce
  then obtain h n c where c: "hpack_string h n c s" "code_here m' p c" "rc = int (length c)"
    using k by (auto split: if_splits)
  have "rc \<le> int (length s) + 3"
  proof -
    obtain m1 rc1 where h: "hpack_encoder_encode_huffman_string (s @ 0 # r) m p ?bs = Some (m1, rc1)"
        "same_outside m m1 p (p + ?bs)"
      using encode_huffman_string_correct [OF assms(1) max room, of r] by auto
    then have "p + ?bs \<le> length m1" using room by (simp add: same_outside_def)
    from encode_non_huffman_string_correct [OF assms(1) max this, of r]
    have "\<exists>m2. hpack_encoder_encode_non_huffman_string (s @ 0 # r) m1 p ?bs =
        Some (m2, int (length (int_code 7 (length s)) + length s))"
      using k by auto
    with h(1) e(1) k assms(1) show ?thesis
      by (auto simp: hpack_encoder_encode_string_def split: if_splits)
  qed
  then have "length c \<le> length s + 3" using c(3) by linarith
  then show ?thesis
    using that [of m' c h n] encode_string_any_size [OF assms, of r] e(1) c same_outside_mono [OF e(2)]
    by simp
qed

subsection \<open>The choice of a representation\<close>

lemma index_of_name_sound:
  assumes "nm \<noteq> []"
  shows "index_of_name es nm = HPACK_INTERNAL_ERROR \<or>
    (\<exists>i e. index_of_name es nm = int i \<and> 0 < i \<and> entry_at es i = Some e \<and>
       (if i < 62 then fst e = nm else name_matches nm e))"
proof (cases "first_index (\<lambda>s. nm = s) (snames @ [[]])")
  case (Some k)
  from first_index_SomeD [OF Some] have k: "k < 62" "nm = (snames @ [[]]) ! k"
    by auto
  with assms have "k \<noteq> 61" by (auto simp: nth_append)
  with k have "k < 61" "snames ! k = nm" by (auto simp: nth_append)
  with Some show ?thesis by (auto simp: index_of_name_def entry_at_def intro!: exI [of _ "k + 1"])
next
  case None
  show ?thesis
  proof (cases "first_index (name_matches nm) es")
    case (Some k)
    then have "index_of_name es nm = int (k + 62)" using None by (simp add: index_of_name_def)
    moreover from first_index_SomeD [OF Some] have "entry_at es (k + 62) = Some (es ! k)"
      "name_matches nm (es ! k)" by (simp_all add: entry_at_def)
    ultimately show ?thesis by (intro disjI2 exI [of _ "k + 62"] exI [of _ "es ! k"]) simp
  next
    case dyn: None
    with None show ?thesis by (simp add: index_of_name_def)
  qed
qed

text \<open>
  \<open>exact es h\<close>: no entry of the table is taken for \<open>h\<close> or for another header with its name unless it is
  one. The comparison of the code also accepts entries that merely start with the search string.
\<close>

definition exact :: "entry list \<Rightarrow> header \<Rightarrow> bool" where
  "exact es h \<longleftrightarrow> (\<forall>e \<in> set es. (entry_matches (fst h) (snd h) e \<longrightarrow> e = h) \<and>
     (name_matches (fst h) e \<longrightarrow> fst e = fst h))"

lemma entry_at_bound: "entry_at es i = Some e \<Longrightarrow> length es < 128 \<Longrightarrow> 0 < i \<and> i < 190"
  by (auto simp: entry_at_def split: if_splits)

lemma entry_at_mem: "entry_at es i = Some e \<Longrightarrow> 62 \<le> i \<Longrightarrow> e \<in> set es"
  by (auto simp: entry_at_def split: if_splits)

lemma of_int_index: "i < 190 \<Longrightarrow> unat (of_int (int i) :: u32) = i"
  using unat_of_nat_u32 [of i] by simp


lemma pack_header_correct:
  assumes rel: "dt_rel t es" "length es < 128" and ok: "nul_free n" "nul_free v" "n \<noteq> []"
    and lens: "length n + length v + 32 < 2 ^ 15" and exact: "exact es (n, v)"
  obtains eh t' es' where
    "hpack_encoder_pack_header empty_encoded_header t (n @ 0 # r1) (v @ 0 # r2) = Some (eh, t')"
    "dt_rel t' es'" "dt_max_size t' = dt_max_size t"
    "dt_settings_max_table_size t' = dt_settings_max_table_size t" "unat (eh_index eh) < 190"
    "eh_preamble eh = INDEXED_HEADER_FIELD \<and> entry_at es (unat (eh_index eh)) = Some (n, v) \<and> es' = es \<or>
     literal_preamble (eh_preamble eh) \<and> stored (eh_preamble eh) (dt_max_size t) (n, v) es es' \<and>
       (eh_index eh = 0 \<or> (\<exists>v'. entry_at es (unat (eh_index eh)) = Some (n, v')))"
proof -
  have small: "length n + length v + 32 < 2 ^ 16" "length n + 1 < 2 ^ 15" "length v + 1 < 2 ^ 15"
    using lens by simp_all
  note find = find_index_correct [OF rel ok(1,2) small(2,3)]
  note err = HPACK_INTERNAL_ERROR_def
  show ?thesis
  proof (cases "0 < index_of es n v")
    case True
    with index_of_sound [of n v es] ok(3) obtain i e where
      i: "index_of es n v = int i" "entry_at es i = Some e" "if i < 62 then e = (n, v) else entry_matches n v e"
      by (auto simp: err)
    have e: "e = (n, v)"
      using i(3) entry_at_mem [OF i(2)] exact by (cases "i < 62") (auto simp: exact_def)
    have b: "0 < i" "i < 190" using entry_at_bound [OF i(2) rel(2)] by auto
    let ?eh = "empty_encoded_header\<lparr>eh_preamble := INDEXED_HEADER_FIELD, eh_index := of_int (int i)\<rparr>"
    have "hpack_encoder_pack_header empty_encoded_header t (n @ 0 # r1) (v @ 0 # r2) = Some (?eh, t)"
      using True by (simp add: hpack_encoder_pack_header_def find i(1))
    with that [of ?eh t es] rel i(2) e b show ?thesis
      by (simp add: of_int_index [unfolded of_int_of_nat_eq])
  next
    case False
    have size: "entry_size (n, v) < 2 ^ 16" "entry_ok (n, v)"
      using small ok by (simp_all add: entry_size_def entry_ok_def)
    let ?i = "index_of_name es n"
    let ?idx = "(if ?i < 0 then 0 else of_int ?i) :: u32"
    have idx: "unat ?idx < 190 \<and> (?idx = 0 \<or> (\<exists>v'. entry_at es (unat ?idx) = Some (n, v')))"
    proof (cases "?i < 0")
      case False
      with index_of_name_sound [OF ok(3), of es] obtain i e where
        i: "?i = int i" "entry_at es i = Some e" "if i < 62 then fst e = n else name_matches n e"
        by (auto simp: err)
      have "fst e = n"
        using i(3) entry_at_mem [OF i(2)] exact by (cases "i < 62") (auto simp: exact_def)
      moreover have "0 < i" "i < 190" using entry_at_bound [OF i(2) rel(2)] by auto
      ultimately show ?thesis using i(1,2) False by (cases e) (auto simp: of_int_index [unfolded of_int_of_nat_eq])
    qed simp
    obtain t' es' rc where add: "hpack_tables_dynamic_table_add_entry t (n @ 0 # r1) (v @ 0 # r2) = Some (t', rc)"
      "dt_rel t' es'" "dt_max_size t' = dt_max_size t"
      "dt_settings_max_table_size t' = dt_settings_max_table_size t"
      "if rc < 0 then es' = es
       else entry_size (n, v) \<le> dt_max_size t \<and> es' = (n, v) # evict (dt_max_size t - entry_size (n, v)) es"
      using add_entry_correct [OF rel(1) size(2,1), of r1 r2] rel(1)
      by (cases "entry_size (n, v) > dt_max_size t") (auto simp: err)
    let ?pre = "if rc < 0 then LITERAL_HEADER_FIELD_NEVER_INDEXED
                else LITERAL_HEADER_FIELD_WITH_INCREMENTAL_INDEXING"
    define eh where "eh = empty_encoded_header\<lparr>eh_index := ?idx, eh_preamble := ?pre\<rparr>"
    have eh: "eh_index eh = ?idx" "eh_preamble eh = ?pre" by (simp_all add: eh_def)
    have "hpack_encoder_pack_header empty_encoded_header t (n @ 0 # r1) (v @ 0 # r2) = Some (eh, t')"
      using False add(1) by (simp add: hpack_encoder_pack_header_def find Let_def eh_def)
    moreover have "stored ?pre (dt_max_size t) (n, v) es es'" "literal_preamble ?pre"
      using add(5) by (auto simp: stored_def literal_preamble_def split: if_splits)
    ultimately show ?thesis using idx unfolding eh [symmetric] by (intro that [OF _ add(2-4)]) blast+
  qed
qed

subsection \<open>The bytes of a header\<close>

text \<open>A prefix code receives its preamble after everything else is written.\<close>

lemma put_preamble:
  assumes "code_here m p (b # c)"
  shows "rd m p = Some b" "wr m p (b OR x) = Some (overwrite m p [b OR x])"
    "code_here (overwrite m p [b OR x]) p ((b OR x) # c)"
    "same_outside m (overwrite m p [b OR x]) p (length m)"
proof -
  have p: "p < length m" "rd m p = Some b" "code_here m (p + 1) c"
    using assms by (auto simp: code_here_Cons rd_def split: if_splits)
  show "rd m p = Some b" by (rule p)
  show "wr m p (b OR x) = Some (overwrite m p [b OR x])" using p by (simp add: wr_first)
  show "same_outside m (overwrite m p [b OR x]) p (length m)"
    using p by (intro same_outside_overwrite) auto
  have "drop (p + 1) (overwrite m p [b OR x]) = drop (p + 1) m"
    using p(1) by (simp add: overwrite_def)
  then have "code_here (overwrite m p [b OR x]) (p + 1) c"
    using p(1,3) unfolding code_here_def by simp
  then show "code_here (overwrite m p [b OR x]) p ((b OR x) # c)"
    using p(1) by (simp add: code_here_Cons rd_overwrite)
qed

lemma coded_int_0: "coded_int pre 0 = [ucast (preamble_val pre)]" if "literal_preamble pre"
  using that by (auto simp: coded_int_def int_code_def literal_preamble_def)

lemma length_coded_int: "i \<le> HPACK_MAXIMUM_INTEGER \<Longrightarrow> 1 \<le> length (coded_int pre i) \<and> length (coded_int pre i) \<le> 3"
  using length_int_code [of i "hpack_utils_find_prefix_size pre"] by (auto simp: coded_int_def Let_def)

definition field_room :: "header \<Rightarrow> nat" where
  "field_room h = length (fst h) + length (snd h) + 7"


lemma wr_then_code:
  assumes "p < length m"
  shows "wr m p b = Some (overwrite m p [b])" "length (overwrite m p [b]) = length m"
    "code_here (overwrite m p [b]) p [b]" "same_outside m (overwrite m p [b]) p (length m)"
  using assms by (auto simp: wr_first intro: code_here_overwrite same_outside_overwrite)

lemma or_to_coded: "i = unat idx \<Longrightarrow> int_code (hpack_utils_find_prefix_size pre) i = b # c \<Longrightarrow>
    coded_int pre i = (b OR ucast (preamble_val pre)) # c"
  by (simp add: coded_int_def)

lemma encode_header_indexed:
  assumes "eh_preamble eh = INDEXED_HEADER_FIELD" "eh_index eh = idx" "0 < unat idx"
    "unat idx \<le> HPACK_MAXIMUM_INTEGER" "p + 3 \<le> length m"
  obtains m' where "hpack_encoder_encode_header eh nm vl m p bs =
      Some (m', int (length (coded_int INDEXED_HEADER_FIELD (unat idx))))"
    "code_here m' p (coded_int INDEXED_HEADER_FIELD (unat idx))" "same_outside m m' p (length m)"
proof -
  let ?m1 = "overwrite m p [0]"
  note w = wr_then_code [of p m 0]
  have p: "p < length m" using assms(5) by simp
  have nz: "idx \<noteq> 0" using assms(3) by auto
  obtain b c where bc: "int_code 7 (unat idx) = b # c" by (cases "int_code 7 (unat idx)") auto
  have len: "length (b # c) \<le> 3" using length_int_code(2) [OF assms(4), of 7] bc by simp
  let ?m2 = "overwrite ?m1 p (b # c)"
  have enc: "hpack_encoder_encode_integer idx 7 ?m1 p = Some (?m2, int (length (b # c)))"
    using encode_integer_correct [of 7 idx p ?m1] assms(4,5) len w(2) [OF p] by (simp add: bc)
  have here: "code_here ?m2 p (b # c)"
    using len assms(5) w(2) [OF p] by (intro code_here_overwrite) simp
  have so: "same_outside m ?m2 p (length m)"
    using len assms(5) w(2,4) [OF p] by (intro same_outside_trans [OF w(4) [OF p]] same_outside_overwrite) auto
  note pre = put_preamble(1) [OF here]
    put_preamble(2-) [OF here, of "ucast (preamble_val INDEXED_HEADER_FIELD)"]
  have code: "coded_int INDEXED_HEADER_FIELD (unat idx) = (b OR ucast (preamble_val INDEXED_HEADER_FIELD)) # c"
    by (rule or_to_coded [OF refl]) (simp add: bc)
  show ?thesis
  proof (rule that)
    show "hpack_encoder_encode_header eh nm vl m p bs =
        Some (overwrite ?m2 p [b OR ucast (preamble_val INDEXED_HEADER_FIELD)],
          int (length (coded_int INDEXED_HEADER_FIELD (unat idx))))"
      unfolding hpack_encoder_encode_header_def code
      using w(1) [OF p] enc pre(1,2) nz assms(1,2) by (simp del: preamble_val.simps)
    show "code_here (overwrite ?m2 p [b OR ucast (preamble_val INDEXED_HEADER_FIELD)]) p
        (coded_int INDEXED_HEADER_FIELD (unat idx))"
      unfolding code by (rule pre(3))
    show "same_outside m (overwrite ?m2 p [b OR ucast (preamble_val INDEXED_HEADER_FIELD)]) p (length m)"
      using so pre(4) by (simp add: same_outside_def)
  qed
qed


text \<open>What follows a code leaves it alone.\<close>

lemma code_here_then:
  assumes "code_here m p c" "code_here m' (p + length c) d" "same_outside m m' (p + length c) e"
  shows "code_here m' p (c @ d)"
  using assms code_here_same [OF assms(1,3)] by (simp add: code_here_append)

lemma same_outside_after:
  "same_outside m m1 p e \<Longrightarrow> same_outside m1 m2 q e' \<Longrightarrow> p \<le> q \<Longrightarrow> same_outside m m2 p (length m)"
  unfolding same_outside_def by (metis less_le_trans rd_None_iff)

lemma nat_Suc_int: "nat (1 + int k) = Suc k"
  by simp

lemma encode_header_known_name:
  assumes pre: "literal_preamble (eh_preamble eh)" and idx: "eh_index eh = idx" "0 < unat idx"
    "unat idx \<le> HPACK_MAXIMUM_INTEGER" and v: "nul_free v" "length v \<le> 1000"
    and room: "p + 4 * length v + 11 \<le> length m" "4 * length v + 8 \<le> bs"
  obtains m' h k cv where "hpack_encoder_encode_header eh nm (v @ 0 # r) m p bs =
      Some (m', int (length (coded_int (eh_preamble eh) (unat idx) @ cv)))"
    "hpack_string h k cv v" "length cv \<le> length v + 3"
    "code_here m' p (coded_int (eh_preamble eh) (unat idx) @ cv)" "same_outside m m' p (length m)"
proof -
  let ?k = "hpack_utils_find_prefix_size (eh_preamble eh)" and ?x = "ucast (preamble_val (eh_preamble eh)) :: byte"
  let ?m1 = "overwrite m p [0]"
  have p: "p < length m" using room(1) by simp
  note w = wr_then_code [OF p, of 0]
  have nz: "idx \<noteq> 0" and lit: "eh_preamble eh \<noteq> INDEXED_HEADER_FIELD"
    using idx(2) pre by (auto simp: literal_preamble_def)
  obtain b c where bc: "int_code ?k (unat idx) = b # c" by (cases "int_code ?k (unat idx)") auto
  have len: "length (b # c) \<le> 3" using length_int_code(2) [OF idx(3), of ?k] bc by simp
  let ?m2 = "overwrite ?m1 p (b # c)"
  have l2: "length ?m2 = length m" using len room(1) w(2) by simp
  have enc: "hpack_encoder_encode_integer idx ?k ?m1 p = Some (?m2, int (length (b # c)))"
    using encode_integer_correct [of ?k idx p ?m1] idx(3) room(1) len w(2)
      le_trans [OF find_prefix_size_bounds(2) [of "eh_preamble eh"], of 8]
    by (simp add: bc)
  have here: "code_here ?m2 p (b # c)" using len room(1) w(2) by (intro code_here_overwrite) simp
  have so2: "same_outside m ?m2 p (length m)"
    using len room(1) w(2) by (intro same_outside_trans [OF w(4)] same_outside_overwrite) auto
  have a: "p + length (b # c) + 4 * length v + 8 \<le> length ?m2" using room(1) len l2 by simp
  obtain m3 h n cv where s: "hpack_encoder_encode_string (v @ 0 # r) ?m2 (p + length (b # c)) bs =
        Some (m3, int (length cv))"
      "hpack_string h n cv v" "code_here m3 (p + length (b # c)) cv" "length cv \<le> length v + 3"
      "same_outside ?m2 m3 (p + length (b # c)) (length m)"
    by (rule encode_string_room [OF v a room(2), of r]) (simp only: l2)
  have "code_here m3 p ((b # c) @ cv)" by (rule code_here_then [OF here s(3,5)])
  then have here3: "code_here m3 p (b # c @ cv)" by simp
  note put = put_preamble(1) [OF here3] put_preamble(2-) [OF here3, of ?x]
  have code: "coded_int (eh_preamble eh) (unat idx) @ cv = (b OR ?x) # c @ cv"
    using or_to_coded [OF refl bc] by simp
  have "same_outside m m3 p (length m)" by (rule same_outside_after [OF so2 s(5)]) simp
  from same_outside_after [OF this put(4)]
  have so: "same_outside m (overwrite m3 p [b OR ?x]) p (length m)" by simp
  have "hpack_encoder_encode_header eh nm (v @ 0 # r) m p bs =
      Some (overwrite m3 p [b OR ?x], int (length ((b OR ?x) # c @ cv)))"
    unfolding hpack_encoder_encode_header_def
    using w(1) enc s(1) put(1,2) nz lit idx(1)
    by (simp add: Let_def nat_Suc_int del: preamble_val.simps)
  with that [of _ cv h n, unfolded code] s(2,4) put(3) so show ?thesis by blast
qed

lemma encode_header_new_name:
  assumes pre: "literal_preamble (eh_preamble eh)" and idx: "eh_index eh = 0"
    and n: "nul_free n" "length n \<le> 1000" and v: "nul_free v" "length v \<le> 1000"
    and room: "p + 4 * length n + 9 \<le> length m" "p + length n + 4 * length v + 12 \<le> length m"
      "4 * length n + 8 \<le> bs" "4 * length v + 8 \<le> bs"
  obtains m' h k cn h' k' cv where "hpack_encoder_encode_header eh (n @ 0 # r) (v @ 0 # r') m p bs =
      Some (m', int (length (coded_int (eh_preamble eh) 0 @ cn @ cv)))"
    "hpack_string h k cn n" "length cn \<le> length n + 3" "hpack_string h' k' cv v" "length cv \<le> length v + 3"
    "code_here m' p (coded_int (eh_preamble eh) 0 @ cn @ cv)" "same_outside m m' p (length m)"
proof -
  let ?x = "ucast (preamble_val (eh_preamble eh)) :: byte"
  let ?m1 = "overwrite m p [0]"
  have p: "p < length m" using room(1) by simp
  note w = wr_then_code [OF p, of 0]
  have a: "p + 1 + 4 * length n + 8 \<le> length ?m1" using room(1) w(2) by simp
  obtain m2 hn kn cn where s: "hpack_encoder_encode_string (n @ 0 # r) ?m1 (p + 1) bs = Some (m2, int (length cn))"
      "hpack_string hn kn cn n" "code_here m2 (p + 1) cn" "length cn \<le> length n + 3"
      "same_outside ?m1 m2 (p + 1) (length m)"
    by (rule encode_string_room [OF n a room(3), of r]) (simp only: w(2))
  have l2: "length m2 = length m" using s(5) w(2) by (simp add: same_outside_def)
  have a': "p + (1 + length cn) + 4 * length v + 8 \<le> length m2" using room(2) s(4) l2 by simp
  obtain m3 hv kv cv where t: "hpack_encoder_encode_string (v @ 0 # r') m2 (p + (1 + length cn)) bs =
        Some (m3, int (length cv))"
      "hpack_string hv kv cv v" "code_here m3 (p + (1 + length cn)) cv" "length cv \<le> length v + 3"
      "same_outside m2 m3 (p + (1 + length cn)) (length m)"
    by (rule encode_string_room [OF v a' room(4), of r']) (simp only: l2)
  have "code_here m2 p ([0] @ cn)"
    using code_here_then [OF w(3), of m2 cn] s(3,5) by simp
  then have "code_here m3 p ((0 # cn) @ cv)"
    using code_here_then [of m2 p "0 # cn" m3 cv] t(3,5) by simp
  then have here3: "code_here m3 p (0 # cn @ cv)" by simp
  note put = put_preamble(1) [OF here3] put_preamble(2-) [OF here3, of ?x]
  have code: "coded_int (eh_preamble eh) 0 @ cn @ cv = (0 OR ?x) # cn @ cv" by (simp add: coded_int_0 [OF pre])
  have "same_outside m m2 p (length m)" by (rule same_outside_after [OF w(4) s(5)]) simp
  from same_outside_after [OF this t(5)] have "same_outside m m3 p (length m)" by simp
  from same_outside_after [OF this put(4)]
  have so: "same_outside m (overwrite m3 p [0 OR ?x]) p (length m)" by simp
  have "hpack_encoder_encode_header eh (n @ 0 # r) (v @ 0 # r') m p bs =
      Some (overwrite m3 p [0 OR ?x], int (length ((0 OR ?x) # cn @ cv)))"
    unfolding hpack_encoder_encode_header_def
    using w(1) s(1) t(1) put(1,2) idx
    by (simp add: Let_def nat_Suc_int del: preamble_val.simps)
  with that [of _ cn cv hn kn hv kv, unfolded code] s(2,4) t(2,4) put(3) so show ?thesis by blast
qed


subsection \<open>A header, and the block\<close>

text \<open>Headers the endpoints exchange: the decoder has 32 bytes for a name and 64 for a value.\<close>

definition short_header :: "header \<Rightarrow> bool" where
  "short_header h \<longleftrightarrow> fst h \<noteq> [] \<and> nul_free (fst h) \<and> nul_free (snd h) \<and>
     length (fst h) < HPACK_HEADER_NAME_LEN \<and> length (snd h) < HPACK_HEADER_VALUE_LEN"

lemma encode_field_correct:
  assumes rel: "dt_rel t es" "length es < 128" and h: "short_header (n, v)" and exact: "exact es (n, v)"
    and room: "p + field_room (n, v) < 256" "503 \<le> length m" "503 \<le> bs"
  obtains eh t' es' m' c where
    "hpack_encoder_pack_header empty_encoded_header t (n @ 0 # r1) (v @ 0 # r2) = Some (eh, t')"
    "hpack_encoder_encode_header eh (n @ 0 # r1) (v @ 0 # r2) m p bs = Some (m', int (length c))"
    "field_repr (dt_max_size t) es c (n, v) es'" "length c \<le> field_room (n, v)"
    "dt_rel t' es'" "dt_max_size t' = dt_max_size t"
    "dt_settings_max_table_size t' = dt_settings_max_table_size t"
    "code_here m' p c" "same_outside m m' p (length m)"
proof -
  have ok: "nul_free n" "nul_free v" "n \<noteq> []" "length n < 32" "length v < 64"
    using h by (simp_all add: short_header_def HPACK_HEADER_NAME_LEN_def HPACK_HEADER_VALUE_LEN_def)
  have small: "length n + length v + 32 < 2 ^ 15" using ok(4,5) by simp
  have fr: "field_room (n, v) = length n + length v + 7" by (simp add: field_room_def)
  obtain eh t' es' where k:
    "hpack_encoder_pack_header empty_encoded_header t (n @ 0 # r1) (v @ 0 # r2) = Some (eh, t')"
    "dt_rel t' es'" "dt_max_size t' = dt_max_size t"
    "dt_settings_max_table_size t' = dt_settings_max_table_size t" and lim: "unat (eh_index eh) < 190"
    and pre: "eh_preamble eh = INDEXED_HEADER_FIELD \<and> entry_at es (unat (eh_index eh)) = Some (n, v) \<and> es' = es \<or>
     literal_preamble (eh_preamble eh) \<and> stored (eh_preamble eh) (dt_max_size t) (n, v) es es' \<and>
       (eh_index eh = 0 \<or> (\<exists>v'. entry_at es (unat (eh_index eh)) = Some (n, v')))"
    using pack_header_correct [OF rel ok(1-3) small exact] .
  have max: "unat (eh_index eh) \<le> HPACK_MAXIMUM_INTEGER" using lim by (simp add: HPACK_MAXIMUM_INTEGER_def)
  note int3 = length_coded_int [OF max, THEN conjunct2]
  from pre show ?thesis
  proof (elim disjE conjE)
    assume a: "eh_preamble eh = INDEXED_HEADER_FIELD" "entry_at es (unat (eh_index eh)) = Some (n, v)" "es' = es"
    have pos: "0 < unat (eh_index eh)" using entry_at_bound [OF a(2) rel(2)] by simp
    have "p + 3 \<le> length m" using room(1,2) fr by simp
    from encode_header_indexed [OF a(1) refl pos max this] obtain m' where
      "hpack_encoder_encode_header eh (n @ 0 # r1) (v @ 0 # r2) m p bs =
        Some (m', int (length (coded_int INDEXED_HEADER_FIELD (unat (eh_index eh)))))"
      "code_here m' p (coded_int INDEXED_HEADER_FIELD (unat (eh_index eh)))" "same_outside m m' p (length m)" .
    moreover have "length (coded_int INDEXED_HEADER_FIELD (unat (eh_index eh))) \<le> field_room (n, v)"
      using int3 [of INDEXED_HEADER_FIELD] fr by simp
    ultimately show ?thesis
      using that [OF k(1) _ field_repr.indexed [OF a(2) max], of m'] k(2-4) a(3) by simp
  next
    assume a: "literal_preamble (eh_preamble eh)" "stored (eh_preamble eh) (dt_max_size t) (n, v) es es'"
      "eh_index eh = 0"
    have r: "length n \<le> 1000" "length v \<le> 1000" "p + 4 * length n + 9 \<le> length m"
      "p + length n + 4 * length v + 12 \<le> length m" "4 * length n + 8 \<le> bs" "4 * length v + 8 \<le> bs"
      using ok(4,5) room unfolding fr by linarith+
    obtain m' hn kn cn hv kv cv where e:
      "hpack_encoder_encode_header eh (n @ 0 # r1) (v @ 0 # r2) m p bs =
        Some (m', int (length (coded_int (eh_preamble eh) 0 @ cn @ cv)))"
      "hpack_string hn kn cn n" "length cn \<le> length n + 3" "hpack_string hv kv cv v" "length cv \<le> length v + 3"
      "code_here m' p (coded_int (eh_preamble eh) 0 @ cn @ cv)" "same_outside m m' p (length m)"
      using encode_header_new_name [OF a(1,3) ok(1) r(1) ok(2) r(2-6)] .
    have "length (coded_int (eh_preamble eh) 0 @ cn @ cv) \<le> field_room (n, v)"
      using e(3,5) fr by (simp add: coded_int_0 [OF a(1)])
    with that [OF k(1) e(1) field_repr.new_name [OF a(1) e(2,4) a(2)] _ k(2-4) e(6,7)] show ?thesis .
  next
    assume a: "literal_preamble (eh_preamble eh)" "stored (eh_preamble eh) (dt_max_size t) (n, v) es es'"
    assume "\<exists>v'. entry_at es (unat (eh_index eh)) = Some (n, v')"
    then obtain v' where v': "entry_at es (unat (eh_index eh)) = Some (n, v')" by blast
    have pos: "0 < unat (eh_index eh)" using entry_at_bound [OF v' rel(2)] by simp
    have r: "length v \<le> 1000" "p + 4 * length v + 11 \<le> length m" "4 * length v + 8 \<le> bs"
      using ok(4,5) room unfolding fr by linarith+
    obtain m' hv kv cv where e: "hpack_encoder_encode_header eh (n @ 0 # r1) (v @ 0 # r2) m p bs =
        Some (m', int (length (coded_int (eh_preamble eh) (unat (eh_index eh)) @ cv)))"
      "hpack_string hv kv cv v" "length cv \<le> length v + 3"
      "code_here m' p (coded_int (eh_preamble eh) (unat (eh_index eh)) @ cv)" "same_outside m m' p (length m)"
      using encode_header_known_name [OF a(1) refl pos max ok(2) r] .
    have "length (coded_int (eh_preamble eh) (unat (eh_index eh)) @ cv) \<le> field_room (n, v)"
      using e(3) fr int3 [of "eh_preamble eh"] by simp
    with that [OF k(1) e(1) field_repr.known_name [OF a(1) v' max e(2) a(2)] _ k(2-4) e(4,5)] show ?thesis .
  qed
qed

text \<open>
  Headers and table fit together if no name and no pair of the headers is a proper beginning of another
  one, of the headers or of the table, in the sense of \<open>exact\<close>.
\<close>

definition compatible :: "entry list \<Rightarrow> header list \<Rightarrow> bool" where
  "compatible es hs \<longleftrightarrow> (\<forall>e \<in> set es. fst e \<noteq> []) \<and> (\<forall>h \<in> set hs. short_header h \<and> exact es h \<and> exact hs h)"

lemma field_repr_table: "field_repr M es c h es' \<Longrightarrow> set es' \<subseteq> insert h (set es)"
proof (induction rule: field_repr.induct)
  case (known_name pre es i n v' hv kv cv v M es')
  then show ?case using evict_prefix [of "M - entry_size (n, v)" es]
    by (auto simp: stored_def split: if_splits dest: in_set_takeD)
next
  case (new_name pre hn kn cn n hv kv cv v M es es')
  then show ?case using evict_prefix [of "M - entry_size (n, v)" es]
    by (auto simp: stored_def split: if_splits dest: in_set_takeD)
qed auto

lemma compatible_step:
  assumes "compatible es (h # hs)" "field_repr M es c h es'"
  shows "compatible es' hs"
proof -
  have sub: "set es' \<subseteq> insert h (set es)" by (rule field_repr_table [OF assms(2)])
  have "fst h \<noteq> []" using assms(1) by (simp add: compatible_def short_header_def)
  then have "\<forall>e \<in> set es'. fst e \<noteq> []" using sub assms(1) by (auto simp: compatible_def)
  moreover have "exact es' k" "exact hs k" "short_header k" if "k \<in> set hs" for k
  proof -
    have k: "exact es k" "exact (h # hs) k" using that assms(1) by (auto simp: compatible_def)
    show "exact es' k" unfolding exact_def
    proof
      fix e assume "e \<in> set es'"
      with sub consider "e = h" | "e \<in> set es" by blast
      then show "(entry_matches (fst k) (snd k) e \<longrightarrow> e = k) \<and> (name_matches (fst k) e \<longrightarrow> fst e = fst k)"
        using k unfolding exact_def by cases simp_all
    qed
    show "exact hs k" using k(2) by (simp add: exact_def)
    show "short_header k" using that assms(1) by (simp add: compatible_def)
  qed
  ultimately show ?thesis by (simp add: compatible_def)
qed

lemma compatible_count:
  assumes "compatible es hs" "dt_rel t es" "dt_max_size t \<le> HPACK_MAX_DYNAMIC_TABLE_SIZE"
  shows "length es < 128"
proof -
  have "33 * length es \<le> table_size es" if "\<forall>e \<in> set es. fst e \<noteq> []"
    using that
  proof (induction es)
    case (Cons e es)
    then have "1 \<le> length (fst e)" by (simp add: Suc_le_eq)
    with Cons show ?case by (simp add: entry_size_def)
  qed simp
  moreover have "table_size es \<le> 4096"
    using dt_relD(6) [OF assms(2)] assms(3) by (simp add: HPACK_MAX_DYNAMIC_TABLE_SIZE_def)
  ultimately show ?thesis using assms(1) by (fastforce simp: compatible_def)
qed

lemma cstr_split: "cstr bs = Some s \<Longrightarrow> \<exists>r. bs = s @ 0 # r"
  by (induction bs arbitrary: s) (auto split: if_splits)


definition block_room :: "header list \<Rightarrow> nat" where
  "block_room hs = sum_list (map field_room hs)"

lemma encode_loop_correct:
  assumes "dt_rel t es" "compatible es hs" "dt_max_size t \<le> HPACK_MAX_DYNAMIC_TABLE_SIZE"
    "map (\<lambda>(a, b). (cstr (drop a (hl_buffer hl)), cstr (drop b (hl_buffer hl)))) ps =
       map (\<lambda>(n, v). (Some n, Some v)) hs"
    "p + block_room hs < 256" "503 \<le> length m" "503 \<le> bs"
  shows "\<exists>t' m' c es'. encode_headers_loop t hl ps m bs (int p) = Some (t', m', int (p + length c)) \<and>
    block_repr flag (dt_max_size t, dt_settings_max_table_size t, es) c hs
      (dt_max_size t, dt_settings_max_table_size t, es') \<and>
    dt_rel t' es' \<and> dt_max_size t' = dt_max_size t \<and>
    dt_settings_max_table_size t' = dt_settings_max_table_size t \<and>
    code_here m' p c \<and> same_outside m m' p (length m) \<and> length c \<le> block_room hs"
  using assms
proof (induction hs arbitrary: t es ps p m flag)
  case Nil
  then have "encode_headers_loop t hl ps m bs (int p) = Some (t, m, int (p + length []))" by simp
  moreover have "code_here m p []" using Nil.prems(5,6) by (simp add: code_here_def block_room_def)
  ultimately show ?case
    using Nil.prems(1) block_end by (intro exI [of _ t] exI [of _ m] exI [of _ "[]"] exI [of _ es]) auto
next
  case (Cons h hs)
  obtain n v where h: "h = (n, v)" by (cases h)
  obtain a b ps' where ps: "ps = (a, b) # ps'" "cstr (drop a (hl_buffer hl)) = Some n"
      "cstr (drop b (hl_buffer hl)) = Some v"
      "map (\<lambda>(a, b). (cstr (drop a (hl_buffer hl)), cstr (drop b (hl_buffer hl)))) ps' =
         map (\<lambda>(n, v). (Some n, Some v)) hs"
    using Cons.prems(4) by (auto simp: h)
  obtain r1 r2 where r: "drop a (hl_buffer hl) = n @ 0 # r1" "drop b (hl_buffer hl) = v @ 0 # r2"
    using ps(2,3) cstr_split by meson
  have few: "length es < 128" by (rule compatible_count [OF Cons.prems(2,1,3)])
  have comp: "short_header (n, v)" "exact es (n, v)"
    using Cons.prems(2) by (simp_all add: compatible_def h)
  have "p + field_room (n, v) < 256" using Cons.prems(5) by (simp add: block_room_def h)
  from encode_field_correct [OF Cons.prems(1) few comp this Cons.prems(6,7), of r1 r2]
  obtain eh t1 es1 m1 c1 where e:
    "hpack_encoder_pack_header empty_encoded_header t (n @ 0 # r1) (v @ 0 # r2) = Some (eh, t1)"
    "hpack_encoder_encode_header eh (n @ 0 # r1) (v @ 0 # r2) m p bs = Some (m1, int (length c1))"
    "field_repr (dt_max_size t) es c1 (n, v) es1" "length c1 \<le> field_room (n, v)"
    "dt_rel t1 es1" "dt_max_size t1 = dt_max_size t"
    "dt_settings_max_table_size t1 = dt_settings_max_table_size t"
    "code_here m1 p c1" "same_outside m m1 p (length m)" .
  have len: "length m1 = length m" using e(9) by (simp add: same_outside_def)
  have "compatible es1 hs" using compatible_step Cons.prems(2) e(3) unfolding h by blast
  moreover have "p + length c1 + block_room hs < 256" using Cons.prems(5) e(4) by (simp add: block_room_def h)
  ultimately obtain t2 m2 c2 es2 where IH:
    "encode_headers_loop t1 hl ps' m1 bs (int (p + length c1)) = Some (t2, m2, int (p + length c1 + length c2))"
    "block_repr False (dt_max_size t, dt_settings_max_table_size t, es1) c2 hs
       (dt_max_size t, dt_settings_max_table_size t, es2)"
    "dt_rel t2 es2" "dt_max_size t2 = dt_max_size t"
    "dt_settings_max_table_size t2 = dt_settings_max_table_size t"
    "code_here m2 (p + length c1) c2" "same_outside m1 m2 (p + length c1) (length m1)"
    "length c2 \<le> block_room hs"
    using Cons.IH [of t1 es1 ps' "p + length c1" m1 False] e(5-7) Cons.prems(3,6,7) ps(4) len by auto
  have small: "int (length c1) + int p < 256" "int p + int (length c1) = int (p + length c1)"
    using Cons.prems(5) e(4) by (simp_all add: block_room_def h)
  have "encode_headers_loop t hl ps m bs (int p) = Some (t2, m2, int (p + length (c1 @ c2)))"
    using e(1,2) IH(1) small(1) by (simp add: ps(1) r Let_def small(2) add.assoc del: of_nat_add)
  moreover have "block_repr flag (dt_max_size t, dt_settings_max_table_size t, es) (c1 @ c2) (h # hs)
      (dt_max_size t, dt_settings_max_table_size t, es2)"
    unfolding h by (rule block_field [OF e(3) IH(2)])
  moreover have "code_here m2 p (c1 @ c2)" by (rule code_here_then [OF e(8) IH(6,7)])
  moreover have "same_outside m m2 p (length m)" by (rule same_outside_after [OF e(9) IH(7)]) simp
  moreover have "length (c1 @ c2) \<le> block_room (h # hs)" using e(4) IH(8) by (simp add: block_room_def h)
  ultimately show ?case using IH(3-5) by blast
qed

lemma encode_block_correct:
  assumes "dt_rel t es" "compatible es hs" "dt_max_size t \<le> HPACK_MAX_DYNAMIC_TABLE_SIZE"
    "hl_rel hl hs" "block_room hs < 256" "503 \<le> length m" "503 \<le> bs"
  shows "\<exists>t' m' c es'. hpack_encoder_encode t hl m bs = Some (t', m', int (length c)) \<and>
    block_repr flag (dt_max_size t, dt_settings_max_table_size t, es) c hs
      (dt_max_size t, dt_settings_max_table_size t, es') \<and>
    dt_rel t' es' \<and> dt_max_size t' = dt_max_size t \<and>
    dt_settings_max_table_size t' = dt_settings_max_table_size t \<and>
    code_here m' 0 c \<and> length m' = length m \<and> length c \<le> block_room hs"
proof -
  have cnt: "nat (header_list_count hl) = length hs" and sz: "hl_size hl = length (flat hs)"
    using assms(4) by (simp_all add: header_list_count_def hl_rel_def)
  have "length (flat hs) \<le> block_room hs"
    by (induction hs) (auto simp: block_room_def field_room_def)
  then have "hl_size hl < HEADER_LIST_MAX_SIZE" using assms(5) sz by (simp add: HEADER_LIST_MAX_SIZE_def)
  from header_list_all_full [OF assms(4) this, of "replicate (length hs) (0, 0)"] obtain ps where
    ps: "header_list_all hl (replicate (length hs) (0, 0)) = Some ps"
      "map (\<lambda>(a, b). (cstr (drop a (hl_buffer hl)), cstr (drop b (hl_buffer hl)))) ps =
         map (\<lambda>(n, v). (Some n, Some v)) hs"
    by auto
  have "0 + block_room hs < 256" using assms(5) by simp
  from encode_loop_correct [OF assms(1-3) ps(2) this assms(6,7), of flag]
  show ?thesis unfolding hpack_encoder_encode_def cnt
    by (auto simp: ps(1) same_outside_def)
qed

text \<open>The size update is refused before anything is written if the settings do not allow the size.\<close>

lemma encode_size_update_correct:
  assumes "dt_rel t es" "p + 3 \<le> length m" "unat new \<le> HPACK_MAXIMUM_INTEGER"
  shows "if unat new > dt_settings_max_table_size t
    then hpack_encoder_encode_dynamic_size_update t new m p = Some (t, m, HPACK_COMPRESSION_ERROR)
    else \<exists>t' m'. hpack_encoder_encode_dynamic_size_update t new m p =
        Some (t', m', int (length (coded_int DYNAMIC_TABLE_SIZE_UPDATE (unat new)))) \<and>
      dt_rel t' (evict (unat new) es) \<and> dt_max_size t' = unat new \<and>
      code_here m' p (coded_int DYNAMIC_TABLE_SIZE_UPDATE (unat new)) \<and> same_outside m m' p (length m)"
proof (cases "unat new > dt_settings_max_table_size t")
  case True
  with resize_correct [OF assms(1), of "unat new"] show ?thesis
    by (simp add: hpack_encoder_encode_dynamic_size_update_def HPACK_COMPRESSION_ERROR_def)
next
  case False
  with resize_correct [OF assms(1), of "unat new"] obtain t' where
    t': "hpack_tables_dynamic_table_resize t (unat new) = Some (t', 0)" "dt_rel t' (evict (unat new) es)"
      "dt_max_size t' = unat new" by auto
  obtain b c where bc: "int_code 5 (unat new) = b # c" by (cases "int_code 5 (unat new)") auto
  have len: "length (b # c) \<le> 3" using length_int_code(2) [OF assms(3), of 5] bc by simp
  let ?m1 = "overwrite m p (b # c)"
  have enc: "hpack_encoder_encode_integer new 5 m p = Some (?m1, int (length (b # c)))"
    using encode_integer_correct [of 5 new p m] assms(2,3) len by (simp add: bc)
  have here: "code_here ?m1 p (b # c)" using len assms(2) by (intro code_here_overwrite) simp
  have so: "same_outside m ?m1 p (length m)" using len assms(2) by (intro same_outside_overwrite) auto
  note put = put_preamble(1) [OF here] put_preamble(2-) [OF here, of 32]
  have code: "coded_int DYNAMIC_TABLE_SIZE_UPDATE (unat new) = (b OR 32) # c"
    by (simp add: coded_int_def bc)
  have "hpack_encoder_encode_dynamic_size_update t new m p =
      Some (t', overwrite ?m1 p [b OR 32], int (length ((b OR 32) # c)))"
    using t'(1) enc put(1,2) by (simp add: hpack_encoder_encode_dynamic_size_update_def)
  moreover have "same_outside m (overwrite ?m1 p [b OR 32]) p (length m)"
    by (rule same_outside_after [OF so put(4)]) simp
  ultimately show ?thesis using False t'(2,3) put(3) unfolding code by auto
qed

end
