(* ===== verification/Hpack_Decoder.thy ===== *)
theory Hpack_Decoder
  imports Hpack_Encoder
begin

text \<open>
  \<open>src/src/hpack/decoder.c\<close>, from the fields of a header block to the list of headers: parsing of a field,
  the checks, the three kinds of fields and the loop over the block.

  The decoder is shown to accept every block that represents headers in the sense of \<open>block_repr\<close>, for
  headers of printable characters that fit its buffers, and to add exactly those headers to the list.
\<close>

definition hpack_decoder_decode_indexed_header_field ::
  "hpack_dynamic_table \<Rightarrow> hpack_encoded_header \<Rightarrow> byte list \<Rightarrow> byte list \<Rightarrow> (byte list \<times> byte list \<times> int) option" where
  "hpack_decoder_decode_indexed_header_field dynamic_table encoded_header tmp_name tmp_value = do {
     (tmp_name, tmp_value, rc) \<leftarrow> hpack_tables_find_entry_name_and_value dynamic_table
        (unat (eh_index encoded_header)) tmp_name tmp_value;
     if rc < 0 then Some (tmp_name, tmp_value, rc)
     else do {
       size \<leftarrow> hpack_utils_encoded_integer_size (eh_index encoded_header)
          (hpack_utils_find_prefix_size (eh_preamble encoded_header));
       Some (tmp_name, tmp_value, sint size)
     }
   }"

text \<open>
  \<open>m\<close> is the array of the header block, into which the string pointers of the header point. The first
  part of \<open>hpack_decoder_decode_literal_header_field\<close> finds the name; its result is the buffer with the
  octets read so far or an error code.
\<close>

definition literal_name ::
  "hpack_dynamic_table \<Rightarrow> hpack_encoded_header \<Rightarrow> byte list \<Rightarrow> byte list \<Rightarrow> (byte list \<times> int) option" where
  "literal_name dynamic_table encoded_header m tmp_name =
     (if eh_index encoded_header = 0 then do {
        q \<leftarrow> eh_name_string encoded_header;
        (tmp_name, rc) \<leftarrow> hpack_decoder_decode_string tmp_name HPACK_HEADER_NAME_LEN m q
           (unat (eh_name_length encoded_header)) (eh_huffman_bit_of_name encoded_header);
        Some (tmp_name, if rc < 0 then rc else 1 + rc)
      }
      else do {
        (tmp_name, rc) \<leftarrow>
          hpack_tables_find_entry_name dynamic_table (unat (eh_index encoded_header)) tmp_name;
        if rc < 0 then Some (tmp_name, rc)
        else do {
          size \<leftarrow> hpack_utils_encoded_integer_size (eh_index encoded_header)
             (hpack_utils_find_prefix_size (eh_preamble encoded_header));
          Some (tmp_name, sint size)
        }
      })"

definition hpack_decoder_decode_literal_header_field ::
  "hpack_dynamic_table \<Rightarrow> hpack_encoded_header \<Rightarrow> byte list \<Rightarrow> byte list \<Rightarrow> byte list \<Rightarrow>
   (hpack_dynamic_table \<times> byte list \<times> byte list \<times> int) option" where
  "hpack_decoder_decode_literal_header_field dynamic_table encoded_header m tmp_name tmp_value = do {
     (tmp_name, rc) \<leftarrow> literal_name dynamic_table encoded_header m tmp_name;
     if rc < 0 then Some (dynamic_table, tmp_name, tmp_value, rc)
     else do {
       let pointer = rc;
       q \<leftarrow> eh_value_string encoded_header;
       (tmp_value, rc) \<leftarrow> hpack_decoder_decode_string tmp_value HPACK_HEADER_VALUE_LEN m q
          (unat (eh_value_length encoded_header)) (eh_huffman_bit_of_value encoded_header);
       if rc < 0 then Some (dynamic_table, tmp_name, tmp_value, rc)
       else do {
         let pointer = pointer + rc;
         if eh_preamble encoded_header = LITERAL_HEADER_FIELD_WITH_INCREMENTAL_INDEXING then do {
           (dynamic_table, rc) \<leftarrow>
             hpack_tables_dynamic_table_add_entry dynamic_table tmp_name tmp_value;
           Some (dynamic_table, tmp_name, tmp_value, if rc < 0 then rc else pointer)
         }
         else Some (dynamic_table, tmp_name, tmp_value, pointer)
       }
     }
   }"

definition hpack_decoder_decode_dynamic_table_size_update ::
  "hpack_dynamic_table \<Rightarrow> hpack_encoded_header \<Rightarrow> (hpack_dynamic_table \<times> int) option" where
  "hpack_decoder_decode_dynamic_table_size_update dynamic_table encoded_header = do {
     (dynamic_table, rc) \<leftarrow>
       hpack_tables_dynamic_table_resize dynamic_table (eh_dynamic_table_size encoded_header);
     if rc < 0 then Some (dynamic_table, rc)
     else do {
       size \<leftarrow> hpack_utils_encoded_integer_size (of_nat (eh_dynamic_table_size encoded_header))
          (hpack_utils_find_prefix_size (eh_preamble encoded_header));
       Some (dynamic_table, sint size)
     }
   }"

definition get_huffman_bit :: "byte \<Rightarrow> byte" where
  "get_huffman_bit num = 128 AND num"

text \<open>
  The string part of \<open>hpack_decoder_parse_encoded_header\<close>, which the function has twice: the Huffman bit
  and the length at the pointer, then the position of the string. The result is the new pointer or an
  error code.
\<close>

definition parse_string :: "byte list \<Rightarrow> nat \<Rightarrow> int \<Rightarrow> int \<Rightarrow> (byte \<times> u32 \<times> nat \<times> int) option" where
  "parse_string m q header_size pointer = do {
     b \<leftarrow> rd m (q + nat pointer);
     len \<leftarrow> hpack_decoder_decode_integer m (q + nat pointer) 7;
     if len < 0 then Some (get_huffman_bit b, 0, 0, HPACK_COMPRESSION_ERROR)
     else do {
       size \<leftarrow> hpack_utils_encoded_integer_size (of_int len) 7;
       let pointer = pointer + sint size;
       if pointer > header_size then Some (get_huffman_bit b, of_int len, 0, HPACK_COMPRESSION_ERROR)
       else do {
         let start = q + nat pointer;
         let pointer = pointer + len;
         if pointer > header_size
         then Some (get_huffman_bit b, of_int len, start, HPACK_COMPRESSION_ERROR)
         else Some (get_huffman_bit b, of_int len, start, pointer)
       }
     }
   }"

definition hpack_decoder_parse_encoded_header ::
  "hpack_encoded_header \<Rightarrow> byte list \<Rightarrow> nat \<Rightarrow> int \<Rightarrow> (hpack_encoded_header \<times> int) option" where
  "hpack_decoder_parse_encoded_header encoded_header m q header_size = do {
     b \<leftarrow> rd m q;
     let preamble = hpack_utils_get_preamble b;
     let encoded_header = encoded_header\<lparr>eh_preamble := preamble\<rparr>;
     index \<leftarrow> hpack_decoder_decode_integer m q (hpack_utils_find_prefix_size preamble);
     if index < 0 then Some (encoded_header, HPACK_COMPRESSION_ERROR)
     else do {
       let encoded_header = encoded_header\<lparr>eh_index := of_int index\<rparr>;
       index_size \<leftarrow> hpack_utils_encoded_integer_size (of_int index) (hpack_utils_find_prefix_size preamble);
       let pointer = sint index_size;
       if preamble = INDEXED_HEADER_FIELD then Some (encoded_header, pointer)
       else if preamble = DYNAMIC_TABLE_SIZE_UPDATE then
         Some (encoded_header\<lparr>eh_dynamic_table_size := nat index mod 2 ^ 16, eh_index := 0\<rparr>, pointer)
       else if pointer > header_size then Some (encoded_header, HPACK_COMPRESSION_ERROR)
       else do {
         (encoded_header, pointer) \<leftarrow>
           (if eh_index encoded_header = 0 then do {
              (bit, len, start, pointer) \<leftarrow> parse_string m q header_size pointer;
              Some (encoded_header\<lparr>eh_huffman_bit_of_name := bit, eh_name_length := len,
                      eh_name_string := Some start\<rparr>, pointer)
            }
            else Some (encoded_header, pointer));
         if pointer < 0 then Some (encoded_header, pointer)
         else do {
           (bit, len, start, pointer) \<leftarrow> parse_string m q header_size pointer;
           Some (encoded_header\<lparr>eh_huffman_bit_of_value := bit, eh_value_length := len,
                   eh_value_string := Some start\<rparr>, pointer)
         }
       }
     }
   }"

definition hpack_decoder_decode_header ::
  "hpack_dynamic_table \<Rightarrow> hpack_encoded_header \<Rightarrow> byte list \<Rightarrow> byte list \<Rightarrow> byte list \<Rightarrow>
   (hpack_dynamic_table \<times> byte list \<times> byte list \<times> int) option" where
  "hpack_decoder_decode_header dynamic_table encoded_header m tmp_name tmp_value =
     (case eh_preamble encoded_header of
        INDEXED_HEADER_FIELD \<Rightarrow> do {
          (tmp_name, tmp_value, rc) \<leftarrow>
            hpack_decoder_decode_indexed_header_field dynamic_table encoded_header tmp_name tmp_value;
          Some (dynamic_table, tmp_name, tmp_value, rc)
        }
      | DYNAMIC_TABLE_SIZE_UPDATE \<Rightarrow> do {
          (dynamic_table, rc) \<leftarrow> hpack_decoder_decode_dynamic_table_size_update dynamic_table encoded_header;
          Some (dynamic_table, tmp_name, tmp_value, rc)
        }
      | WRONG_PREAMBLE \<Rightarrow> Some (dynamic_table, tmp_name, tmp_value, HPACK_INTERNAL_ERROR)
      | _ \<Rightarrow> hpack_decoder_decode_literal_header_field dynamic_table encoded_header m tmp_name tmp_value)"

text \<open>
  \<open>n\<close> iterations are left, one for each position at which 30 bits fit into the string.
\<close>

fun check_eos_loop :: "byte list \<Rightarrow> nat \<Rightarrow> nat \<Rightarrow> nat \<Rightarrow> int option" where
  "check_eos_loop m q bit_position 0 = Some 0"
| "check_eos_loop m q bit_position (Suc n) = do {
     result \<leftarrow> hpack_decoder_read_bits_from_bytes bit_position 30 m q;
     if result AND 0x3FFFFFFF = 0x3FFFFFFF then Some HPACK_COMPRESSION_ERROR
     else check_eos_loop m q (bit_position + 1) n
   }"

definition hpack_check_eos_symbol :: "byte list \<Rightarrow> nat \<Rightarrow> nat \<Rightarrow> int option" where
  "hpack_check_eos_symbol m q buffer_length = check_eos_loop m q 0 (buffer_length * 8 - 29)"

definition hpack_decoder_check_errors :: "hpack_encoded_header \<Rightarrow> byte list \<Rightarrow> int option" where
  "hpack_decoder_check_errors encoded_header m =
     (if eh_preamble encoded_header = INDEXED_HEADER_FIELD \<and> eh_index encoded_header = 0
      then Some HPACK_COMPRESSION_ERROR
      else if eh_preamble encoded_header = DYNAMIC_TABLE_SIZE_UPDATE \<and>
              eh_dynamic_table_size encoded_header > HPACK_MAXIMUM_INTEGER
      then Some HPACK_COMPRESSION_ERROR
      else if eh_preamble encoded_header = INDEXED_HEADER_FIELD \<or>
              eh_preamble encoded_header = DYNAMIC_TABLE_SIZE_UPDATE
      then Some 0
      else do {
        rc \<leftarrow>
          (if eh_index encoded_header = 0 \<and> unat (eh_name_length encoded_header) \<ge> 4 then do {
             q \<leftarrow> eh_name_string encoded_header;
             hpack_check_eos_symbol m q (unat (eh_name_length encoded_header) mod 2 ^ 8)
           }
           else Some 0);
        if rc < 0 then Some rc
        else if unat (eh_value_length encoded_header) \<ge> 4 then do {
          q \<leftarrow> eh_value_string encoded_header;
          hpack_check_eos_symbol m q (unat (eh_value_length encoded_header) mod 2 ^ 8)
        }
        else Some 0
      })"

partial_function (option) decode_block_loop ::
  "hpack_dynamic_table \<Rightarrow> byte list \<Rightarrow> nat \<Rightarrow> int \<Rightarrow> header_list \<Rightarrow> bool \<Rightarrow> int \<Rightarrow>
   (hpack_dynamic_table \<times> header_list \<times> int) option" where
  "decode_block_loop dynamic_table m q header_block_size headers can_update pointer =
     (if pointer < header_block_size then do {
        guard (0 \<le> pointer);
        (encoded_header, bytes_read) \<leftarrow> hpack_decoder_parse_encoded_header empty_encoded_header
           m (q + nat pointer) (header_block_size - pointer);
        if bytes_read < 0 then Some (dynamic_table, headers, bytes_read)
        else if eh_preamble encoded_header = DYNAMIC_TABLE_SIZE_UPDATE \<and> \<not> can_update
        then Some (dynamic_table, headers, HPACK_COMPRESSION_ERROR)
        else do {
          let can_update = (eh_preamble encoded_header = DYNAMIC_TABLE_SIZE_UPDATE);
          let pointer = pointer + bytes_read;
          err \<leftarrow> hpack_decoder_check_errors encoded_header m;
          if err < 0 then Some (dynamic_table, headers, err)
          else do {
            (dynamic_table, tmp_name, tmp_value, rc) \<leftarrow> hpack_decoder_decode_header dynamic_table
               encoded_header m (replicate HPACK_HEADER_NAME_LEN 0) (replicate HPACK_HEADER_VALUE_LEN 0);
            if rc < 0 then Some (dynamic_table, headers, rc)
            else do {
              n0 \<leftarrow> rd tmp_name 0;
              v0 \<leftarrow> rd tmp_value 0;
              if n0 \<noteq> 0 \<and> v0 \<noteq> 0 then do {
                (headers, rc) \<leftarrow> header_list_add headers tmp_name tmp_value;
                if rc < 0 then Some (dynamic_table, headers, rc)
                else decode_block_loop dynamic_table m q header_block_size headers can_update pointer
              }
              else decode_block_loop dynamic_table m q header_block_size headers can_update pointer
            }
          }
        }
      }
      else if pointer > header_block_size then Some (dynamic_table, headers, HPACK_INTERNAL_ERROR)
      else Some (dynamic_table, headers, pointer))"

declare decode_block_loop.simps [code]

definition hpack_decoder_decode ::
  "hpack_dynamic_table \<Rightarrow> byte list \<Rightarrow> nat \<Rightarrow> int \<Rightarrow> header_list \<Rightarrow>
   (hpack_dynamic_table \<times> header_list \<times> int) option" where
  "hpack_decoder_decode dynamic_table m q header_block_size headers =
     decode_block_loop dynamic_table m q header_block_size headers True 0"


subsection \<open>Printable strings pass the check for the end-of-string symbol\<close>

text \<open>
  \<open>hpack_check_eos_symbol\<close> looks for 30 ones in a row, at every bit position. In a string of printable
  characters there are none: a raw byte starts with a zero, and a Huffman code of a printable character
  has a zero among its first 16 and among its last 8 bits.
\<close>

definition printable :: "byte list \<Rightarrow> bool" where
  "printable s \<longleftrightarrow> list_all (\<lambda>c. 32 \<le> unat c \<and> unat c < 127) s"

lemma printable_simps [simp]:
  "printable []" "printable (c # s) \<longleftrightarrow> 32 \<le> unat c \<and> unat c < 127 \<and> printable s"
  by (simp_all add: printable_def)

lemma printable_nul_free: "printable s \<Longrightarrow> nul_free s"
  by (induction s) (auto simp: unat_eq_0 [symmetric])

definition zero_near_ends :: "nat \<Rightarrow> nat \<Rightarrow> bool" where
  "zero_near_ends l n \<longleftrightarrow> n mod 2 ^ min l 8 \<noteq> 2 ^ min l 8 - 1 \<and> n div 2 ^ (l - 16) \<noteq> 2 ^ min l 16 - 1"

lemma printable_rank: "list_all (\<lambda>c. huffman_L_inverse ! c < 96) [32..<127]"
  by (simp add: huffman_L_inverse_def upt_rec)

lemma rank_length: "list_all (\<lambda>l. l < 20 \<or> 96 \<le> huffman_F ! l) [0..<31]"
  by (simp add: huffman_F_def upt_rec)

lemma codes_zero_near_ends:
  "list_all (\<lambda>l. list_all (\<lambda>k. zero_near_ends l (code_nat k l))
     [huffman_F ! l..<min 96 (huffman_F ! (l + 1))]) [5..<20]"
  by (simp add: huffman_F_def huffman_C_def upt_rec code_nat_def zero_near_ends_def)

lemma list_all_uptD: "list_all P [a..<b] \<Longrightarrow> a \<le> x \<Longrightarrow> x < b \<Longrightarrow> P x"
  by (simp add: list_all_iff)

lemma missing_bit: "(x :: nat) mod 2 ^ k \<noteq> 2 ^ k - 1 \<Longrightarrow> \<exists>j < k. \<not> bit x j"
proof (rule ccontr)
  assume x: "x mod 2 ^ k \<noteq> 2 ^ k - 1" and "\<not> (\<exists>j < k. \<not> bit x j)"
  then have "take_bit k x = mask k" by (intro bit_eqI) (auto simp: bit_take_bit_iff bit_mask_iff)
  with x show False by (simp add: take_bit_eq_mod mask_eq_exp_minus_1)
qed

lemma printable_code_zeros:
  assumes "32 \<le> unat c" "unat c < 127"
  defines "w \<equiv> word_bits (huff_word c)"
  shows "length w < 20" "\<exists>i < length w. i < 16 \<and> \<not> w ! i" "\<exists>i < length w. length w \<le> i + 8 \<and> \<not> w ! i"
proof -
  let ?n = "unat (hw_code (huff_word c))"
  obtain l where l: "code_at (huffman_L_inverse ! unat c) l" "unat (hw_length (huff_word c)) = l"
    "?n = code_nat (huffman_L_inverse ! unat c) l" by (rule huff_word_code)
  have len: "length w = l" by (simp add: w_def l(2))
  have k: "huffman_L_inverse ! unat c < 96" using list_all_uptD [OF printable_rank] assms(1,2) .
  have b: "5 \<le> l" "l \<le> 30" "huffman_F ! l \<le> huffman_L_inverse ! unat c"
    using l(1) by (auto simp: code_at_def)
  then show l20: "length w < 20"
    using list_all_uptD [OF rank_length, of l] k unfolding len by simp
  then have "zero_near_ends l ?n"
    using list_all_uptD [OF list_all_uptD [OF codes_zero_near_ends, of l], of "huffman_L_inverse ! unat c"]
      k b l(1) unfolding len l(3) code_at_def by simp
  then have z: "?n mod 2 ^ min l 8 \<noteq> 2 ^ min l 8 - 1" "?n div 2 ^ (l - 16) \<noteq> 2 ^ min l 16 - 1"
    by (auto simp: zero_near_ends_def)
  have nth: "w ! (l - 1 - j) = bit ?n j" if "j < l" for j
  proof -
    have "l - 1 - (l - 1 - j) = j" "l - 1 - j < l" using that by simp_all
    then show ?thesis using nth_word_bits [of "l - 1 - j" "huff_word c"]
      by (simp add: w_def l(2) bit_unsigned_iff)
  qed
  from missing_bit [OF z(1)] obtain j where j: "j < min l 8" "\<not> bit ?n j" by blast
  then show "\<exists>i < length w. length w \<le> i + 8 \<and> \<not> w ! i"
    unfolding len using nth [of j] by (intro exI [of _ "l - 1 - j"]) auto
  have "?n < 2 ^ (l - 16 + min l 16)" using huff_word_bounds(3) [of c] by (simp add: l(2) min_def)
  then have "?n div 2 ^ (l - 16) < 2 ^ min l 16"
    by (intro less_mult_imp_div_less) (simp add: power_add mult.commute)
  with z(2) have "?n div 2 ^ (l - 16) mod 2 ^ min l 16 \<noteq> 2 ^ min l 16 - 1" by simp
  from missing_bit [OF this] obtain i where i: "i < min l 16" "\<not> bit (?n div 2 ^ (l - 16)) i" by blast
  then have "\<not> bit ?n (l - 16 + i)" by (simp add: drop_bit_eq_div [symmetric] bit_drop_bit_eq)
  moreover have "l - 16 + i < l" using i(1) by (cases "l \<le> 16") auto
  ultimately show "\<exists>i < length w. i < 16 \<and> \<not> w ! i"
    unfolding len using nth [of "l - 16 + i"] i(1) by (intro exI [of _ "l - 1 - (l - 16 + i)"]) auto
qed

lemma huff_bits_zeros:
  assumes "printable s"
  shows "s \<noteq> [] \<Longrightarrow> \<exists>i < length (huff_bits s). i < 16 \<and> \<not> huff_bits s ! i"
    "p + 23 \<le> length (huff_bits s) \<Longrightarrow> \<exists>j < 23. \<not> huff_bits s ! (p + j)"
  using assms
proof (induction s arbitrary: p)
  case (Cons c s)
  let ?w = "word_bits (huff_word c)"
  {
    case 1
    then show ?case using printable_code_zeros(2) [of c] by (fastforce simp: nth_append)
  next
    case 2
    note z = printable_code_zeros [of c]
    from 2 have c: "32 \<le> unat c" "unat c < 127" "printable s" by auto
    show ?case
    proof (cases "length ?w \<le> p")
      case True
      then have "p - length ?w + 23 \<le> length (huff_bits s)" using 2 by simp
      from Cons.IH(2) [OF this c(3)] obtain j where "j < 23" "\<not> huff_bits s ! (p - length ?w + j)" by blast
      with True show ?thesis by (intro exI [of _ j]) (simp add: nth_append)
    next
      case False
      obtain f where f: "f < length ?w" "length ?w \<le> f + 8" "\<not> ?w ! f" using z(3) c by blast
      show ?thesis
      proof (cases "p \<le> f")
        case True
        with f z(1) c show ?thesis by (intro exI [of _ "f - p"]) (simp add: nth_append)
      next
        case behind: False
        with f 2 have "16 \<le> length (huff_bits s)" by simp
        then have "s \<noteq> []" by auto
        then obtain i where i: "i < 16" "\<not> huff_bits s ! i" using Cons.IH(1) c by blast
        with behind f False show ?thesis
          by (intro exI [of _ "length ?w - p + i"]) (simp add: nth_append)
      qed
    qed
  }
qed auto


lemma check_eos_loop_passes:
  assumes "\<And>p. p < b + n \<Longrightarrow> \<exists>j < 30. \<not> gbit (drop q m) (p + j)" "q + (b + n + 29 + 7) div 8 \<le> length m"
    "b + n < 2 ^ 16"
  shows "check_eos_loop m q b n = Some 0"
  using assms
proof (induction n arbitrary: b)
  case (Suc n)
  have "(b + 30 + 7) div 8 \<le> (b + Suc n + 29 + 7) div 8" by (intro div_le_mono) simp
  with Suc.prems(2) have room: "q + (b + 30 + 7) div 8 \<le> length m" by linarith
  have "b < 2 ^ 16" using Suc.prems(3) by simp
  from read_bits_correct [OF _ _ this room] obtain r where
    r: "hpack_decoder_read_bits_from_bytes b 30 m q = Some r" "window (drop q m) b 30 r" by auto
  obtain j where j: "j < 30" "\<not> gbit (drop q m) (b + j)" using Suc.prems(1) [of b] by auto
  have "r AND 0x3FFFFFFF \<noteq> 0x3FFFFFFF"
  proof
    assume "r AND 0x3FFFFFFF = 0x3FFFFFFF"
    then have "bit (r AND mask 30) (29 - j)"
      using j(1) by (simp add: mask_numerals(4) bit_mask_iff) arith
    then have "bit r (29 - j)" by (simp add: bit_and_iff)
    with r(2) j show False by (auto simp: window_def)
  qed
  moreover have "check_eos_loop m q (b + 1) n = Some 0"
    by (rule Suc.IH) (use Suc.prems in \<open>auto simp: add.commute\<close>)
  ultimately show ?case by (simp add: r(1))
qed simp

lemma check_eos_passes:
  assumes "\<And>p. p + 30 \<le> 8 * k \<Longrightarrow> \<exists>j < 30. \<not> gbit (drop q m) (p + j)" "q + k \<le> length m" "4 \<le> k" "k < 256"
  shows "hpack_check_eos_symbol m q k = Some 0"
  unfolding hpack_check_eos_symbol_def
proof (rule check_eos_loop_passes)
  show "\<exists>j < 30. \<not> gbit (drop q m) (p + j)" if "p < 0 + (k * 8 - 29)" for p
    using that assms(1) [of p] by simp
  have "(0 + (k * 8 - 29) + 29 + 7) div 8 = k" using assms(3) by (simp add: div_nat_eqI)
  then show "q + (0 + (k * 8 - 29) + 29 + 7) div 8 \<le> length m" using assms(2) by simp
qed (use assms(4) in simp)

text \<open>The string of a representation, checked with the length truncated to a byte.\<close>

lemma code_here_body:
  assumes "code_here m q (c @ body)"
  shows "q + length c + length body \<le> length m" "take (length body) (drop (q + length c) m) = body"
  using assms unfolding code_here_append by (auto simp: code_here_def)

lemma eos_passes_string:
  assumes "hpack_string h k c s" "code_here m q c" "printable s" "length s < 64" "4 \<le> k"
  shows "hpack_check_eos_symbol m (q + length (int_code 7 k)) (k mod 2 ^ 8) = Some 0"
proof -
  obtain body where b: "length body = k" "if h = 0 then body = s else h = 128 \<and> packs body (huff_bits s)"
    and c: "c = ((hd (int_code 7 k) OR h) # tl (int_code 7 k)) @ body"
    using assms(1) by (auto simp: hpack_string_def)
  have pre: "length ((hd (int_code 7 k) OR h) # tl (int_code 7 k)) = length (int_code 7 k)"
    by (cases "int_code 7 k") simp_all
  let ?q = "q + length (int_code 7 k)"
  note here = code_here_body [OF assms(2) [unfolded c], unfolded pre b(1)]
  have bits: "gbit (drop ?q m) j = gbit body j" if "j < 8 * k" for j
  proof -
    have "j div 8 < k" using that by (simp add: less_mult_imp_div_less mult.commute)
    then have "take k (drop ?q m) ! (j div 8) = drop ?q m ! (j div 8)" by simp
    then show ?thesis by (simp add: gbit_def here(2))
  qed
  have small: "k < 256" and zeros: "\<And>p. p + 30 \<le> 8 * k \<Longrightarrow> \<exists>j < 30. \<not> gbit body (p + j)"
  proof -
    have "k < 256 \<and> (\<forall>p. p + 30 \<le> 8 * k \<longrightarrow> (\<exists>j < 30. \<not> gbit body (p + j)))"
    proof (cases "h = 0")
      case True
      with b have s: "body = s" "k = length s" by auto
      have "\<exists>j < 30. \<not> gbit body (p + j)" if p: "p + 30 \<le> 8 * k" for p
      proof (intro exI conjI)
        let ?i = "(p + 7) div 8"
        have i: "p \<le> 8 * ?i" "8 * ?i < p + 8" by presburger+
        show "8 * ?i - p < 30" using i by simp
        have "?i < length s" using i(2) p s(2) by simp
        then have "unat (s ! ?i) < 2 ^ 7"
          using assms(3) nth_mem by (fastforce simp: printable_def list_all_iff)
        then have "\<not> bit (s ! ?i) 7" by (rule bit_small_unat) simp
        moreover have "p + (8 * ?i - p) = 8 * ?i" using i(1) by simp
        ultimately show "\<not> gbit body (p + (8 * ?i - p))" by (simp add: gbit_def s(1))
      qed
      with s assms(4) show ?thesis by auto
    next
      case False
      with b have pk: "packs body (huff_bits s)" by simp
      then have k: "k = (length (huff_bits s) + 7) div 8" using b(1) by (simp add: packs_def)
      then have k8: "8 * k \<le> length (huff_bits s) + 7" by presburger
      have "\<exists>j < 30. \<not> gbit body (p + j)" if p: "p + 30 \<le> 8 * k" for p
      proof -
        have "p + 23 \<le> length (huff_bits s)" using p k8 by simp
        from huff_bits_zeros(2) [OF assms(3) this] obtain j where
          j: "j < 23" "\<not> huff_bits s ! (p + j)" by blast
        moreover have "p + j < 8 * k" "p + j < length (huff_bits s)" using j p k8 by auto
        ultimately show ?thesis using pk b(1) by (intro exI [of _ j]) (auto simp: packs_def)
      qed
      moreover have "k < 256" using k8 length_huff_bits_le [of s] assms(4) by simp
      ultimately show ?thesis by blast
    qed
    then show "k < 256" "\<And>p. p + 30 \<le> 8 * k \<Longrightarrow> \<exists>j < 30. \<not> gbit body (p + j)" by blast+
  qed
  have "\<exists>j < 30. \<not> gbit (drop ?q m) (p + j)" if "p + 30 \<le> 8 * k" for p
  proof -
    obtain j where "j < 30" "\<not> gbit body (p + j)" using zeros [OF \<open>p + 30 \<le> 8 * k\<close>] by blast
    with bits [of "p + j"] that show ?thesis by auto
  qed
  from check_eos_passes [OF this here(1) assms(5) small] small show ?thesis by simp
qed


subsection \<open>Parsing a representation\<close>

lemma unat_of_nat_max: "n \<le> HPACK_MAXIMUM_INTEGER \<Longrightarrow> unat (of_nat n :: u32) = n"
  by (intro unat_of_nat_u32) (simp add: HPACK_MAXIMUM_INTEGER_def)

lemma integer_size_max:
  assumes "n \<le> HPACK_MAXIMUM_INTEGER" "prefix \<le> 8"
  shows "hpack_utils_encoded_integer_size (of_nat n) prefix = Some (of_nat (length (int_code prefix n)))"
    "sint (of_nat (length (int_code prefix n)) :: u32) = int (length (int_code prefix n))"
proof -
  show "hpack_utils_encoded_integer_size (of_nat n) prefix = Some (of_nat (length (int_code prefix n)))"
    using encoded_integer_size_correct [OF assms(2), of "of_nat n"] assms(1)
    by (simp add: unat_of_nat_max HPACK_MAXIMUM_INTEGER_def del: of_nat_unat)
  have "length (int_code prefix n) \<le> HPACK_MAXIMUM_INTEGER"
    using length_int_code(2) [OF assms(1), of prefix] by (simp add: HPACK_MAXIMUM_INTEGER_def)
  then show "sint (of_nat (length (int_code prefix n)) :: u32) = int (length (int_code prefix n))"
    by (rule sint_of_nat_max)
qed

lemma length_coded_int_eq: "length (coded_int pre i) = length (int_code (hpack_utils_find_prefix_size pre) i)"
  by (cases "int_code (hpack_utils_find_prefix_size pre) i") (simp_all add: coded_int_def)

lemma prefix_le_8: "hpack_utils_find_prefix_size pre \<le> 8"
  using find_prefix_size_bounds(2) [of pre] by simp

lemma coded_int_parsed:
  assumes "code_here m q (coded_int pre i)" "i \<le> HPACK_MAXIMUM_INTEGER" "pre \<noteq> WRONG_PREAMBLE"
  obtains b where "rd m q = Some b" "hpack_utils_get_preamble b = pre"
    "hpack_decoder_decode_integer m q (hpack_utils_find_prefix_size pre) = Some (int i)"
    "hpack_utils_encoded_integer_size (of_nat i) (hpack_utils_find_prefix_size pre) =
       Some (of_nat (length (coded_int pre i)))"
    "sint (of_nat (length (coded_int pre i)) :: u32) = int (length (coded_int pre i))"
proof -
  let ?k = "hpack_utils_find_prefix_size pre" and ?x = "ucast (preamble_val pre) :: byte"
  let ?c = "int_code ?k i"
  have here: "rd m q = Some (hd ?c OR ?x)" "code_here m (q + 1) (tl ?c)"
    using assms(1) by (auto simp: coded_int_def Let_def code_here_Cons)
  have tb: "take_bit ?k (hd ?c) = hd ?c" by (rule take_bit_hd_int_code [OF prefix_le_8])
  then have "unat (hd ?c) < 2 ^ ?k"
    by (metis take_bit_nat_less_exp unsigned_take_bit_eq)
  then have pre: "hpack_utils_get_preamble (hd ?c OR ?x) = pre" using assms(3) by (rule get_preamble_or)
  have "take_bit ?k ?x = 0" using assms(3) by (cases pre) (simp_all add: take_bit_eq_mod)
  then have "take_bit ?k (hd ?c OR ?x) = hd ?c" using tb by simp
  from decode_integer_correct [OF prefix_le_8 assms(2) here(1) this here(2)]
  show ?thesis
    using that here(1) pre integer_size_max [OF assms(2) prefix_le_8 [of pre]]
    by (simp add: length_coded_int_eq)
qed

lemma parse_string_correct:
  assumes "hpack_string h k c s" "code_here m (q + ptr) c" "int (ptr + length c) \<le> header_size"
  shows "parse_string m q header_size (int ptr) =
    Some (h, of_nat k, q + ptr + length (int_code 7 k), int (ptr + length c))"
proof -
  note d = decode_string_correct(1,2) [OF assms(1,2), of s "length s"]
  obtain b where b: "rd m (q + ptr) = Some b" "get_huffman_bit b = h"
    using d(2) by (auto simp: get_huffman_bit_def and.commute)
  have k: "k \<le> HPACK_MAXIMUM_INTEGER" using assms(1) by (simp add: hpack_string_def)
  note size = integer_size_max [OF k, of 7]
  have len: "int (ptr + length c) = int ptr + int (length (int_code 7 k)) + int k"
    using hpack_string_length [OF assms(1)] by simp
  have "nat (int ptr + int (length (int_code 7 k))) = ptr + length (int_code 7 k)" by simp
  with b d(1) size assms(3) len show ?thesis
    unfolding parse_string_def by (simp add: Let_def add.assoc)
qed

text \<open>The three kinds of fields, as the parser leaves them in the structure.\<close>

lemma parse_indexed:
  assumes "code_here m q (coded_int INDEXED_HEADER_FIELD i)" "i \<le> HPACK_MAXIMUM_INTEGER"
  shows "hpack_decoder_parse_encoded_header eh m q header_size =
    Some (eh\<lparr>eh_preamble := INDEXED_HEADER_FIELD, eh_index := of_nat i\<rparr>,
      int (length (coded_int INDEXED_HEADER_FIELD i)))"
proof -
  obtain b where b: "rd m q = Some b" "hpack_utils_get_preamble b = INDEXED_HEADER_FIELD"
    "hpack_decoder_decode_integer m q (hpack_utils_find_prefix_size INDEXED_HEADER_FIELD) = Some (int i)"
    "hpack_utils_encoded_integer_size (of_nat i) (hpack_utils_find_prefix_size INDEXED_HEADER_FIELD) =
       Some (of_nat (length (coded_int INDEXED_HEADER_FIELD i)))"
    "sint (of_nat (length (coded_int INDEXED_HEADER_FIELD i)) :: u32) = int (length (coded_int INDEXED_HEADER_FIELD i))"
    by (rule coded_int_parsed [OF assms]) simp_all
  then show ?thesis by (simp add: hpack_decoder_parse_encoded_header_def Let_def)
qed

lemma parse_update:
  assumes "code_here m q (coded_int DYNAMIC_TABLE_SIZE_UPDATE i)" "i \<le> HPACK_MAXIMUM_INTEGER"
  shows "hpack_decoder_parse_encoded_header eh m q header_size =
    Some (eh\<lparr>eh_preamble := DYNAMIC_TABLE_SIZE_UPDATE, eh_index := 0, eh_dynamic_table_size := i\<rparr>,
      int (length (coded_int DYNAMIC_TABLE_SIZE_UPDATE i)))"
proof -
  obtain b where b: "rd m q = Some b" "hpack_utils_get_preamble b = DYNAMIC_TABLE_SIZE_UPDATE"
    "hpack_decoder_decode_integer m q (hpack_utils_find_prefix_size DYNAMIC_TABLE_SIZE_UPDATE) = Some (int i)"
    "hpack_utils_encoded_integer_size (of_nat i) (hpack_utils_find_prefix_size DYNAMIC_TABLE_SIZE_UPDATE) =
       Some (of_nat (length (coded_int DYNAMIC_TABLE_SIZE_UPDATE i)))"
    "sint (of_nat (length (coded_int DYNAMIC_TABLE_SIZE_UPDATE i)) :: u32) =
       int (length (coded_int DYNAMIC_TABLE_SIZE_UPDATE i))"
    by (rule coded_int_parsed [OF assms]) simp_all
  moreover have "i mod 65536 = i" using assms(2) by (simp add: HPACK_MAXIMUM_INTEGER_def)
  ultimately show ?thesis by (simp add: hpack_decoder_parse_encoded_header_def Let_def)
qed

lemma parse_known_name:
  assumes "literal_preamble pre" "code_here m q (coded_int pre i @ cv)" "0 < i" "i \<le> HPACK_MAXIMUM_INTEGER"
    "hpack_string hv kv cv v" "int (length (coded_int pre i @ cv)) \<le> header_size"
  shows "hpack_decoder_parse_encoded_header eh m q header_size =
    Some (eh\<lparr>eh_preamble := pre, eh_index := of_nat i, eh_huffman_bit_of_value := hv,
        eh_value_length := of_nat kv,
        eh_value_string := Some (q + length (coded_int pre i) + length (int_code 7 kv))\<rparr>,
      int (length (coded_int pre i @ cv)))"
proof -
  have here: "code_here m q (coded_int pre i)" "code_here m (q + length (coded_int pre i)) cv"
    using assms(2) by (simp_all add: code_here_append)
  have pre: "pre \<noteq> WRONG_PREAMBLE" "pre \<noteq> INDEXED_HEADER_FIELD" "pre \<noteq> DYNAMIC_TABLE_SIZE_UPDATE"
    using assms(1) by (auto simp: literal_preamble_def)
  obtain b where b: "rd m q = Some b" "hpack_utils_get_preamble b = pre"
    "hpack_decoder_decode_integer m q (hpack_utils_find_prefix_size pre) = Some (int i)"
    "hpack_utils_encoded_integer_size (of_nat i) (hpack_utils_find_prefix_size pre) =
       Some (of_nat (length (coded_int pre i)))"
    "sint (of_nat (length (coded_int pre i)) :: u32) = int (length (coded_int pre i))"
    by (rule coded_int_parsed [OF here(1) assms(4) pre(1)])
  have nz: "(of_nat i :: u32) \<noteq> 0" using unat_of_nat_max [OF assms(4)] assms(3) by auto
  have "parse_string m q header_size (int (length (coded_int pre i))) =
      Some (hv, of_nat kv, q + length (coded_int pre i) + length (int_code 7 kv),
        int (length (coded_int pre i) + length cv))"
    by (rule parse_string_correct [OF assms(5) here(2)]) (use assms(6) in simp)
  moreover have "\<not> header_size < int (length (coded_int pre i))" using assms(6) by simp
  ultimately show ?thesis using b pre nz by (simp add: hpack_decoder_parse_encoded_header_def Let_def)
qed

lemma parse_new_name:
  assumes "literal_preamble pre" "code_here m q (coded_int pre 0 @ cn @ cv)"
    "hpack_string hn kn cn n" "hpack_string hv kv cv v"
    "int (length (coded_int pre 0 @ cn @ cv)) \<le> header_size"
  shows "hpack_decoder_parse_encoded_header eh m q header_size =
    Some (eh\<lparr>eh_preamble := pre, eh_index := 0, eh_huffman_bit_of_name := hn,
        eh_name_length := of_nat kn,
        eh_name_string := Some (q + length (coded_int pre 0) + length (int_code 7 kn)),
        eh_huffman_bit_of_value := hv, eh_value_length := of_nat kv,
        eh_value_string := Some (q + (length (coded_int pre 0) + length cn) + length (int_code 7 kv))\<rparr>,
      int (length (coded_int pre 0 @ cn @ cv)))"
proof -
  let ?c = "coded_int pre 0"
  have here: "code_here m q ?c" "code_here m (q + length ?c) cn" "code_here m (q + (length ?c + length cn)) cv"
    using assms(2) by (simp_all add: code_here_append add.assoc)
  have pre: "pre \<noteq> WRONG_PREAMBLE" "pre \<noteq> INDEXED_HEADER_FIELD" "pre \<noteq> DYNAMIC_TABLE_SIZE_UPDATE"
    using assms(1) by (auto simp: literal_preamble_def)
  obtain b where b: "rd m q = Some b" "hpack_utils_get_preamble b = pre"
    "hpack_decoder_decode_integer m q (hpack_utils_find_prefix_size pre) = Some (int 0)"
    "hpack_utils_encoded_integer_size (of_nat 0) (hpack_utils_find_prefix_size pre) =
       Some (of_nat (length ?c))"
    "sint (of_nat (length ?c) :: u32) = int (length ?c)"
    by (rule coded_int_parsed [OF here(1) _ pre(1)]) simp_all
  have "parse_string m q header_size (int (length ?c)) =
      Some (hn, of_nat kn, q + length ?c + length (int_code 7 kn), int (length ?c + length cn))"
    by (rule parse_string_correct [OF assms(3) here(2)]) (use assms(5) in simp)
  moreover have "parse_string m q header_size (int (length ?c + length cn)) =
      Some (hv, of_nat kv, q + (length ?c + length cn) + length (int_code 7 kv),
        int (length ?c + length cn + length cv))"
    by (rule parse_string_correct [OF assms(4) here(3)]) (use assms(5) in simp)
  moreover have "\<not> header_size < int (length ?c)" using assms(5) by simp
  ultimately show ?thesis using b pre by (simp add: hpack_decoder_parse_encoded_header_def Let_def)
qed


subsection \<open>Decoding a field\<close>

text \<open>Headers whose strings are printable and fit the decoder's buffers; the value may be empty.\<close>

definition decodable :: "header \<Rightarrow> bool" where
  "decodable h \<longleftrightarrow> printable (fst h) \<and> printable (snd h) \<and>
     length (fst h) < HPACK_HEADER_NAME_LEN \<and> length (snd h) < HPACK_HEADER_VALUE_LEN"

text \<open>A cleared buffer that a string was copied into.\<close>

definition padded :: "nat \<Rightarrow> byte list \<Rightarrow> byte list" where
  "padded n s = s @ replicate (n - length s) 0"

lemma padded_eq: "length s < n \<Longrightarrow> padded n s = s @ 0 # replicate (n - Suc (length s)) 0"
  by (simp add: padded_def Suc_diff_Suc replicate_Suc [symmetric] del: replicate_Suc)

lemma decode_string_padded:
  assumes "hpack_string h k c s" "code_here m q c" "length s < n"
  shows "hpack_decoder_decode_string (replicate n 0) n m (q + length (int_code 7 k)) k h =
    Some (padded n s, int (length c))"
  using decode_string_correct(3) [OF assms(1,2), of "replicate n 0" n] assms(3)
  by (simp add: padded_def overwrite_zeros)

text \<open>The table after the field, on both sides of the relation.\<close>

definition table_step_rel :: "hpack_dynamic_table \<Rightarrow> hpack_dynamic_table \<Rightarrow> entry list \<Rightarrow> bool" where
  "table_step_rel t t' es' \<longleftrightarrow> dt_rel t' es' \<and> dt_max_size t' = dt_max_size t \<and>
     dt_settings_max_table_size t' = dt_settings_max_table_size t"

lemma literal_tail:
  assumes rel: "dt_rel t es" and pre: "stored (eh_preamble eh) (dt_max_size t) (n, v) es es'"
    and h: "decodable (n, v)" and str: "hpack_string hv kv cv v" "code_here m q cv"
    and eh: "eh_value_string eh = Some (q + length (int_code 7 kv))" "eh_value_length eh = of_nat kv"
      "eh_huffman_bit_of_value eh = hv"
    and name: "literal_name t eh m (replicate HPACK_HEADER_NAME_LEN 0) = Some (padded HPACK_HEADER_NAME_LEN n, rc)"
      "0 \<le> rc"
  shows "\<exists>t' rc. hpack_decoder_decode_literal_header_field t eh m (replicate HPACK_HEADER_NAME_LEN 0)
      (replicate HPACK_HEADER_VALUE_LEN 0) =
      Some (t', padded HPACK_HEADER_NAME_LEN n, padded HPACK_HEADER_VALUE_LEN v, rc) \<and> 0 \<le> rc \<and>
    table_step_rel t t' es'"
proof -
  have h': "nul_free n" "nul_free v" "length n < HPACK_HEADER_NAME_LEN" "length v < HPACK_HEADER_VALUE_LEN"
    using h by (auto simp: decodable_def printable_nul_free)
  have kv: "unat (of_nat kv :: u32) = kv" using str(1) by (intro unat_of_nat_max) (simp add: hpack_string_def)
  have val: "hpack_decoder_decode_string (replicate HPACK_HEADER_VALUE_LEN 0) HPACK_HEADER_VALUE_LEN m
      (q + length (int_code 7 kv)) kv hv = Some (padded HPACK_HEADER_VALUE_LEN v, int (length cv))"
    by (rule decode_string_padded [OF str h'(4)])
  show ?thesis
  proof (cases "eh_preamble eh = LITERAL_HEADER_FIELD_WITH_INCREMENTAL_INDEXING")
    case True
    with pre have st: "entry_size (n, v) \<le> dt_max_size t" "es' = (n, v) # evict (dt_max_size t - entry_size (n, v)) es"
      by (auto simp: stored_def)
    have "entry_ok (n, v)" "entry_size (n, v) < 2 ^ 16"
      using h' by (simp_all add: entry_ok_def entry_size_def HPACK_HEADER_NAME_LEN_def HPACK_HEADER_VALUE_LEN_def)
    from add_entry_correct [OF rel this] st obtain t' where
      "hpack_tables_dynamic_table_add_entry t (padded HPACK_HEADER_NAME_LEN n) (padded HPACK_HEADER_VALUE_LEN v) =
        Some (t', 0)" "table_step_rel t t' es'"
      unfolding padded_eq [OF h'(3)] padded_eq [OF h'(4)] table_step_rel_def by fastforce
    with True name val show ?thesis
      unfolding hpack_decoder_decode_literal_header_field_def by (simp add: eh kv)
  next
    case False
    with pre rel have "table_step_rel t t es'" by (auto simp: stored_def table_step_rel_def)
    with False name val show ?thesis
      unfolding hpack_decoder_decode_literal_header_field_def by (simp add: eh kv)
  qed
qed

lemma decode_header_literal:
  "literal_preamble (eh_preamble eh) \<Longrightarrow>
   hpack_decoder_decode_header t eh m nm vl = hpack_decoder_decode_literal_header_field t eh m nm vl"
  by (auto simp: hpack_decoder_decode_header_def literal_preamble_def)

lemma check_errors_literal:
  assumes "literal_preamble (eh_preamble eh)"
    "eh_index eh = 0 \<Longrightarrow> unat (eh_name_length eh) \<ge> 4 \<Longrightarrow>
       \<exists>q. eh_name_string eh = Some q \<and> hpack_check_eos_symbol m q (unat (eh_name_length eh) mod 2 ^ 8) = Some 0"
    "unat (eh_value_length eh) \<ge> 4 \<Longrightarrow>
       \<exists>q. eh_value_string eh = Some q \<and> hpack_check_eos_symbol m q (unat (eh_value_length eh) mod 2 ^ 8) = Some 0"
  shows "hpack_decoder_check_errors eh m = Some 0"
  using assms by (auto simp: hpack_decoder_check_errors_def literal_preamble_def)


text \<open>The decoder reads the field \<open>c\<close> at \<open>q\<close> as the header \<open>h\<close> and leaves the table \<open>es'\<close>.\<close>

definition decodes_field :: "hpack_dynamic_table \<Rightarrow> byte list \<Rightarrow> nat \<Rightarrow> int \<Rightarrow> byte list \<Rightarrow> header \<Rightarrow> entry list \<Rightarrow> bool" where
  "decodes_field t m q header_size c h es' \<longleftrightarrow>
     (\<exists>eh t' rc. hpack_decoder_parse_encoded_header empty_encoded_header m q header_size = Some (eh, int (length c)) \<and>
        eh_preamble eh \<noteq> DYNAMIC_TABLE_SIZE_UPDATE \<and> hpack_decoder_check_errors eh m = Some 0 \<and>
        hpack_decoder_decode_header t eh m (replicate HPACK_HEADER_NAME_LEN 0) (replicate HPACK_HEADER_VALUE_LEN 0) =
          Some (t', padded HPACK_HEADER_NAME_LEN (fst h), padded HPACK_HEADER_VALUE_LEN (snd h), rc) \<and> 0 \<le> rc \<and>
        table_step_rel t t' es')"

lemma indexed_decoded:
  assumes rel: "dt_rel t es" and h: "decodable h" and here: "code_here m q c" "int (length c) \<le> header_size"
    and c: "c = coded_int INDEXED_HEADER_FIELD i" and es: "es' = es" and e: "entry_at es i = Some h" and le: "i \<le> HPACK_MAXIMUM_INTEGER"
  shows "decodes_field t m q header_size c h es'"
proof -
  obtain n v where nv: "h = (n, v)" by (cases h)
  have len: "length n < HPACK_HEADER_NAME_LEN" "length v < HPACK_HEADER_VALUE_LEN"
    using h by (auto simp: decodable_def nv)
  let ?eh = "empty_encoded_header\<lparr>eh_preamble := INDEXED_HEADER_FIELD, eh_index := of_nat i\<rparr>"
  have i: "0 < i" "unat (of_nat i :: u32) = i"
    using e le unat_of_nat_max [of i] by (auto simp: entry_at_def split: if_splits)
  then have nz: "(of_nat i :: u32) \<noteq> 0" by auto
  have parse: "hpack_decoder_parse_encoded_header empty_encoded_header m q header_size =
      Some (?eh, int (length c))"
    using parse_indexed [OF here(1) [unfolded c] le] c by simp
  have "hpack_decoder_decode_header t ?eh m (replicate HPACK_HEADER_NAME_LEN 0) (replicate HPACK_HEADER_VALUE_LEN 0) =
      Some (t, padded HPACK_HEADER_NAME_LEN n, padded HPACK_HEADER_VALUE_LEN v,
        int (length (int_code 7 i)))"
    using find_entry_space(1) [OF rel e [unfolded nv] len] integer_size_max [OF le, of 7] i(2)
    by (simp add: hpack_decoder_decode_header_def hpack_decoder_decode_indexed_header_field_def padded_def)
  moreover have "hpack_decoder_check_errors ?eh m = Some 0"
    using nz by (simp add: hpack_decoder_check_errors_def)
  moreover have "eh_preamble ?eh \<noteq> DYNAMIC_TABLE_SIZE_UPDATE" by simp
  moreover have "table_step_rel t t es'" using rel es by (simp add: table_step_rel_def)
  ultimately show ?thesis unfolding decodes_field_def using parse nv by (metis fst_conv snd_conv of_nat_0_le_iff)
qed

lemma known_name_decoded:
  assumes rel: "dt_rel t es" "dt_max_size t = M" and h: "decodable h"
    and here: "code_here m q c" "int (length c) \<le> header_size"
    and c: "c = coded_int pre i @ cv" and nv: "h = (n, v)" and pre: "literal_preamble pre" and e: "entry_at es i = Some (n, v')"
    and le: "i \<le> HPACK_MAXIMUM_INTEGER" and str: "hpack_string hv kv cv v" and st: "stored pre M (n, v) es es'"
  shows "decodes_field t m q header_size c h es'"
proof -
  let ?eh = "empty_encoded_header\<lparr>eh_preamble := pre, eh_index := of_nat i, eh_huffman_bit_of_value := hv,
        eh_value_length := of_nat kv,
        eh_value_string := Some (q + length (coded_int pre i) + length (int_code 7 kv))\<rparr>"
  have pr: "printable v" "length v < 64" "length n < HPACK_HEADER_NAME_LEN"
    using h by (auto simp: decodable_def nv HPACK_HEADER_VALUE_LEN_def)
  have i: "0 < i" "unat (of_nat i :: u32) = i"
    using e le unat_of_nat_max [of i] by (auto simp: entry_at_def split: if_splits)
  then have nz: "(of_nat i :: u32) \<noteq> 0" by auto
  have kv: "unat (of_nat kv :: u32) = kv"
    using str by (intro unat_of_nat_max) (simp add: hpack_string_def)
  have cv: "code_here m (q + length (coded_int pre i)) cv"
    using here(1) by (simp add: c code_here_append)
  have parse: "hpack_decoder_parse_encoded_header empty_encoded_header m q header_size =
      Some (?eh, int (length c))"
    using parse_known_name [OF pre here(1) [unfolded c] i(1) le str] here(2)
    by (simp add: c)
  have check: "hpack_decoder_check_errors ?eh m = Some 0"
    by (rule check_errors_literal)
      (use pre nz kv eos_passes_string [OF str cv pr(1,2)] in simp_all)
  have "literal_name t ?eh m (replicate HPACK_HEADER_NAME_LEN 0) =
      Some (padded HPACK_HEADER_NAME_LEN n, int (length (int_code (hpack_utils_find_prefix_size pre) i)))"
    using find_entry_space(2) [OF rel(1) e pr(3), of "Suc (length v')"] nz i(2)
      integer_size_max [OF le prefix_le_8 [of pre]]
    by (simp add: literal_name_def padded_def)
  from literal_tail [OF rel(1) _ h [unfolded nv] str cv _ _ _ this] st rel(2)
  have "\<exists>t' rc. hpack_decoder_decode_literal_header_field t ?eh m (replicate HPACK_HEADER_NAME_LEN 0)
      (replicate HPACK_HEADER_VALUE_LEN 0) =
      Some (t', padded HPACK_HEADER_NAME_LEN n, padded HPACK_HEADER_VALUE_LEN v, rc) \<and> 0 \<le> rc \<and>
    table_step_rel t t' es'"
    by simp
  then show ?thesis unfolding decodes_field_def
    using parse check pre decode_header_literal [of ?eh] nv
    by (fastforce simp: literal_preamble_def)
qed

lemma new_name_decoded:
  assumes rel: "dt_rel t es" "dt_max_size t = M" and h: "decodable h"
    and here: "code_here m q c" "int (length c) \<le> header_size"
    and c: "c = coded_int pre 0 @ cn @ cv" and nv: "h = (n, v)" and pre: "literal_preamble pre" and sn: "hpack_string hn kn cn n"
    and sv: "hpack_string hv kv cv v" and st: "stored pre M (n, v) es es'"
  shows "decodes_field t m q header_size c h es'"
proof -
  let ?c = "coded_int pre 0"
  let ?eh = "empty_encoded_header\<lparr>eh_preamble := pre, eh_index := 0, eh_huffman_bit_of_name := hn,
        eh_name_length := of_nat kn, eh_name_string := Some (q + length ?c + length (int_code 7 kn)),
        eh_huffman_bit_of_value := hv, eh_value_length := of_nat kv,
        eh_value_string := Some (q + (length ?c + length cn) + length (int_code 7 kv))\<rparr>"
  have pr: "printable v" "length v < 64" "printable n" "length n < 64" "length n < HPACK_HEADER_NAME_LEN"
    using h by (auto simp: decodable_def nv HPACK_HEADER_VALUE_LEN_def HPACK_HEADER_NAME_LEN_def)
  have k: "unat (of_nat kv :: u32) = kv" "unat (of_nat kn :: u32) = kn"
    using sn sv by (auto intro!: unat_of_nat_max simp: hpack_string_def)
  have cn: "code_here m (q + length ?c) cn" and cv: "code_here m (q + (length ?c + length cn)) cv"
    using here(1) by (simp_all add: c code_here_append add.assoc)
  have parse: "hpack_decoder_parse_encoded_header empty_encoded_header m q header_size =
      Some (?eh, int (length c))"
    using parse_new_name [OF pre here(1) [unfolded c] sn sv] here(2)
    by (simp add: c)
  have check: "hpack_decoder_check_errors ?eh m = Some 0"
    by (rule check_errors_literal)
      (use pre k eos_passes_string [OF sn cn pr(3,4)]
        eos_passes_string [OF sv cv pr(1,2)] in simp_all)
  have "literal_name t ?eh m (replicate HPACK_HEADER_NAME_LEN 0) =
      Some (padded HPACK_HEADER_NAME_LEN n, 1 + int (length cn))"
    using decode_string_padded [OF sn cn pr(5)] k by (simp add: literal_name_def)
  from literal_tail [OF rel(1) _ h [unfolded nv] sv cv _ _ _ this] st rel(2)
  have "\<exists>t' rc. hpack_decoder_decode_literal_header_field t ?eh m (replicate HPACK_HEADER_NAME_LEN 0)
      (replicate HPACK_HEADER_VALUE_LEN 0) =
      Some (t', padded HPACK_HEADER_NAME_LEN n, padded HPACK_HEADER_VALUE_LEN v, rc) \<and> 0 \<le> rc \<and>
    table_step_rel t t' es'"
    by simp
  then show ?thesis unfolding decodes_field_def
    using parse check pre decode_header_literal [of ?eh] nv
    by (fastforce simp: literal_preamble_def)
qed

lemma field_decoded:
  assumes "dt_rel t es" "field_repr M es c h es'" "dt_max_size t = M" "decodable h"
    "code_here m q c" "int (length c) \<le> header_size"
  shows "decodes_field t m q header_size c h es'"
  using assms(2)
proof (cases rule: field_repr.cases)
  case indexed
  then show ?thesis by (rule indexed_decoded [OF assms(1,4-6)])
next
  case known_name
  then show ?thesis by (rule known_name_decoded [OF assms(1,3-6)])
next
  case new_name
  then show ?thesis by (rule new_name_decoded [OF assms(1,3-6)])
qed


subsection \<open>Decoding a block\<close>

text \<open>
  The headers added one after the other to a list as \<open>header_list_add\<close> does: one with a new name is
  appended, one whose name an earlier name is equal to or a prefix of is joined to that one with a comma.
  A header with an empty name or value is not added. The result is \<open>None\<close> if a header does not fit.
\<close>

fun add_fields :: "header list \<Rightarrow> header list \<Rightarrow> header list option" where
  "add_fields acc [] = Some acc"
| "add_fields acc ((n, v) # hs) =
     (if n = [] \<or> v = [] then add_fields acc hs
      else if snd (add_hs acc n v) = 0 \<and> (length (flat acc) < HEADER_LIST_MAX_SIZE \<or> position n acc \<noteq> None)
      then add_fields (fst (add_hs acc n v)) hs else None)"

definition nonempty :: "header \<Rightarrow> bool" where
  "nonempty h \<longleftrightarrow> fst h \<noteq> [] \<and> snd h \<noteq> []"

text \<open>Headers none of whose names starts with an earlier one are appended one after the other.\<close>

definition separate :: "header list \<Rightarrow> bool" where
  "separate hs \<longleftrightarrow> sorted_wrt (\<lambda>h h'. \<not> name_starts (fst h) (fst h')) hs"

lemma add_fields_separate:
  assumes "separate (acc @ filter nonempty hs)" "length (flat (acc @ filter nonempty hs)) \<le> HEADER_LIST_MAX_SIZE"
  shows "add_fields acc hs = Some (acc @ filter nonempty hs)"
  using assms
proof (induction hs arbitrary: acc)
  case (Cons h hs)
  obtain n v where h: "h = (n, v)" by (cases h)
  show ?case
  proof (cases "nonempty h")
    case True
    have "position n acc = None"
      using Cons.prems(1) True by (auto simp: position_None_iff separate_def sorted_wrt_append h)
    moreover have "length n + length v + 2 \<le> HEADER_LIST_MAX_SIZE - length (flat acc)"
      "length (flat acc) < HEADER_LIST_MAX_SIZE"
      using Cons.prems(2) True by (auto simp: h)
    ultimately have "add_hs acc n v = (acc @ [(n, v)], 0)" "length (flat acc) < HEADER_LIST_MAX_SIZE"
      by (auto simp: add_hs_def append_hs_def)
    then show ?thesis using Cons.IH [of "acc @ [h]"] Cons.prems True by (simp add: h nonempty_def)
  next
    case False
    then show ?thesis using Cons.IH Cons.prems by (auto simp: h nonempty_def)
  qed
qed simp

text \<open>If the names are separate, what was added is exactly the headers with a name and a value.\<close>

lemma add_fields_appends:
  assumes "add_fields acc hs = Some acc'" "separate (acc @ filter nonempty hs)"
  shows "acc' = acc @ filter nonempty hs"
  using assms
proof (induction hs arbitrary: acc)
  case (Cons h hs)
  obtain n v where h: "h = (n, v)" by (cases h)
  show ?case
  proof (cases "nonempty h")
    case True
    have "position n acc = None"
      using Cons.prems(2) True by (auto simp: position_None_iff separate_def sorted_wrt_append h)
    then have "snd (add_hs acc n v) = 0 \<Longrightarrow> fst (add_hs acc n v) = acc @ [(n, v)]"
      by (auto simp: add_hs_def append_hs_def split: if_splits)
    then show ?thesis using Cons.IH [of "acc @ [h]"] Cons.prems True by (auto simp: h nonempty_def split: if_splits)
  next
    case False
    then show ?thesis using Cons.IH Cons.prems by (auto simp: h nonempty_def)
  qed
qed simp

fun table_rel :: "hpack_dynamic_table \<Rightarrow> abs_table \<Rightarrow> bool" where
  "table_rel t (M, S, es) \<longleftrightarrow> dt_rel t es \<and> dt_max_size t = M \<and> dt_settings_max_table_size t = S"

lemma rd_padded: "s \<noteq> [] \<Longrightarrow> rd (padded n s) 0 = Some (hd s)"
  by (cases s) (simp_all add: padded_def rd_def)

lemma update_decoded:
  assumes "table_rel t (M, S, es)" "new \<le> S" "new \<le> HPACK_MAXIMUM_INTEGER"
  defines "eh \<equiv> empty_encoded_header\<lparr>eh_preamble := DYNAMIC_TABLE_SIZE_UPDATE, eh_index := 0,
    eh_dynamic_table_size := new\<rparr>"
  shows "\<exists>t' rc. hpack_decoder_decode_header t eh m nm vl = Some (t', nm, vl, rc) \<and> 0 \<le> rc \<and>
      table_rel t' (new, S, evict new es)"
    "hpack_decoder_check_errors eh m = Some 0"
proof -
  show "hpack_decoder_check_errors eh m = Some 0"
    using assms(3) by (simp add: eh_def hpack_decoder_check_errors_def)
  obtain t' where "hpack_tables_dynamic_table_resize t new = Some (t', 0)" "table_rel t' (new, S, evict new es)"
    using resize_correct [of t es new] assms(1,2) by auto
  then show "\<exists>t' rc. hpack_decoder_decode_header t eh m nm vl = Some (t', nm, vl, rc) \<and> 0 \<le> rc \<and>
      table_rel t' (new, S, evict new es)"
    using integer_size_max [OF assms(3), of 5]
    by (simp add: eh_def hpack_decoder_decode_header_def hpack_decoder_decode_dynamic_table_size_update_def)
qed

lemma decode_field_step:
  assumes rel: "table_rel t (M, S, es)" and repr: "field_repr M es c (n, v) es'" and ph: "decodable (n, v)"
    and hl: "hl_rel H acc" and fits: "add_fields acc [(n, v)] = Some acc1" and here: "code_here m (q + p) c" and N: "p + length c \<le> N"
  obtains t1 H1 where "table_rel t1 (M, S, es')" "hl_rel H1 acc1"
    "decode_block_loop t m q (int N) H flag (int p) = decode_block_loop t1 m q (int N) H1 False (int (p + length c))"
proof -
  have nv: "nul_free n" "nul_free v" "length n < HPACK_HEADER_NAME_LEN" "length v < HPACK_HEADER_VALUE_LEN"
    using ph printable_nul_free [of n] printable_nul_free [of v] by (auto simp: decodable_def)
  have t: "dt_rel t es" "dt_max_size t = M" using rel by simp_all
  have sz: "int (length c) \<le> int N - int p" using N by simp
  obtain eh t1 rc where d:
    "hpack_decoder_parse_encoded_header empty_encoded_header m (q + p) (int N - int p) = Some (eh, int (length c))"
    "eh_preamble eh \<noteq> DYNAMIC_TABLE_SIZE_UPDATE" "hpack_decoder_check_errors eh m = Some 0"
    "hpack_decoder_decode_header t eh m (replicate HPACK_HEADER_NAME_LEN 0) (replicate HPACK_HEADER_VALUE_LEN 0) =
      Some (t1, padded HPACK_HEADER_NAME_LEN n, padded HPACK_HEADER_VALUE_LEN v, rc)" "0 \<le> rc"
    "table_step_rel t t1 es'"
    using field_decoded [OF t(1) repr t(2) ph here sz] by (auto simp: decodes_field_def)
  have "length c \<noteq> 0" using repr by (cases rule: field_repr.cases) (simp_all add: coded_int_def Let_def)
  with N have pos: "p < N" by linarith
  have t1: "table_rel t1 (M, S, es')" using d(6) rel by (simp add: table_step_rel_def)
  have first: "rd (padded HPACK_HEADER_NAME_LEN n) 0 = Some (if n = [] then 0 else hd n)"
    "rd (padded HPACK_HEADER_VALUE_LEN v) 0 = Some (if v = [] then 0 else hd v)"
    "n \<noteq> [] \<Longrightarrow> hd n \<noteq> 0" "v \<noteq> [] \<Longrightarrow> hd v \<noteq> 0"
    using nv(1,2) rd_padded [of n] rd_padded [of v]
    by (auto simp: nul_free_def padded_def rd_def HPACK_HEADER_NAME_LEN_def HPACK_HEADER_VALUE_LEN_def dest: hd_in_set)
  show ?thesis
  proof (cases "n = [] \<or> v = []")
    case True
    then have "decode_block_loop t m q (int N) H flag (int p) = decode_block_loop t1 m q (int N) H False (int (p + length c))"
      using pos d first by (subst decode_block_loop.simps) (auto simp: Let_def)
    with that t1 hl fits True show ?thesis by simp
  next
    case False
    then have room: "snd (add_hs acc n v) = 0" "room_for H acc n" "acc1 = fst (add_hs acc n v)"
      using fits hl by (auto simp: room_for_def hl_rel_def split: if_splits)
    obtain H1 where H1: "header_list_add H (padded HPACK_HEADER_NAME_LEN n) (padded HPACK_HEADER_VALUE_LEN v) =
        Some (H1, 0)" "hl_rel H1 acc1"
      using header_list_add_correct [OF hl room(2) _ nv(1,2)] room(1,3) False
      unfolding padded_eq [OF nv(3)] padded_eq [OF nv(4)] by metis
    have "decode_block_loop t m q (int N) H flag (int p) = decode_block_loop t1 m q (int N) H1 False (int (p + length c))"
      using pos d H1(1) first False by (subst decode_block_loop.simps) (simp add: Let_def)
    with that t1 H1(2) show ?thesis by blast
  qed
qed

lemma add_fields_Cons: "add_fields acc (h # hs) = add_fields acc [h] \<bind> (\<lambda>acc. add_fields acc hs)"
  by (cases h) (auto split: Option.bind_split)

lemma decode_block_correct:
  assumes "block_repr flag a c hs a'" "table_rel t a" "list_all decodable hs" "hl_rel H acc"
    "add_fields acc hs = Some acc'" "code_here m (q + p) c" "N = p + length c"
  shows "\<exists>t' H'. decode_block_loop t m q (int N) H flag (int p) = Some (t', H', int N) \<and>
    table_rel t' a' \<and> hl_rel H' acc'"
  using assms
proof (induction flag a c hs a' arbitrary: t H acc p rule: block_repr.induct)
  case (block_end flag a)
  then show ?case by (subst decode_block_loop.simps) simp
next
  case (block_update new S es c hs a M)
  let ?u = "coded_int DYNAMIC_TABLE_SIZE_UPDATE new"
  have here: "code_here m (q + p) ?u" "code_here m (q + (p + length ?u)) c"
    using block_update.prems(5) by (simp_all add: code_here_append add.assoc)
  have pos: "p < N" using block_update.prems(6) by (simp add: coded_int_def Let_def)
  obtain t1 rc where u: "hpack_decoder_decode_header t (empty_encoded_header\<lparr>eh_preamble := DYNAMIC_TABLE_SIZE_UPDATE,
      eh_index := 0, eh_dynamic_table_size := new\<rparr>) m (replicate HPACK_HEADER_NAME_LEN 0)
      (replicate HPACK_HEADER_VALUE_LEN 0) =
      Some (t1, replicate HPACK_HEADER_NAME_LEN 0, replicate HPACK_HEADER_VALUE_LEN 0, rc)" "0 \<le> rc"
      "table_rel t1 (new, S, evict new es)"
    using update_decoded(1) [OF block_update.prems(1) block_update.hyps(1,2)] by blast
  from block_update.IH [OF u(3) block_update.prems(2-4) here(2)] block_update.prems(6)
  obtain t' H' where IH: "decode_block_loop t1 m q (int N) H True (int (p + length ?u)) = Some (t', H', int N)"
      "table_rel t' a" "hl_rel H' acc'" by auto
  have "decode_block_loop t m q (int N) H True (int p) = Some (t', H', int N)"
    using pos IH(1) u(1,2)
    by (subst decode_block_loop.simps)
      (simp add: parse_update [OF here(1) block_update.hyps(2)]
        update_decoded(2) [OF block_update.prems(1) block_update.hyps(1,2)] Let_def
        rd_def HPACK_HEADER_NAME_LEN_def HPACK_HEADER_VALUE_LEN_def)
  with IH(2,3) show ?case by blast
next
  case (block_field M es c h es' S cs hs a flag)
  obtain n v where h: "h = (n, v)" by (cases h)
  have here: "code_here m (q + p) c" "code_here m (q + (p + length c)) cs"
    using block_field.prems(5) by (simp_all add: code_here_append add.assoc)
  have ph: "decodable (n, v)" "list_all decodable hs" using block_field.prems(2) by (simp_all add: h)
  obtain acc1 where add: "add_fields acc [(n, v)] = Some acc1" "add_fields acc1 hs = Some acc'"
    using block_field.prems(4) add_fields_Cons [of acc "(n, v)" hs] unfolding h
    by (cases "add_fields acc [(n, v)]") (simp_all del: add_fields.simps)
  have sz: "p + length c \<le> N" using block_field.prems(6) by simp
  obtain t1 H1 where s: "table_rel t1 (M, S, es')" "hl_rel H1 acc1"
    "decode_block_loop t m q (int N) H flag (int p) = decode_block_loop t1 m q (int N) H1 False (int (p + length c))"
    by (rule decode_field_step [OF block_field.prems(1) block_field.hyps(1) [unfolded h] ph(1) block_field.prems(3) add(1) here(1) sz])
  from block_field.IH [OF s(1) ph(2) s(2) add(2) here(2)] block_field.prems(6) s(3) show ?case by auto
qed


subsection \<open>Properties of the decoder\<close>

text \<open>
  Claim C4. The decoder on a block of representations relative to its dynamic table (\<open>block_repr\<close>): size
  updates in front, then indexed fields and literals with or without indexing, with new or known names
  and raw or Huffman coded strings, every integer in its shortest form and every entry to be stored no
  larger than the table. If the strings are printable and fit the decoder's buffers and the headers fit
  the list, the decoder returns the length of the block, its table holds what the representations
  prescribe, and the headers are added in order as \<open>add_fields\<close> describes: headers with an empty value
  are skipped, one whose name an earlier one is equal to or a prefix of is joined to it. If no names
  collide in this way, the list has grown by exactly the headers with a name and a value.
\<close>

theorem decode_represented_block:
  assumes "block_repr True a c hs a'" "table_rel t a" "list_all decodable hs" "hl_rel H acc"
    "add_fields acc hs = Some acc'" "code_here m q c"
  shows "\<exists>t' H'. hpack_decoder_decode t m q (int (length c)) H = Some (t', H', int (length c)) \<and>
    table_rel t' a' \<and> hl_rel H' acc' \<and>
    (separate (acc @ filter nonempty hs) \<longrightarrow> acc' = acc @ filter nonempty hs)"
  using decode_block_correct [OF assms(1-5), of m q 0 "length c"] assms(6) add_fields_appends [OF assms(5)]
  by (auto simp: hpack_decoder_decode_def)

text \<open>A block of two bytes: a size update to 0 and the second entry of the static table.\<close>

theorem decode_represented_block_witness:
  "\<exists>t' H'. hpack_decoder_decode example_table [0x20, 0x82] 0 2 example_list = Some (t', H', 2) \<and>
     table_rel t' (0, 64, []) \<and> hl_rel H' (example_headers @ [(lit '':method'', lit ''GET'')])"
proof -
  let ?c = "coded_int DYNAMIC_TABLE_SIZE_UPDATE 0 @ coded_int INDEXED_HEADER_FIELD 2 @ []"
  have c: "?c = [0x20, 0x82]" by (simp add: coded_int_def int_code_def Let_def)
  have e: "entry_at [] 2 = Some (lit '':method'', lit ''GET'')"
    by (simp add: entry_at_def snames_def svalues_def static_names_def static_values_def)
  have ev: "evict 0 example_entries = []"
    by (simp add: evict.simps example_entries_def entry_size_def)
  have "block_repr True (64, 64, example_entries) ?c [(lit '':method'', lit ''GET'')] (0, 64, [])"
    by (rule block_update, simp, simp, unfold ev, rule block_field, rule indexed [OF e])
      (simp add: HPACK_MAXIMUM_INTEGER_def, rule block_end)
  moreover have "table_rel example_table (64, 64, example_entries)"
    using example_rel by (simp add: example_table_def)
  moreover have "list_all decodable [(lit '':method'', lit ''GET'')]"
    by (simp add: decodable_def lit_def HPACK_HEADER_NAME_LEN_def HPACK_HEADER_VALUE_LEN_def)
  moreover have "add_fields example_headers [(lit '':method'', lit ''GET'')] =
      Some (example_headers @ [(lit '':method'', lit ''GET'')])"
    by (simp add: add_hs_def append_hs_def example_headers_def name_starts_def tolower_def lit_def
        HEADER_LIST_MAX_SIZE_def)
  moreover have "code_here [0x20, 0x82] 0 ?c" unfolding c by (simp add: code_here_def)
  ultimately show ?thesis
    using decode_represented_block [of "(64, 64, example_entries)" ?c] example_list_rel unfolding c by fastforce
qed

subsection \<open>Inputs the decoder treats differently from RFC 7541\<close>

text \<open>A header with an empty value is accepted but not added to the list.\<close>

lemma empty_value_dropped:
  assumes "table_rel t a" "code_here m q (coded_int INDEXED_HEADER_FIELD 1)"
  shows "hpack_decoder_decode t m q 1 H = Some (t, H, 1)"
proof -
  obtain M S es where a: "a = (M, S, es)" by (cases a)
  have c: "coded_int INDEXED_HEADER_FIELD 1 = [0x81]" by (simp add: coded_int_def int_code_def Let_def)
  have "entry_at es 1 = Some (lit '':authority'', [])"
    by (simp add: entry_at_def snames_def svalues_def static_names_def static_values_def lit_def)
  from find_entry_space(1) [OF _ this, of t HPACK_HEADER_NAME_LEN HPACK_HEADER_VALUE_LEN] assms(1)
  have "hpack_tables_find_entry_name_and_value t 1 (replicate HPACK_HEADER_NAME_LEN 0) (replicate HPACK_HEADER_VALUE_LEN 0) =
      Some (padded HPACK_HEADER_NAME_LEN (lit '':authority''), replicate HPACK_HEADER_VALUE_LEN 0, 0)"
    by (simp add: a padded_def lit_def HPACK_HEADER_NAME_LEN_def HPACK_HEADER_VALUE_LEN_def)
  moreover have "(int_code 7 1 :: byte list) = [1]" by (simp add: int_code_def)
  then have "hpack_utils_encoded_integer_size 1 7 = Some 1" using integer_size_max(1) [of 1 7]
    by (simp add: HPACK_MAXIMUM_INTEGER_def)
  ultimately have "hpack_decoder_decode_header t
      (empty_encoded_header\<lparr>eh_preamble := INDEXED_HEADER_FIELD, eh_index := 1\<rparr>) m
      (replicate HPACK_HEADER_NAME_LEN 0) (replicate HPACK_HEADER_VALUE_LEN 0) =
      Some (t, padded HPACK_HEADER_NAME_LEN (lit '':authority''), replicate HPACK_HEADER_VALUE_LEN 0, 1)"
    by (simp add: hpack_decoder_decode_header_def hpack_decoder_decode_indexed_header_field_def)
  moreover have "decode_block_loop t m q 1 H False 1 = Some (t, H, 1)" by (subst decode_block_loop.simps) simp
  ultimately show ?thesis
    unfolding hpack_decoder_decode_def using parse_indexed [OF assms(2)]
    by (subst decode_block_loop.simps)
      (simp add: c [simplified] HPACK_MAXIMUM_INTEGER_def hpack_decoder_check_errors_def Let_def rd_def padded_def lit_def
        HPACK_HEADER_VALUE_LEN_def)
qed

text \<open>
  The buffer for a name has 32 bytes and a raw name of 32 bytes is accepted, so it is not terminated: the
  insertion into the table that follows reads behind the buffer.
\<close>

lemma cstr_None: "nul_free s \<Longrightarrow> cstr s = None"
  by (induction s) auto

lemma full_name_unterminated:
  assumes "length s = HPACK_HEADER_NAME_LEN" "nul_free s" "code_here m q s"
  shows "hpack_decoder_decode_string (replicate HPACK_HEADER_NAME_LEN 0) HPACK_HEADER_NAME_LEN m q
      HPACK_HEADER_NAME_LEN 0 = Some (s, 33) \<and> hpack_tables_dynamic_table_add_entry t s vl = None"
proof -
  have "(int_code 7 32 :: byte list) = [32]" by (simp add: int_code_def)
  then have "hpack_utils_encoded_integer_size 32 7 = Some 1" using integer_size_max(1) [of 32 7]
    by (simp add: HPACK_MAXIMUM_INTEGER_def)
  moreover have "mem_read m q 32 = Some s"
    using assms(1,3) by (simp add: mem_read_def code_here_def HPACK_HEADER_NAME_LEN_def)
  ultimately show ?thesis
    using assms(1,2) by (simp add: hpack_decoder_decode_string_def hpack_decoder_decode_non_huffman_string_def
        mem_write_def overwrite_def HPACK_HEADER_NAME_LEN_def hpack_tables_dynamic_table_add_entry_def strlen_def cstr_None)
qed

end
