(* ===== verification/Hpack.thy ===== *)
theory Hpack
  imports Hpack_Decoder
begin

text \<open>
  \<open>src/src/hpack/hpack.c\<close>, the interface of the codec, and the round trip over whole header blocks: what
  an encoder writes, a decoder with the same table reads back, and the two tables stay the same.
\<close>

definition hpack_decode ::
  "hpack_dynamic_table \<Rightarrow> byte list \<Rightarrow> nat \<Rightarrow> int \<Rightarrow> header_list \<Rightarrow>
   (hpack_dynamic_table \<times> header_list \<times> int) option" where
  "hpack_decode dynamic_table header_block q header_block_size headers =
     hpack_decoder_decode dynamic_table header_block q header_block_size headers"

definition hpack_encode ::
  "hpack_dynamic_table \<Rightarrow> header_list \<Rightarrow> byte list \<Rightarrow> nat \<Rightarrow> (hpack_dynamic_table \<times> byte list \<times> int) option" where
  "hpack_encode dynamic_table headers_out encoded_buffer buffer_size =
     hpack_encoder_encode dynamic_table headers_out encoded_buffer buffer_size"

definition encode_dynamic_size_update ::
  "hpack_dynamic_table \<Rightarrow> u32 \<Rightarrow> byte list \<Rightarrow> nat \<Rightarrow> (hpack_dynamic_table \<times> byte list \<times> int) option" where
  "encode_dynamic_size_update dynamic_table max_size encoded_buffer p =
     hpack_encoder_encode_dynamic_size_update dynamic_table max_size encoded_buffer p"

definition hpack_init :: "hpack_dynamic_table \<Rightarrow> nat \<Rightarrow> hpack_dynamic_table option" where
  "hpack_init dynamic_table settings_max_table_size =
     hpack_tables_init_dynamic_table dynamic_table settings_max_table_size"

text \<open>The result of the resizing is dropped.\<close>

definition hpack_dynamic_change_max_size :: "hpack_dynamic_table \<Rightarrow> u32 \<Rightarrow> hpack_dynamic_table option" where
  "hpack_dynamic_change_max_size dynamic_table incoming_max_table_size =
     (if unat incoming_max_table_size \<le> HPACK_MAX_DYNAMIC_TABLE_SIZE then do {
        let dynamic_table =
          dynamic_table\<lparr>dt_settings_max_table_size := unat incoming_max_table_size\<rparr>;
        (dynamic_table, rc) \<leftarrow>
          hpack_tables_dynamic_table_resize dynamic_table (unat incoming_max_table_size);
        Some dynamic_table
      }
      else Some dynamic_table)"

subsection \<open>The list the decoder builds\<close>

definition printable_header :: "header \<Rightarrow> bool" where
  "printable_header h \<longleftrightarrow> decodable h \<and> nonempty h"

lemma printable_headers: "list_all printable_header hs \<Longrightarrow> list_all decodable hs \<and> filter nonempty hs = hs"
  by (induction hs) (auto simp: printable_header_def)

lemma printable_short: "printable_header h \<Longrightarrow> short_header h"
  by (simp add: printable_header_def decodable_def nonempty_def short_header_def printable_nul_free)

lemma flat_le_block_room: "length (flat hs) \<le> block_room hs"
  by (induction hs) (auto simp: block_room_def field_room_def)

subsection \<open>Properties\<close>

text \<open>
  Claim C1. Round trip of header blocks. Let an encoder and a decoder hold the same dynamic table. For every
  list of printable headers that fits (names below 32, values below 64 bytes, at most 255 bytes
  altogether with 7 bytes for each header, a buffer of at least 503 bytes, what a frame leaves), \<open>hpack_encode\<close> writes a block
  from which \<open>hpack_decode\<close> recovers exactly the list, with the length of the block as the result of
  both; afterwards the two tables are again the same. It is assumed that no name starts with the name of
  an earlier header and that no header or name merely starts with an entry of the table or another header
  (\<open>compatible\<close>), which the comparisons of the code would confuse.
\<close>

theorem header_block_roundtrip:
  assumes "table_rel te (M, S, es)" "table_rel td (M, S, es)" "M \<le> HPACK_MAX_DYNAMIC_TABLE_SIZE"
    and "hl_rel H hs" "list_all printable_header hs" "compatible es hs" "separate hs" "block_room hs < 256"
    and "503 \<le> length m" "503 \<le> buffer_size" "hl_rel H0 []"
  shows "\<exists>te' td' m' len H' a'. hpack_encode te H m buffer_size = Some (te', m', int len) \<and>
    len \<le> block_room hs \<and> length m' = length m \<and>
    hpack_decode td m' 0 (int len) H0 = Some (td', H', int len) \<and> hl_rel H' hs \<and>
    table_rel te' a' \<and> table_rel td' a'"
proof -
  have te: "dt_rel te es" "dt_max_size te = M" "dt_settings_max_table_size te = S" using assms(1) by simp_all
  obtain te' m' c es' where e: "hpack_encoder_encode te H m buffer_size = Some (te', m', int (length c))"
    "block_repr True (M, S, es) c hs (M, S, es')" "table_rel te' (M, S, es')" "code_here m' 0 c"
    "length m' = length m" "length c \<le> block_room hs"
    using encode_block_correct [OF te(1) assms(6) _ assms(4,8-10), of True] te assms(3) by auto
  have "length (flat ([] @ hs)) \<le> HEADER_LIST_MAX_SIZE"
    using flat_le_block_room [of hs] assms(8) by (simp add: HEADER_LIST_MAX_SIZE_def)
  moreover have d: "list_all decodable hs" "filter nonempty hs = hs" using printable_headers [OF assms(5)] by blast+
  ultimately have "add_fields [] hs = Some hs" using add_fields_separate [of "[]" hs] assms(7) by simp
  from decode_block_correct [OF e(2) assms(2) d(1) assms(11) this, of m' 0 0 "length c"] e(4)
  obtain td' H' where "hpack_decode td m' 0 (int (length c)) H0 = Some (td', H', int (length c))"
    "table_rel td' (M, S, es')" "hl_rel H' hs"
    by (auto simp: hpack_decode_def hpack_decoder_decode_def)
  with e show ?thesis unfolding hpack_encode_def by blast
qed

definition empty_table :: hpack_dynamic_table where
  "empty_table = \<lparr>dt_max_size = 128, dt_first = 0, dt_next = 0, dt_actual_size = 0, dt_n_entries = 0,
     dt_settings_max_table_size = 128, dt_buffer = replicate 128 0\<rparr>"

definition empty_list :: header_list where
  "empty_list = \<lparr>hl_buffer = replicate 512 0, hl_count = 0, hl_size = 0\<rparr>"

lemma example_encodable:
  "table_rel empty_table (128, 128, [])" "(128 :: nat) \<le> HPACK_MAX_DYNAMIC_TABLE_SIZE"
  "compatible [] example_headers" "block_room example_headers < 256"
proof -
  show "table_rel empty_table (128, 128, [])" by (simp add: empty_table_def dt_rel_def)
  show "(128 :: nat) \<le> HPACK_MAX_DYNAMIC_TABLE_SIZE" by (simp add: HPACK_MAX_DYNAMIC_TABLE_SIZE_def)
  show "compatible [] example_headers"
    unfolding compatible_def exact_def
    by (simp add: example_headers_def short_header_def lit_def nul_free_def entry_matches_def name_matches_def
        HPACK_HEADER_NAME_LEN_def HPACK_HEADER_VALUE_LEN_def)
  show "block_room example_headers < 256" by (simp add: example_headers_def lit_def block_room_def field_room_def)
qed

theorem header_block_roundtrip_witness:
  "\<exists>te' td' m' len H' a'. hpack_encode empty_table example_list (replicate 512 9) 512 = Some (te', m', int len) \<and>
     hpack_decode empty_table m' 0 (int len) empty_list = Some (td', H', int len) \<and>
     hl_rel H' [(lit ''age'', lit ''7''), (lit ''host'', lit ''a'')] \<and> table_rel te' a' \<and> table_rel td' a'"
proof -
  have p: "list_all printable_header example_headers"
    by (simp add: example_headers_def printable_header_def decodable_def nonempty_def lit_def HPACK_HEADER_NAME_LEN_def
        HPACK_HEADER_VALUE_LEN_def)
  have s: "separate example_headers" by (simp add: example_headers_def separate_def name_starts_def tolower_def lit_def)
  have h: "hl_rel empty_list []" by (simp add: hl_rel_def empty_list_def HEADER_LIST_MAX_SIZE_def)
  note ex = example_encodable
  from header_block_roundtrip [OF ex(1,1,2) example_list_rel p ex(3) s ex(4) _ _ h, of "replicate 512 9" 512]
  show ?thesis unfolding example_headers_def by fastforce
qed

lemma change_max_size_resizes:
  assumes "table_rel t (M, S, es)" "length (dt_buffer t) = HPACK_MAX_DYNAMIC_TABLE_SIZE"
  shows "\<exists>t'. hpack_dynamic_change_max_size t new = Some t' \<and>
    length (dt_buffer t') = HPACK_MAX_DYNAMIC_TABLE_SIZE \<and>
    table_rel t' (if unat new \<le> HPACK_MAX_DYNAMIC_TABLE_SIZE then (unat new, unat new, evict (unat new) es)
                  else (M, S, es))"
proof (cases "unat new \<le> HPACK_MAX_DYNAMIC_TABLE_SIZE")
  case True
  let ?t = "t\<lparr>dt_settings_max_table_size := unat new\<rparr>"
  have "dt_rel ?t es" using assms True by (auto simp: dt_rel_def)
  from resize_correct [OF this, of "unat new"] True show ?thesis
    by (auto simp: hpack_dynamic_change_max_size_def Let_def assms(2))
next
  case False
  with assms show ?thesis by (simp add: hpack_dynamic_change_max_size_def)
qed

text \<open>
  Claim C21. A change of the table size by the settings of the peer keeps the table well formed: a size up
  to the capacity becomes the size and the limit, and the newest entries that fit are kept; a larger one
  is ignored.
\<close>

theorem change_max_size_correct:
  assumes "table_rel t (M, S, es)" "length (dt_buffer t) = HPACK_MAX_DYNAMIC_TABLE_SIZE"
  shows "\<exists>t'. hpack_dynamic_change_max_size t new = Some t' \<and>
    length (dt_buffer t') = HPACK_MAX_DYNAMIC_TABLE_SIZE \<and>
    table_rel t' (if unat new \<le> HPACK_MAX_DYNAMIC_TABLE_SIZE then (unat new, unat new, evict (unat new) es)
                  else (M, S, es))"
  using assms by (rule change_max_size_resizes)

theorem change_max_size_correct_witness:
  "\<exists>t'. hpack_dynamic_change_max_size
      (empty_table\<lparr>dt_buffer := replicate 4096 0\<rparr>) 64 = Some t' \<and> table_rel t' (64, 64, [])"
proof -
  have "table_rel (empty_table\<lparr>dt_buffer := replicate 4096 0\<rparr>) (128, 128, [])"
    by (simp add: empty_table_def dt_rel_def)
  from change_max_size_correct [OF this, of 64] show ?thesis
    by (auto simp: HPACK_MAX_DYNAMIC_TABLE_SIZE_def evict_fits)
qed

subsection \<open>Limits of the encoder\<close>

text \<open>
  The counter of the debugging loop is one byte wide: as soon as a block has 256 bytes the loop never ends.
\<close>

lemma encode_loop_diverges:
  assumes "hpack_encoder_pack_header empty_encoded_header t (drop n (hl_buffer H)) (drop v (hl_buffer H)) = Some (eh, t')"
    "hpack_encoder_encode_header eh (drop n (hl_buffer H)) (drop v (hl_buffer H)) m p buffer_size = Some (m', rc)"
    "256 \<le> rc + int p"
  shows "encode_headers_loop t H ((n, v) # hs) m buffer_size (int p) = None"
  using assms by (simp add: Let_def)

end
