(* ===== verification/Cbuf.thy ===== *)
theory Cbuf
  imports Prelude
begin

text \<open>
  \<open>src/src/cbuf.c\<close>: the circular byte buffer behind every socket read and write. The record has the
  fields of \<open>cbuf_t\<close>; the memory region \<open>ptr\<close> points to is a byte list. \<open>cbuf_contents\<close> is the byte
  sequence the buffer holds, oldest byte first, and the lemmas show that push, pop and peek act on
  it as a bounded FIFO does. The loops of the source end only if each round copies at least one
  byte, so they are partial functions; the lemmas prove that they return on every well-formed
  buffer.
\<close>

datatype cbuf_state = CBUF_OPEN | CBUF_ENDED

record cbuf =
  cb_ptr :: "byte list"
  cb_maxlen :: int
  cb_len :: int
  cb_head :: int
  cb_tail :: int
  cb_state :: cbuf_state

definition cbuf_init :: "byte list \<Rightarrow> int \<Rightarrow> cbuf" where
  "cbuf_init buf maxlen = \<lparr>cb_ptr = buf, cb_maxlen = maxlen, cb_len = 0, cb_head = 0, cb_tail = 0,
     cb_state = CBUF_OPEN\<rparr>"

subsection \<open>Push\<close>

text \<open>\<open>src\<close> is the source region from the current \<open>src\<close> pointer on.\<close>

definition push_copylen :: "cbuf \<Rightarrow> int \<Rightarrow> int" where
  "push_copylen cb len =
     (if cb_head cb < cb_tail cb then min len (cb_tail cb - cb_head cb)
      else min len (cb_maxlen cb - cb_head cb))"

partial_function (option) cbuf_push_loop ::
  "cbuf \<Rightarrow> byte list \<Rightarrow> int \<Rightarrow> int \<Rightarrow> (cbuf \<times> int) option" where
  "cbuf_push_loop cb src len bytes =
     (if len > 0 \<and> cb_len cb < cb_maxlen cb \<and> cb_state cb = CBUF_OPEN then do {
        p \<leftarrow> memcpy (cb_ptr cb) (cb_head cb) src 0 (push_copylen cb len);
        h \<leftarrow> c_rem (cb_head cb + push_copylen cb len) (cb_maxlen cb);
        cbuf_push_loop
          (cb\<lparr>cb_ptr := p, cb_head := h, cb_len := cb_len cb + push_copylen cb len\<rparr>)
          (drop (nat (push_copylen cb len)) src)
          (len - push_copylen cb len)
          (bytes + push_copylen cb len)
      } else Some (cb, bytes))"

declare cbuf_push_loop.simps [code]

definition cbuf_push :: "cbuf \<Rightarrow> byte list \<Rightarrow> int \<Rightarrow> (cbuf \<times> int) option" where
  "cbuf_push cb src len = cbuf_push_loop cb src len 0"

subsection \<open>Pop and peek\<close>

text \<open>
  The destination is \<open>None\<close> for a null pointer, else the region and how much of it is filled. Pop and
  peek run the same loop on \<open>(tail, len)\<close>; pop then stores both back.
\<close>

definition pop_copylen :: "cbuf \<Rightarrow> int \<Rightarrow> int \<Rightarrow> int" where
  "pop_copylen cb tail len =
     (if tail < cb_head cb then min len (cb_head cb - tail) else min len (cb_maxlen cb - tail))"

definition copy_out :: "cbuf \<Rightarrow> int \<Rightarrow> byte list option \<Rightarrow> int \<Rightarrow> int \<Rightarrow> byte list option option" where
  "copy_out cb tail dst bytes n =
     (case dst of None \<Rightarrow> Some None
      | Some d \<Rightarrow> map_option Some (memcpy d bytes (cb_ptr cb) tail n))"

partial_function (option) cbuf_pop_loop ::
  "cbuf \<Rightarrow> byte list option \<Rightarrow> int \<Rightarrow> int \<Rightarrow> (cbuf \<times> byte list option \<times> int) option" where
  "cbuf_pop_loop cb dst len bytes =
     (if len > 0 \<and> cb_len cb > 0 then do {
        d \<leftarrow> copy_out cb (cb_tail cb) dst bytes (pop_copylen cb (cb_tail cb) len);
        t \<leftarrow> c_rem (cb_tail cb + pop_copylen cb (cb_tail cb) len) (cb_maxlen cb);
        cbuf_pop_loop
          (cb\<lparr>cb_tail := t, cb_len := cb_len cb - pop_copylen cb (cb_tail cb) len\<rparr>)
          d (len - pop_copylen cb (cb_tail cb) len)
          (bytes + pop_copylen cb (cb_tail cb) len)
      } else Some (cb, dst, bytes))"

declare cbuf_pop_loop.simps [code]

definition cbuf_pop :: "cbuf \<Rightarrow> byte list option \<Rightarrow> int \<Rightarrow> (cbuf \<times> byte list option \<times> int) option" where
  "cbuf_pop cb dst len = cbuf_pop_loop cb dst len 0"

partial_function (option) cbuf_peek_loop ::
  "cbuf \<Rightarrow> int \<Rightarrow> int \<Rightarrow> byte list option \<Rightarrow> int \<Rightarrow> int \<Rightarrow> (byte list option \<times> int) option" where
  "cbuf_peek_loop cb cbuflen tail dst len bytes =
     (if len > 0 \<and> cbuflen > 0 then do {
        d \<leftarrow> copy_out cb tail dst bytes (pop_copylen cb tail len);
        t \<leftarrow> c_rem (tail + pop_copylen cb tail len) (cb_maxlen cb);
        cbuf_peek_loop cb (cbuflen - pop_copylen cb tail len) t
          d (len - pop_copylen cb tail len) (bytes + pop_copylen cb tail len)
      } else Some (dst, bytes))"

declare cbuf_peek_loop.simps [code]

definition cbuf_peek :: "cbuf \<Rightarrow> byte list option \<Rightarrow> int \<Rightarrow> (byte list option \<times> int) option" where
  "cbuf_peek cb dst len = cbuf_peek_loop cb (cb_len cb) (cb_tail cb) dst len 0"

subsection \<open>The remaining operations\<close>

definition cbuf_len :: "cbuf \<Rightarrow> int" where
  "cbuf_len cb = cb_len cb"

definition cbuf_maxlen :: "cbuf \<Rightarrow> int" where
  "cbuf_maxlen cb = cb_maxlen cb"

definition cbuf_end :: "cbuf \<Rightarrow> cbuf" where
  "cbuf_end cb = cb\<lparr>cb_state := CBUF_ENDED\<rparr>"

definition cbuf_has_ended :: "cbuf \<Rightarrow> bool" where
  "cbuf_has_ended cb \<longleftrightarrow> cb_state cb = CBUF_ENDED"

subsection \<open>Well-formedness and abstraction\<close>

definition cbuf_wf :: "cbuf \<Rightarrow> bool" where
  "cbuf_wf cb \<longleftrightarrow> 0 < cb_maxlen cb \<and> nat (cb_maxlen cb) \<le> length (cb_ptr cb) \<and>
     0 \<le> cb_len cb \<and> cb_len cb \<le> cb_maxlen cb \<and>
     0 \<le> cb_tail cb \<and> cb_tail cb < cb_maxlen cb \<and>
     cb_head cb = (cb_tail cb + cb_len cb) mod cb_maxlen cb"

definition cbuf_contents :: "cbuf \<Rightarrow> byte list" where
  "cbuf_contents cb =
     map (\<lambda>i. cb_ptr cb ! nat ((cb_tail cb + int i) mod cb_maxlen cb)) [0..<nat (cb_len cb)]"

lemma length_cbuf_contents [simp]: "length (cbuf_contents cb) = nat (cb_len cb)"
  by (simp add: cbuf_contents_def)

lemma nth_cbuf_contents:
  "i < nat (cb_len cb) \<Longrightarrow>
   cbuf_contents cb ! i = cb_ptr cb ! nat ((cb_tail cb + int i) mod cb_maxlen cb)"
  by (simp add: cbuf_contents_def)

lemma cbuf_wf_head:
  assumes "cbuf_wf cb"
  shows "0 \<le> cb_head cb" "cb_head cb < cb_maxlen cb"
    "cb_tail cb + cb_len cb = cb_head cb \<or> cb_tail cb + cb_len cb = cb_head cb + cb_maxlen cb"
proof -
  let ?m = "cb_maxlen cb" and ?s = "cb_tail cb + cb_len cb"
  have m: "0 < ?m" and h: "cb_head cb = ?s mod ?m" and s: "0 \<le> ?s" "?s < 2 * ?m"
    using assms by (auto simp: cbuf_wf_def)
  then show "0 \<le> cb_head cb" "cb_head cb < ?m" by auto
  show "?s = cb_head cb \<or> ?s = cb_head cb + ?m"
  proof (cases "?s < ?m")
    case True
    with s h show ?thesis by simp
  next
    case False
    with s have "?s mod ?m = ?s - ?m"
      by (intro int_mod_pos_eq [where q = 1]) auto
    with h show ?thesis by simp
  qed
qed

text \<open>How much one round of push moves: something, never more than asked for or than fits.\<close>

lemma push_copylen_bounds:
  assumes "cbuf_wf cb" "0 < len" "cb_len cb < cb_maxlen cb"
  shows "0 < push_copylen cb len" "push_copylen cb len \<le> len"
    "cb_len cb + push_copylen cb len \<le> cb_maxlen cb"
    "cb_head cb + push_copylen cb len \<le> cb_maxlen cb"
  using assms cbuf_wf_head [OF assms(1)] by (auto simp: push_copylen_def cbuf_wf_def)

definition push_step :: "cbuf \<Rightarrow> byte list \<Rightarrow> int \<Rightarrow> cbuf" where
  "push_step cb src n = cb\<lparr>cb_ptr := overwrite (cb_ptr cb) (nat (cb_head cb)) (take (nat n) src),
     cb_head := (cb_head cb + n) mod cb_maxlen cb, cb_len := cb_len cb + n\<rparr>"

lemma push_step_simps [simp]:
  "cb_maxlen (push_step cb src n) = cb_maxlen cb" "cb_len (push_step cb src n) = cb_len cb + n"
  "cb_state (push_step cb src n) = cb_state cb" "cb_tail (push_step cb src n) = cb_tail cb"
  by (simp_all add: push_step_def)

lemma push_loop_step:
  assumes "cbuf_wf cb" "0 < len" "cb_len cb < cb_maxlen cb" "cb_state cb = CBUF_OPEN"
    "nat len \<le> length src"
  shows "cbuf_push_loop cb src len bytes =
    (let n = push_copylen cb len
     in cbuf_push_loop (push_step cb src n) (drop (nat n) src) (len - n) (bytes + n))"
proof -
  note b = push_copylen_bounds [OF assms(1-3)] and h = cbuf_wf_head [OF assms(1)]
  from assms(1) have "nat (cb_maxlen cb) \<le> length (cb_ptr cb)" by (simp add: cbuf_wf_def)
  with b h assms(5) have "nat (push_copylen cb len) \<le> length src"
    "nat (cb_head cb) + nat (push_copylen cb len) \<le> length (cb_ptr cb)"
    by linarith+
  with b h have
    "memcpy (cb_ptr cb) (cb_head cb) src 0 (push_copylen cb len) =
       Some (overwrite (cb_ptr cb) (nat (cb_head cb)) (take (nat (push_copylen cb len)) src))"
    by (simp add: memcpy_eq_Some_iff)
  with b h assms show ?thesis
    by (subst cbuf_push_loop.simps) (simp add: Let_def push_step_def mem_simps cbuf_wf_def)
qed

lemma push_step_length:
  assumes "cbuf_wf cb" "0 \<le> n" "nat n \<le> length src" "cb_head cb + n \<le> cb_maxlen cb"
  shows "length (cb_ptr (push_step cb src n)) = length (cb_ptr cb)"
proof -
  have "nat (cb_maxlen cb) \<le> length (cb_ptr cb)" using assms(1) by (simp add: cbuf_wf_def)
  with assms cbuf_wf_head(1) [OF assms(1)]
  have "nat (cb_head cb) + nat n \<le> length (cb_ptr cb)" by linarith
  with assms(3) show ?thesis by (simp add: push_step_def min_def)
qed

lemma push_step_wf:
  assumes "cbuf_wf cb" "0 \<le> n" "nat n \<le> length src" "cb_len cb + n \<le> cb_maxlen cb"
    "cb_head cb + n \<le> cb_maxlen cb"
  shows "cbuf_wf (push_step cb src n)"
proof -
  have "nat (cb_head cb) + nat n \<le> length (cb_ptr cb)"
    using assms cbuf_wf_head [OF assms(1)] by (auto simp: cbuf_wf_def)
  with assms show ?thesis
    by (auto simp: cbuf_wf_def push_step_def min_def mod_add_left_eq add.assoc)
qed

lemma push_step_contents:
  assumes "cbuf_wf cb" "0 \<le> n" "nat n \<le> length src" "cb_len cb + n \<le> cb_maxlen cb"
    "cb_head cb + n \<le> cb_maxlen cb"
  shows "cbuf_contents (push_step cb src n) = cbuf_contents cb @ take (nat n) src"
proof (rule nth_equalityI)
  let ?m = "cb_maxlen cb" and ?t = "cb_tail cb" and ?l = "cb_len cb"
  note h = cbuf_wf_head [OF assms(1)]
  from assms(1) have wf: "0 < ?m" "nat ?m \<le> length (cb_ptr cb)" "0 \<le> ?l" "0 \<le> ?t"
    "cb_head cb = (?t + ?l) mod ?m" by (auto simp: cbuf_wf_def)
  with assms h have fit: "nat (cb_head cb) + nat n \<le> length (cb_ptr cb)" by simp
  show "length (cbuf_contents (push_step cb src n)) = length (cbuf_contents cb @ take (nat n) src)"
    using assms wf by (auto simp: nat_add_distrib)
  fix i
  assume "i < length (cbuf_contents (push_step cb src n))"
  then have i: "i < nat (?l + n)" by simp
  let ?p = "(?t + int i) mod ?m"
  have p: "0 \<le> ?p" "?p < ?m" using wf by auto
  have hm: "(cb_head cb + j) mod ?m = (?t + (?l + j)) mod ?m" for j
    unfolding wf(5) by (simp add: mod_add_left_eq add.assoc)
  have "cbuf_contents (push_step cb src n) ! i =
      overwrite (cb_ptr cb) (nat (cb_head cb)) (take (nat n) src) ! nat ?p"
    using i by (simp add: nth_cbuf_contents) (simp add: push_step_def)
  also have "\<dots> = (if cb_head cb \<le> ?p \<and> ?p < cb_head cb + n then src ! nat (?p - cb_head cb)
      else cb_ptr cb ! nat ?p)"
    using assms(2,3) fit p h(1) wf(2) by (intro nth_overwrite_int) auto
  also have "\<dots> = (cbuf_contents cb @ take (nat n) src) ! i"
  proof (cases "i < nat ?l")
    case True
    have "\<not> (cb_head cb \<le> ?p \<and> ?p < cb_head cb + n)"
    proof
      assume a: "cb_head cb \<le> ?p \<and> ?p < cb_head cb + n"
      define j where "j = ?p - cb_head cb"
      with a have j: "0 \<le> j" "j < n" and "?p = cb_head cb + j" by auto
      with p have "(?t + int i) mod ?m = (cb_head cb + j) mod ?m"
        by (metis mod_pos_pos_trivial)
      with hm have "(?t + int i) mod ?m = (?t + (?l + j)) mod ?m" by simp
      then have "int i = ?l + j"
        by (rule mod_add_cancel_bounded) (use True j assms(4) wf(3) in linarith)+
      with True j show False by simp
    qed
    then show ?thesis using True by (auto simp: nth_append nth_cbuf_contents)
  next
    case False
    define j where "j = int i - ?l"
    with False i wf have j: "0 \<le> j" "j < n" "int i = ?l + j" by auto
    have "?p = (cb_head cb + j) mod ?m"
      using hm [of j] j(3) by simp
    also have "\<dots> = cb_head cb + j"
      using j h assms(5) by (intro mod_pos_pos_trivial) auto
    finally have "?p = cb_head cb + j" .
    moreover have "i - nat ?l = nat j" "nat j < nat n" using j wf by linarith+
    ultimately show ?thesis using j False by (simp add: nth_append)
  qed
  finally show "cbuf_contents (push_step cb src n) ! i =
    (cbuf_contents cb @ take (nat n) src) ! i" .
qed

text \<open>
  Push in full: it returns, the buffer stays well formed, it takes as many bytes as fit (none once
  the buffer has ended) and appends them to the contents.
\<close>

definition push_room :: "cbuf \<Rightarrow> int \<Rightarrow> int" where
  "push_room cb len =
     (if cb_state cb = CBUF_OPEN then max 0 (min len (cb_maxlen cb - cb_len cb)) else 0)"

lemma push_loop_correct:
  assumes "cbuf_wf cb" "nat len \<le> length src"
  shows "\<exists>cb'. cbuf_push_loop cb src len bytes = Some (cb', bytes + push_room cb len) \<and>
    cbuf_wf cb' \<and> cbuf_contents cb' = cbuf_contents cb @ take (nat (push_room cb len)) src \<and>
    cb_maxlen cb' = cb_maxlen cb \<and> cb_state cb' = cb_state cb \<and> cb_tail cb' = cb_tail cb \<and>
    length (cb_ptr cb') = length (cb_ptr cb)"
  using assms
proof (induction "nat len" arbitrary: cb src len bytes rule: less_induct)
  case less
  show ?case
  proof (cases "0 < len \<and> cb_len cb < cb_maxlen cb \<and> cb_state cb = CBUF_OPEN")
    case False
    with less.prems show ?thesis
      by (subst cbuf_push_loop.simps) (auto simp: push_room_def cbuf_wf_def)
  next
    case True
    define n where "n = push_copylen cb len"
    define cb1 where "cb1 = push_step cb src n"
    note b = push_copylen_bounds [OF less.prems(1), of len, folded n_def]
    have n: "0 < n" "n \<le> len" "nat n \<le> length src" "cb_len cb + n \<le> cb_maxlen cb"
      "cb_head cb + n \<le> cb_maxlen cb"
      using b True less.prems(2) by auto
    have wf1: "cbuf_wf cb1"
      and con1: "cbuf_contents cb1 = cbuf_contents cb @ take (nat n) src"
      using push_step_wf [OF less.prems(1) _ n(3-5)] push_step_contents [OF less.prems(1) _ n(3-5)]
        n(1) by (auto simp: cb1_def)
    have "nat (len - n) < nat len" "nat (len - n) \<le> length (drop (nat n) src)"
      using n less.prems(2) by auto
    from less.hyps [OF this(1) wf1 this(2), of "bytes + n"]
    obtain cb' where c: "cbuf_push_loop cb1 (drop (nat n) src) (len - n) (bytes + n) =
        Some (cb', bytes + n + push_room cb1 (len - n))"
      "cbuf_wf cb'" "cbuf_contents cb' =
        cbuf_contents cb1 @ take (nat (push_room cb1 (len - n))) (drop (nat n) src)"
      "cb_maxlen cb' = cb_maxlen cb1" "cb_state cb' = cb_state cb1" "cb_tail cb' = cb_tail cb1"
      "length (cb_ptr cb') = length (cb_ptr cb1)"
      by blast
    have room: "n + push_room cb1 (len - n) = push_room cb len" "0 \<le> push_room cb1 (len - n)"
      using True n by (auto simp: push_room_def cb1_def)
    then have "take (nat n) src @ take (nat (push_room cb1 (len - n))) (drop (nat n) src) =
        take (nat (push_room cb len)) src"
      using n(1) by (simp flip: room(1) add: nat_add_distrib take_add)
    moreover have "length (cb_ptr cb1) = length (cb_ptr cb)"
      unfolding cb1_def by (rule push_step_length [OF less.prems(1) _ n(3,5)]) (use n in simp)
    moreover have "cbuf_push_loop cb src len bytes =
        cbuf_push_loop cb1 (drop (nat n) src) (len - n) (bytes + n)"
      using push_loop_step [OF less.prems(1)] True less.prems(2)
      by (simp add: Let_def n_def cb1_def)
    ultimately show ?thesis
      using c con1 room by (auto simp: cb1_def add.assoc)
  qed
qed

lemma cbuf_push_correct:
  assumes "cbuf_wf cb" "nat len \<le> length src"
  obtains cb' where "cbuf_push cb src len = Some (cb', push_room cb len)" "cbuf_wf cb'"
    "cbuf_contents cb' = cbuf_contents cb @ take (nat (push_room cb len)) src"
    "cb_maxlen cb' = cb_maxlen cb" "cb_state cb' = cb_state cb"
    "length (cb_ptr cb') = length (cb_ptr cb)"
  using push_loop_correct [OF assms, of 0] by (auto simp: cbuf_push_def)

text \<open>Whatever the length of the source: a push that returns keeps the buffer well formed.\<close>

lemma push_loop_keeps:
  "cbuf_push_loop cb src len bytes = Some (cb', r) \<Longrightarrow> cbuf_wf cb \<Longrightarrow>
   cbuf_wf cb' \<and> cb_len cb' = cb_len cb + (r - bytes) \<and> bytes \<le> r"
proof (induction "nat len" arbitrary: cb src len bytes rule: less_induct)
  case less
  show ?case
  proof (cases "0 < len \<and> cb_len cb < cb_maxlen cb \<and> cb_state cb = CBUF_OPEN")
    case False
    with less.prems show ?thesis by (subst (asm) cbuf_push_loop.simps) auto
  next
    case True
    define n where "n = push_copylen cb len"
    note b = push_copylen_bounds [OF less.prems(2), of len, folded n_def]
    have n: "0 < n" "n \<le> len" "cb_len cb + n \<le> cb_maxlen cb" "cb_head cb + n \<le> cb_maxlen cb" using b True by auto
    from less.prems(1) True obtain p h where p: "memcpy (cb_ptr cb) (cb_head cb) src 0 n = Some p"
      "c_rem (cb_head cb + n) (cb_maxlen cb) = Some h"
      "cbuf_push_loop (cb\<lparr>cb_ptr := p, cb_head := h, cb_len := cb_len cb + n\<rparr>) (drop (nat n) src) (len - n) (bytes + n) = Some (cb', r)"
      by (subst (asm) cbuf_push_loop.simps) (auto simp: n_def split: Option.bind_splits)
    have src: "nat n \<le> length src" and "cb\<lparr>cb_ptr := p, cb_head := h, cb_len := cb_len cb + n\<rparr> = push_step cb src n"
      using p(1,2) n less.prems(2) cbuf_wf_head(1) [OF less.prems(2)]
      by (auto simp: memcpy_eq_Some_iff push_step_def mem_simps cbuf_wf_def)
    with p(3) less.hyps [of "len - n" "push_step cb src n" "drop (nat n) src" "bytes + n"] push_step_wf [OF less.prems(2) _ src n(3,4)] n show ?thesis
      by auto
  qed
qed

lemma cbuf_push_keeps:
  "cbuf_push cb src len = Some (cb', r) \<Longrightarrow> cbuf_wf cb \<Longrightarrow> cbuf_wf cb' \<and> cb_len cb' = cb_len cb + r \<and> 0 \<le> r"
  using push_loop_keeps [of cb src len 0] by (simp add: cbuf_push_def)

text \<open>Pop: one round moves something, never more than the buffer holds before it wraps.\<close>

lemma pop_copylen_bounds:
  assumes "cbuf_wf cb" "0 < len" "0 < cb_len cb"
  shows "0 < pop_copylen cb (cb_tail cb) len" "pop_copylen cb (cb_tail cb) len \<le> len"
    "pop_copylen cb (cb_tail cb) len \<le> cb_len cb"
    "cb_tail cb + pop_copylen cb (cb_tail cb) len \<le> cb_maxlen cb"
proof -
  have "0 \<le> cb_tail cb" "cb_tail cb < cb_maxlen cb" "cb_len cb \<le> cb_maxlen cb"
    using assms(1) by (auto simp: cbuf_wf_def)
  with cbuf_wf_head [OF assms(1)] assms(2,3) show
    "0 < pop_copylen cb (cb_tail cb) len" "pop_copylen cb (cb_tail cb) len \<le> len"
    "pop_copylen cb (cb_tail cb) len \<le> cb_len cb"
    "cb_tail cb + pop_copylen cb (cb_tail cb) len \<le> cb_maxlen cb"
    by (auto simp: pop_copylen_def min_def)
qed

definition pop_step :: "cbuf \<Rightarrow> int \<Rightarrow> cbuf" where
  "pop_step cb n = cb\<lparr>cb_tail := (cb_tail cb + n) mod cb_maxlen cb, cb_len := cb_len cb - n\<rparr>"

lemma pop_step_simps [simp]:
  "cb_maxlen (pop_step cb n) = cb_maxlen cb" "cb_len (pop_step cb n) = cb_len cb - n"
  "cb_state (pop_step cb n) = cb_state cb" "cb_ptr (pop_step cb n) = cb_ptr cb"
  "cb_head (pop_step cb n) = cb_head cb"
  by (simp_all add: pop_step_def)

lemma pop_step_wf:
  assumes "cbuf_wf cb" "0 \<le> n" "n \<le> cb_len cb"
  shows "cbuf_wf (pop_step cb n)"
  using assms by (auto simp: cbuf_wf_def pop_step_def mod_add_left_eq)

lemma pop_step_contents:
  assumes "cbuf_wf cb" "0 \<le> n" "n \<le> cb_len cb"
  shows "cbuf_contents (pop_step cb n) = drop (nat n) (cbuf_contents cb)"
proof (rule nth_equalityI)
  show "length (cbuf_contents (pop_step cb n)) = length (drop (nat n) (cbuf_contents cb))"
    using assms by (simp add: nat_diff_distrib)
  fix i
  assume "i < length (cbuf_contents (pop_step cb n))"
  then have i: "i < nat (cb_len cb - n)" by simp
  have "(cb_tail (pop_step cb n) + int i) mod cb_maxlen cb =
      (cb_tail cb + int (nat n + i)) mod cb_maxlen cb"
    using assms(2) by (simp add: pop_step_def mod_add_left_eq add.assoc)
  moreover have "nat n + i < nat (cb_len cb)" using i assms(2) by linarith
  ultimately show "cbuf_contents (pop_step cb n) ! i = drop (nat n) (cbuf_contents cb) ! i"
    using i by (simp add: nth_cbuf_contents)
qed

lemma contents_prefix:
  assumes "cbuf_wf cb" "0 \<le> n" "n \<le> cb_len cb" "cb_tail cb + n \<le> cb_maxlen cb"
  shows "take (nat n) (drop (nat (cb_tail cb)) (cb_ptr cb)) = take (nat n) (cbuf_contents cb)"
proof (rule nth_equalityI)
  from assms have "nat (cb_tail cb) + nat n \<le> length (cb_ptr cb)" by (auto simp: cbuf_wf_def)
  with assms show "length (take (nat n) (drop (nat (cb_tail cb)) (cb_ptr cb))) =
      length (take (nat n) (cbuf_contents cb))"
    by simp
  fix i
  assume "i < length (take (nat n) (drop (nat (cb_tail cb)) (cb_ptr cb)))"
  then have i: "i < nat n" "i < length (cb_ptr cb) - nat (cb_tail cb)" by auto
  have "(cb_tail cb + int i) mod cb_maxlen cb = cb_tail cb + int i"
    using assms i by (intro mod_pos_pos_trivial) (auto simp: cbuf_wf_def)
  moreover have "nat (cb_tail cb + int i) = nat (cb_tail cb) + i"
    using assms(1) by (simp add: cbuf_wf_def nat_add_distrib)
  ultimately show "take (nat n) (drop (nat (cb_tail cb)) (cb_ptr cb)) ! i =
      take (nat n) (cbuf_contents cb) ! i"
    using i assms(3) by (simp add: nth_cbuf_contents)
qed

text \<open>The destination after \<open>data\<close> has been written at offset \<open>off\<close>.\<close>

definition filled :: "byte list option \<Rightarrow> int \<Rightarrow> byte list \<Rightarrow> byte list option" where
  "filled dst off data = map_option (\<lambda>d. overwrite d (nat off) data) dst"

definition fits :: "byte list option \<Rightarrow> int \<Rightarrow> int \<Rightarrow> bool" where
  "fits dst off n \<longleftrightarrow> (case dst of None \<Rightarrow> True | Some d \<Rightarrow> nat off + nat n \<le> length d)"

lemma copy_out_correct:
  assumes "cbuf_wf cb" "0 \<le> n" "n \<le> cb_len cb" "cb_tail cb + n \<le> cb_maxlen cb" "0 \<le> off"
    "fits dst off n"
  shows "copy_out cb (cb_tail cb) dst off n = Some (filled dst off (take (nat n) (cbuf_contents cb)))"
proof (cases dst)
  case None
  then show ?thesis by (simp add: copy_out_def filled_def)
next
  case (Some d)
  from assms have "nat (cb_tail cb) + nat n \<le> length (cb_ptr cb)" "0 \<le> cb_tail cb"
    by (auto simp: cbuf_wf_def)
  with assms Some contents_prefix [OF assms(1-4)] show ?thesis
    by (simp add: copy_out_def filled_def fits_def memcpy_def mem_read_def mem_write_def)
qed

lemma filled_filled:
  assumes "0 \<le> off" "fits dst off (int (length xs) + int (length ys))"
  shows "filled (filled dst off xs) (off + int (length xs)) ys = filled dst off (xs @ ys)"
proof -
  have "nat (off + int (length xs)) = nat off + length xs" using assms(1) by simp
  with assms overwrite_overwrite_adjacent [of "nat off" xs ys] show ?thesis
    by (cases dst) (simp_all add: filled_def fits_def nat_add_distrib)
qed

lemma fits_filled:
  assumes "fits dst off (int (length xs) + n)" "0 \<le> off" "0 \<le> n"
  shows "fits (filled dst off xs) (off + int (length xs)) n"
  using assms by (cases dst) (auto simp: fits_def filled_def nat_add_distrib)

definition pop_avail :: "cbuf \<Rightarrow> int \<Rightarrow> int" where
  "pop_avail cb len = max 0 (min len (cb_len cb))"

lemma pop_loop_step:
  assumes "cbuf_wf cb" "0 < len" "0 < cb_len cb" "0 \<le> bytes" "fits dst bytes (pop_avail cb len)"
  shows "cbuf_pop_loop cb dst len bytes =
    (let n = pop_copylen cb (cb_tail cb) len
     in cbuf_pop_loop (pop_step cb n) (filled dst bytes (take (nat n) (cbuf_contents cb)))
          (len - n) (bytes + n))"
proof -
  note b = pop_copylen_bounds [OF assms(1-3)]
  have "fits dst bytes (pop_copylen cb (cb_tail cb) len)"
    using assms(5) b by (cases dst) (auto simp: fits_def pop_avail_def)
  from copy_out_correct [OF assms(1) _ b(3,4) assms(4) this] b assms show ?thesis
    by (subst cbuf_pop_loop.simps) (simp add: Let_def pop_step_def mem_simps cbuf_wf_def)
qed

lemma pop_loop_correct:
  assumes "cbuf_wf cb" "0 \<le> bytes" "fits dst bytes (pop_avail cb len)"
  shows "\<exists>cb'. cbuf_pop_loop cb dst len bytes =
      Some (cb', filled dst bytes (take (nat (pop_avail cb len)) (cbuf_contents cb)),
            bytes + pop_avail cb len) \<and>
    cbuf_wf cb' \<and> cbuf_contents cb' = drop (nat (pop_avail cb len)) (cbuf_contents cb) \<and>
    cb_maxlen cb' = cb_maxlen cb \<and> cb_state cb' = cb_state cb \<and> cb_ptr cb' = cb_ptr cb"
  using assms
proof (induction "nat len" arbitrary: cb dst len bytes rule: less_induct)
  case less
  show ?case
  proof (cases "0 < len \<and> 0 < cb_len cb")
    case False
    with less.prems have "pop_avail cb len = 0" by (auto simp: pop_avail_def cbuf_wf_def)
    with False less.prems show ?thesis
      by (subst cbuf_pop_loop.simps) (auto simp: filled_def option.map_id0 option.map_ident)
  next
    case True
    define n where "n = pop_copylen cb (cb_tail cb) len"
    define dst1 where "dst1 = filled dst bytes (take (nat n) (cbuf_contents cb))"
    note b = pop_copylen_bounds [OF less.prems(1), of len, folded n_def]
    have n: "0 < n" "n \<le> len" "n \<le> cb_len cb" using b True by auto
    have wf1: "cbuf_wf (pop_step cb n)"
      and con1: "cbuf_contents (pop_step cb n) = drop (nat n) (cbuf_contents cb)"
      using pop_step_wf pop_step_contents less.prems(1) n by auto
    have avail: "pop_avail cb len = n + pop_avail (pop_step cb n) (len - n)"
      "0 \<le> pop_avail (pop_step cb n) (len - n)" "pop_avail cb len \<le> cb_len cb"
      using n True by (auto simp: pop_avail_def)
    have len1: "int (length (take (nat n) (cbuf_contents cb))) = n"
      using n by simp
    have fits1: "fits dst1 (bytes + n) (pop_avail (pop_step cb n) (len - n))"
      using fits_filled [of dst bytes "take (nat n) (cbuf_contents cb)"] less.prems(2,3) avail len1
      by (simp add: dst1_def)
    have "nat (len - n) < nat len" "0 \<le> bytes + n" using n less.prems(2) by auto
    from less.hyps [OF this(1) wf1 this(2) fits1]
    obtain cb' where c: "cbuf_pop_loop (pop_step cb n) dst1 (len - n) (bytes + n) =
        Some (cb', filled dst1 (bytes + n) (take (nat (pop_avail (pop_step cb n) (len - n)))
            (drop (nat n) (cbuf_contents cb))), bytes + n + pop_avail (pop_step cb n) (len - n))"
      "cbuf_wf cb'" "cbuf_contents cb' =
        drop (nat (pop_avail (pop_step cb n) (len - n))) (drop (nat n) (cbuf_contents cb))"
      "cb_maxlen cb' = cb_maxlen cb" "cb_state cb' = cb_state cb" "cb_ptr cb' = cb_ptr cb"
      unfolding con1 by auto
    have split: "nat (pop_avail cb len) = nat n + nat (pop_avail (pop_step cb n) (len - n))"
      using avail n by (simp add: nat_add_distrib)
    have "filled dst1 (bytes + n) (take (nat (pop_avail (pop_step cb n) (len - n)))
            (drop (nat n) (cbuf_contents cb))) =
          filled dst bytes (take (nat (pop_avail cb len)) (cbuf_contents cb))"
      using filled_filled [of bytes dst "take (nat n) (cbuf_contents cb)"
          "take (nat (pop_avail (pop_step cb n) (len - n))) (drop (nat n) (cbuf_contents cb))"]
        less.prems(2,3) len1 avail n(1)
      by (simp add: dst1_def nat_add_distrib take_add)
    with c pop_loop_step [OF less.prems(1) _ _ less.prems(2,3)] True split avail show ?thesis
      by (simp add: Let_def n_def [symmetric] dst1_def [symmetric] add.assoc add.commute)
  qed
qed

lemma cbuf_pop_correct:
  assumes "cbuf_wf cb" "fits dst 0 (pop_avail cb len)"
  obtains cb' where "cbuf_pop cb dst len =
      Some (cb', filled dst 0 (take (nat (pop_avail cb len)) (cbuf_contents cb)), pop_avail cb len)"
    "cbuf_wf cb'" "cbuf_contents cb' = drop (nat (pop_avail cb len)) (cbuf_contents cb)"
    "cb_maxlen cb' = cb_maxlen cb" "cb_state cb' = cb_state cb" "cb_ptr cb' = cb_ptr cb"
  using pop_loop_correct [OF assms(1) _ assms(2)] by (auto simp: cbuf_pop_def)

text \<open>
  Peek runs the loop of pop on copies of \<open>len\<close> and \<open>tail\<close>: it returns the same bytes and count,
  and the buffer is not an output of it.
\<close>

lemma peek_loop_eq_pop_loop:
  assumes "cbuf_wf cb" "0 \<le> bytes" "fits dst bytes (pop_avail cb len)"
    "cb_ptr cb0 = cb_ptr cb" "cb_maxlen cb0 = cb_maxlen cb" "cb_head cb0 = cb_head cb"
  shows "cbuf_peek_loop cb0 (cb_len cb) (cb_tail cb) dst len bytes =
    map_option snd (cbuf_pop_loop cb dst len bytes)"
  using assms
proof (induction "nat len" arbitrary: cb dst len bytes rule: less_induct)
  case less
  have same: "pop_copylen cb0 t n = pop_copylen cb t n" "copy_out cb0 t d m n = copy_out cb t d m n"
    for t n d m using less.prems(4-6)
    by (simp_all add: pop_copylen_def copy_out_def cong: option.case_cong)
  show ?case
  proof (cases "0 < len \<and> 0 < cb_len cb")
    case False
    then show ?thesis
      by (subst cbuf_pop_loop.simps, subst cbuf_peek_loop.simps) auto
  next
    case True
    define n where "n = pop_copylen cb (cb_tail cb) len"
    define dst1 where "dst1 = filled dst bytes (take (nat n) (cbuf_contents cb))"
    note b = pop_copylen_bounds [OF less.prems(1), of len, folded n_def]
    have n: "0 < n" "n \<le> len" "n \<le> cb_len cb" "cb_tail cb + n \<le> cb_maxlen cb" using b True by auto
    have wf1: "cbuf_wf (pop_step cb n)" using pop_step_wf less.prems(1) n by auto
    have avail: "pop_avail cb len = n + pop_avail (pop_step cb n) (len - n)"
      "0 \<le> pop_avail (pop_step cb n) (len - n)"
      using n True by (auto simp: pop_avail_def)
    have len1: "int (length (take (nat n) (cbuf_contents cb))) = n" using n by simp
    have fits: "fits dst1 (bytes + n) (pop_avail (pop_step cb n) (len - n))" "fits dst bytes n"
      using fits_filled [of dst bytes "take (nat n) (cbuf_contents cb)"] less.prems(2,3) avail len1 n
      by (auto simp: dst1_def fits_def split: option.splits)
    have "nat (len - n) < nat len" "0 \<le> bytes + n" using n less.prems(2) by auto
    note IH = less.hyps [OF this(1) wf1 this(2) fits(1)]
    have "cbuf_peek_loop cb0 (cb_len cb) (cb_tail cb) dst len bytes =
        cbuf_peek_loop cb0 (cb_len cb - n) ((cb_tail cb + n) mod cb_maxlen cb) dst1 (len - n) (bytes + n)"
      using True n copy_out_correct [OF less.prems(1) _ n(3,4) less.prems(2) fits(2)] less.prems
      by (subst cbuf_peek_loop.simps)
        (simp add: same n_def [symmetric] dst1_def mem_simps cbuf_wf_def)
    also have "\<dots> = map_option snd (cbuf_pop_loop (pop_step cb n) dst1 (len - n) (bytes + n))"
      using IH less.prems by (simp add: pop_step_def)
    also have "cbuf_pop_loop (pop_step cb n) dst1 (len - n) (bytes + n) = cbuf_pop_loop cb dst len bytes"
      using pop_loop_step [OF less.prems(1) _ _ less.prems(2,3)] True
      by (simp add: Let_def n_def dst1_def)
    finally show ?thesis .
  qed
qed

lemma cbuf_peek_correct:
  assumes "cbuf_wf cb" "fits dst 0 (pop_avail cb len)"
  shows "cbuf_peek cb dst len =
    Some (filled dst 0 (take (nat (pop_avail cb len)) (cbuf_contents cb)), pop_avail cb len)"
proof -
  obtain cb' where "cbuf_pop cb dst len =
      Some (cb', filled dst 0 (take (nat (pop_avail cb len)) (cbuf_contents cb)), pop_avail cb len)"
    using cbuf_pop_correct [OF assms] by metis
  with peek_loop_eq_pop_loop [OF assms(1) _ assms(2), of cb] show ?thesis
    by (simp add: cbuf_peek_def cbuf_pop_def)
qed

lemma cbuf_init_wf:
  "0 < maxlen \<Longrightarrow> nat maxlen \<le> length buf \<Longrightarrow> cbuf_wf (cbuf_init buf maxlen)"
  "cbuf_contents (cbuf_init buf maxlen) = []"
  by (simp_all add: cbuf_wf_def cbuf_init_def cbuf_contents_def)

lemma cbuf_end_wf [simp]:
  "cbuf_wf (cbuf_end cb) = cbuf_wf cb" "cbuf_contents (cbuf_end cb) = cbuf_contents cb"
  "cbuf_has_ended (cbuf_end cb)"
  by (simp_all add: cbuf_wf_def cbuf_end_def cbuf_contents_def cbuf_has_ended_def)

subsection \<open>The FIFO interface\<close>

text \<open>
  What the event loop relies on: a bounded byte queue with a push that reports how much it took and
  a pop that hands out the oldest bytes. Inside the locale, for every sequence of operations, the
  bytes popped so far followed by the bytes still queued are exactly the bytes accepted so far:
  nothing is lost, duplicated or reordered.
\<close>

datatype fifo_op = Push "byte list" | Pop nat

text \<open>A run returns the final state, the bytes accepted and the bytes handed out.\<close>

fun fifo_run :: "('s \<Rightarrow> byte list \<Rightarrow> ('s \<times> nat) option) \<Rightarrow> ('s \<Rightarrow> nat \<Rightarrow> ('s \<times> byte list) option) \<Rightarrow>
    's \<Rightarrow> fifo_op list \<Rightarrow> ('s \<times> byte list \<times> byte list) option" where
  "fifo_run push pop s [] = Some (s, [], [])"
| "fifo_run push pop s (Push bs # ops) =
     (case push s bs of None \<Rightarrow> None
      | Some (s', n) \<Rightarrow>
          map_option (\<lambda>(t, ins, outs). (t, take n bs @ ins, outs)) (fifo_run push pop s' ops))"
| "fifo_run push pop s (Pop n # ops) =
     (case pop s n of None \<Rightarrow> None
      | Some (s', bs) \<Rightarrow>
          map_option (\<lambda>(t, ins, outs). (t, ins, bs @ outs)) (fifo_run push pop s' ops))"

locale bounded_fifo =
  fixes invar :: "'s \<Rightarrow> bool"
    and contents :: "'s \<Rightarrow> byte list"
    and room :: "'s \<Rightarrow> nat"
    and push :: "'s \<Rightarrow> byte list \<Rightarrow> ('s \<times> nat) option"
    and pop :: "'s \<Rightarrow> nat \<Rightarrow> ('s \<times> byte list) option"
  assumes push_ok: "invar s \<Longrightarrow> \<exists>s'. push s bs = Some (s', min (length bs) (room s)) \<and> invar s' \<and>
      contents s' = contents s @ take (room s) bs \<and> room s' = room s - length bs"
    and pop_ok: "invar s \<Longrightarrow> \<exists>s'. pop s n = Some (s', take n (contents s)) \<and> invar s' \<and>
      contents s' = drop n (contents s)"
begin

lemma fifo_run_stream:
  "invar s \<Longrightarrow> \<exists>s' ins outs. fifo_run push pop s ops = Some (s', ins, outs) \<and> invar s' \<and>
     contents s @ ins = outs @ contents s'"
proof (induction ops arbitrary: s)
  case Nil
  then show ?case by simp
next
  case (Cons op ops)
  show ?case
  proof (cases op)
    case (Push bs)
    from push_ok [OF Cons.prems, of bs] obtain s' where
      s': "push s bs = Some (s', min (length bs) (room s))" "invar s'"
        "contents s' = contents s @ take (room s) bs"
      by blast
    from Cons.IH [OF s'(2)] s' Push show ?thesis by (auto simp: min_def)
  next
    case (Pop n)
    from pop_ok [OF Cons.prems, of n] obtain s' where
      s': "pop s n = Some (s', take n (contents s))" "invar s'" "contents s' = drop n (contents s)"
      by blast
    from Cons.IH [OF s'(2)] obtain t ins outs where
      "fifo_run push pop s' ops = Some (t, ins, outs)" "invar t" "drop n (contents s) @ ins = outs @ contents t"
      using s'(3) by auto
    moreover from this have "contents s @ ins = (take n (contents s) @ outs) @ contents t"
      by (metis append_assoc append_take_drop_id)
    ultimately show ?thesis using s' Pop by auto
  qed
qed

end

text \<open>The queue the event loop sees: push all of a block, pop into a buffer of the size asked for.\<close>

definition fifo_push :: "cbuf \<Rightarrow> byte list \<Rightarrow> (cbuf \<times> nat) option" where
  "fifo_push cb bs = map_option (\<lambda>(cb', n). (cb', nat n)) (cbuf_push cb bs (int (length bs)))"

definition fifo_pop :: "cbuf \<Rightarrow> nat \<Rightarrow> (cbuf \<times> byte list) option" where
  "fifo_pop cb n = do {
     (cb', dst, m) \<leftarrow> cbuf_pop cb (Some (replicate n 0)) (int n);
     d \<leftarrow> dst;
     Some (cb', take (nat m) d)
   }"

definition fifo_room :: "cbuf \<Rightarrow> nat" where
  "fifo_room cb = (if cb_state cb = CBUF_OPEN then nat (cb_maxlen cb - cb_len cb) else 0)"

lemma fifo_push_ok:
  assumes "cbuf_wf cb"
  shows "\<exists>cb'. fifo_push cb bs = Some (cb', min (length bs) (fifo_room cb)) \<and> cbuf_wf cb' \<and>
    cbuf_contents cb' = cbuf_contents cb @ take (fifo_room cb) bs \<and>
    fifo_room cb' = fifo_room cb - length bs"
proof -
  obtain cb' where c: "cbuf_push cb bs (int (length bs)) = Some (cb', push_room cb (int (length bs)))"
    "cbuf_wf cb'" "cbuf_contents cb' = cbuf_contents cb @ take (nat (push_room cb (int (length bs)))) bs"
    "cb_maxlen cb' = cb_maxlen cb" "cb_state cb' = cb_state cb"
    using cbuf_push_correct [OF assms, of "int (length bs)" bs] by auto
  have r: "nat (push_room cb (int (length bs))) = min (length bs) (fifo_room cb)"
    by (auto simp: push_room_def fifo_room_def)
  have "cb_len cb' = int (length (cbuf_contents cb'))"
    using c(2) by (simp add: cbuf_wf_def)
  also have "\<dots> = cb_len cb + int (min (length bs) (fifo_room cb))"
    using assms by (simp only: c(3) r) (simp add: cbuf_wf_def)
  finally have "fifo_room cb' = fifo_room cb - length bs"
    using c(4,5) assms by (auto simp: fifo_room_def cbuf_wf_def)
  moreover have "take (min (length bs) (fifo_room cb)) bs = take (fifo_room cb) bs"
    by (simp add: min_def)
  ultimately show ?thesis using c r by (simp add: fifo_push_def)
qed

lemma fifo_pop_ok:
  assumes "cbuf_wf cb"
  shows "\<exists>cb'. fifo_pop cb n = Some (cb', take n (cbuf_contents cb)) \<and> cbuf_wf cb' \<and>
    cbuf_contents cb' = drop n (cbuf_contents cb)"
proof -
  have a: "nat (pop_avail cb (int n)) = min n (nat (cb_len cb))" by (auto simp: pop_avail_def)
  have "fits (Some (replicate n 0)) 0 (pop_avail cb (int n))" by (simp add: fits_def a)
  from cbuf_pop_correct [OF assms this] obtain cb' where c:
    "cbuf_pop cb (Some (replicate n 0)) (int n) = Some (cb', filled (Some (replicate n 0)) 0
       (take (nat (pop_avail cb (int n))) (cbuf_contents cb)), pop_avail cb (int n))"
    "cbuf_wf cb'" "cbuf_contents cb' = drop (nat (pop_avail cb (int n))) (cbuf_contents cb)"
    by metis
  have "take (min n (nat (cb_len cb))) (cbuf_contents cb) = take n (cbuf_contents cb)"
    "drop (min n (nat (cb_len cb))) (cbuf_contents cb) = drop n (cbuf_contents cb)"
    by (simp_all add: min_def)
  with c show ?thesis
    by (simp add: fifo_pop_def filled_def a overwrite_def)
qed

interpretation cbuf_fifo: bounded_fifo cbuf_wf cbuf_contents fifo_room fifo_push fifo_pop
  by unfold_locales (rule fifo_push_ok fifo_pop_ok; assumption)+

subsection \<open>Properties\<close>

text \<open>
  Claim C7. A circular buffer initialised on a region of at least \<open>maxlen\<close> bytes is a FIFO: every
  sequence of pushes and pops returns without touching memory outside the region, and the bytes
  accepted by the pushes are, in order, the bytes handed out by the pops followed by the bytes still
  in the buffer, which never exceed \<open>maxlen\<close>.
\<close>

theorem cbuf_is_fifo:
  assumes "0 < maxlen" "nat maxlen \<le> length buf"
  shows "\<exists>cb ins outs. fifo_run fifo_push fifo_pop (cbuf_init buf maxlen) ops = Some (cb, ins, outs) \<and>
    cbuf_wf cb \<and> ins = outs @ cbuf_contents cb"
  using cbuf_fifo.fifo_run_stream [OF cbuf_init_wf(1) [OF assms], of ops]
  by (auto simp: cbuf_init_wf(2))

theorem cbuf_is_fifo_witness:
  "\<exists>cb ins outs. fifo_run fifo_push fifo_pop (cbuf_init [0, 0, 0] 3) [Push [1, 2], Pop 1, Push [3, 4, 5]]
      = Some (cb, ins, outs) \<and> cbuf_wf cb \<and> ins = outs @ cbuf_contents cb"
  by (rule cbuf_is_fifo) simp_all

text \<open>
  Claim C12. On every well-formed buffer \<open>cbuf_push\<close> returns: it takes as many of the bytes offered as
  fit, none when the buffer has been marked as ended, reports that number, appends exactly those
  bytes to the contents and keeps the buffer well formed.
\<close>

theorem cbuf_push_spec:
  assumes "cbuf_wf cb" "nat len \<le> length src"
  shows "\<exists>cb'. cbuf_push cb src len = Some (cb', push_room cb len) \<and> cbuf_wf cb' \<and>
    cbuf_contents cb' = cbuf_contents cb @ take (nat (push_room cb len)) src \<and>
    (cbuf_has_ended cb \<longrightarrow> push_room cb len = 0)"
  by (rule cbuf_push_correct [OF assms]) (auto simp: cbuf_has_ended_def push_room_def)

theorem cbuf_push_spec_witness:
  "\<exists>cb'. cbuf_push (cbuf_end (cbuf_init [0, 0] 2)) [7, 8] 2 =
      Some (cb', push_room (cbuf_end (cbuf_init [0, 0] 2)) 2) \<and> cbuf_wf cb' \<and>
    cbuf_contents cb' = cbuf_contents (cbuf_end (cbuf_init [0, 0] 2)) @
      take (nat (push_room (cbuf_end (cbuf_init [0, 0] 2)) 2)) [7, 8] \<and>
    (cbuf_has_ended (cbuf_end (cbuf_init [0, 0] 2)) \<longrightarrow>
       push_room (cbuf_end (cbuf_init [0, 0] 2)) 2 = 0)"
  by (rule cbuf_push_spec) (simp_all add: cbuf_init_wf)

text \<open>
  Claim C13. \<open>cbuf_pop\<close> and \<open>cbuf_peek\<close> agree: on a well-formed buffer and a destination that is null or
  large enough, both return the oldest \<open>min len (cbuf_len cb)\<close> bytes at the start of the destination
  and their number; pop removes exactly those bytes and leaves the rest in order.
\<close>

theorem cbuf_pop_peek_spec:
  assumes "cbuf_wf cb" "fits dst 0 (pop_avail cb len)"
  shows "\<exists>cb'. cbuf_pop cb dst len =
      Some (cb', filled dst 0 (take (nat (pop_avail cb len)) (cbuf_contents cb)), pop_avail cb len) \<and>
    cbuf_peek cb dst len =
      Some (filled dst 0 (take (nat (pop_avail cb len)) (cbuf_contents cb)), pop_avail cb len) \<and>
    cbuf_wf cb' \<and> cbuf_contents cb' = drop (nat (pop_avail cb len)) (cbuf_contents cb)"
  using cbuf_peek_correct [OF assms] by (auto intro: cbuf_pop_correct [OF assms])

theorem cbuf_pop_peek_spec_witness:
  "\<exists>cb'. cbuf_pop (cbuf_init [0, 0] 2) None 5 = Some (cb', filled None 0
        (take (nat (pop_avail (cbuf_init [0, 0] 2) 5)) (cbuf_contents (cbuf_init [0, 0] 2))),
        pop_avail (cbuf_init [0, 0] 2) 5) \<and>
    cbuf_peek (cbuf_init [0, 0] 2) None 5 = Some (filled None 0
        (take (nat (pop_avail (cbuf_init [0, 0] 2) 5)) (cbuf_contents (cbuf_init [0, 0] 2))),
        pop_avail (cbuf_init [0, 0] 2) 5) \<and>
    cbuf_wf cb' \<and> cbuf_contents cb' =
      drop (nat (pop_avail (cbuf_init [0, 0] 2) 5)) (cbuf_contents (cbuf_init [0, 0] 2))"
  by (rule cbuf_pop_peek_spec) (simp_all add: cbuf_init_wf fits_def)

end
