(* ===== verification/Ll.thy ===== *)
theory Ll
  imports Prelude
begin

text \<open>
  \<open>src/src/ll.h\<close>: the linked lists of the event loop and of the server. The elements live in an array and
  are chained through their first field; a list is a pointer to its first element, and the elements that
  are not in use form a list of their own.

  \<open>chain h p xs\<close> says that following the links \<open>h\<close> from \<open>p\<close> visits the elements \<open>xs\<close> and ends; every
  macro is shown to compute its counterpart on such lists. For a pool with a list of free and a list of
  used elements the invariant is that the two lists share the array between them.
\<close>

text \<open>Elements are named by their index in the array; \<open>None\<close> is the null pointer.\<close>

type_synonym links = "nat \<Rightarrow> nat option"

text \<open>
  \<open>LL_INIT\<close> clears the array and chains its elements; \<open>links\<close> covers the elements of one array only.
\<close>

fun init_loop :: "links \<Rightarrow> nat \<Rightarrow> nat \<Rightarrow> links" where
  "init_loop h i 0 = h"
| "init_loop h i (Suc n) = init_loop (h(i := Some (i + 1))) (i + 1) n"

definition LL_INIT :: "nat \<Rightarrow> links \<times> nat option" where
  "LL_INIT maxlen = (init_loop (\<lambda>_. None) 0 (maxlen - 1), Some 0)"

definition LL_PUSH :: "nat \<Rightarrow> links \<Rightarrow> nat option \<Rightarrow> links \<times> nat option" where
  "LL_PUSH elem h list = (h(elem := list), Some elem)"

partial_function (option) append_loop :: "links \<Rightarrow> nat option \<Rightarrow> nat option option" where
  "append_loop h cur =
     (case cur of
        None \<Rightarrow> Some None
      | Some c \<Rightarrow> if h c \<noteq> None then append_loop h (h c) else Some cur)"

declare append_loop.simps [code]

definition LL_APPEND :: "nat \<Rightarrow> links \<Rightarrow> nat option \<Rightarrow> (links \<times> nat option) option" where
  "LL_APPEND elem h list = do {
     cur \<leftarrow> append_loop h list;
     Some (case cur of None \<Rightarrow> (h, Some elem) | Some c \<Rightarrow> (h(c := Some elem), list))
   }"

definition LL_POP :: "links \<Rightarrow> nat option \<Rightarrow> nat option \<times> nat option" where
  "LL_POP h list = (case list of None \<Rightarrow> (None, None) | Some elem \<Rightarrow> (h elem, Some elem))"

text \<open>
  \<open>LL_MOVE\<close> and \<open>LL_MOVEP\<close> clear the element on the way; here its link, in the state of the client the
  other fields. The results are the links, the two lists and the element.
\<close>

definition LL_MOVE :: "links \<Rightarrow> nat option \<Rightarrow> nat option \<Rightarrow> (links \<times> nat option \<times> nat option \<times> nat option) option" where
  "LL_MOVE h src dst =
     (let (src, elem) = LL_POP h src
      in case elem of
           None \<Rightarrow> Some (h, src, dst, None)
         | Some e \<Rightarrow> do {
             (h, dst) \<leftarrow> LL_APPEND e (h(e := None)) dst;
             Some (h, src, dst, elem)
           })"

definition LL_MOVEP :: "links \<Rightarrow> nat option \<Rightarrow> nat option \<Rightarrow> links \<times> nat option \<times> nat option \<times> nat option" where
  "LL_MOVEP h src dst =
     (let (src, elem) = LL_POP h src
      in case elem of
           None \<Rightarrow> (h, src, dst, None)
         | Some e \<Rightarrow> let (h, dst) = LL_PUSH e (h(e := None)) dst in (h, src, dst, elem))"

partial_function (option) count_loop :: "links \<Rightarrow> nat option \<Rightarrow> nat \<Rightarrow> nat option" where
  "count_loop h elem count =
     (case elem of None \<Rightarrow> Some count | Some e \<Rightarrow> count_loop h (h e) (count + 1))"

declare count_loop.simps [code]

definition LL_COUNT :: "links \<Rightarrow> nat option \<Rightarrow> nat option" where
  "LL_COUNT h list = count_loop h list 0"

partial_function (option) LL_FIND :: "links \<Rightarrow> (nat \<Rightarrow> bool) \<Rightarrow> nat option \<Rightarrow> nat option option" where
  "LL_FIND h condition list =
     (case list of
        None \<Rightarrow> Some None
      | Some e \<Rightarrow> if condition e then Some (Some e) else LL_FIND h condition (h e))"

declare LL_FIND.simps [code]

partial_function (option) delete_loop ::
  "nat \<Rightarrow> links \<Rightarrow> nat option \<Rightarrow> nat option \<Rightarrow> nat option \<Rightarrow> (links \<times> nat option \<times> nat option) option" where
  "delete_loop elem h list cur prev =
     (case cur of
        None \<Rightarrow> Some (h, list, None)
      | Some c \<Rightarrow>
          if c = elem
          then (case prev of
                  None \<Rightarrow> Some (h, h c, cur)
                | Some p \<Rightarrow> Some (h(p := h c), list, cur))
          else delete_loop elem h list (h c) cur)"

declare delete_loop.simps [code]

definition LL_DELETE :: "nat \<Rightarrow> links \<Rightarrow> nat option \<Rightarrow> (links \<times> nat option \<times> nat option) option" where
  "LL_DELETE elem h list = delete_loop elem h list list None"

subsection \<open>Chains\<close>

fun chain :: "links \<Rightarrow> nat option \<Rightarrow> nat list \<Rightarrow> bool" where
  "chain h p [] \<longleftrightarrow> p = None"
| "chain h p (x # xs) \<longleftrightarrow> p = Some x \<and> chain h (h x) xs"

text \<open>A part of a chain, up to the pointer \<open>q\<close>.\<close>

fun segment :: "links \<Rightarrow> nat option \<Rightarrow> nat list \<Rightarrow> nat option \<Rightarrow> bool" where
  "segment h p [] q \<longleftrightarrow> p = q"
| "segment h p (x # xs) q \<longleftrightarrow> p = Some x \<and> segment h (h x) xs q"

lemma chain_None [simp]: "chain h None xs \<longleftrightarrow> xs = []"
  by (cases xs) auto

lemma chain_Some: "chain h (Some x) xs \<longleftrightarrow> (\<exists>ys. xs = x # ys \<and> chain h (h x) ys)"
  by (cases xs) auto

lemma chain_append: "chain h p (xs @ ys) \<longleftrightarrow> (\<exists>q. segment h p xs q \<and> chain h q ys)"
  by (induction xs arbitrary: p) auto

lemma segment_append: "segment h p (xs @ ys) q \<longleftrightarrow> (\<exists>r. segment h p xs r \<and> segment h r ys q)"
  by (induction xs arbitrary: p) auto

lemma chain_update [simp]: "x \<notin> set xs \<Longrightarrow> chain (h(x := v)) p xs = chain h p xs"
  by (induction xs arbitrary: p) auto

lemma segment_update [simp]: "x \<notin> set xs \<Longrightarrow> segment (h(x := v)) p xs q = segment h p xs q"
  by (induction xs arbitrary: p) auto

lemma chain_unique: "chain h p xs \<Longrightarrow> chain h p ys \<Longrightarrow> xs = ys"
  by (induction xs arbitrary: p ys) (auto simp: chain_Some)

lemma chain_distinct: "chain h p xs \<Longrightarrow> distinct xs"
proof (induction xs arbitrary: p)
  case (Cons x xs)
  have "x \<notin> set xs"
  proof
    assume "x \<in> set xs"
    then obtain ys zs where s: "xs = ys @ x # zs" by (meson split_list)
    with Cons.prems have "chain h (h x) xs" "chain h (h x) zs"
      by (auto simp: chain_append)
    then have "xs = zs" by (rule chain_unique)
    with s have "length xs < length xs" by simp
    then show False by simp
  qed
  with Cons show ?case by auto
qed simp

subsection \<open>The macros on chains\<close>

lemma init_loop_correct: "init_loop h i n = (\<lambda>j. if i \<le> j \<and> j < i + n then Some (j + 1) else h j)"
  by (induction n arbitrary: h i) (auto simp: fun_eq_iff)

lemma chain_upt: "(\<And>j. i \<le> j \<Longrightarrow> j < i + n \<Longrightarrow> h j = (if j = i + n - 1 then None else Some (j + 1))) \<Longrightarrow>
    chain h (if n = 0 then None else Some i) [i..<i + n]"
proof (induction n arbitrary: i)
  case (Suc n)
  have up: "[i..<i + Suc n] = i # [i + 1..<(i + 1) + n]" by (simp add: upt_rec)
  have "h i = (if n = 0 then None else Some (i + 1))" using Suc.prems [of i] by auto
  moreover have "chain h (if n = 0 then None else Some (i + 1)) [i + 1..<(i + 1) + n]"
    by (rule Suc.IH) (use Suc.prems in auto)
  ultimately show ?case unfolding up by simp
qed simp

lemma LL_INIT_correct:
  assumes "0 < n"
  shows "chain (fst (LL_INIT n)) (snd (LL_INIT n)) [0..<n]"
proof -
  have "chain (fst (LL_INIT n)) (if n = 0 then None else Some 0) [0..<0 + n]"
    by (rule chain_upt) (auto simp: LL_INIT_def init_loop_correct)
  with assms show ?thesis by (simp add: LL_INIT_def)
qed

lemma append_loop_correct:
  "chain h p xs \<Longrightarrow> append_loop h p = Some (if xs = [] then None else Some (last xs))"
proof (induction xs arbitrary: p)
  case Nil
  then show ?case by (subst append_loop.simps) simp
next
  case (Cons x xs)
  then show ?case by (subst append_loop.simps) (cases xs, auto)
qed

lemma LL_APPEND_correct:
  assumes "chain h p xs" "e \<notin> set xs" "h e = None"
  obtains h' p' where "LL_APPEND e h p = Some (h', p')" "chain h' p' (xs @ [e])"
    "\<And>y. y \<notin> set xs \<Longrightarrow> h' y = h y"
proof (cases xs rule: rev_cases)
  case Nil
  then have "LL_APPEND e h p = Some (h, Some e)" by (simp add: LL_APPEND_def append_loop_correct [OF assms(1)])
  with Nil assms(3) that [of h "Some e"] show ?thesis by simp
next
  case (snoc ys z)
  have "distinct xs" by (rule chain_distinct [OF assms(1)])
  with assms snoc have "chain (h(z := Some e)) p (xs @ [e])"
    by (auto simp: chain_append segment_append)
  with snoc that [of "h(z := Some e)" p] show ?thesis
    by (simp add: LL_APPEND_def append_loop_correct [OF assms(1)])
qed

lemma LL_COUNT_correct: "chain h p xs \<Longrightarrow> LL_COUNT h p = Some (length xs)"
proof -
  have "chain h p xs \<Longrightarrow> count_loop h p k = Some (k + length xs)" for k
  proof (induction xs arbitrary: p k)
    case Nil
    then show ?case by (subst count_loop.simps) simp
  next
    case (Cons x xs)
    then show ?case by (subst count_loop.simps) (auto simp: Cons.IH)
  qed
  then show "chain h p xs \<Longrightarrow> LL_COUNT h p = Some (length xs)" by (simp add: LL_COUNT_def)
qed

lemma LL_FIND_correct: "chain h p xs \<Longrightarrow> LL_FIND h c p = Some (find c xs)"
proof (induction xs arbitrary: p)
  case Nil
  then show ?case by (subst LL_FIND.simps) simp
next
  case (Cons x xs)
  then show ?case by (subst LL_FIND.simps) auto
qed

lemma delete_loop_correct:
  assumes "chain h p (xs @ ys)" "segment h p xs q" "chain h q ys" "prev = (if xs = [] then None else Some (last xs))"
    "e \<notin> set xs"
  shows "\<exists>h' p'. delete_loop e h p q prev = Some (h', p', if e \<in> set ys then Some e else None) \<and>
    chain h' p' (xs @ remove1 e ys) \<and> (\<forall>y. y \<notin> set (xs @ ys) \<or> y = e \<longrightarrow> h' y = h y)"
  using assms
proof (induction ys arbitrary: xs q prev)
  case Nil
  then show ?case by (subst delete_loop.simps) simp
next
  case (Cons y ys)
  from Cons.prems have q: "q = Some y" "chain h (h y) ys" by auto
  show ?case
  proof (cases "y = e")
    case False
    have "chain h p ((xs @ [y]) @ ys)" "segment h p (xs @ [y]) (h y)"
      using Cons.prems by (auto simp: segment_append)
    from Cons.IH [OF this q(2) _ _] Cons.prems(5) False q(1) show ?thesis
      by (subst delete_loop.simps) auto
  next
    case True
    show ?thesis
    proof (cases xs rule: rev_cases)
      case Nil
      with True q Cons.prems show ?thesis by (subst delete_loop.simps) auto
    next
      case (snoc zs z)
      have "distinct (xs @ y # ys)" by (rule chain_distinct [OF Cons.prems(1)])
      with snoc Cons.prems(2) q have "chain (h(z := h y)) p (xs @ ys)"
        by (auto simp: chain_append segment_append)
      moreover have "delete_loop e h p q prev = Some (h(z := h y), p, Some e)"
        using True snoc Cons.prems(4) by (subst delete_loop.simps) (simp add: q(1))
      moreover have "z \<noteq> e" using Cons.prems(5) snoc by auto
      ultimately show ?thesis using snoc
        by (intro exI [of _ "h(z := h y)"] exI [of _ p] conjI) (simp_all add: True fun_upd_def)
    qed
  qed
qed

lemma LL_DELETE_correct:
  assumes "chain h p xs"
  obtains h' p' where "LL_DELETE e h p = Some (h', p', if e \<in> set xs then Some e else None)"
    "chain h' p' (remove1 e xs)" "\<And>y. y \<notin> set xs \<or> y = e \<Longrightarrow> h' y = h y"
  using delete_loop_correct [of h p "[]" xs p None e] assms by (auto simp: LL_DELETE_def)


subsection \<open>A pool of elements\<close>

text \<open>
  The clients keep two lists in one array, the free and the used elements. An element is taken with
  \<open>LL_MOVE\<close> or \<open>LL_MOVEP\<close> and given back with \<open>LL_DELETE\<close> and \<open>LL_PUSH\<close>, the way \<open>event_sock_create\<close>
  and \<open>event_sock_unused\<close> or the closing of a socket do.
\<close>

record pool =
  links :: links
  free_list :: "nat option"
  used_list :: "nat option"

definition pool_init :: "nat \<Rightarrow> pool" where
  "pool_init n = (let (h, p) = LL_INIT n in \<lparr>links = h, free_list = p, used_list = None\<rparr>)"

definition pool_take :: "pool \<Rightarrow> (pool \<times> nat option) option" where
  "pool_take s = do {
     (h, f, u, e) \<leftarrow> LL_MOVE (links s) (free_list s) (used_list s);
     Some (\<lparr>links = h, free_list = f, used_list = u\<rparr>, e)
   }"

definition pool_take_front :: "pool \<Rightarrow> pool \<times> nat option" where
  "pool_take_front s =
     (let (h, f, u, e) = LL_MOVEP (links s) (free_list s) (used_list s)
      in (\<lparr>links = h, free_list = f, used_list = u\<rparr>, e))"

definition pool_release :: "nat \<Rightarrow> pool \<Rightarrow> pool option" where
  "pool_release e s = do {
     (h, u, d) \<leftarrow> LL_DELETE e (links s) (used_list s);
     let (h, f) = LL_PUSH e h (free_list s);
     Some \<lparr>links = h, free_list = f, used_list = u\<rparr>
   }"

definition pool_rel :: "nat \<Rightarrow> pool \<Rightarrow> nat list \<Rightarrow> nat list \<Rightarrow> bool" where
  "pool_rel n s fs us \<longleftrightarrow> chain (links s) (free_list s) fs \<and> chain (links s) (used_list s) us \<and>
     distinct (fs @ us) \<and> set (fs @ us) = {..<n}"

lemma pool_init_correct: "0 < n \<Longrightarrow> pool_rel n (pool_init n) [0..<n] []"
  using LL_INIT_correct [of n] by (auto simp: pool_rel_def pool_init_def split: prod.splits)

lemma pool_take_correct:
  assumes "pool_rel n s fs us"
  obtains s' where "pool_take s = Some (s', if fs = [] then None else Some (hd fs))"
    "pool_rel n s' (tl fs) (if fs = [] then us else us @ [hd fs])"
proof (cases fs)
  case Nil
  with assms have "free_list s = None" by (simp add: pool_rel_def)
  then have "pool_take s = Some (s, None)" by (simp add: pool_take_def LL_MOVE_def LL_POP_def)
  with assms Nil that [of s] show ?thesis by simp
next
  case (Cons e fs')
  let ?h = "(links s)(e := None)"
  have c: "free_list s = Some e" "chain (links s) (links s e) fs'" "chain (links s) (used_list s) us"
    "e \<notin> set fs'" "e \<notin> set us" "distinct (fs' @ us)" "set (fs' @ us) \<union> {e} = {..<n}"
    using assms by (auto simp: pool_rel_def Cons)
  have "chain ?h (used_list s) us" "?h e = None" using c by simp_all
  from LL_APPEND_correct [OF this(1) c(5) this(2)] obtain h' p' where
    a: "LL_APPEND e ?h (used_list s) = Some (h', p')" "chain h' p' (us @ [e])"
      "\<And>y. y \<notin> set us \<Longrightarrow> h' y = ?h y" by blast
  have "chain h' (links s e) fs'"
  proof -
    have "chain h' q ys = chain ?h q ys" if "set ys \<inter> set us = {}" for q ys
      using that by (induction ys arbitrary: q) (auto simp: a(3))
    with c show ?thesis by (auto simp: disjoint_iff)
  qed
  with a c have "pool_rel n \<lparr>links = h', free_list = links s e, used_list = p'\<rparr> fs' (us @ [e])"
    by (auto simp: pool_rel_def)
  moreover have "pool_take s = Some (\<lparr>links = h', free_list = links s e, used_list = p'\<rparr>, Some e)"
    using a(1) by (simp add: pool_take_def LL_MOVE_def LL_POP_def c(1))
  ultimately show ?thesis using that [of "\<lparr>links = h', free_list = links s e, used_list = p'\<rparr>"] by (simp add: Cons)
qed

lemma pool_take_front_correct:
  assumes "pool_rel n s fs us"
  shows "snd (pool_take_front s) = (if fs = [] then None else Some (hd fs)) \<and>
    pool_rel n (fst (pool_take_front s)) (tl fs) (if fs = [] then us else hd fs # us)"
proof (cases fs)
  case Nil
  with assms have "free_list s = None" by (simp add: pool_rel_def)
  then have "pool_take_front s = (s, None)" by (simp add: pool_take_front_def LL_MOVEP_def LL_POP_def)
  with assms Nil show ?thesis by simp
next
  case (Cons e fs')
  with assms show ?thesis
    by (auto simp: pool_rel_def pool_take_front_def LL_MOVEP_def LL_POP_def LL_PUSH_def)
qed

lemma pool_release_correct:
  assumes "pool_rel n s fs us" "e \<in> set us"
  obtains s' where "pool_release e s = Some s'" "pool_rel n s' (e # fs) (remove1 e us)"
proof -
  have c: "chain (links s) (free_list s) fs" "chain (links s) (used_list s) us" "distinct us"
    "distinct fs" "set fs \<inter> set us = {}" "set fs \<union> set us = {..<n}"
    using assms(1) by (auto simp: pool_rel_def)
  obtain h' p' where d: "LL_DELETE e (links s) (used_list s) = Some (h', p', Some e)"
    "chain h' p' (remove1 e us)" "\<And>y. y \<notin> set us \<or> y = e \<Longrightarrow> h' y = links s y"
    by (rule LL_DELETE_correct [OF c(2), of e]) (use assms(2) in auto)
  have "e \<notin> set fs" "e \<notin> set (remove1 e us)" using c assms(2) by auto
  moreover have "chain h' (free_list s) fs"
  proof -
    have "chain h' q ys = chain (links s) q ys" if "set ys \<inter> set us = {}" for q ys
      using that by (induction ys arbitrary: q) (auto simp: d(3))
    with c show ?thesis by auto
  qed
  ultimately have "pool_rel n \<lparr>links = h'(e := free_list s), free_list = Some e, used_list = p'\<rparr> (e # fs) (remove1 e us)"
    using c d(2) assms(2) by (auto simp: pool_rel_def)
  moreover have "pool_release e s = Some \<lparr>links = h'(e := free_list s), free_list = Some e, used_list = p'\<rparr>"
    by (simp add: pool_release_def d(1) LL_PUSH_def)
  ultimately show ?thesis using that by blast
qed

text \<open>The states a pool of \<open>n\<close> elements can reach.\<close>

inductive pool_reach :: "nat \<Rightarrow> pool \<Rightarrow> bool" for n where
  start: "pool_reach n (pool_init n)"
| take: "pool_reach n s \<Longrightarrow> pool_take s = Some (s', e) \<Longrightarrow> pool_reach n s'"
| take_front: "pool_reach n s \<Longrightarrow> pool_take_front s = (s', e) \<Longrightarrow> pool_reach n s'"
| release: "pool_reach n s \<Longrightarrow> LL_FIND (links s) (\<lambda>x. x = e) (used_list s) = Some (Some e) \<Longrightarrow>
    pool_release e s = Some s' \<Longrightarrow> pool_reach n s'"

text \<open>
  Claim C22. No element of a pool is ever lost, duplicated or in two lists: in every state a pool of \<open>n\<close>
  elements can reach by taking and releasing elements, the free and the used list are finite chains that
  share the \<open>n\<close> elements between them, their counts add up to \<open>n\<close>, and taking an element succeeds exactly
  when one is free.
\<close>

theorem pool_invariant:
  assumes "0 < n" "pool_reach n s"
  shows "\<exists>fs us. pool_rel n s fs us \<and> LL_COUNT (links s) (free_list s) = Some (length fs) \<and>
    LL_COUNT (links s) (used_list s) = Some (length us) \<and> length fs + length us = n \<and>
    (\<exists>s' r. pool_take s = Some (s', r) \<and> (r \<noteq> None \<longleftrightarrow> length us < n))"
proof -
  from assms(2) have "\<exists>fs us. pool_rel n s fs us"
  proof induction
    case start
    with pool_init_correct [OF assms(1)] show ?case by blast
  next
    case (take s s' e)
    then obtain fs us where p: "pool_rel n s fs us" by blast
    show ?case by (rule pool_take_correct [OF p]) (use take.hyps(2) in auto)
  next
    case (take_front s s' e)
    then obtain fs us where p: "pool_rel n s fs us" by blast
    from pool_take_front_correct [OF p] take_front.hyps(2) show ?case by auto
  next
    case (release s e s')
    then obtain fs us where p: "pool_rel n s fs us" by blast
    then have "find (\<lambda>x. x = e) us = Some e"
      using release.hyps(2) LL_FIND_correct by (fastforce simp: pool_rel_def)
    then have e: "e \<in> set us" unfolding find_Some_iff by (metis nth_mem)
    obtain s'' where "pool_release e s = Some s''" "pool_rel n s'' (e # fs) (remove1 e us)"
      by (rule pool_release_correct [OF p e])
    with release.hyps(3) show ?case by auto
  qed
  then obtain fs us where p: "pool_rel n s fs us" by blast
  then have "card (set (fs @ us)) = n" "distinct (fs @ us)" by (simp_all only: pool_rel_def card_lessThan)
  then have len: "length fs + length us = n" using distinct_card [of "fs @ us"] by simp
  obtain s' where "pool_take s = Some (s', if fs = [] then None else Some (hd fs))"
    by (rule pool_take_correct [OF p])
  moreover have "(fs \<noteq> []) = (length us < n)" using len by auto
  ultimately have "\<exists>s' r. pool_take s = Some (s', r) \<and> (r \<noteq> None \<longleftrightarrow> length us < n)" by auto
  moreover have "LL_COUNT (links s) (free_list s) = Some (length fs)"
    "LL_COUNT (links s) (used_list s) = Some (length us)"
    using p by (simp_all add: pool_rel_def LL_COUNT_correct)
  ultimately show ?thesis using p len by blast
qed

theorem pool_invariant_witness:
  "\<exists>s e. pool_take (pool_init 3) = Some (s, e) \<and> (\<exists>fs us. pool_rel 3 s fs us \<and>
     LL_COUNT (links s) (free_list s) = Some (length fs) \<and> length fs + length us = 3)"
proof -
  obtain s where s: "pool_take (pool_init 3) = Some (s, Some 0)"
    by (rule pool_take_correct [OF pool_init_correct [of 3]]) simp_all
  then have "pool_reach 3 s" by (rule pool_reach.take [OF pool_reach.start])
  from pool_invariant [OF _ this] s show ?thesis by auto
qed

subsection \<open>The interface of the lists\<close>

locale list_store =
  fixes is_list :: "'h \<Rightarrow> 'p \<Rightarrow> nat list \<Rightarrow> bool"
    and find_elem :: "'h \<Rightarrow> (nat \<Rightarrow> bool) \<Rightarrow> 'p \<Rightarrow> nat option option"
    and delete_elem :: "nat \<Rightarrow> 'h \<Rightarrow> 'p \<Rightarrow> ('h \<times> 'p \<times> nat option) option"
  assumes find_law: "is_list h p xs \<Longrightarrow> find_elem h c p = Some (find c xs)"
    and delete_law: "is_list h p xs \<Longrightarrow> \<exists>h' p'. delete_elem e h p = Some (h', p', if e \<in> set xs then Some e else None) \<and>
      is_list h' p' (remove1 e xs)"
    and list_distinct: "is_list h p xs \<Longrightarrow> distinct xs"
begin

lemma find_after_delete:
  assumes "is_list h p xs" "delete_elem e h p = Some (h', p', r)"
  shows "find_elem h' (\<lambda>x. x = e) p' = Some None" "(r = None) = (find_elem h (\<lambda>x. x = e) p = Some None)"
proof -
  have d: "is_list h' p' (remove1 e xs)" "r = (if e \<in> set xs then Some e else None)"
    using delete_law [OF assms(1), of e] assms(2) by auto
  have "find (\<lambda>x. x = e) (remove1 e xs) = None"
    using list_distinct [OF assms(1)] by (simp add: find_None_iff)
  with find_law [OF d(1)] show "find_elem h' (\<lambda>x. x = e) p' = Some None" by simp
  show "(r = None) = (find_elem h (\<lambda>x. x = e) p = Some None)"
    using find_law [OF assms(1)] d(2) by (auto simp: find_None_iff)
qed

end

interpretation ll: list_store chain LL_FIND LL_DELETE
proof unfold_locales
  show "\<exists>h' p'. LL_DELETE e h p = Some (h', p', if e \<in> set xs then Some e else None) \<and> chain h' p' (remove1 e xs)"
    if "chain h p xs" for h p xs e
    by (rule LL_DELETE_correct [OF that, of e]) blast
qed (simp_all add: LL_FIND_correct chain_distinct)

text \<open>
  Claim C23. After \<open>LL_DELETE\<close> the element is not found in the list any more, and the macro reports a
  deletion exactly when the element was there.
\<close>

theorem delete_then_find:
  assumes "chain h p xs" "LL_DELETE e h p = Some (h', p', r)"
  shows "LL_FIND h' (\<lambda>x. x = e) p' = Some None \<and> ((r = None) = (LL_FIND h (\<lambda>x. x = e) p = Some None))"
  using ll.find_after_delete [OF assms] by blast

theorem delete_then_find_witness:
  "\<exists>h' p'. LL_DELETE 1 (fst (LL_INIT 3)) (Some 0) = Some (h', p', Some 1) \<and>
     LL_FIND h' (\<lambda>x. x = 1) p' = Some None"
proof -
  have c: "chain (fst (LL_INIT 3)) (Some 0) [0..<3]" using LL_INIT_correct [of 3] by (simp add: LL_INIT_def)
  obtain h' p' where "LL_DELETE 1 (fst (LL_INIT 3)) (Some 0) = Some (h', p', Some 1)"
    by (rule LL_DELETE_correct [OF c, of 1]) simp
  with delete_then_find [OF c this] show ?thesis by blast
qed

end
