(* ===== verification/Event.thy ===== *)
theory Event
  imports Cbuf Ll
begin

text \<open>
  \<open>src/src/event.h\<close> and \<open>src/src/event.c\<close> (as compiled for a POSIX system): the event loop. It owns three
  pools of static memory, for sockets, for the events of a socket (connection, read, write, timer) and
  for pending write operations, all chained with the list macros of \<open>Ll\<close>.

  \<^item> An object is named by its index in the static array of its type; the state holds one memory function
    and one link function for each array.
  \<^item> A function pointer is a name of type \<open>'cb\<close>, \<open>None\<close> for \<open>NULL\<close>. The functions of the interface
    (\<open>event_read_start\<close>, \<open>event_write\<close>, \<open>event_close\<close> and so on) only store callbacks; the functions of
    the loop call them and take the meaning of the names as an argument.
  \<^item> What the operating system answers during one round of the loop is the record \<open>os_env\<close>; what the program
    asks of it is appended to \<open>os_log\<close>.
  \<^item> The state is extensible, so that the state of the layers above can be added to it: what an operation
    here does not mention it does not change.
\<close>

definition EVENT_MAX_SOCKETS :: nat where "EVENT_MAX_SOCKETS = 3"
definition EVENT_MAX_EVENTS :: nat where "EVENT_MAX_EVENTS = EVENT_MAX_SOCKETS * 3"
definition EVENT_WRITE_QUEUE_SIZE :: nat where "EVENT_WRITE_QUEUE_SIZE = 4 * EVENT_MAX_SOCKETS"

subsection \<open>The operating system\<close>

text \<open>
  The results of \<open>recv\<close> and \<open>send\<close>: the bytes received or how many were sent, the end of the stream,
  nothing to do at the moment (\<open>EAGAIN\<close> or \<open>EWOULDBLOCK\<close>), or another error with its \<open>errno\<close>.
  \<open>os_now\<close> is the time in microseconds and \<open>os_select\<close> the readable and the writable descriptors,
  \<open>None\<close> if \<open>select\<close> was interrupted.
\<close>

datatype recv_result = Recv_Bytes "byte list" | Recv_Eof | Recv_Again | Recv_Error int

datatype send_result = Sent nat | Send_Again | Send_Error int

datatype os_call = Os_Bind int u16 | Os_Listen int nat | Os_Send int "byte list" | Os_Shutdown int | Os_Close int

record os_env =
  os_now :: int
  os_select :: "(int set \<times> int set) option"
  os_recv :: "int \<Rightarrow> int \<Rightarrow> recv_result"
  os_send :: "int \<Rightarrow> byte list \<Rightarrow> send_result"
  os_accept :: "int \<Rightarrow> int"
  os_socket :: int
  os_bind :: int
  os_listen :: int

record os_state =
  os :: os_env
  os_log :: "os_call list"

definition os_do :: "os_call \<Rightarrow> ('z os_state_scheme) \<Rightarrow> 'z os_state_scheme" where
  "os_do c s = s\<lparr>os_log := os_log s @ [c]\<rparr>"

text \<open>\<open>FD_SET\<close> and \<open>FD_CLR\<close> write outside the \<open>fd_set\<close> for a descriptor that is negative or too large.\<close>

definition FD_SETSIZE :: int where "FD_SETSIZE = 1024"

definition fd_set :: "int \<Rightarrow> int set \<Rightarrow> int set option" where
  "fd_set fd S = (if 0 \<le> fd \<and> fd < FD_SETSIZE then Some (insert fd S) else None)"

definition fd_clr :: "int \<Rightarrow> int set \<Rightarrow> int set option" where
  "fd_clr fd S = (if 0 \<le> fd \<and> fd < FD_SETSIZE then Some (S - {fd}) else None)"

subsection \<open>The state\<close>

datatype event_type = EVENT_CONNECTION_TYPE | EVENT_WRITE_TYPE | EVENT_READ_TYPE | EVENT_TIMER_TYPE

datatype sock_state =
  EVENT_SOCK_CLOSED | EVENT_SOCK_OPENED | EVENT_SOCK_LISTENING | EVENT_SOCK_CONNECTED | EVENT_SOCK_CLOSING

text \<open>
  The union of \<open>event_t\<close>. An event is cleared when it is taken from the pool and its type is set once
  before it is used, so the member in use is the one of the type; a cleared event has type 0.
\<close>

datatype 'cb event_data =
    Event_Connection "'cb option"
  | Event_Read cbuf "'cb option"
  | Event_Write cbuf "nat option"
  | Event_Timer int int "'cb option"

fun data_type :: "'cb event_data \<Rightarrow> event_type" where
  "data_type (Event_Connection cb) = EVENT_CONNECTION_TYPE"
| "data_type (Event_Read buf cb) = EVENT_READ_TYPE"
| "data_type (Event_Write buf queue) = EVENT_WRITE_TYPE"
| "data_type (Event_Timer millis start cb) = EVENT_TIMER_TYPE"

record 'cb event =
  ev_sock :: "nat option"
  ev_data :: "'cb event_data"

record 'cb event_write_op =
  op_bytes :: nat
  op_cb :: "'cb option"

text \<open>\<open>sk_data\<close> is the context of the client above; \<open>sk_loop\<close> says whether \<open>loop\<close> is set.\<close>

record 'cb event_sock =
  sk_data :: "nat option"
  sk_loop :: bool
  sk_descriptor :: int
  sk_state :: sock_state
  sk_events :: "nat option"
  sk_close_cb :: "'cb option"

record 'cb event_loop = os_state +
  lp_reserved :: "nat option"
  lp_sockets :: "nat option"
  lp_events :: "nat option"
  lp_writes :: "nat option"
  sock_next :: links
  event_next :: links
  write_next :: links
  sock_mem :: "nat \<Rightarrow> 'cb event_sock"
  event_mem :: "nat \<Rightarrow> 'cb event"
  op_mem :: "nat \<Rightarrow> 'cb event_write_op"
  lp_running :: bool
  lp_active_fds :: "int set"
  lp_nfds :: int

definition null_sock :: "'cb event_sock" where
  "null_sock = \<lparr>sk_data = None, sk_loop = False, sk_descriptor = 0, sk_state = EVENT_SOCK_CLOSED,
     sk_events = None, sk_close_cb = None\<rparr>"

definition null_event :: "'cb event" where
  "null_event = \<lparr>ev_sock = None, ev_data = Event_Connection None\<rparr>"

definition null_op :: "'cb event_write_op" where
  "null_op = \<lparr>op_bytes = 0, op_cb = None\<rparr>"

text \<open>Field updates of one object, and the members of the union.\<close>

definition upd_sock :: "nat \<Rightarrow> ('cb event_sock \<Rightarrow> 'cb event_sock) \<Rightarrow>
    ('cb, 'z) event_loop_scheme \<Rightarrow> ('cb, 'z) event_loop_scheme" where
  "upd_sock k f s = s\<lparr>sock_mem := (sock_mem s)(k := f (sock_mem s k))\<rparr>"

definition set_data :: "nat \<Rightarrow> 'cb event_data \<Rightarrow> ('cb, 'z) event_loop_scheme \<Rightarrow> ('cb, 'z) event_loop_scheme" where
  "set_data e d s = s\<lparr>event_mem := (event_mem s)(e := (event_mem s e)\<lparr>ev_data := d\<rparr>)\<rparr>"

definition set_op :: "nat \<Rightarrow> 'cb event_write_op \<Rightarrow> ('cb, 'z) event_loop_scheme \<Rightarrow> ('cb, 'z) event_loop_scheme" where
  "set_op k r s = s\<lparr>op_mem := (op_mem s)(k := r)\<rparr>"

fun read_data :: "'cb event_data \<Rightarrow> (cbuf \<times> 'cb option) option" where
  "read_data (Event_Read buf cb) = Some (buf, cb)"
| "read_data _ = None"

fun write_data :: "'cb event_data \<Rightarrow> (cbuf \<times> nat option) option" where
  "write_data (Event_Write buf queue) = Some (buf, queue)"
| "write_data _ = None"

fun timer_data :: "'cb event_data \<Rightarrow> (int \<times> int \<times> 'cb option) option" where
  "timer_data (Event_Timer millis start cb) = Some (millis, start, cb)"
| "timer_data _ = None"

definition data_of :: "('cb, 'z) event_loop_scheme \<Rightarrow> nat \<Rightarrow> 'cb event_data" where
  "data_of s e = ev_data (event_mem s e)"

definition events_of :: "('cb, 'z) event_loop_scheme \<Rightarrow> nat \<Rightarrow> nat option" where
  "events_of s k = sk_events (sock_mem s k)"

subsection \<open>Finding and taking objects\<close>

definition event_find :: "('cb, 'z) event_loop_scheme \<Rightarrow> nat option \<Rightarrow> event_type \<Rightarrow> nat option option" where
  "event_find s queue type = LL_FIND (event_next s) (\<lambda>e. data_type (data_of s e) = type) queue"

definition event_find_free ::
  "nat \<Rightarrow> ('cb, 'z) event_loop_scheme \<Rightarrow> ('cb, 'z) event_loop_scheme \<times> nat option" where
  "event_find_free sock s =
     (let (h, free, evs, e) = LL_MOVEP (event_next s) (lp_events s) (events_of s sock)
      in (upd_sock sock (\<lambda>k. k\<lparr>sk_events := evs\<rparr>)
            (s\<lparr>event_next := h, lp_events := free,
               event_mem := (case e of None \<Rightarrow> event_mem s | Some i \<Rightarrow> (event_mem s)(i := null_event))\<rparr>), e))"

definition event_sock_find :: "('cb, 'z) event_loop_scheme \<Rightarrow> nat option \<Rightarrow> int \<Rightarrow> nat option option" where
  "event_sock_find s queue descriptor = LL_FIND (sock_next s) (\<lambda>k. sk_descriptor (sock_mem s k) = descriptor) queue"

text \<open>Moving an event of a socket back to the pool: \<open>LL_DELETE\<close>, then \<open>LL_PUSH\<close>.\<close>

definition event_delete :: "nat \<Rightarrow> nat \<Rightarrow> ('cb, 'z) event_loop_scheme \<Rightarrow> ('cb, 'z) event_loop_scheme option" where
  "event_delete sock e s = do {
     (h, evs, _) \<leftarrow> LL_DELETE e (event_next s) (events_of s sock);
     Some (upd_sock sock (\<lambda>k. k\<lparr>sk_events := evs\<rparr>) (s\<lparr>event_next := h\<rparr>))
   }"

definition event_push :: "nat \<Rightarrow> ('cb, 'z) event_loop_scheme \<Rightarrow> ('cb, 'z) event_loop_scheme" where
  "event_push e s = (let (h, free) = LL_PUSH e (event_next s) (lp_events s) in s\<lparr>event_next := h, lp_events := free\<rparr>)"

definition op_push :: "nat \<Rightarrow> ('cb, 'z) event_loop_scheme \<Rightarrow> ('cb, 'z) event_loop_scheme" where
  "op_push op s = (let (h, free) = LL_PUSH op (write_next s) (lp_writes s) in s\<lparr>write_next := h, lp_writes := free\<rparr>)"

text \<open>\<open>LL_POP(event->data.write.queue)\<close>.\<close>

definition queue_pop :: "nat \<Rightarrow> ('cb, 'z) event_loop_scheme \<Rightarrow> (('cb, 'z) event_loop_scheme \<times> nat option) option" where
  "queue_pop e s = do {
     (buf, queue) \<leftarrow> write_data (data_of s e);
     let (queue, op) = LL_POP (write_next s) queue;
     Some (set_data e (Event_Write buf queue) s, op)
   }"

subsection \<open>The operations on sockets\<close>

text \<open>
  A \<open>sock\<close> argument is the index of the socket, never \<open>NULL\<close>; a callback argument is an \<open>option\<close> where the
  code asserts that it is not \<open>NULL\<close>.
\<close>

definition event_listen :: "nat \<Rightarrow> u16 \<Rightarrow> 'cb option \<Rightarrow> ('cb, 'z) event_loop_scheme \<Rightarrow>
    (('cb, 'z) event_loop_scheme \<times> int) option" where
  "event_listen sock port cb s = do {
     cb \<leftarrow> cb;
     guard (sk_loop (sock_mem s sock));
     guard (sk_state (sock_mem s sock) = EVENT_SOCK_CLOSED);
     let fd = os_socket (os s);
     let s = upd_sock sock (\<lambda>k. k\<lparr>sk_descriptor := fd\<rparr>) s;
     if fd < 0 then Some (s, - 1)
     else if os_bind (os s) < 0 then Some (os_do (Os_Close fd) s, - 1)
     else do {
       let s = os_do (Os_Bind fd port) s;
       if os_listen (os s) < 0 then Some (os_do (Os_Close fd) s, - 1)
       else do {
         let s = os_do (Os_Listen fd (EVENT_MAX_SOCKETS - 1)) s;
         let s = s\<lparr>lp_nfds := fd + 1\<rparr>;
         fds \<leftarrow> fd_set fd (lp_active_fds s);
         let s = s\<lparr>lp_active_fds := fds\<rparr>;
         let s = upd_sock sock (\<lambda>k. k\<lparr>sk_state := EVENT_SOCK_LISTENING\<rparr>) s;
         let (s, event) = event_find_free sock s;
         event \<leftarrow> event;
         Some (s\<lparr>event_mem := (event_mem s)(event := \<lparr>ev_sock = Some sock, ev_data = Event_Connection (Some cb)\<rparr>)\<rparr>, 0)
       }
     }
   }"

definition event_read_start :: "nat \<Rightarrow> byte list option \<Rightarrow> int \<Rightarrow> 'cb option \<Rightarrow> ('cb, 'z) event_loop_scheme \<Rightarrow>
    ('cb, 'z) event_loop_scheme option" where
  "event_read_start sock buf bufsize cb s = do {
     guard (sk_loop (sock_mem s sock));
     buf \<leftarrow> buf;
     cb \<leftarrow> cb;
     guard (sk_state (sock_mem s sock) = EVENT_SOCK_CONNECTED);
     event \<leftarrow> event_find s (events_of s sock) EVENT_READ_TYPE;
     guard (event = None);
     let (s, event) = event_find_free sock s;
     event \<leftarrow> event;
     Some (s\<lparr>event_mem := (event_mem s)(event :=
       \<lparr>ev_sock = Some sock, ev_data = Event_Read (cbuf_init buf bufsize) (Some cb)\<rparr>)\<rparr>)
   }"

definition event_read :: "nat \<Rightarrow> 'cb option \<Rightarrow> ('cb, 'z) event_loop_scheme \<Rightarrow>
    (('cb, 'z) event_loop_scheme \<times> int) option" where
  "event_read sock cb s = do {
     guard (sk_loop (sock_mem s sock));
     cb \<leftarrow> cb;
     guard (sk_state (sock_mem s sock) = EVENT_SOCK_CONNECTED);
     event \<leftarrow> event_find s (events_of s sock) EVENT_READ_TYPE;
     event \<leftarrow> event;
     (buf, _) \<leftarrow> read_data (data_of s event);
     Some (set_data event (Event_Read buf (Some cb)) s, 0)
   }"

definition event_read_stop :: "nat \<Rightarrow> ('cb, 'z) event_loop_scheme \<Rightarrow>
    (('cb, 'z) event_loop_scheme \<times> int) option" where
  "event_read_stop sock s = do {
     guard (sk_loop (sock_mem s sock));
     event \<leftarrow> event_find s (events_of s sock) EVENT_READ_TYPE;
     (case event of
        None \<Rightarrow> Some (s, 0)
      | Some e \<Rightarrow> do {
          s \<leftarrow> event_delete sock e s;
          (buf, _) \<leftarrow> read_data (data_of s e);
          let len = cbuf_len buf;
          (buf, out, _) \<leftarrow> cbuf_pop buf (Some (replicate (nat len) 0)) len;
          ptr \<leftarrow> memcpy (cb_ptr buf) 0 (the out) 0 len;
          let s = set_data e (Event_Read (buf\<lparr>cb_ptr := ptr\<rparr>) None) s;
          Some (event_push e s, len)
        })
   }"

definition event_write_enable :: "nat \<Rightarrow> byte list option \<Rightarrow> int \<Rightarrow> ('cb, 'z) event_loop_scheme \<Rightarrow>
    ('cb, 'z) event_loop_scheme option" where
  "event_write_enable sock buf bufsize s = do {
     guard (sk_loop (sock_mem s sock));
     guard (bufsize > 0);
     buf \<leftarrow> buf;
     guard (sk_state (sock_mem s sock) = EVENT_SOCK_CONNECTED);
     event \<leftarrow> event_find s (events_of s sock) EVENT_WRITE_TYPE;
     guard (event = None);
     let (s, event) = event_find_free sock s;
     event \<leftarrow> event;
     Some (s\<lparr>event_mem := (event_mem s)(event :=
       \<lparr>ev_sock = Some sock, ev_data = Event_Write (cbuf_init buf bufsize) None\<rparr>)\<rparr>)
   }"

definition event_write :: "nat \<Rightarrow> int \<Rightarrow> byte list option \<Rightarrow> 'cb option \<Rightarrow> ('cb, 'z) event_loop_scheme \<Rightarrow>
    (('cb, 'z) event_loop_scheme \<times> int) option" where
  "event_write sock sz bytes cb s = do {
     guard (sk_loop (sock_mem s sock));
     bytes \<leftarrow> bytes;
     cb \<leftarrow> cb;
     guard (sk_state (sock_mem s sock) = EVENT_SOCK_CONNECTED);
     event \<leftarrow> event_find s (events_of s sock) EVENT_WRITE_TYPE;
     event \<leftarrow> event;
     (buf, queue) \<leftarrow> write_data (data_of s event);
     (buf, to_write) \<leftarrow> cbuf_push buf bytes sz;
     if to_write > 0 then do {
       (h, free, queue, op) \<leftarrow> LL_MOVE (write_next s) (lp_writes s) queue;
       op \<leftarrow> op;
       let s = set_data event (Event_Write buf queue) (s\<lparr>write_next := h, lp_writes := free\<rparr>);
       Some (set_op op \<lparr>op_bytes = nat to_write, op_cb = Some cb\<rparr> s, to_write)
     }
     else Some (set_data event (Event_Write buf queue) s, to_write)
   }"

definition event_timer_set :: "nat \<Rightarrow> int \<Rightarrow> 'cb option \<Rightarrow> ('cb, 'z) event_loop_scheme \<Rightarrow>
    (('cb, 'z) event_loop_scheme \<times> nat) option" where
  "event_timer_set sock millis cb s = do {
     guard (sk_loop (sock_mem s sock));
     cb \<leftarrow> cb;
     let (s, event) = event_find_free sock s;
     event \<leftarrow> event;
     Some (s\<lparr>event_mem := (event_mem s)(event :=
       \<lparr>ev_sock = Some sock, ev_data = Event_Timer millis (os_now (os s)) (Some cb)\<rparr>)\<rparr>, event)
   }"

definition event_timer_reset :: "nat option \<Rightarrow> ('cb, 'z) event_loop_scheme \<Rightarrow> ('cb, 'z) event_loop_scheme option" where
  "event_timer_reset timer s =
     (case timer of
        None \<Rightarrow> Some s
      | Some e \<Rightarrow> do {
          (millis, _, cb) \<leftarrow> timer_data (data_of s e);
          Some (set_data e (Event_Timer millis (os_now (os s)) cb) s)
        })"

definition event_timer_stop :: "nat option \<Rightarrow> ('cb, 'z) event_loop_scheme \<Rightarrow> ('cb, 'z) event_loop_scheme option" where
  "event_timer_stop timer s =
     (case timer of
        None \<Rightarrow> Some s
      | Some e \<Rightarrow> do {
          _ \<leftarrow> timer_data (data_of s e);
          sock \<leftarrow> ev_sock (event_mem s e);
          s \<leftarrow> event_delete sock e s;
          Some (event_push e s)
        })"

definition event_accept :: "nat \<Rightarrow> nat \<Rightarrow> ('cb, 'z) event_loop_scheme \<Rightarrow>
    (('cb, 'z) event_loop_scheme \<times> int) option" where
  "event_accept server client s = do {
     guard (sk_loop (sock_mem s server) \<and> sk_loop (sock_mem s client));
     guard (sk_state (sock_mem s server) = EVENT_SOCK_LISTENING);
     guard (sk_state (sock_mem s client) = EVENT_SOCK_CLOSED);
     let clifd = os_accept (os s) (sk_descriptor (sock_mem s server));
     if clifd < 0 then Some (s, - 1)
     else do {
       let s = s\<lparr>lp_nfds := clifd + 1\<rparr>;
       fds \<leftarrow> fd_set clifd (lp_active_fds s);
       let s = s\<lparr>lp_active_fds := fds\<rparr>;
       Some (upd_sock client (\<lambda>k. k\<lparr>sk_descriptor := clifd, sk_state := EVENT_SOCK_CONNECTED\<rparr>) s, 0)
     }
   }"

definition event_close :: "nat \<Rightarrow> 'cb option \<Rightarrow> ('cb, 'z) event_loop_scheme \<Rightarrow>
    (('cb, 'z) event_loop_scheme \<times> int) option" where
  "event_close sock cb s = do {
     guard (sk_loop (sock_mem s sock));
     cb \<leftarrow> cb;
     let s = upd_sock sock (\<lambda>k. k\<lparr>sk_state := EVENT_SOCK_CLOSING, sk_close_cb := Some cb\<rparr>) s;
     event \<leftarrow> event_find s (events_of s sock) EVENT_WRITE_TYPE;
     (case event of
        None \<Rightarrow> Some (s, 0)
      | Some e \<Rightarrow> do {
          (buf, queue) \<leftarrow> write_data (data_of s e);
          Some (set_data e (Event_Write (cbuf_end buf) queue) s, 0)
        })
   }"

text \<open>
  \<open>event_loop_init\<close> clears the whole structure; the remaining fields of the extended state and those of the
  operating system are not part of it.
\<close>

definition event_loop_init :: "('cb, 'z) event_loop_scheme \<Rightarrow> ('cb, 'z) event_loop_scheme" where
  "event_loop_init s =
     (let (sh, sp) = LL_INIT EVENT_MAX_SOCKETS; (eh, ep) = LL_INIT EVENT_MAX_EVENTS;
          (wh, wp) = LL_INIT EVENT_WRITE_QUEUE_SIZE
      in s\<lparr>lp_reserved := None, lp_sockets := sp, lp_events := ep, lp_writes := wp,
           sock_next := sh, event_next := eh, write_next := wh,
           sock_mem := (\<lambda>_. null_sock), event_mem := (\<lambda>_. null_event), op_mem := (\<lambda>_. null_op),
           lp_running := False, lp_active_fds := {}, lp_nfds := 0\<rparr>)"

definition event_sock_create :: "('cb, 'z) event_loop_scheme \<Rightarrow> (('cb, 'z) event_loop_scheme \<times> nat) option" where
  "event_sock_create s = do {
     let (free, sock) = LL_POP (sock_next s) (lp_sockets s);
     sock \<leftarrow> sock;
     let s = s\<lparr>lp_sockets := free, sock_next := (sock_next s)(sock := None),
               sock_mem := (sock_mem s)(sock := null_sock\<lparr>sk_loop := True, sk_state := EVENT_SOCK_CLOSED,
                                                     sk_descriptor := - 1\<rparr>)\<rparr>;
     let (h, reserved) = LL_PUSH sock (sock_next s) (lp_reserved s);
     Some (s\<lparr>sock_next := h, lp_reserved := reserved\<rparr>, sock)
   }"

definition event_sock_unused :: "('cb, 'z) event_loop_scheme \<Rightarrow> nat option" where
  "event_sock_unused s = LL_COUNT (sock_next s) (lp_sockets s)"

definition event_loop_is_alive :: "('cb, 'z) event_loop_scheme \<Rightarrow> bool" where
  "event_loop_is_alive s \<longleftrightarrow> lp_reserved s \<noteq> None"

subsection \<open>The loop\<close>

text \<open>The meaning of the callbacks, by the type of the function pointer.\<close>

record ('cb, 's) callbacks =
  connection_cb :: "'cb \<Rightarrow> nat \<Rightarrow> 's \<Rightarrow> ('s \<times> nat option) option"
  read_cb :: "'cb \<Rightarrow> nat \<Rightarrow> int \<Rightarrow> byte list \<Rightarrow> 's \<Rightarrow> ('s \<times> int) option"
  write_cb :: "'cb \<Rightarrow> nat \<Rightarrow> int \<Rightarrow> 's \<Rightarrow> 's option"
  timer_cb :: "'cb \<Rightarrow> nat \<Rightarrow> 's \<Rightarrow> ('s \<times> int) option"
  close_cb :: "'cb \<Rightarrow> nat \<Rightarrow> 's \<Rightarrow> 's option"

type_synonym ('cb, 'z) loop_callbacks = "('cb, ('cb, 'z) event_loop_scheme) callbacks"

fun connection_data :: "'cb event_data \<Rightarrow> 'cb option option" where
  "connection_data (Event_Connection cb) = Some cb"
| "connection_data _ = None"

definition event_sock_connect :: "('cb, 'z) loop_callbacks \<Rightarrow> nat \<Rightarrow> nat option \<Rightarrow>
    ('cb, 'z) event_loop_scheme \<Rightarrow> (('cb, 'z) event_loop_scheme \<times> nat option) option" where
  "event_sock_connect cbs sock event s =
     (case event of
        None \<Rightarrow> Some (s, None)
      | Some e \<Rightarrow> do {
          cb \<leftarrow> connection_data (data_of s e);
          cb \<leftarrow> cb;
          if lp_sockets s \<noteq> None then connection_cb cbs cb sock s else Some (s, None)
        })"

partial_function (option) close_ops_loop ::
  "nat \<Rightarrow> nat option \<Rightarrow> ('cb, 'z) event_loop_scheme \<Rightarrow> ('cb, 'z) event_loop_scheme option" where
  "close_ops_loop e op s =
     (case op of
        None \<Rightarrow> Some s
      | Some op \<Rightarrow> do {
          (s, op) \<leftarrow> queue_pop e (op_push op s);
          close_ops_loop e op s
        })"

declare close_ops_loop.simps [code]

definition event_sock_close :: "('cb, 'z) loop_callbacks \<Rightarrow> nat \<Rightarrow> int \<Rightarrow>
    ('cb, 'z) event_loop_scheme \<Rightarrow> ('cb, 'z) event_loop_scheme option" where
  "event_sock_close cbs sock status s = do {
     guard (status \<le> 0);
     re \<leftarrow> event_find s (events_of s sock) EVENT_READ_TYPE;
     s \<leftarrow> (case re of
             None \<Rightarrow> Some s
           | Some e \<Rightarrow> do {
               (buf, cb) \<leftarrow> read_data (data_of s e);
               let s = set_data e (Event_Read (cbuf_end buf) cb) s;
               cb \<leftarrow> cb;
               (s, _) \<leftarrow> read_cb cbs cb sock status [] s;
               Some s
             });
     we \<leftarrow> event_find s (events_of s sock) EVENT_WRITE_TYPE;
     (case we of
        None \<Rightarrow> Some s
      | Some e \<Rightarrow> do {
          (buf, queue) \<leftarrow> write_data (data_of s e);
          (buf, _, _) \<leftarrow> cbuf_pop (cbuf_end buf) None (cbuf_len buf);
          let s = set_data e (Event_Write buf queue) s;
          (s, op) \<leftarrow> queue_pop e s;
          s \<leftarrow> (case op of
                  Some op' \<Rightarrow> if re = None
                    then do { cb \<leftarrow> op_cb (op_mem s op'); write_cb cbs cb sock status s }
                    else Some s
                | None \<Rightarrow> Some s);
          close_ops_loop e op s
        })
   }"

text \<open>
  The bytes that \<open>recv\<close> returns never exceed the length it was given. With no room left in the buffer the
  code asks for 0 bytes; the zero that \<open>recv\<close> returns then is taken for the end of the stream.
\<close>

definition event_sock_read :: "('cb, 'z) loop_callbacks \<Rightarrow> nat \<Rightarrow> nat option \<Rightarrow>
    ('cb, 'z) event_loop_scheme \<Rightarrow> ('cb, 'z) event_loop_scheme option" where
  "event_sock_read cbs sock event s =
     (case event of
        None \<Rightarrow> Some s
      | Some e \<Rightarrow> do {
          (buf, cb) \<leftarrow> read_data (data_of s e);
          let readlen = cbuf_maxlen buf - cbuf_len buf;
          (case os_recv (os s) (sk_descriptor (sock_mem s sock)) readlen of
             Recv_Eof \<Rightarrow> event_sock_close cbs sock 0 s
           | Recv_Error errno \<Rightarrow> event_sock_close cbs sock (- errno) s
           | Recv_Again \<Rightarrow> do {
               (buf, _) \<leftarrow> cbuf_push buf (replicate (nat readlen) 0) (- 1);
               Some (set_data e (Event_Read buf cb) s)
             }
           | Recv_Bytes bytes \<Rightarrow> do {
               guard (bytes \<noteq> [] \<and> int (length bytes) \<le> readlen);
               (buf, _) \<leftarrow> cbuf_push buf bytes (int (length bytes));
               Some (set_data e (Event_Read buf cb) s)
             })
        })"

definition event_sock_handle_read :: "('cb, 'z) loop_callbacks \<Rightarrow> nat \<Rightarrow> nat option \<Rightarrow>
    ('cb, 'z) event_loop_scheme \<Rightarrow> ('cb, 'z) event_loop_scheme option" where
  "event_sock_handle_read cbs sock event s =
     (case event of
        None \<Rightarrow> Some s
      | Some e \<Rightarrow> do {
          (buf, cb) \<leftarrow> read_data (data_of s e);
          let buflen = cbuf_len buf;
          s \<leftarrow> (if buflen > 0 then do {
                  (read_buf, _) \<leftarrow> cbuf_peek buf (Some (replicate (nat buflen) 0)) buflen;
                  cb \<leftarrow> cb;
                  (s, readlen) \<leftarrow> read_cb cbs cb sock buflen (the read_buf) s;
                  (buf, cb) \<leftarrow> read_data (data_of s e);
                  (buf, _, _) \<leftarrow> cbuf_pop buf None readlen;
                  Some (set_data e (Event_Read buf cb) s)
                } else Some s);
          (buf, cb) \<leftarrow> read_data (data_of s e);
          if cbuf_has_ended buf then do {
            cb \<leftarrow> cb;
            (s, _) \<leftarrow> read_cb cbs cb sock (- 1) [] s;
            Some s
          } else Some s
        })"

text \<open>The results of the loop: the operation that is not finished and the state.\<close>

partial_function (option) handle_write_loop ::
  "('cb, 'z) loop_callbacks \<Rightarrow> nat \<Rightarrow> nat \<Rightarrow> nat option \<Rightarrow> nat \<Rightarrow> ('cb, 'z) event_loop_scheme \<Rightarrow>
    (('cb, 'z) event_loop_scheme \<times> nat option) option" where
  "handle_write_loop cbs sock e op written s =
     (case op of
        None \<Rightarrow> Some (s, None)
      | Some op' \<Rightarrow>
          if written > 0 then
            (if op_bytes (op_mem s op') \<le> written then do {
               let written' = written - op_bytes (op_mem s op');
               cb \<leftarrow> op_cb (op_mem s op');
               s \<leftarrow> write_cb cbs cb sock 0 s;
               (s, op) \<leftarrow> queue_pop e (op_push op' s);
               handle_write_loop cbs sock e op written' s
             }
             else Some (set_op op' ((op_mem s op')\<lparr>op_bytes := op_bytes (op_mem s op') - written\<rparr>) s, op))
          else Some (s, op))"

declare handle_write_loop.simps [code]

definition event_sock_handle_write :: "('cb, 'z) loop_callbacks \<Rightarrow> nat \<Rightarrow> nat \<Rightarrow> nat \<Rightarrow>
    ('cb, 'z) event_loop_scheme \<Rightarrow> ('cb, 'z) event_loop_scheme option" where
  "event_sock_handle_write cbs sock e written s = do {
     (s, op) \<leftarrow> queue_pop e s;
     (s, op) \<leftarrow> handle_write_loop cbs sock e op written s;
     (case op of
        None \<Rightarrow> Some s
      | Some op \<Rightarrow> do {
          (buf, queue) \<leftarrow> write_data (data_of s e);
          let (h, queue) = LL_PUSH op (write_next s) queue;
          Some (set_data e (Event_Write buf queue) (s\<lparr>write_next := h\<rparr>))
        })
   }"

definition event_sock_write :: "('cb, 'z) loop_callbacks \<Rightarrow> nat \<Rightarrow> nat option \<Rightarrow>
    ('cb, 'z) event_loop_scheme \<Rightarrow> ('cb, 'z) event_loop_scheme option" where
  "event_sock_write cbs sock event s =
     (case event of
        None \<Rightarrow> Some s
      | Some e \<Rightarrow> do {
          (buf, queue) \<leftarrow> write_data (data_of s e);
          let len = cbuf_len buf;
          (bytes, _) \<leftarrow> cbuf_peek buf (Some (replicate (nat len) 0)) len;
          let fd = sk_descriptor (sock_mem s sock);
          (case os_send (os s) fd (the bytes) of
             Send_Error errno \<Rightarrow> event_sock_close cbs sock (- errno) s
           | Send_Again \<Rightarrow> Some s
           | Sent written \<Rightarrow>
               if written > 0 then do {
                 guard (int written \<le> len);
                 let s = os_do (Os_Send fd (take written (the bytes))) s;
                 (buf, _, _) \<leftarrow> cbuf_pop buf None (int written);
                 event_sock_handle_write cbs sock e written (set_data e (Event_Write buf queue) s)
               }
               else Some s)
        })"

text \<open>
  The timers. \<open>timersub\<close> and the conversion to milliseconds round down, also for a clock that was set
  back.
\<close>

partial_function (option) sock_timers_loop ::
  "('cb, 'z) loop_callbacks \<Rightarrow> int \<Rightarrow> nat \<Rightarrow> nat option \<Rightarrow> ('cb, 'z) event_loop_scheme \<Rightarrow>
    ('cb, 'z) event_loop_scheme option" where
  "sock_timers_loop cbs now sock event s =
     (case event of
        None \<Rightarrow> Some s
      | Some e \<Rightarrow>
          (case timer_data (data_of s e) of
             None \<Rightarrow> sock_timers_loop cbs now sock (event_next s e) s
           | Some (millis, start, cb) \<Rightarrow>
               if (now - start) div 1000 \<ge> millis then do {
                 cb \<leftarrow> cb;
                 (s, remove) \<leftarrow> timer_cb cbs cb sock s;
                 (millis, _, cb) \<leftarrow> timer_data (data_of s e);
                 let s = set_data e (Event_Timer millis now cb) s;
                 if remove > 0 then do {
                   s \<leftarrow> event_delete sock e s;
                   sock_timers_loop cbs now sock (event_next s e) (event_push e s)
                 }
                 else sock_timers_loop cbs now sock (event_next s e) s
               }
               else sock_timers_loop cbs now sock (event_next s e) s))"

declare sock_timers_loop.simps [code]

partial_function (option) timers_loop ::
  "('cb, 'z) loop_callbacks \<Rightarrow> int \<Rightarrow> nat option \<Rightarrow> ('cb, 'z) event_loop_scheme \<Rightarrow>
    ('cb, 'z) event_loop_scheme option" where
  "timers_loop cbs now sock s =
     (case sock of
        None \<Rightarrow> Some s
      | Some k \<Rightarrow> do {
          s \<leftarrow> sock_timers_loop cbs now k (events_of s k) s;
          timers_loop cbs now (sock_next s k) s
        })"

declare timers_loop.simps [code]

definition event_loop_timers :: "('cb, 'z) loop_callbacks \<Rightarrow> ('cb, 'z) event_loop_scheme \<Rightarrow>
    ('cb, 'z) event_loop_scheme option" where
  "event_loop_timers cbs s = timers_loop cbs (os_now (os s)) (lp_reserved s) s"

text \<open>One descriptor that \<open>select\<close> reported, and the loop over all of them.\<close>

definition poll_sock :: "('cb, 'z) loop_callbacks \<Rightarrow> int set \<Rightarrow> int set \<Rightarrow> int \<Rightarrow> ('cb, 'z) event_loop_scheme \<Rightarrow>
    ('cb, 'z) event_loop_scheme option" where
  "poll_sock cbs read_fds write_fds i s = do {
     sock \<leftarrow> event_sock_find s (lp_reserved s) i;
     sock \<leftarrow> sock;
     s \<leftarrow> (if i \<in> read_fds then
             (if sk_state (sock_mem s sock) = EVENT_SOCK_CONNECTED then do {
                event \<leftarrow> event_find s (events_of s sock) EVENT_READ_TYPE;
                event_sock_read cbs sock event s
              }
              else if sk_state (sock_mem s sock) = EVENT_SOCK_LISTENING then do {
                event \<leftarrow> event_find s (events_of s sock) EVENT_CONNECTION_TYPE;
                (s, _) \<leftarrow> event_sock_connect cbs sock event s;
                Some s
              }
              else Some s)
           else Some s);
     if i \<in> write_fds then do {
       event \<leftarrow> event_find s (events_of s sock) EVENT_WRITE_TYPE;
       event_sock_write cbs sock event s
     }
     else Some s
   }"

partial_function (option) poll_loop ::
  "('cb, 'z) loop_callbacks \<Rightarrow> int set \<Rightarrow> int set \<Rightarrow> int \<Rightarrow> ('cb, 'z) event_loop_scheme \<Rightarrow>
    ('cb, 'z) event_loop_scheme option" where
  "poll_loop cbs read_fds write_fds i s =
     (if i < lp_nfds s then
        (if i \<in> lp_active_fds s then do {
           s \<leftarrow> poll_sock cbs read_fds write_fds i s;
           poll_loop cbs read_fds write_fds (i + 1) s
         }
         else poll_loop cbs read_fds write_fds (i + 1) s)
      else Some s)"

declare poll_loop.simps [code]

definition event_loop_poll :: "('cb, 'z) loop_callbacks \<Rightarrow> ('cb, 'z) event_loop_scheme \<Rightarrow>
    ('cb, 'z) event_loop_scheme option" where
  "event_loop_poll cbs s = do {
     guard (lp_nfds s \<ge> 0);
     (case os_select (os s) of
        None \<Rightarrow> Some s
      | Some (read_fds, write_fds) \<Rightarrow> poll_loop cbs read_fds write_fds 0 s)
   }"

partial_function (option) pending_loop ::
  "('cb, 'z) loop_callbacks \<Rightarrow> nat option \<Rightarrow> ('cb, 'z) event_loop_scheme \<Rightarrow>
    ('cb, 'z) event_loop_scheme option" where
  "pending_loop cbs sock s =
     (case sock of
        None \<Rightarrow> Some s
      | Some k \<Rightarrow> do {
          event \<leftarrow> event_find s (events_of s k) EVENT_READ_TYPE;
          s \<leftarrow> event_sock_handle_read cbs k event s;
          pending_loop cbs (sock_next s k) s
        })"

declare pending_loop.simps [code]

definition event_loop_pending :: "('cb, 'z) loop_callbacks \<Rightarrow> ('cb, 'z) event_loop_scheme \<Rightarrow>
    ('cb, 'z) event_loop_scheme option" where
  "event_loop_pending cbs s = pending_loop cbs (lp_reserved s) s"

text \<open>Closing: the events of a closed socket go back to the pool one by one.\<close>

partial_function (option) release_events_loop ::
  "nat option \<Rightarrow> ('cb, 'z) event_loop_scheme \<Rightarrow> ('cb, 'z) event_loop_scheme option" where
  "release_events_loop event s =
     (case event of
        None \<Rightarrow> Some s
      | Some e \<Rightarrow> release_events_loop (event_next s e) (event_push e s))"

declare release_events_loop.simps [code]

definition is_closable :: "nat \<Rightarrow> ('cb, 'z) event_loop_scheme \<Rightarrow> bool option" where
  "is_closable sock s = do {
     we \<leftarrow> event_find s (events_of s sock) EVENT_WRITE_TYPE;
     if sk_state (sock_mem s sock) = EVENT_SOCK_CLOSING then
       (case we of
          None \<Rightarrow> Some True
        | Some e \<Rightarrow> do { (_, queue) \<leftarrow> write_data (data_of s e); Some (queue = None) })
     else Some False
   }"

definition close_sock :: "('cb, 'z) loop_callbacks \<Rightarrow> nat \<Rightarrow> nat option \<Rightarrow> ('cb, 'z) event_loop_scheme \<Rightarrow>
    (('cb, 'z) event_loop_scheme \<times> nat option) option" where
  "close_sock cbs sock prev s = do {
     let fd = sk_descriptor (sock_mem s sock);
     fds \<leftarrow> fd_clr fd (lp_active_fds s);
     let s = os_do (Os_Close fd) (os_do (Os_Shutdown fd) (s\<lparr>lp_active_fds := fds\<rparr>));
     let s = upd_sock sock (\<lambda>k. k\<lparr>sk_state := EVENT_SOCK_CLOSED\<rparr>) s;
     cb \<leftarrow> sk_close_cb (sock_mem s sock);
     s \<leftarrow> close_cb cbs cb sock s;
     let next = sock_next s sock;
     let (h, free) = LL_PUSH sock (sock_next s) (lp_sockets s);
     let s = s\<lparr>sock_next := h, lp_sockets := free\<rparr>;
     let s = (case prev of None \<Rightarrow> s\<lparr>lp_reserved := next\<rparr> | Some p \<Rightarrow> s\<lparr>sock_next := (sock_next s)(p := next)\<rparr>);
     s \<leftarrow> release_events_loop (events_of s sock) s;
     Some (s, next)
   }"

partial_function (option) close_loop ::
  "('cb, 'z) loop_callbacks \<Rightarrow> nat option \<Rightarrow> nat option \<Rightarrow> int \<Rightarrow> ('cb, 'z) event_loop_scheme \<Rightarrow>
    (('cb, 'z) event_loop_scheme \<times> int) option" where
  "close_loop cbs sock prev max_fds s =
     (case sock of
        None \<Rightarrow> Some (s, max_fds)
      | Some k \<Rightarrow> do {
          c \<leftarrow> is_closable k s;
          if c then do {
            (s, next) \<leftarrow> close_sock cbs k prev s;
            close_loop cbs next prev max_fds s
          }
          else close_loop cbs (sock_next s k) sock (max (sk_descriptor (sock_mem s k)) max_fds) s
        })"

declare close_loop.simps [code]

definition event_loop_close :: "('cb, 'z) loop_callbacks \<Rightarrow> ('cb, 'z) event_loop_scheme \<Rightarrow>
    ('cb, 'z) event_loop_scheme option" where
  "event_loop_close cbs s = do {
     (s, max_fds) \<leftarrow> close_loop cbs (lp_reserved s) None (- 1) s;
     Some (s\<lparr>lp_nfds := max_fds + 1\<rparr>)
   }"

text \<open>
  One round of the loop, and the loop on the answers of the operating system to its first rounds. The
  boolean result says whether the loop has ended, as opposed to being in front of the next round.
\<close>

definition event_loop_step :: "('cb, 'z) loop_callbacks \<Rightarrow> os_env \<Rightarrow> ('cb, 'z) event_loop_scheme \<Rightarrow>
    ('cb, 'z) event_loop_scheme option" where
  "event_loop_step cbs env s = do {
     s \<leftarrow> event_loop_timers cbs (s\<lparr>os := env\<rparr>);
     s \<leftarrow> event_loop_poll cbs s;
     s \<leftarrow> event_loop_pending cbs s;
     event_loop_close cbs s
   }"

fun event_loop_rounds :: "('cb, 'z) loop_callbacks \<Rightarrow> os_env list \<Rightarrow> ('cb, 'z) event_loop_scheme \<Rightarrow>
    (('cb, 'z) event_loop_scheme \<times> bool) option" where
  "event_loop_rounds cbs envs s =
     (if event_loop_is_alive s
      then (case envs of
              [] \<Rightarrow> Some (s, False)
            | env # envs \<Rightarrow> do { s \<leftarrow> event_loop_step cbs env s; event_loop_rounds cbs envs s })
      else Some (s\<lparr>lp_running := False\<rparr>, True))"

declare event_loop_rounds.simps [simp del]

definition event_loop_run :: "('cb, 'z) loop_callbacks \<Rightarrow> os_env list \<Rightarrow> ('cb, 'z) event_loop_scheme \<Rightarrow>
    (('cb, 'z) event_loop_scheme \<times> bool) option" where
  "event_loop_run cbs envs s = do {
     guard (\<not> lp_running s);
     event_loop_rounds cbs envs (s\<lparr>lp_running := True\<rparr>)
   }"

end
