(* ===== verification/Frames.thy ===== *)
theory Frames
  imports Buffer Hpack Event
begin

text \<open>
  \<open>src/src/frames.c\<close>: the header of an HTTP/2 frame and the functions that put a frame together in a static
  buffer and queue it for writing.

  The lemmas show that parsing inverts the serialisation of a header, and that every \<open>send\<close> function hands
  \<open>event_write\<close> exactly the octets of the frame it is named after, as RFC 7540 defines them except for the
  reserved bit of the header, which the program sets.
\<close>

definition FRAME_MAX_SIZE :: nat where "FRAME_MAX_SIZE = 512"

abbreviation FRAME_FLAGS_NONE :: byte where "FRAME_FLAGS_NONE \<equiv> 0x0"
abbreviation FRAME_FLAGS_ACK :: byte where "FRAME_FLAGS_ACK \<equiv> 0x1"
abbreviation FRAME_FLAGS_END_STREAM :: byte where "FRAME_FLAGS_END_STREAM \<equiv> 0x1"
abbreviation FRAME_FLAGS_END_HEADERS :: byte where "FRAME_FLAGS_END_HEADERS \<equiv> 0x4"
abbreviation FRAME_FLAGS_PADDED :: byte where "FRAME_FLAGS_PADDED \<equiv> 0x8"
abbreviation FRAME_FLAGS_PRIORITY :: byte where "FRAME_FLAGS_PRIORITY \<equiv> 0x20"

abbreviation FRAME_DATA_TYPE :: byte where "FRAME_DATA_TYPE \<equiv> 0x0"
abbreviation FRAME_HEADERS_TYPE :: byte where "FRAME_HEADERS_TYPE \<equiv> 0x1"
abbreviation FRAME_PRIORITY_TYPE :: byte where "FRAME_PRIORITY_TYPE \<equiv> 0x2"
abbreviation FRAME_RST_STREAM_TYPE :: byte where "FRAME_RST_STREAM_TYPE \<equiv> 0x3"
abbreviation FRAME_SETTINGS_TYPE :: byte where "FRAME_SETTINGS_TYPE \<equiv> 0x4"
abbreviation FRAME_PUSH_PROMISE_TYPE :: byte where "FRAME_PUSH_PROMISE_TYPE \<equiv> 0x5"
abbreviation FRAME_PING_TYPE :: byte where "FRAME_PING_TYPE \<equiv> 0x6"
abbreviation FRAME_GOAWAY_TYPE :: byte where "FRAME_GOAWAY_TYPE \<equiv> 0x7"
abbreviation FRAME_WINDOW_UPDATE_TYPE :: byte where "FRAME_WINDOW_UPDATE_TYPE \<equiv> 0x8"
abbreviation FRAME_CONTINUATION_TYPE :: byte where "FRAME_CONTINUATION_TYPE \<equiv> 0x9"

text \<open>
  The fields of \<open>frame_header_t\<close> are bit fields; \<open>mk_header\<close> cuts the length to 24 and the stream id to
  31 bits, as an assignment to the field does. The reserved bit is never read.
\<close>

record frame_header =
  fh_length :: u32
  fh_type :: byte
  fh_flags :: byte
  fh_stream_id :: u32

definition mk_header :: "u32 \<Rightarrow> byte \<Rightarrow> byte \<Rightarrow> u32 \<Rightarrow> frame_header" where
  "mk_header len ty flags stream_id =
     \<lparr>fh_length = take_bit 24 len, fh_type = ty, fh_flags = flags, fh_stream_id = take_bit 31 stream_id\<rparr>"

definition frame_header_to_bytes :: "frame_header \<Rightarrow> byte list \<Rightarrow> (byte list \<times> nat) option" where
  "frame_header_to_bytes header byte_array = do {
     byte_array \<leftarrow> buffer_put_u24 byte_array 0 (fh_length header);
     byte_array \<leftarrow> buffer_put_u8 byte_array 3 (fh_type header);
     byte_array \<leftarrow> buffer_put_u8 byte_array 4 (fh_flags header);
     byte_array \<leftarrow> buffer_put_u31 byte_array 5 (fh_stream_id header);
     b \<leftarrow> rd byte_array 5;
     byte_array \<leftarrow> wr byte_array 5 (b OR 0x80);
     Some (byte_array, 9)
   }"

definition frame_parse_header :: "byte list \<Rightarrow> nat \<Rightarrow> int \<Rightarrow> frame_header option" where
  "frame_parse_header data p sz = do {
     guard (sz \<ge> 9);
     len \<leftarrow> buffer_get_u24 data p;
     ty \<leftarrow> buffer_get_u8 data (p + 3);
     flags \<leftarrow> buffer_get_u8 data (p + 4);
     stream_id \<leftarrow> buffer_get_u31 data (p + 5);
     Some (mk_header len ty flags stream_id)
   }"

text \<open>The static buffer is cleared at the start of every \<open>send\<close> function.\<close>

definition frame_bytes :: "byte list" where
  "frame_bytes = replicate FRAME_MAX_SIZE 0"

type_synonym ('cb, 'z) writer = "('cb, 'z) event_loop_scheme \<Rightarrow> (('cb, 'z) event_loop_scheme \<times> int) option"

definition send_ping_frame :: "nat \<Rightarrow> byte list \<Rightarrow> nat \<Rightarrow> bool \<Rightarrow> 'cb \<Rightarrow> ('cb, 'z) writer" where
  "send_ping_frame socket opaque_data p ack cb s = do {
     let header = mk_header 8 FRAME_PING_TYPE (if ack then FRAME_FLAGS_ACK else 0) 0;
     (bytes, frame_size) \<leftarrow> frame_header_to_bytes header frame_bytes;
     payload \<leftarrow> mem_read opaque_data p (unat (fh_length header));
     bytes \<leftarrow> mem_write bytes frame_size payload;
     event_write socket (int (frame_size + unat (fh_length header))) (Some bytes) (Some cb) s
   }"

definition send_goaway_frame :: "nat \<Rightarrow> u32 \<Rightarrow> u32 \<Rightarrow> 'cb \<Rightarrow> ('cb, 'z) writer" where
  "send_goaway_frame socket error_code last_open_stream_id cb s = do {
     let header = mk_header 8 FRAME_GOAWAY_TYPE 0 0;
     (bytes, frame_size) \<leftarrow> frame_header_to_bytes header frame_bytes;
     bytes \<leftarrow> buffer_put_u31 bytes frame_size last_open_stream_id;
     bytes \<leftarrow> buffer_put_u32 bytes (frame_size + 4) error_code;
     event_write socket (int (frame_size + 8)) (Some bytes) (Some cb) s
   }"

text \<open>The loop that writes the parameters; the identifiers count from 1 to 6.\<close>

fun settings_loop :: "u16 list \<Rightarrow> u32 list \<Rightarrow> nat \<Rightarrow> byte list \<Rightarrow> (byte list \<times> nat) option" where
  "settings_loop (identifier # ids) values frame_size bytes =
     (case values of
        [] \<Rightarrow> None
      | v # values \<Rightarrow> do {
          bytes \<leftarrow> buffer_put_u16 bytes frame_size identifier;
          bytes \<leftarrow> buffer_put_u32 bytes (frame_size + 2) v;
          settings_loop ids values (frame_size + 6) bytes
        })"
| "settings_loop [] values frame_size bytes = Some (bytes, frame_size)"

definition send_settings_frame :: "nat \<Rightarrow> bool \<Rightarrow> u32 list \<Rightarrow> 'cb \<Rightarrow> ('cb, 'z) writer" where
  "send_settings_frame socket ack settings_values cb s = do {
     let ids = [0x1, 0x2, 0x3, 0x4, 0x5, 0x6];
     let header = mk_header (if ack then 0 else 36) FRAME_SETTINGS_TYPE (if ack then FRAME_FLAGS_ACK else 0) 0;
     (bytes, frame_size) \<leftarrow> frame_header_to_bytes header frame_bytes;
     (bytes, frame_size) \<leftarrow>
       (if ack then Some (bytes, frame_size) else settings_loop ids settings_values frame_size bytes);
     event_write socket (int frame_size) (Some bytes) (Some cb) s
   }"

text \<open>
  The block is encoded behind the place of the frame header, which is written afterwards. The dynamic table
  belongs to the caller; a negative result of the encoder is returned before anything is queued.
\<close>

definition send_headers_frame ::
  "nat \<Rightarrow> header_list \<Rightarrow> hpack_dynamic_table \<Rightarrow> u32 \<Rightarrow> bool \<Rightarrow> 'cb \<Rightarrow> ('cb, 'z) event_loop_scheme \<Rightarrow>
    (('cb, 'z) event_loop_scheme \<times> hpack_dynamic_table \<times> int) option" where
  "send_headers_frame socket headers_list dynamic_table stream_id end_stream cb s = do {
     (dynamic_table, block, encoded_size) \<leftarrow>
       hpack_encode dynamic_table headers_list (drop 9 frame_bytes) (FRAME_MAX_SIZE - 9);
     if encoded_size < 0 then Some (s, dynamic_table, encoded_size)
     else do {
       let header = mk_header (word_of_int encoded_size) FRAME_HEADERS_TYPE
         (FRAME_FLAGS_END_HEADERS OR (if end_stream then FRAME_FLAGS_END_STREAM else 0)) stream_id;
       (bytes, frame_size) \<leftarrow> frame_header_to_bytes header (take 9 frame_bytes @ block);
       (s, rc) \<leftarrow> event_write socket (int frame_size + encoded_size) (Some bytes) (Some cb) s;
       Some (s, dynamic_table, rc)
     }
   }"

definition send_window_update_frame :: "nat \<Rightarrow> u32 \<Rightarrow> u32 \<Rightarrow> 'cb \<Rightarrow> ('cb, 'z) writer" where
  "send_window_update_frame socket window_size_increment stream_id cb s = do {
     let header = mk_header 4 FRAME_WINDOW_UPDATE_TYPE 0 stream_id;
     (bytes, frame_size) \<leftarrow> frame_header_to_bytes header frame_bytes;
     bytes \<leftarrow> buffer_put_u31 bytes frame_size window_size_increment;
     event_write socket (int (frame_size + unat (fh_length header))) (Some bytes) (Some cb) s
   }"

definition send_rst_stream_frame :: "nat \<Rightarrow> u32 \<Rightarrow> u32 \<Rightarrow> 'cb \<Rightarrow> ('cb, 'z) writer" where
  "send_rst_stream_frame socket error_code stream_id cb s = do {
     let header = mk_header 4 FRAME_RST_STREAM_TYPE 0 stream_id;
     (bytes, frame_size) \<leftarrow> frame_header_to_bytes header frame_bytes;
     bytes \<leftarrow> buffer_put_u32 bytes frame_size error_code;
     event_write socket (int (frame_size + unat (fh_length header))) (Some bytes) (Some cb) s
   }"

definition send_data_frame :: "nat \<Rightarrow> byte list \<Rightarrow> nat \<Rightarrow> u32 \<Rightarrow> u32 \<Rightarrow> bool \<Rightarrow> 'cb \<Rightarrow> ('cb, 'z) writer" where
  "send_data_frame socket data p sz stream_id end_stream cb s = do {
     let header = mk_header sz FRAME_DATA_TYPE (if end_stream then FRAME_FLAGS_END_STREAM else 0) stream_id;
     (bytes, frame_size) \<leftarrow> frame_header_to_bytes header frame_bytes;
     payload \<leftarrow> mem_read data p (unat sz);
     bytes \<leftarrow> mem_write bytes frame_size payload;
     event_write socket (int (frame_size + unat sz)) (Some bytes) (Some cb) s
   }"

subsection \<open>The octets of a frame\<close>

text \<open>
  The nine octets of a frame header as the program sends them, and the frames of the program. The reserved
  bit is set, although RFC 7540, section 4.1, requires it to be unset when a frame is sent; \<open>rfc_octets\<close>
  below has the octets of the RFC.
\<close>

definition reserved_flag :: u32 where "reserved_flag = 0x80000000"

definition header_octets :: "u32 \<Rightarrow> byte \<Rightarrow> byte \<Rightarrow> u32 \<Rightarrow> byte list" where
  "header_octets len ty flags stream_id = be24 len @ [ty, flags] @ be32 (stream_id OR reserved_flag)"

datatype frame =
    Ping_Frame bool "byte list"
  | Goaway_Frame u32 u32
  | Settings_Frame "(u16 \<times> u32) list"
  | Settings_Ack_Frame
  | Headers_Frame u32 bool "byte list"
  | Window_Update_Frame u32 u32
  | Rst_Stream_Frame u32 u32
  | Data_Frame u32 bool "byte list"

definition with_header :: "byte \<Rightarrow> byte \<Rightarrow> u32 \<Rightarrow> byte list \<Rightarrow> byte list" where
  "with_header ty flags stream_id payload = header_octets (of_nat (length payload)) ty flags stream_id @ payload"

fun frame_octets :: "frame \<Rightarrow> byte list" where
  "frame_octets (Ping_Frame ack payload) =
     with_header FRAME_PING_TYPE (if ack then FRAME_FLAGS_ACK else 0) 0 payload"
| "frame_octets (Goaway_Frame last_id err) = with_header FRAME_GOAWAY_TYPE 0 0 (be31 last_id @ be32 err)"
| "frame_octets (Settings_Frame ps) =
     with_header FRAME_SETTINGS_TYPE 0 0 (concat (map (\<lambda>(i, v). be16 i @ be32 v) ps))"
| "frame_octets Settings_Ack_Frame = with_header FRAME_SETTINGS_TYPE FRAME_FLAGS_ACK 0 []"
| "frame_octets (Headers_Frame stream fin block) =
     with_header FRAME_HEADERS_TYPE (FRAME_FLAGS_END_HEADERS OR (if fin then FRAME_FLAGS_END_STREAM else 0)) stream block"
| "frame_octets (Window_Update_Frame stream inc) = with_header FRAME_WINDOW_UPDATE_TYPE 0 stream (be31 inc)"
| "frame_octets (Rst_Stream_Frame stream err) = with_header FRAME_RST_STREAM_TYPE 0 stream (be32 err)"
| "frame_octets (Data_Frame stream fin data) =
     with_header FRAME_DATA_TYPE (if fin then FRAME_FLAGS_END_STREAM else 0) stream data"

text \<open>Type, flags, stream identifier and payload of a frame, and its octets in the format of RFC 7540.\<close>

fun frame_fields :: "frame \<Rightarrow> byte \<times> byte \<times> u32 \<times> byte list" where
  "frame_fields (Ping_Frame ack payload) = (FRAME_PING_TYPE, if ack then FRAME_FLAGS_ACK else 0, 0, payload)"
| "frame_fields (Goaway_Frame last_id err) = (FRAME_GOAWAY_TYPE, 0, 0, be31 last_id @ be32 err)"
| "frame_fields (Settings_Frame ps) = (FRAME_SETTINGS_TYPE, 0, 0, concat (map (\<lambda>(i, v). be16 i @ be32 v) ps))"
| "frame_fields Settings_Ack_Frame = (FRAME_SETTINGS_TYPE, FRAME_FLAGS_ACK, 0, [])"
| "frame_fields (Headers_Frame stream fin block) =
     (FRAME_HEADERS_TYPE, FRAME_FLAGS_END_HEADERS OR (if fin then FRAME_FLAGS_END_STREAM else 0), stream, block)"
| "frame_fields (Window_Update_Frame stream inc) = (FRAME_WINDOW_UPDATE_TYPE, 0, stream, be31 inc)"
| "frame_fields (Rst_Stream_Frame stream err) = (FRAME_RST_STREAM_TYPE, 0, stream, be32 err)"
| "frame_fields (Data_Frame stream fin data) =
     (FRAME_DATA_TYPE, if fin then FRAME_FLAGS_END_STREAM else 0, stream, data)"

definition rfc_octets :: "frame \<Rightarrow> byte list" where
  "rfc_octets f = (case frame_fields f of (ty, flags, stream_id, payload) \<Rightarrow>
     be24 (of_nat (length payload)) @ [ty, flags] @ be31 stream_id @ payload)"

definition set_reserved :: "byte list \<Rightarrow> byte list" where
  "set_reserved octets = octets[5 := octets ! 5 OR 0x80]"

lemma length_header_octets [simp]: "length (header_octets len ty flags stream_id) = 9"
  by (simp add: header_octets_def)

lemma length_with_header [simp]: "length (with_header ty flags stream_id payload) = 9 + length payload"
  by (simp add: with_header_def)

text \<open>The octets of a frame at the front of the cleared buffer, as \<open>event_write\<close> gets them.\<close>

definition frame_buffer :: "byte list \<Rightarrow> byte list" where
  "frame_buffer octets = octets @ replicate (FRAME_MAX_SIZE - length octets) 0"

lemma bit_exp_word: "m < LENGTH('a::len) \<Longrightarrow> bit (2 ^ m :: 'a word) n \<longleftrightarrow> n = m"
  by (auto simp: bit_exp_iff)

lemma bit_reserved_flag [bit_simps]: "bit reserved_flag n \<longleftrightarrow> n = 31"
proof -
  have "reserved_flag = 2 ^ 31" by (simp add: reserved_flag_def)
  then show ?thesis using bit_exp_word [where 'a = 32, of 31 n] by (simp only:) simp
qed

lemma bit_0x80: "bit (0x80 :: byte) n \<longleftrightarrow> n = 7"
proof -
  have "(0x80 :: byte) = 2 ^ 7" by simp
  then show ?thesis using bit_exp_word [where 'a = 8, of 7 n] by (simp only:) simp
qed

lemma reserved_bit_first:
  "ucast (drop_bit 24 (x :: u32) AND 0x7F) OR (0x80 :: byte) = ucast (drop_bit 24 (x OR reserved_flag))"
  unfolding mask_numerals
proof (rule bit_eqI)
  fix n
  assume "possible_bit TYPE(byte) n"
  then have "n < 8" by simp
  then show "bit (ucast (drop_bit 24 x AND mask 7) OR (0x80 :: byte)) n = bit (ucast (drop_bit 24 (x OR reserved_flag)) :: byte) n"
    by (simp only: bit_or_iff bit_0x80) (auto simp: bit_simps)
qed

lemma reserved_bit:
  "(ucast (drop_bit 16 (x OR reserved_flag)) :: byte) = ucast (drop_bit 16 x)"
  "(ucast (drop_bit 8 (x OR reserved_flag)) :: byte) = ucast (drop_bit 8 x)"
  "(ucast (x OR reserved_flag) :: byte) = ucast x"
  by (rule bit_eqI; auto simp: bit_simps)+

lemma be32_reserved: "be32 (x OR reserved_flag) = (be31 x)[0 := be31 x ! 0 OR 0x80]"
  unfolding be31_bytes be32_def reserved_bit by (simp add: reserved_bit_first)

lemma frame_octets_rfc: "frame_octets f = set_reserved (rfc_octets f)"
  using be32_reserved [of 0]
  by (cases f) (simp_all add: rfc_octets_def set_reserved_def with_header_def header_octets_def be32_reserved
      nth_append list_update_append)

lemma header_to_bytes_correct:
  assumes "9 \<le> length m"
  shows "frame_header_to_bytes h m =
    Some (overwrite m 0 (header_octets (fh_length h) (fh_type h) (fh_flags h) (fh_stream_id h)), 9)"
proof -
  have 1: "mem_write m 0 (be24 (fh_length h)) = Some (overwrite m 0 (be24 (fh_length h)))"
    using assms by (simp add: mem_write_def)
  have 2: "mem_write (overwrite m 0 (be24 (fh_length h))) 3 [fh_type h] = Some (overwrite m 0 (be24 (fh_length h) @ [fh_type h]))"
    using assms overwrite_overwrite_adjacent [of 0 "be24 (fh_length h)" "[fh_type h]" m] by (simp add: mem_write_def)
  have 3: "mem_write (overwrite m 0 (be24 (fh_length h) @ [fh_type h])) 4 [fh_flags h] =
      Some (overwrite m 0 (be24 (fh_length h) @ [fh_type h, fh_flags h]))"
    using assms overwrite_overwrite_adjacent [of 0 "be24 (fh_length h) @ [fh_type h]" "[fh_flags h]" m]
    by (simp add: mem_write_def)
  have 4: "mem_write (overwrite m 0 (be24 (fh_length h) @ [fh_type h, fh_flags h])) 5 (be31 (fh_stream_id h)) =
      Some (overwrite m 0 (be24 (fh_length h) @ [fh_type h, fh_flags h] @ be31 (fh_stream_id h)))"
    using assms overwrite_overwrite_adjacent [of 0 "be24 (fh_length h) @ [fh_type h, fh_flags h]" "be31 (fh_stream_id h)" m]
    by (simp add: mem_write_def)
  let ?o = "be24 (fh_length h) @ [fh_type h, fh_flags h] @ be31 (fh_stream_id h)"
  have 5: "rd (overwrite m 0 ?o) 5 = Some (ucast (drop_bit 24 (fh_stream_id h) AND 0x7F))"
    using assms by (simp add: rd_overwrite nth_append be31_bytes)
  have "?o[5 := ucast (drop_bit 24 (fh_stream_id h) AND 0x7F) OR 0x80] =
      header_octets (fh_length h) (fh_type h) (fh_flags h) (fh_stream_id h)"
    unfolding header_octets_def be31_bytes be32_def be24_def reserved_bit reserved_bit_first by simp
  moreover have "(overwrite m 0 ?o)[5 := v] = overwrite m 0 (?o[5 := v])" for v
    by (simp add: overwrite_def list_update_append)
  ultimately have 6: "wr (overwrite m 0 ?o) 5 (ucast (drop_bit 24 (fh_stream_id h) AND 0x7F) OR 0x80) =
      Some (overwrite m 0 (header_octets (fh_length h) (fh_type h) (fh_flags h) (fh_stream_id h)))"
    using assms by (simp add: wr_def)
  show ?thesis
    by (simp only: frame_header_to_bytes_def put_u24_eq put_u8_eq put_u31_eq 1 2 3 4 5 6 bind.bind_lunit)
qed

lemma parse_octets:
  assumes "p + 9 \<le> length m" "take 9 (drop p m) = header_octets len ty flags stream_id" "9 \<le> n"
  shows "frame_parse_header m p n = Some (mk_header len ty flags stream_id)"
proof -
  let ?o = "header_octets len ty flags stream_id"
  have o: "take k (drop (p + i) m) = take k (drop i ?o)" if "i + k \<le> 9" for i k
  proof -
    have "take k (drop i (take 9 (drop p m))) = take k (drop (p + i) m)"
      using that by (simp add: drop_take add.commute)
    with assms(2) show ?thesis by simp
  qed
  have "buffer_get_u24 m p = Some (len AND 0xFFFFFF)"
    by (rule get_u24_be24) (use assms(1) o [of 0 3] in \<open>simp_all add: header_octets_def\<close>)
  moreover have "buffer_get_u31 m (p + 5) = Some ((stream_id OR reserved_flag) AND 0x7FFFFFFF)"
    by (rule get_u31_be32) (use assms(1) o [of 5 4] in \<open>simp_all add: header_octets_def be24_def\<close>)
  moreover have "m ! (p + 3) = ty" "m ! (p + 4) = flags"
    using o [of 3 1] o [of 4 1] assms(1)
    by (simp_all add: header_octets_def be24_def take_Suc_conv_app_nth hd_drop_conv_nth)
  moreover have "take_bit 24 (len AND 0xFFFFFF) = take_bit 24 len"
    "take_bit 31 ((stream_id OR reserved_flag) AND 0x7FFFFFFF) = take_bit 31 stream_id"
  proof -
    show "take_bit 24 (len AND 0xFFFFFF) = take_bit 24 len"
      "take_bit 31 ((stream_id OR reserved_flag) AND 0x7FFFFFFF) = take_bit 31 stream_id"
      unfolding mask_numerals by (rule bit_eqI; auto simp: bit_simps)+
  qed
  ultimately show ?thesis
    using assms(1,3) by (simp add: frame_parse_header_def buffer_get_u8_def rd_def mk_header_def)
qed

subsection \<open>The \<open>send\<close> functions\<close>

text \<open>Queueing a frame: the first \<open>length octets\<close> bytes of the buffer.\<close>

definition send_octets :: "nat \<Rightarrow> byte list \<Rightarrow> 'cb \<Rightarrow> ('cb, 'z) writer" where
  "send_octets socket octets cb s =
     event_write socket (int (length octets)) (Some (frame_buffer octets)) (Some cb) s"

lemma length_frame_bytes [simp]: "length frame_bytes = FRAME_MAX_SIZE"
  by (simp add: frame_bytes_def)

lemma overwrite_frame_bytes:
  "length octets \<le> FRAME_MAX_SIZE \<Longrightarrow> overwrite frame_bytes 0 octets = frame_buffer octets"
  by (simp add: overwrite_def frame_bytes_def frame_buffer_def)

lemma header_frame_bytes:
  "frame_header_to_bytes h frame_bytes =
     Some (overwrite frame_bytes 0 (header_octets (fh_length h) (fh_type h) (fh_flags h) (fh_stream_id h)), 9)"
  by (rule header_to_bytes_correct) (simp add: FRAME_MAX_SIZE_def)

lemma length_frame_buffer [simp]:
  "length octets \<le> FRAME_MAX_SIZE \<Longrightarrow> length (frame_buffer octets) = FRAME_MAX_SIZE"
  by (simp add: frame_buffer_def)

text \<open>Writing the payload behind the header.\<close>

lemma payload_written:
  assumes "length octets = 9" "length payload \<le> FRAME_MAX_SIZE - 9"
  shows "mem_write (overwrite frame_bytes 0 octets) 9 payload = Some (frame_buffer (octets @ payload))"
proof -
  have "overwrite (overwrite frame_bytes 0 octets) (0 + length octets) payload = overwrite frame_bytes 0 (octets @ payload)"
    by (rule overwrite_overwrite_adjacent) (use assms in \<open>auto simp: FRAME_MAX_SIZE_def\<close>)
  with assms show ?thesis
    by (simp add: mem_write_def overwrite_frame_bytes FRAME_MAX_SIZE_def)
qed

lemma payload_appended:
  assumes "length octets = k" "k + length payload \<le> FRAME_MAX_SIZE"
  shows "mem_write (frame_buffer octets) k payload = Some (frame_buffer (octets @ payload))"
proof -
  have "overwrite (overwrite frame_bytes 0 octets) (0 + length octets) payload = overwrite frame_bytes 0 (octets @ payload)"
    by (rule overwrite_overwrite_adjacent) (use assms in auto)
  with assms show ?thesis by (simp add: mem_write_def overwrite_frame_bytes)
qed

lemma mk_header_sel [simp]:
  "fh_length (mk_header len ty flags stream_id) = take_bit 24 len" "fh_type (mk_header len ty flags stream_id) = ty"
  "fh_flags (mk_header len ty flags stream_id) = flags" "fh_stream_id (mk_header len ty flags stream_id) = take_bit 31 stream_id"
  by (simp_all add: mk_header_def)

lemma header_octets_bits [simp]:
  "header_octets (take_bit 24 len) ty flags stream_id = header_octets len ty flags stream_id"
  "header_octets len ty flags (take_bit 31 stream_id) = header_octets len ty flags stream_id"
proof -
  have "(ucast (drop_bit 16 (take_bit 24 len)) :: byte) = ucast (drop_bit 16 len)"
    "(ucast (drop_bit 8 (take_bit 24 len)) :: byte) = ucast (drop_bit 8 len)"
    "(ucast (take_bit 24 len) :: byte) = ucast len"
    by (rule bit_eqI; auto simp: bit_simps)+
  then show "header_octets (take_bit 24 len) ty flags stream_id = header_octets len ty flags stream_id"
    unfolding header_octets_def be24_def by metis
  have "take_bit 31 stream_id OR reserved_flag = stream_id OR reserved_flag"
  proof (rule bit_eqI)
    fix n
    assume "possible_bit TYPE(32 word) n"
    then show "bit (take_bit 31 stream_id OR reserved_flag) n = bit (stream_id OR reserved_flag) n"
      by (cases "n = 31") (auto simp: bit_simps)
  qed
  then show "header_octets len ty flags (take_bit 31 stream_id) = header_octets len ty flags stream_id"
    by (simp add: header_octets_def)
qed

lemma send_ping_correct:
  assumes "p + 8 \<le> length d"
  shows "send_ping_frame socket d p ack cb s = send_octets socket (frame_octets (Ping_Frame ack (take 8 (drop p d)))) cb s"
proof -
  let ?o = "header_octets 8 FRAME_PING_TYPE (if ack then FRAME_FLAGS_ACK else 0) 0" and ?d = "take 8 (drop p d)"
  have "mem_write (overwrite frame_bytes 0 ?o) 9 ?d = Some (frame_buffer (?o @ ?d))"
    by (rule payload_written) (use assms in \<open>simp_all add: FRAME_MAX_SIZE_def\<close>)
  moreover have "(take_bit 24 8 :: u32) = 8" by simp
  ultimately show ?thesis
    using assms header_octets_bits(2) [of 8 _ _ 0]
    by (simp add: send_ping_frame_def header_frame_bytes mem_read_def send_octets_def with_header_def del: header_octets_bits)
qed

lemma send_goaway_correct:
  "send_goaway_frame socket err last_id cb s = send_octets socket (frame_octets (Goaway_Frame last_id err)) cb s"
proof -
  let ?o = "header_octets 8 FRAME_GOAWAY_TYPE 0 0"
  have 1: "mem_write (overwrite frame_bytes 0 ?o) 9 (be31 last_id) = Some (frame_buffer (?o @ be31 last_id))"
    by (rule payload_written) (simp_all add: FRAME_MAX_SIZE_def)
  have 2: "mem_write (frame_buffer (?o @ be31 last_id)) 13 (be32 err) = Some (frame_buffer ((?o @ be31 last_id) @ be32 err))"
    by (rule payload_appended) (simp_all add: FRAME_MAX_SIZE_def)
  show ?thesis
    by (simp add: send_goaway_frame_def header_frame_bytes put_u31_eq put_u32_eq 1 2 send_octets_def with_header_def)
qed


lemma settings_loop_correct:
  assumes "length ids = length vals" "k = length octets" "k + 6 * length ids \<le> FRAME_MAX_SIZE"
  shows "settings_loop ids vals k (frame_buffer octets) =
    Some (frame_buffer (octets @ concat (map (\<lambda>(i, v). be16 i @ be32 v) (zip ids vals))), k + 6 * length ids)"
  using assms
proof (induction ids vals arbitrary: octets k rule: list_induct2)
  case (Cons i ids v vals)
  have 1: "mem_write (frame_buffer octets) k (be16 i) = Some (frame_buffer (octets @ be16 i))"
    by (rule payload_appended) (use Cons.prems in auto)
  have 2: "mem_write (frame_buffer (octets @ be16 i)) (k + 2) (be32 v) = Some (frame_buffer ((octets @ be16 i) @ be32 v))"
    by (rule payload_appended) (use Cons.prems in auto)
  have "settings_loop ids vals (k + 6) (frame_buffer ((octets @ be16 i) @ be32 v)) =
      Some (frame_buffer (((octets @ be16 i) @ be32 v) @ concat (map (\<lambda>(i, v). be16 i @ be32 v) (zip ids vals))),
        (k + 6) + 6 * length ids)"
    by (rule Cons.IH) (use Cons.prems in auto)
  with 1 2 [unfolded append_assoc] show ?case by (simp add: put_u16_eq put_u32_eq add.assoc)
qed simp

lemma length_settings: "length (concat (map (\<lambda>(i, v). be16 i @ be32 v) ps)) = 6 * length ps"
  by (induction ps) (auto split: prod.splits)

lemma send_settings_correct:
  assumes "ack \<or> length vals = 6"
  shows "send_settings_frame socket ack vals cb s = send_octets socket (frame_octets
    (if ack then Settings_Ack_Frame else Settings_Frame (zip [1, 2, 3, 4, 5, 6] vals))) cb s"
proof (cases ack)
  case True
  let ?o = "header_octets 0 FRAME_SETTINGS_TYPE FRAME_FLAGS_ACK 0"
  have "overwrite frame_bytes 0 ?o = frame_buffer ?o"
    by (rule overwrite_frame_bytes) (simp add: FRAME_MAX_SIZE_def)
  with True show ?thesis
    by (simp add: send_settings_frame_def header_frame_bytes send_octets_def with_header_def)
next
  case False
  let ?o = "header_octets 36 FRAME_SETTINGS_TYPE 0 0" and ?ids = "[1, 2, 3, 4, 5, 6] :: u16 list"
  have len: "length vals = 6" using assms False by simp
  have 1: "overwrite frame_bytes 0 ?o = frame_buffer ?o"
    by (rule overwrite_frame_bytes) (simp add: FRAME_MAX_SIZE_def)
  have 2: "settings_loop ?ids vals 9 (frame_buffer ?o) =
      Some (frame_buffer (?o @ concat (map (\<lambda>(i, v). be16 i @ be32 v) (zip ?ids vals))), 9 + 6 * length ?ids)"
    by (rule settings_loop_correct) (simp_all add: len FRAME_MAX_SIZE_def)
  have 3: "length (concat (map (\<lambda>(i, v). be16 i @ be32 v) (zip ?ids vals))) = 36"
    unfolding length_settings by (simp add: len)
  have "header_octets (take_bit 24 36) FRAME_SETTINGS_TYPE 0 (take_bit 31 0) = ?o" by simp
  then have 4: "frame_header_to_bytes (mk_header 36 FRAME_SETTINGS_TYPE 0 0) frame_bytes = Some (frame_buffer ?o, 9)"
    unfolding header_frame_bytes mk_header_sel 1 [symmetric] by (simp only:)
  show ?thesis
    unfolding send_settings_frame_def send_octets_def
    using False 2 4 by (simp only: Let_def if_False bind.bind_lunit prod.case frame_octets.simps with_header_def
        length_append 3 length_header_octets list.size) simp
qed

lemma send_window_update_correct:
  "send_window_update_frame socket inc stream_id cb s = send_octets socket (frame_octets (Window_Update_Frame stream_id inc)) cb s"
proof -
  let ?o = "header_octets 4 FRAME_WINDOW_UPDATE_TYPE 0 stream_id"
  have 1: "mem_write (overwrite frame_bytes 0 ?o) 9 (be31 inc) = Some (frame_buffer (?o @ be31 inc))"
    by (rule payload_written) (simp_all add: FRAME_MAX_SIZE_def)
  show ?thesis
    by (simp add: send_window_update_frame_def header_frame_bytes put_u31_eq 1 send_octets_def with_header_def)
qed

lemma send_rst_stream_correct:
  "send_rst_stream_frame socket err stream_id cb s = send_octets socket (frame_octets (Rst_Stream_Frame stream_id err)) cb s"
proof -
  let ?o = "header_octets 4 FRAME_RST_STREAM_TYPE 0 stream_id"
  have 1: "mem_write (overwrite frame_bytes 0 ?o) 9 (be32 err) = Some (frame_buffer (?o @ be32 err))"
    by (rule payload_written) (simp_all add: FRAME_MAX_SIZE_def)
  show ?thesis
    by (simp add: send_rst_stream_frame_def header_frame_bytes put_u32_eq 1 send_octets_def with_header_def)
qed

text \<open>A DATA frame fits if its payload has at most \<open>FRAME_MAX_SIZE - 9\<close> bytes; a longer one is written past the buffer.\<close>

lemma send_data_correct:
  assumes "p + unat n \<le> length d" "unat n \<le> FRAME_MAX_SIZE - 9"
  shows "send_data_frame socket d p n stream_id fin cb s =
    send_octets socket (frame_octets (Data_Frame stream_id fin (take (unat n) (drop p d)))) cb s"
proof -
  let ?o = "header_octets n FRAME_DATA_TYPE (if fin then FRAME_FLAGS_END_STREAM else 0) stream_id"
    and ?d = "take (unat n) (drop p d)"
  have "mem_write (overwrite frame_bytes 0 ?o) 9 ?d = Some (frame_buffer (?o @ ?d))"
    by (rule payload_written) (use assms in simp_all)
  with assms(1) show ?thesis
    by (simp add: send_data_frame_def header_frame_bytes mem_read_def send_octets_def with_header_def)
qed

lemma send_data_overflow:
  assumes "FRAME_MAX_SIZE - 9 < unat n" "p + unat n \<le> length d"
  shows "send_data_frame socket d p n stream_id fin cb s = None"
proof -
  have "length (overwrite frame_bytes 0 (header_octets n FRAME_DATA_TYPE fl stream_id)) = FRAME_MAX_SIZE" for fl
    by (simp add: overwrite_frame_bytes FRAME_MAX_SIZE_def)
  with assms show ?thesis
    by (simp add: send_data_frame_def header_frame_bytes mem_read_def mem_write_def Let_def FRAME_MAX_SIZE_def)
qed


text \<open>
  The block of a HEADERS frame is what \<open>hpack_encode\<close> returned; \<open>block\<close> is the whole buffer behind the header.
\<close>

lemma send_headers_correct:
  assumes "hpack_encode t H (drop 9 frame_bytes) (FRAME_MAX_SIZE - 9) = Some (t', block, int n)"
    "length block = FRAME_MAX_SIZE - 9" "n \<le> FRAME_MAX_SIZE - 9"
  shows "send_headers_frame socket H t stream_id fin cb s = do {
     (s, rc) \<leftarrow> event_write socket (int (9 + n))
       (Some (header_octets (of_nat n) FRAME_HEADERS_TYPE
         (FRAME_FLAGS_END_HEADERS OR (if fin then FRAME_FLAGS_END_STREAM else 0)) stream_id @ block)) (Some cb) s;
     Some (s, t', rc)
   }"
proof -
  have l: "length (take 9 frame_bytes) = 9" by (simp add: FRAME_MAX_SIZE_def)
  have "frame_header_to_bytes h (take 9 frame_bytes @ block) =
      Some (header_octets (fh_length h) (fh_type h) (fh_flags h) (fh_stream_id h) @ block, 9)" for h
    using header_to_bytes_correct [of "take 9 frame_bytes @ block" h] l by (simp add: overwrite_def)
  with assms(1) show ?thesis by (simp add: send_headers_frame_def)
qed

lemma send_headers_encoded:
  assumes "table_rel t (M, S, es)" "M \<le> HPACK_MAX_DYNAMIC_TABLE_SIZE" "hl_rel H hs" "compatible es hs" "block_room hs < 256"
  shows "\<exists>t' es' block bytes. block_repr True (M, S, es) block hs (M, S, es') \<and> table_rel t' (M, S, es') \<and>
    take (9 + length block) bytes = frame_octets (Headers_Frame stream_id fin block) \<and> length bytes = FRAME_MAX_SIZE \<and>
    send_headers_frame socket H t stream_id fin cb s = do {
      (s, rc) \<leftarrow> event_write socket (int (9 + length block)) (Some bytes) (Some cb) s;
      Some (s, t', rc)
    }"
proof -
  obtain t' buf c es' where e: "hpack_encode t H (drop 9 frame_bytes) (FRAME_MAX_SIZE - 9) = Some (t', buf, int (length c))"
    "block_repr True (M, S, es) c hs (M, S, es')" "table_rel t' (M, S, es')" "code_here buf 0 c"
    "length buf = FRAME_MAX_SIZE - 9" "length c \<le> block_room hs"
    using encode_block_correct [of t es hs H "drop 9 frame_bytes" "FRAME_MAX_SIZE - 9" True] assms
    by (auto simp: FRAME_MAX_SIZE_def hpack_encode_def)
  have n: "length c \<le> FRAME_MAX_SIZE - 9" using e(6) assms(5) by (simp add: FRAME_MAX_SIZE_def)
  let ?bytes = "header_octets (of_nat (length c)) FRAME_HEADERS_TYPE
         (FRAME_FLAGS_END_HEADERS OR (if fin then FRAME_FLAGS_END_STREAM else 0)) stream_id @ buf"
  have "take (9 + length c) ?bytes = frame_octets (Headers_Frame stream_id fin c)" "length ?bytes = FRAME_MAX_SIZE"
    using e(4,5) by (simp_all add: with_header_def code_here_def FRAME_MAX_SIZE_def)
  with e(2,3) send_headers_correct [OF e(1,5) n, of socket stream_id fin cb s] show ?thesis
    by (intro exI [of _ t'] exI [of _ es'] exI [of _ c] exI [of _ ?bytes] conjI)
qed

subsection \<open>Properties\<close>

text \<open>
  Claim C28. Round trip of frame headers: whatever fits the fields, \<open>frame_parse_header\<close> reads back what
  \<open>frame_header_to_bytes\<close> wrote, wherever it is in the data; the nine octets are all that is written.
\<close>

theorem frame_header_roundtrip:
  assumes "9 \<le> length m" "unat len < 2 ^ 24" "unat stream_id < 2 ^ 31" "9 \<le> n"
  shows "\<exists>octets. frame_header_to_bytes \<lparr>fh_length = len, fh_type = ty, fh_flags = flags, fh_stream_id = stream_id\<rparr> m =
      Some (octets @ drop 9 m, 9) \<and> length octets = 9 \<and>
    frame_parse_header (pre @ octets @ post) (length pre) n =
      Some \<lparr>fh_length = len, fh_type = ty, fh_flags = flags, fh_stream_id = stream_id\<rparr>"
proof -
  let ?o = "header_octets len ty flags stream_id"
  have "take_bit 24 len = len" "take_bit 31 stream_id = stream_id"
    using assms(2,3) by (simp_all only: word_unat_eq_iff unsigned_take_bit_eq take_bit_nat_eq_self)
  moreover have "frame_parse_header (pre @ ?o @ post) (length pre) n = Some (mk_header len ty flags stream_id)"
    by (rule parse_octets) (use assms(4) in simp_all)
  ultimately show ?thesis
    using header_to_bytes_correct [OF assms(1)] by (intro exI [of _ ?o]) (simp add: mk_header_def overwrite_def)
qed

theorem frame_header_roundtrip_witness:
  "\<exists>octets. frame_header_to_bytes \<lparr>fh_length = 8, fh_type = FRAME_PING_TYPE, fh_flags = FRAME_FLAGS_ACK, fh_stream_id = 5\<rparr>
       (replicate 12 7) = Some (octets @ [7, 7, 7], 9) \<and> length octets = 9 \<and>
     frame_parse_header ([1] @ octets @ [3]) 1 9 =
       Some \<lparr>fh_length = 8, fh_type = FRAME_PING_TYPE, fh_flags = FRAME_FLAGS_ACK, fh_stream_id = 5\<rparr>"
  using frame_header_roundtrip [of "replicate 12 7" 8 5 9 FRAME_PING_TYPE FRAME_FLAGS_ACK "[1]" "[3]"]
  by (simp add: numeral_3_eq_3)

text \<open>
  Claim C29. Every \<open>send\<close> function hands \<open>event_write\<close> exactly the octets of its frame in the format of
  RFC 7540 with the reserved bit of the header set (which the RFC forbids a sender to do), with the length
  field equal to the length of the payload, and the callback it was given: PING, GOAWAY, SETTINGS, the
  acknowledgement of SETTINGS, WINDOW_UPDATE, RST_STREAM, DATA with at most 503 bytes (a longer payload is
  written behind the buffer), and HEADERS with the block that the encoder makes of the headers and the
  dynamic table, for short headers that the searches of the encoder do not confuse and whose block
  certainly has less than 256 bytes.
\<close>

theorem send_frames_correct:
  assumes "p + 8 \<le> length opaque" "length vals = 6" "q + unat n \<le> length d"
    "table_rel t (M, S, es)" "M \<le> HPACK_MAX_DYNAMIC_TABLE_SIZE" "hl_rel H hs" "compatible es hs" "block_room hs < 256"
  shows "send_ping_frame sock opaque p ack cb s =
      send_octets sock (set_reserved (rfc_octets (Ping_Frame ack (take 8 (drop p opaque))))) cb s \<and>
    send_goaway_frame sock err last_id cb s = send_octets sock (set_reserved (rfc_octets (Goaway_Frame last_id err))) cb s \<and>
    send_settings_frame sock False vals cb s =
      send_octets sock (set_reserved (rfc_octets (Settings_Frame (zip [1, 2, 3, 4, 5, 6] vals)))) cb s \<and>
    send_settings_frame sock True vs cb s = send_octets sock (set_reserved (rfc_octets Settings_Ack_Frame)) cb s \<and>
    send_window_update_frame sock inc stream cb s =
      send_octets sock (set_reserved (rfc_octets (Window_Update_Frame stream inc))) cb s \<and>
    send_rst_stream_frame sock err stream cb s =
      send_octets sock (set_reserved (rfc_octets (Rst_Stream_Frame stream err))) cb s \<and>
    send_data_frame sock d q n stream fin cb s =
      (if unat n \<le> 503 then send_octets sock (set_reserved (rfc_octets (Data_Frame stream fin (take (unat n) (drop q d))))) cb s
       else None) \<and>
    (\<exists>t' es' block bytes. block_repr True (M, S, es) block hs (M, S, es') \<and> table_rel t' (M, S, es') \<and>
       take (9 + length block) bytes = set_reserved (rfc_octets (Headers_Frame stream fin block)) \<and>
       length bytes = FRAME_MAX_SIZE \<and>
       send_headers_frame sock H t stream fin cb s = do {
         (s, rc) \<leftarrow> event_write sock (int (9 + length block)) (Some bytes) (Some cb) s;
         Some (s, t', rc)
       })"
proof -
  have data: "send_data_frame sock d q n stream fin cb s =
      (if unat n \<le> 503 then send_octets sock (frame_octets (Data_Frame stream fin (take (unat n) (drop q d)))) cb s else None)"
    using send_data_correct [OF assms(3), of sock stream fin cb s] send_data_overflow [OF _ assms(3), of sock stream fin cb s]
    by (cases "unat n \<le> 503") (simp_all add: FRAME_MAX_SIZE_def del: frame_octets.simps)
  have settings: "send_settings_frame sock False vals cb s =
      send_octets sock (frame_octets (Settings_Frame (zip [1, 2, 3, 4, 5, 6] vals))) cb s"
    "send_settings_frame sock True vs cb s = send_octets sock (frame_octets Settings_Ack_Frame) cb s"
    using send_settings_correct [of False vals sock cb s] send_settings_correct [of True vs sock cb s] assms(2)
    by (simp_all del: frame_octets.simps)
  show ?thesis
    unfolding frame_octets_rfc [symmetric]
    by (intro conjI send_ping_correct [OF assms(1)] send_goaway_correct settings send_window_update_correct
        send_rst_stream_correct data send_headers_encoded [OF assms(4-8)])
qed

theorem send_frames_correct_witness:
  "\<forall>s :: (nat, unit) event_loop_scheme. send_data_frame 0 [1, 2, 3] 1 2 5 True 7 s =
       send_octets 0 (set_reserved (rfc_octets (Data_Frame 5 True [2, 3]))) 7 s \<and>
     (\<exists>t' block bytes. take (9 + length block) bytes = set_reserved (rfc_octets (Headers_Frame 5 True block)) \<and>
       send_headers_frame 0 example_list empty_table 5 True 7 s = do {
         (s, rc) \<leftarrow> event_write 0 (int (9 + length block)) (Some bytes) (Some 7) s;
         Some (s, t', rc)
       })"
proof
  fix s :: "(nat, unit) event_loop_scheme"
  note ex = example_encodable
  show "send_data_frame 0 [1, 2, 3] 1 2 5 True 7 s =
       send_octets 0 (set_reserved (rfc_octets (Data_Frame 5 True [2, 3]))) 7 s \<and>
     (\<exists>t' block bytes. take (9 + length block) bytes = set_reserved (rfc_octets (Headers_Frame 5 True block)) \<and>
       send_headers_frame 0 example_list empty_table 5 True 7 s = do {
         (s, rc) \<leftarrow> event_write 0 (int (9 + length block)) (Some bytes) (Some 7) s;
         Some (s, t', rc)
       })"
    using send_frames_correct [of 0 "replicate 8 0" "replicate 6 0" 1 2 "[1, 2, 3]", OF _ _ _ ex(1,2) example_list_rel ex(3,4),
        of 0 True 7 s 0 0 "[]" 0 5 True] by auto
qed

end
