(* ===== verification/Resources.thy ===== *)
theory Resources
  imports Prelude
begin

text \<open>
  \<open>src/src/two.c\<close> (the part that answers HTTP requests) and \<open>src/src/content_type.c\<close>: the table of
  resources an application registers and the answer to one request.

  A \<open>char *\<close> argument is the memory from the pointer on, so reading past it is \<open>None\<close>; a pointer the
  code compares with \<open>NULL\<close> is an \<open>option\<close>. The handlers are code of the application: a handler is a
  function from its arguments and the response buffer to the new buffer and its return value, \<open>None\<close> if
  it misbehaves. The abstract table is a list of paths with their content type and handler.
\<close>

definition TWO_MAX_RESOURCES :: nat where
  "TWO_MAX_RESOURCES = 4"

definition TWO_MAX_PATH_SIZE :: nat where
  "TWO_MAX_PATH_SIZE = 32"

type_synonym handler = "byte list \<Rightarrow> byte list \<Rightarrow> byte list \<Rightarrow> u32 \<Rightarrow> (byte list \<times> int) option"

text \<open>A string literal of the source in memory.\<close>

definition zstr :: "string \<Rightarrow> byte list" where
  "zstr s = lit s @ [0]"

abbreviation slash :: byte where "slash \<equiv> 0x2F"
abbreviation question_mark :: byte where "question_mark \<equiv> 0x3F"

subsection \<open>The string functions of the C library\<close>

text \<open>\<open>strncmp(a, b, n) == 0\<close> and \<open>strcmp(a, b) == 0\<close>; reading stops at a difference or a zero.\<close>

fun strncmp_eq :: "byte list \<Rightarrow> byte list \<Rightarrow> nat \<Rightarrow> bool option" where
  "strncmp_eq a b 0 = Some True"
| "strncmp_eq (x # a) (y # b) (Suc n) =
     (if x \<noteq> y then Some False else if x = 0 then Some True else strncmp_eq a b n)"
| "strncmp_eq _ _ (Suc n) = None"

fun strcmp_eq :: "byte list \<Rightarrow> byte list \<Rightarrow> bool option" where
  "strcmp_eq (x # a) (y # b) =
     (if x \<noteq> y then Some False else if x = 0 then Some True else strcmp_eq a b)"
| "strcmp_eq _ _ = None"

text \<open>\<open>strncpy\<close> fills the rest of the \<open>n\<close> bytes with zeros; \<open>index\<close> is the offset of a character.\<close>

definition strncpy :: "byte list \<Rightarrow> nat \<Rightarrow> byte list \<Rightarrow> nat \<Rightarrow> byte list option" where
  "strncpy dst d src n = do {
     k \<leftarrow> strnlen src n;
     mem_write dst d (take k src @ replicate (n - k) 0)
   }"

definition c_index :: "byte list \<Rightarrow> byte \<Rightarrow> nat option option" where
  "c_index bs c = do {
     s \<leftarrow> cstr bs;
     Some (if c \<in> set s then Some (length (takeWhile (\<lambda>b. b \<noteq> c) s)) else None)
   }"

subsection \<open>Paths\<close>

text \<open>
  \<open>maxpath\<close> and \<open>maxquery\<close> are unsigned, so that \<open>maxpath - 1\<close> wraps for 0. \<open>query_params\<close> may be \<open>NULL\<close>.
\<close>

definition parse_uri ::
  "byte list \<Rightarrow> byte list \<Rightarrow> u32 \<Rightarrow> byte list option \<Rightarrow> u32 \<Rightarrow> (byte list \<times> byte list option) option" where
  "parse_uri uri path maxpath query_params maxquery = do {
     len \<leftarrow> strlen uri;
     c \<leftarrow> rd uri 0;
     (path, p, maxpath) \<leftarrow>
       (if len = 0 \<or> c \<noteq> slash
        then do { path \<leftarrow> wr path 0 slash; Some (path, 1, maxpath - 1) }
        else Some (path, 0, maxpath));
     ptr \<leftarrow> c_index uri question_mark;
     (query_params, len) \<leftarrow>
       (case ptr of
          Some i \<Rightarrow> do {
            qlen \<leftarrow> strlen (drop (i + 1) uri);
            q \<leftarrow> (case query_params of
                    None \<Rightarrow> Some None
                  | Some q \<Rightarrow> do {
                      let copylen = min qlen (unat (maxquery - 1));
                      q \<leftarrow> strncpy q 0 (drop (i + 1) uri) copylen;
                      q \<leftarrow> wr q copylen 0;
                      Some (Some q)
                    });
            rest \<leftarrow> strlen (drop i uri);
            Some (q, len - rest)
          }
        | None \<Rightarrow>
            (case query_params of
               None \<Rightarrow> Some (None, len)
             | Some q \<Rightarrow> do { q \<leftarrow> wr q 0 0; Some (Some q, len) }));
     let copylen = min len (unat (maxpath - 1));
     path \<leftarrow> strncpy path p uri copylen;
     path \<leftarrow> wr path (p + copylen) 0;
     Some (path, query_params)
   }"

definition is_valid_path :: "byte list \<Rightarrow> bool option" where
  "is_valid_path path = do { c \<leftarrow> rd path 0; Some (c = slash) }"

subsection \<open>Methods and content types\<close>

definition allowed_http_methods :: "byte list list" where
  "allowed_http_methods = map zstr [''GET'', ''HEAD'', ''POST'', ''PUT'', ''DELETE'']"

definition allowed_content_types :: "byte list list" where
  "allowed_content_types = map zstr [''text/plain'', ''application/json'', ''application/cbor'']"

text \<open>The loop of \<open>http_get_method\<close> and of \<open>content_type_allowed\<close>: the first entry that is a prefix.\<close>

fun find_prefix :: "byte list list \<Rightarrow> byte list \<Rightarrow> byte list option option" where
  "find_prefix [] s = Some None"
| "find_prefix (a # as) s = do {
     len \<leftarrow> strlen a;
     eq \<leftarrow> strncmp_eq s a len;
     if eq then Some (Some a) else find_prefix as s
   }"

definition http_get_method :: "byte list option \<Rightarrow> byte list option option" where
  "http_get_method method =
     (case method of None \<Rightarrow> Some None | Some m \<Rightarrow> find_prefix allowed_http_methods m)"

definition http_has_method_support :: "byte list option \<Rightarrow> bool option" where
  "http_has_method_support method = do {
     method \<leftarrow> http_get_method method;
     (case method of None \<Rightarrow> Some False | Some m \<Rightarrow> strncmp_eq (zstr ''GET'') m 3)
   }"

definition content_type_allowed :: "byte list option \<Rightarrow> byte list option option" where
  "content_type_allowed content_type =
     (case content_type of None \<Rightarrow> Some None | Some c \<Rightarrow> find_prefix allowed_content_types c)"

subsection \<open>The table of resources\<close>

record two_resource =
  rs_path :: "byte list"
  rs_method :: "byte list option"
  rs_content_type :: "byte list option"
  rs_handler :: "handler option"

text \<open>The static variables of \<open>two.c\<close> that hold the resources.\<close>

record server_table =
  server_resources :: "two_resource list"
  server_resources_size :: nat
  inited_app_resources :: bool

definition null_resource :: two_resource where
  "null_resource = \<lparr>rs_path = replicate TWO_MAX_PATH_SIZE 0, rs_method = None, rs_content_type = None,
     rs_handler = None\<rparr>"

definition initial_table :: server_table where
  "initial_table = \<lparr>server_resources = replicate TWO_MAX_RESOURCES null_resource,
     server_resources_size = 0, inited_app_resources = False\<rparr>"

text \<open>
  The two searches through the table; the second compares the whole method. The result is the index of
  the entry.
\<close>

function find_resource_loop :: "server_table \<Rightarrow> byte list \<Rightarrow> byte list \<Rightarrow> nat \<Rightarrow> nat option option" where
  "find_resource_loop t method path i =
     (if i < server_resources_size t then do {
        res \<leftarrow> rd (server_resources t) i;
        p \<leftarrow> strncmp_eq (rs_path res) path TWO_MAX_PATH_SIZE;
        m \<leftarrow> (if p then do {
                m \<leftarrow> rs_method res;
                len \<leftarrow> strlen m;
                strncmp_eq m method len
              } else Some False);
        if m then Some (Some i) else find_resource_loop t method path (i + 1)
      } else Some None)"
  by pat_completeness auto
termination
  by (relation "measure (\<lambda>(t, method, path, i). server_resources_size t - i)") auto

definition find_resource :: "server_table \<Rightarrow> byte list \<Rightarrow> byte list \<Rightarrow> nat option option" where
  "find_resource t method path = find_resource_loop t method path 0"

function find_registered_loop :: "server_table \<Rightarrow> byte list \<Rightarrow> byte list \<Rightarrow> nat \<Rightarrow> nat option option" where
  "find_registered_loop t method path i =
     (if i < server_resources_size t then do {
        res \<leftarrow> rd (server_resources t) i;
        p \<leftarrow> strncmp_eq (rs_path res) path TWO_MAX_PATH_SIZE;
        m \<leftarrow> (if p then do { m \<leftarrow> rs_method res; strcmp_eq m method } else Some False);
        if m then Some (Some i) else find_registered_loop t method path (i + 1)
      } else Some None)"
  by pat_completeness auto
termination
  by (relation "measure (\<lambda>(t, method, path, i). server_resources_size t - i)") auto

declare find_resource_loop.simps [simp del] find_registered_loop.simps [simp del]

definition two_register_resource ::
  "server_table \<Rightarrow> byte list option \<Rightarrow> byte list option \<Rightarrow> byte list option \<Rightarrow> handler option \<Rightarrow>
    (server_table \<times> int) option" where
  "two_register_resource t method path content_type handler = do {
     method \<leftarrow> method;
     path \<leftarrow> path;
     content_type \<leftarrow> content_type;
     handler \<leftarrow> handler;
     plen \<leftarrow> strlen path;
     guard (plen < TWO_MAX_PATH_SIZE);
     supported \<leftarrow> http_has_method_support (Some method);
     if \<not> supported then Some (t, - 1)
     else do {
       valid \<leftarrow> is_valid_path path;
       if \<not> valid then Some (t, - 1)
       else do {
         ct \<leftarrow> content_type_allowed (Some content_type);
         if ct = None then Some (t, - 1)
         else do {
           let t = (if inited_app_resources t then t
                    else t\<lparr>server_resources := replicate TWO_MAX_RESOURCES null_resource,
                           inited_app_resources := True\<rparr>);
           old \<leftarrow> find_registered_loop t method path 0;
           (case old of
              Some i \<Rightarrow> do {
                res \<leftarrow> rd (server_resources t) i;
                rs \<leftarrow> wr (server_resources t) i (res\<lparr>rs_content_type := ct, rs_handler := Some handler\<rparr>);
                Some (t\<lparr>server_resources := rs\<rparr>, 0)
              }
            | None \<Rightarrow>
                if server_resources_size t \<ge> TWO_MAX_RESOURCES then Some (t, - 1)
                else do {
                  let i = server_resources_size t;
                  res \<leftarrow> rd (server_resources t) i;
                  p \<leftarrow> strncpy (rs_path res) 0 path TWO_MAX_PATH_SIZE;
                  m \<leftarrow> http_get_method (Some method);
                  rs \<leftarrow> wr (server_resources t) i
                    \<lparr>rs_path = p, rs_method = m, rs_content_type = ct, rs_handler = Some handler\<rparr>;
                  Some (t\<lparr>server_resources := rs, server_resources_size := i + 1\<rparr>, 0)
                })
         }
       }
     }
   }"

subsection \<open>Requests\<close>

text \<open>The headers of a request only reach the log; they are pairs of pointers into a header list.\<close>

record http_request =
  rq_method :: "byte list option"
  rq_path :: "byte list option"
  rq_headers_length :: nat
  rq_headers :: "(nat \<times> nat) list option"

record http_response =
  rp_status :: int
  rp_content_type :: "byte list option"
  rp_content_length :: int
  rp_content :: "byte list"

definition http_error :: "http_response \<Rightarrow> int \<Rightarrow> http_response" where
  "http_error res code = res\<lparr>rp_status := code, rp_content_length := 0\<rparr>"

definition http_handle_request ::
  "server_table \<Rightarrow> http_request \<Rightarrow> http_response \<Rightarrow> u32 \<Rightarrow> http_response option" where
  "http_handle_request t req res maxlen = do {
     method \<leftarrow> rq_method req;
     uri \<leftarrow> rq_path req;
     guard (rq_headers_length req > 0 \<and> rq_headers req \<noteq> None);
     supported \<leftarrow> http_has_method_support (Some method);
     if \<not> supported then Some (http_error res 501)
     else do {
       (path, _) \<leftarrow> parse_uri uri (replicate TWO_MAX_PATH_SIZE 0) (of_nat TWO_MAX_PATH_SIZE) None 0;
       uri_resource \<leftarrow> find_resource t method path;
       (case uri_resource of
          None \<Rightarrow> Some (http_error res 404)
        | Some i \<Rightarrow> do {
            content \<leftarrow> mem_write (rp_content res) 0 (replicate (unat maxlen) 0);
            r \<leftarrow> rd (server_resources t) i;
            handler \<leftarrow> rs_handler r;
            (content, content_length) \<leftarrow> handler method path content maxlen;
            if content_length < 0 then Some (http_error (res\<lparr>rp_content := content\<rparr>) 500)
            else Some (res\<lparr>rp_content := content, rp_status := 200,
                           rp_content_length := min content_length (uint maxlen),
                           rp_content_type := rs_content_type r\<rparr>)
          })
     }
   }"

subsection \<open>The string functions on strings\<close>

definition starts_with :: "byte list \<Rightarrow> byte list \<Rightarrow> bool" where
  "starts_with p s \<longleftrightarrow> take (length p) s = p"

lemma starts_with_simps [simp]:
  "starts_with [] s" "\<not> starts_with (x # p) []" "starts_with (x # p) (y # s) \<longleftrightarrow> x = y \<and> starts_with p s"
  by (auto simp: starts_with_def)

lemma strncmp_eq_prefix:
  "nul_free p \<Longrightarrow> nul_free s \<Longrightarrow> strncmp_eq (s @ 0 # r) (p @ q) (length p) = Some (starts_with p s)"
proof (induction p arbitrary: s)
  case (Cons x p)
  then show ?case by (cases s) auto
qed simp

lemma strncmp_prefix_eq:
  "nul_free p \<Longrightarrow> nul_free s \<Longrightarrow> strncmp_eq (p @ q) (s @ 0 # r) (length p) = Some (starts_with p s)"
proof (induction p arbitrary: s)
  case (Cons x p)
  then show ?case by (cases s) auto
qed simp

lemma strncmp_eq_bounded:
  "nul_free a \<Longrightarrow> nul_free b \<Longrightarrow> length a < n \<Longrightarrow> strncmp_eq (a @ 0 # r) (b @ 0 # q) n = Some (a = b)"
proof (induction a arbitrary: b n)
  case Nil
  then show ?case by (cases n; cases b) auto
next
  case (Cons x a)
  then show ?case by (cases n; cases b) auto
qed

lemma strcmp_eq_iff: "nul_free a \<Longrightarrow> nul_free b \<Longrightarrow> strcmp_eq (a @ 0 # r) (b @ 0 # q) = Some (a = b)"
proof (induction a arbitrary: b)
  case Nil
  then show ?case by (cases b) auto
next
  case (Cons x a)
  then show ?case by (cases b) auto
qed

lemma cstrE:
  assumes "cstr m = Some s"
  obtains r where "m = s @ 0 # r" "nul_free s"
proof -
  have "\<exists>r. m = s @ 0 # r" using assms
    by (induction m arbitrary: s) (auto split: if_splits)
  with cstr_nul_free [OF assms] that show ?thesis by blast
qed

lemma strnlen_prefix: "nul_free s \<Longrightarrow> n \<le> length s \<Longrightarrow> strnlen (s @ r) n = Some n"
proof (induction s arbitrary: n)
  case (Cons x s)
  then show ?case by (cases n) auto
qed simp

lemma strncpy_prefix:
  assumes "nul_free s" "n \<le> length s" "d + n \<le> length dst"
  shows "strncpy dst d (s @ r) n = Some (overwrite dst d (take n s))"
  using assms by (simp add: strncpy_def strnlen_prefix mem_write_def)

lemma strncpy_padded:
  assumes "nul_free s" "length s < n" "n \<le> length dst"
  shows "strncpy dst 0 (s @ 0 # r) n = Some (overwrite dst 0 (s @ replicate (n - length s) 0))"
  using assms by (simp add: strncpy_def mem_write_def)

lemma nul_free_takeWhile [simp]: "nul_free s \<Longrightarrow> nul_free (takeWhile P s)"
  by (auto simp: nul_free_def dest: set_takeWhileD)

lemma nul_free_take [simp]: "nul_free s \<Longrightarrow> nul_free (take n s)"
  by (auto simp: nul_free_def dest: in_set_takeD)

lemma nul_free_drop [simp]: "nul_free s \<Longrightarrow> nul_free (drop n s)"
  by (auto simp: nul_free_def dest: in_set_dropD)

lemma nul_free_lit [simp]:
  "nul_free (lit ''GET'')" "nul_free (lit ''HEAD'')" "nul_free (lit ''POST'')" "nul_free (lit ''PUT'')"
  "nul_free (lit ''DELETE'')" "nul_free (lit ''text/plain'')" "nul_free (lit ''application/json'')"
  "nul_free (lit ''application/cbor'')"
  by (simp_all add: lit_def)

lemma find_prefix_correct:
  "list_all nul_free as \<Longrightarrow> nul_free s \<Longrightarrow>
   find_prefix (map (\<lambda>a. a @ [0]) as) (s @ 0 # r) =
     Some (map_option (\<lambda>a. a @ [0]) (find (\<lambda>a. starts_with a s) as))"
  by (induction as) (simp_all add: strncmp_eq_prefix)

subsection \<open>What paths, methods and content types mean\<close>

definition content_types :: "byte list list" where
  "content_types = map lit [''text/plain'', ''application/json'', ''application/cbor'']"

definition content_type_of :: "byte list \<Rightarrow> byte list option" where
  "content_type_of c = find (\<lambda>a. starts_with a c) content_types"

lemma http_get_method_get:
  assumes "nul_free s" "starts_with (lit ''GET'') s"
  shows "http_get_method (Some (s @ 0 # r)) = Some (Some (zstr ''GET''))"
  using assms by (simp add: http_get_method_def allowed_http_methods_def zstr_def strncmp_eq_prefix)

lemma http_has_method_support_correct:
  assumes "nul_free s"
  shows "http_has_method_support (Some (s @ 0 # r)) = Some (starts_with (lit ''GET'') s)"
proof -
  have "find_prefix (map (\<lambda>a. a @ [0]) (map lit [''GET'', ''HEAD'', ''POST'', ''PUT'', ''DELETE''])) (s @ 0 # r) =
      Some (map_option (\<lambda>a. a @ [0])
        (find (\<lambda>a. starts_with a s) (map lit [''GET'', ''HEAD'', ''POST'', ''PUT'', ''DELETE''])))"
    by (rule find_prefix_correct) (use assms in simp_all)
  then show ?thesis
    by (auto simp: http_has_method_support_def http_get_method_def allowed_http_methods_def zstr_def lit_def
        numeral_3_eq_3)
qed

lemma content_type_allowed_correct:
  assumes "nul_free s"
  shows "content_type_allowed (Some (s @ 0 # r)) = Some (map_option (\<lambda>a. a @ [0]) (content_type_of s))"
proof -
  have "find_prefix (map (\<lambda>a. a @ [0]) content_types) (s @ 0 # r) =
      Some (map_option (\<lambda>a. a @ [0]) (find (\<lambda>a. starts_with a s) content_types))"
    by (rule find_prefix_correct) (use assms in \<open>simp_all add: content_types_def\<close>)
  then show ?thesis
    by (simp add: content_type_allowed_def content_type_of_def allowed_content_types_def content_types_def zstr_def)
qed

lemma takeWhile_question:
  assumes "question_mark \<in> set s"
  obtains q where "s = takeWhile (\<lambda>b. b \<noteq> question_mark) s @ question_mark # q"
proof -
  have "dropWhile (\<lambda>b. b \<noteq> question_mark) s \<noteq> []" using assms by auto
  then have "hd (dropWhile (\<lambda>b. b \<noteq> question_mark) s) = question_mark" using hd_dropWhile by blast
  then have "dropWhile (\<lambda>b. b \<noteq> question_mark) s = question_mark # tl (dropWhile (\<lambda>b. b \<noteq> question_mark) s)"
    using assms by (metis \<open>dropWhile _ s \<noteq> []\<close> list.collapse)
  then have "s = takeWhile (\<lambda>b. b \<noteq> question_mark) s @ question_mark # tl (dropWhile (\<lambda>b. b \<noteq> question_mark) s)"
    by (metis takeWhile_dropWhile_id)
  with that show ?thesis by blast
qed

subsection \<open>\<open>parse_uri\<close>\<close>

definition uri_path :: "byte list \<Rightarrow> byte list" where
  "uri_path uri =
     (let p = takeWhile (\<lambda>b. b \<noteq> question_mark) uri
      in if starts_with [slash] uri then p else slash # p)"

definition uri_query :: "byte list \<Rightarrow> byte list" where
  "uri_query uri = drop 1 (dropWhile (\<lambda>b. b \<noteq> question_mark) uri)"

text \<open>Copying a prefix of a string and terminating it.\<close>

lemma copy_terminate:
  assumes "nul_free s" "n \<le> length s" "d + n < length dst"
  shows "(strncpy dst d (s @ r) n \<bind> (\<lambda>p. wr p (d + n) 0)) = Some (overwrite dst d (take n s @ [0]))"
  using assms by (simp add: strncpy_prefix wr_next)

lemma drop_overwrite: "length ys \<le> k \<Longrightarrow> drop k (overwrite m 0 ys) = drop k m"
  by (simp add: overwrite_def)

lemma cstr_overwrite: "nul_free x \<Longrightarrow> cstr (overwrite dst 0 (x @ [0])) = Some x"
  by (simp add: overwrite_def)

lemma unat_minus_one: "0 < unat (w :: u32) \<Longrightarrow> unat (w - 1) = unat w - 1"
  by (metis One_nat_def Suc_leI unat_1 unat_sub word_le_nat_alt)

lemma strlen_drop:
  assumes "nul_free s" "i \<le> length s"
  shows "strlen (drop i (s @ 0 # r)) = Some (length s - i)"
  using assms by simp

definition query_out :: "byte list option \<Rightarrow> u32 \<Rightarrow> byte list \<Rightarrow> byte list option" where
  "query_out query maxquery s =
     map_option (\<lambda>q. overwrite q 0 (take (unat maxquery - 1) (uri_query s) @ [0])) query"

text \<open>The middle part of the function: the length of the path and the query.\<close>

lemma question_index:
  assumes "nul_free s"
  shows "c_index (s @ 0 # r) question_mark =
    Some (if question_mark \<in> set s then Some (length (takeWhile (\<lambda>b. b \<noteq> question_mark) s)) else None)"
  using assms by (simp add: c_index_def)

lemma uri_query_drop:
  assumes "question_mark \<in> set s"
  shows "drop (length (takeWhile (\<lambda>b. b \<noteq> question_mark) s) + 1) s = uri_query s"
    "length (takeWhile (\<lambda>b. b \<noteq> question_mark) s) + 1 \<le> length s"
proof -
  obtain q where q: "s = takeWhile (\<lambda>b. b \<noteq> question_mark) s @ question_mark # q"
    by (rule takeWhile_question [OF assms])
  let ?t = "takeWhile (\<lambda>b. b \<noteq> question_mark) s"
  have "length s = length ?t + 1 + length q" by (subst (1) q) simp
  then show "length ?t + 1 \<le> length s" by simp
  show "drop (length ?t + 1) s = uri_query s"
    unfolding uri_query_def dropWhile_eq_drop drop_drop by (simp only: add.commute)
qed

lemma parse_query_correct:
  assumes "nul_free s" "question_mark \<in> set s" "i = length (takeWhile (\<lambda>b. b \<noteq> question_mark) s)"
    "\<And>q. query = Some q \<Longrightarrow> 0 < unat maxquery \<and> unat maxquery \<le> length q"
  shows "(case query of
       None \<Rightarrow> Some None
     | Some q \<Rightarrow> do {
         let copylen = min (length (uri_query s)) (unat (maxquery - 1));
         q \<leftarrow> strncpy q 0 (drop (i + 1) (s @ 0 # r)) copylen;
         q \<leftarrow> wr q copylen 0;
         Some (Some q)
       }) = Some (query_out query maxquery s)"
proof (cases query)
  case (Some q)
  let ?n = "min (length (uri_query s)) (unat (maxquery - 1))"
  note d = uri_query_drop [OF assms(2)]
  have "i + 1 \<le> length s" "drop (i + 1) s = uri_query s" using d assms(3) by simp_all
  then have "drop (i + 1) (s @ 0 # r) = uri_query s @ 0 # r" by simp
  moreover have "nul_free (uri_query s)" using assms(1) \<open>drop (i + 1) s = _\<close> by (metis nul_free_drop)
  moreover have "?n < length q" using assms(4) [OF Some] by (auto simp: unat_minus_one)
  ultimately have c: "(strncpy q 0 (drop (i + 1) (s @ 0 # r)) ?n \<bind> (\<lambda>p. wr p (0 + ?n) 0)) =
      Some (overwrite q 0 (take ?n (uri_query s) @ [0]))"
    by (simp only: copy_terminate)
  have t: "take ?n (uri_query s) = take (unat maxquery - 1) (uri_query s)"
    using assms(4) [OF Some] by (simp add: unat_minus_one min_def)
  obtain q' where "strncpy q 0 (drop (i + 1) (s @ 0 # r)) ?n = Some q'"
    using c by (cases "strncpy q 0 (drop (i + 1) (s @ 0 # r)) ?n") (simp_all only: bind.simps option.simps)
  with c t show ?thesis
    by (simp only: Some option.case Let_def bind.bind_lunit query_out_def option.map add_0)
qed (simp add: query_out_def)

text \<open>The query, and the length of the path.\<close>

lemma parse_uri_query:
  assumes m: "uri = s @ 0 # r" "nul_free s" and p_def: "p = takeWhile (\<lambda>b. b \<noteq> question_mark) s"
    and room: "\<forall>q. query = Some q \<longrightarrow> 0 < unat maxquery \<and> unat maxquery \<le> length q"
  shows "(case (if question_mark \<in> set s then Some (length p) else None) of
        Some i \<Rightarrow> do {
          qlen \<leftarrow> strlen (drop (i + 1) uri);
          q \<leftarrow> (case query of
                  None \<Rightarrow> Some None
                | Some q \<Rightarrow> do {
                    let copylen = min qlen (unat (maxquery - 1));
                    q \<leftarrow> strncpy q 0 (drop (i + 1) uri) copylen;
                    q \<leftarrow> wr q copylen 0;
                    Some (Some q)
                  });
          rest \<leftarrow> strlen (drop i uri);
          Some (q, length s - rest)
        }
      | None \<Rightarrow>
          (case query of
             None \<Rightarrow> Some (None, length s)
           | Some q \<Rightarrow> do { q \<leftarrow> wr q 0 0; Some (Some q, length s) })) = Some (query_out query maxquery s, length p)"
proof (cases "question_mark \<in> set s")
  case True
  have q_in: "length s - (length s - length p) = length p" by (simp add: p_def length_takeWhile_le)
  note ud = uri_query_drop [OF True, folded p_def]
  have "strlen (drop (length p + 1) uri) = Some (length (uri_query s))"
    unfolding m(1) strlen_drop [OF m(2) ud(2)] using ud by (metis length_drop)
  moreover have "strlen (drop (length p) uri) = Some (length s - length p)"
    unfolding m(1) by (rule strlen_drop [OF m(2)]) (simp add: p_def length_takeWhile_le)
  ultimately show ?thesis
    using parse_query_correct [OF m(2) True arg_cong [OF p_def, of length] room [rule_format], where r = r] True q_in
    by (simp only: m(1) [symmetric] bind.bind_lunit if_True option.case)
next
  case False
  then have q_out: "p = s" by (auto simp: p_def)
  from False have "dropWhile (\<lambda>b. b \<noteq> question_mark) s = []" by auto
  then have "uri_query s = []" unfolding uri_query_def by (simp only: drop_Nil)
  show ?thesis
  proof (cases query)
    case (Some q)
    from room [rule_format, OF this] have "0 < length q" by linarith
    with False q_out Some \<open>uri_query s = []\<close> show ?thesis by (simp add: query_out_def wr_first)
  qed (use False q_out in \<open>simp add: query_out_def\<close>)
qed

text \<open>The path, with a slash in front if it has none, cut to the size of its buffer.\<close>

lemma parse_uri_path:
  assumes p: "p = takeWhile (\<lambda>b. b \<noteq> question_mark) s" and sl: "sl = (\<not> starts_with [slash] s)"
    and n: "n = min (length p) (if sl then k - 2 else k - 1)" and k: "2 \<le> k" "k \<le> length path"
    and d: "d = (if sl then 1 else 0 :: nat)" and path1: "path1 = (if sl then overwrite path 0 [slash] else path)"
  shows "d + n < length path1" "overwrite path1 d (take n s @ [0]) = overwrite path 0 (take (k - 1) (uri_path s) @ [0])"
proof -
  show room: "d + n < length path1" using k by (auto simp: d n path1)
  have "take (length p) s = p" unfolding p by (rule takeWhile_eq_take [symmetric])
  moreover have "n \<le> length p" by (simp add: n)
  ultimately have np: "take n s = take n p" by (metis min.absorb1 take_take)
  show "overwrite path1 d (take n s @ [0]) = overwrite path 0 (take (k - 1) (uri_path s) @ [0])"
  proof (cases sl)
    case True
    have "overwrite (overwrite path 0 [slash]) (0 + length [slash]) (take n p @ [0]) = overwrite path 0 ([slash] @ take n p @ [0])"
      by (rule overwrite_overwrite_adjacent) (use True room k in \<open>simp add: d path1\<close>)
    moreover have "take (k - 1) (slash # p) = slash # take n p"
    proof -
      have "k - 1 = Suc (k - 2)" using k by simp
      then show ?thesis using True by (simp add: n min_def)
    qed
    ultimately show ?thesis using True np sl by (simp add: path1 d uri_path_def p [symmetric])
  next
    case False
    then have "take n p = take (k - 1) p" by (auto simp: n min_def)
    with False show ?thesis using np sl by (simp add: path1 d uri_path_def p [symmetric])
  qed
qed

lemma parse_uri_correct:
  assumes "cstr uri = Some s" "2 \<le> unat maxpath" "unat maxpath \<le> length path"
    "\<And>q. query = Some q \<Longrightarrow> 0 < unat maxquery \<and> unat maxquery \<le> length q"
  shows "parse_uri uri path maxpath query maxquery =
    Some (overwrite path 0 (take (unat maxpath - 1) (uri_path s) @ [0]), query_out query maxquery s)"
proof -
  obtain r where m: "uri = s @ 0 # r" "nul_free s" by (rule cstrE [OF assms(1)])
  define p where "p = takeWhile (\<lambda>b. b \<noteq> question_mark) s"
  define sl where "sl = (\<not> starts_with [slash] s)"
  define mp where "mp = (if sl then maxpath - 1 else maxpath)"
  define d :: nat where "d = (if sl then 1 else 0)"
  define path1 where "path1 = (if sl then overwrite path 0 [slash] else path)"
  have pos: "0 < length path" using assms(2,3) by linarith
  have c: "rd uri 0 = Some (hd (s @ [0]))" by (cases s) (simp_all add: m rd_Cons)
  have hd: "(length s = 0 \<or> hd (s @ [0]) \<noteq> slash) = sl" by (cases s) (auto simp: sl_def)
  have first: "(if length s = 0 \<or> hd (s @ [0]) \<noteq> slash
      then do { path \<leftarrow> wr path 0 slash; Some (path, 1, maxpath - 1) } else Some (path, 0, maxpath)) =
      Some (path1, d, mp)"
    unfolding hd using wr_first [of 0 path slash] pos by (cases sl) (simp_all add: path1_def d_def mp_def)
  define n where "n = min (length p) (unat (mp - 1))"
  have "unat mp = (if sl then unat maxpath - 1 else unat maxpath)"
    using assms(2) by (simp add: mp_def unat_minus_one)
  with assms(2) have n: "n = min (length p) (if sl then unat maxpath - 2 else unat maxpath - 1)"
    by (simp add: n_def unat_minus_one numeral_2_eq_2)
  note path = parse_uri_path [OF p_def sl_def n assms(2,3) d_def path1_def]
  have "n \<le> length s" using length_takeWhile_le [of _ s] by (simp add: n_def p_def min.coboundedI1)
  with path(1) have "(strncpy path1 d uri n \<bind> (\<lambda>p. wr p (d + n) 0)) = Some (overwrite path1 d (take n s @ [0]))"
    unfolding m(1) using m(2) by (intro copy_terminate) simp_all
  then have last: "(do { path \<leftarrow> strncpy path1 d uri n; path \<leftarrow> wr path (d + n) 0; Some (path, v) }) =
      Some (overwrite path 0 (take (unat maxpath - 1) (uri_path s) @ [0]), v)" for v :: "byte list option"
    unfolding path(2) by (cases "strncpy path1 d uri n") (simp_all only: bind.simps option.simps)
  have room: "\<forall>q. query = Some q \<longrightarrow> 0 < unat maxquery \<and> unat maxquery \<le> length q" using assms(4) by blast
  have sl: "strlen uri = Some (length s)" using m by simp
  have ix: "c_index uri question_mark = Some (if question_mark \<in> set s then Some (length p) else None)"
    unfolding m(1) p_def by (rule question_index [OF m(2)])
  show ?thesis
    unfolding parse_uri_def sl bind.bind_lunit c first prod.case ix Let_def
      parse_uri_query [OF m p_def room, unfolded Let_def]
    using last by (simp only: n_def)
qed

text \<open>
  Claim C27. \<open>parse_uri\<close> splits a URI at the first question mark into path and query, puts a slash in
  front of a path without one, cuts both to the size of their buffers and terminates them; it writes
  nowhere else.
\<close>

theorem parse_uri_spec:
  assumes "cstr uri = Some s" "2 \<le> unat maxpath" "unat maxpath \<le> length path"
    "0 < unat maxquery" "unat maxquery \<le> length query"
  shows "\<exists>path' query'. parse_uri uri path maxpath (Some query) maxquery = Some (path', Some query') \<and>
    cstr path' = Some (take (unat maxpath - 1) (uri_path s)) \<and> length path' = length path \<and>
    cstr query' = Some (take (unat maxquery - 1) (uri_query s)) \<and> length query' = length query \<and>
    drop (unat maxpath) path' = drop (unat maxpath) path \<and>
    drop (unat maxquery) query' = drop (unat maxquery) query"
proof -
  have n: "nul_free (take (unat maxpath - 1) (uri_path s))" "nul_free (take (unat maxquery - 1) (uri_query s))"
  proof -
    have "nul_free s" using assms(1) by (rule cstr_nul_free)
    moreover from this have "nul_free (dropWhile (\<lambda>b. b \<noteq> question_mark) s)"
      by (metis dropWhile_eq_drop nul_free_drop)
    ultimately have "nul_free (uri_path s)" "nul_free (uri_query s)"
      unfolding uri_path_def uri_query_def Let_def by (simp_all only: nul_free_takeWhile nul_free_drop nul_free_simps split: if_split) simp
    then show "nul_free (take (unat maxpath - 1) (uri_path s))" "nul_free (take (unat maxquery - 1) (uri_query s))"
      by (simp_all only: nul_free_take)
  qed
  have out: "length (overwrite m 0 (take (k - 1) x @ [0])) = length m \<and>
      drop k (overwrite m 0 (take (k - 1) x @ [0])) = drop k m" if "0 < k" "k \<le> length m" for k and m x :: "byte list"
    using that by (intro conjI length_overwrite drop_overwrite) auto
  have "0 < unat maxpath" using assms(2) by simp
  note o = out [OF this assms(3), of "uri_path s"] out [OF assms(4,5), of "uri_query s"]
  have "parse_uri uri path maxpath (Some query) maxquery =
      Some (overwrite path 0 (take (unat maxpath - 1) (uri_path s) @ [0]), query_out (Some query) maxquery s)"
    by (rule parse_uri_correct [OF assms(1-3)]) (use assms(4,5) in simp)
  moreover note cstr_overwrite [OF n(1), of path] cstr_overwrite [OF n(2), of query]
  ultimately show ?thesis
    using o by (simp only: query_out_def option.map prod.inject option.inject) blast
qed

theorem parse_uri_spec_witness:
  "\<exists>path' query'. parse_uri (zstr ''a?b=1'') (replicate 8 7) 4 (Some (replicate 4 7)) 3 = Some (path', Some query') \<and>
     cstr path' = Some (lit ''/a'') \<and> cstr query' = Some (lit ''b='')"
proof -
  have "cstr (zstr ''a?b=1'') = Some (lit ''a?b=1'')" by (simp add: zstr_def lit_def)
  from parse_uri_spec [OF this, of 4 "replicate 8 7" 3 "replicate 4 7"] show ?thesis
    by (simp add: uri_path_def uri_query_def lit_def) blast
qed

subsection \<open>The abstract table\<close>

type_synonym route = "byte list \<times> byte list \<times> handler"

definition stored_resource :: "route \<Rightarrow> two_resource" where
  "stored_resource = (\<lambda>(path, ct, h).
     \<lparr>rs_path = path @ replicate (TWO_MAX_PATH_SIZE - length path) 0, rs_method = Some (zstr ''GET''),
      rs_content_type = Some (ct @ [0]), rs_handler = Some h\<rparr>)"

definition route_ok :: "route \<Rightarrow> bool" where
  "route_ok = (\<lambda>(path, ct, h). nul_free path \<and> length path < TWO_MAX_PATH_SIZE \<and> starts_with [slash] path \<and>
     ct \<in> set content_types)"

definition routes_rel :: "server_table \<Rightarrow> route list \<Rightarrow> bool" where
  "routes_rel t rs \<longleftrightarrow> length (server_resources t) = TWO_MAX_RESOURCES \<and> server_resources_size t = length rs \<and>
     length rs \<le> TWO_MAX_RESOURCES \<and> (\<forall>r \<in> set (server_resources t). length (rs_path r) = TWO_MAX_PATH_SIZE) \<and>
     list_all route_ok rs \<and> take (length rs) (server_resources t) = map stored_resource rs \<and>
     (inited_app_resources t \<or> rs = [])"

lemma initial_table_rel: "routes_rel initial_table []"
  by (simp add: routes_rel_def initial_table_def null_resource_def)

lemma routes_rel_nth:
  assumes "routes_rel t rs" "i < length rs"
  shows "rd (server_resources t) i = Some (stored_resource (rs ! i))"
proof -
  have "take (length rs) (server_resources t) ! i = stored_resource (rs ! i)"
    using assms by (simp add: routes_rel_def)
  with assms(2) have "server_resources t ! i = stored_resource (rs ! i)" by simp
  moreover have "i < length (server_resources t)" using assms by (simp add: routes_rel_def)
  ultimately show ?thesis by (simp add: rd_def)
qed

definition route_index :: "byte list \<Rightarrow> route list \<Rightarrow> nat option" where
  "route_index p rs = find (\<lambda>i. fst (rs ! i) = p) [0..<length rs]"

lemma stored_path_cmp:
  assumes "route_ok r" "nul_free p"
  shows "strncmp_eq (rs_path (stored_resource r)) (p @ 0 # q) TWO_MAX_PATH_SIZE = Some (fst r = p)"
proof -
  obtain path ct h where r: "r = (path, ct, h)" by (cases r)
  with assms have "length path < TWO_MAX_PATH_SIZE" "nul_free path" by (auto simp: route_ok_def)
  moreover from this have "replicate (TWO_MAX_PATH_SIZE - length path) (0 :: byte) =
      0 # replicate (TWO_MAX_PATH_SIZE - length path - 1) 0"
    by (cases "TWO_MAX_PATH_SIZE - length path") simp_all
  ultimately show ?thesis using assms(2) by (simp add: r stored_resource_def strncmp_eq_bounded)
qed

lemma index_search_correct:
  assumes step: "\<And>i. i < n \<Longrightarrow> loop i = (if P i then Some (Some i) else loop (i + 1))"
    and stop: "loop n = Some None" and "i \<le> n"
  shows "loop i = Some (find P [i..<n])"
  using \<open>i \<le> n\<close>
proof (induction rule: inc_induct)
  case base
  then show ?case using stop by simp
next
  case (step m)
  then show ?case using assms(1) [of m] by (simp add: upt_rec)
qed

lemma find_resource_correct:
  assumes "routes_rel t rs" "nul_free p" "nul_free m" "starts_with (lit ''GET'') m"
  shows "find_resource t (m @ 0 # mr) (p @ 0 # pr) = Some (route_index p rs)"
  unfolding find_resource_def route_index_def
proof (rule index_search_correct)
  show "find_resource_loop t (m @ 0 # mr) (p @ 0 # pr) i =
      (if fst (rs ! i) = p then Some (Some i) else find_resource_loop t (m @ 0 # mr) (p @ 0 # pr) (i + 1))"
    if i: "i < length rs" for i
  proof -
    have ok: "route_ok (rs ! i)" "server_resources_size t = length rs"
      using assms(1) i by (auto simp: routes_rel_def list_all_length)
    have "rs_method (stored_resource (rs ! i)) = Some (lit ''GET'' @ [0])"
      by (simp add: stored_resource_def zstr_def split: prod.splits)
    moreover have "strlen (lit ''GET'' @ [0]) = Some (length (lit ''GET''))" by simp
    moreover have "strncmp_eq (lit ''GET'' @ [0]) (m @ 0 # mr) (length (lit ''GET'')) = Some True"
      using strncmp_prefix_eq [OF nul_free_lit(1) assms(3)] assms(4) by simp
    ultimately show ?thesis
      using i ok by (subst find_resource_loop.simps)
        (simp add: routes_rel_nth [OF assms(1) i] stored_path_cmp [OF ok(1) assms(2)])
  qed
  show "find_resource_loop t (m @ 0 # mr) (p @ 0 # pr) (length rs) = Some None"
    using assms(1) by (subst find_resource_loop.simps) (simp add: routes_rel_def)
qed simp

lemma find_registered_correct:
  assumes "routes_rel t rs" "nul_free p" "nul_free m"
  shows "find_registered_loop t (m @ 0 # mr) (p @ 0 # pr) 0 =
    Some (if m = lit ''GET'' then route_index p rs else None)"
proof -
  have "find_registered_loop t (m @ 0 # mr) (p @ 0 # pr) 0 =
      Some (find (\<lambda>i. fst (rs ! i) = p \<and> m = lit ''GET'') [0..<length rs])"
  proof (rule index_search_correct)
    show "find_registered_loop t (m @ 0 # mr) (p @ 0 # pr) i =
        (if fst (rs ! i) = p \<and> m = lit ''GET'' then Some (Some i)
         else find_registered_loop t (m @ 0 # mr) (p @ 0 # pr) (i + 1))"
      if i: "i < length rs" for i
    proof -
      have ok: "route_ok (rs ! i)" "server_resources_size t = length rs"
        using assms(1) i by (auto simp: routes_rel_def list_all_length)
      have "rs_method (stored_resource (rs ! i)) = Some (lit ''GET'' @ 0 # [])"
        by (simp add: stored_resource_def zstr_def split: prod.splits)
      moreover note strcmp_eq_iff [OF nul_free_lit(1) assms(3), of "[]" mr]
      ultimately show ?thesis
        using i ok by (subst find_registered_loop.simps)
          (auto simp: routes_rel_nth [OF assms(1) i] stored_path_cmp [OF ok(1) assms(2)])
    qed
    show "find_registered_loop t (m @ 0 # mr) (p @ 0 # pr) (length rs) = Some None"
      using assms(1) by (subst find_registered_loop.simps) (simp add: routes_rel_def)
  qed simp
  then show ?thesis by (simp add: route_index_def find_None_iff)
qed

lemma route_index_SomeD: "route_index p rs = Some i \<Longrightarrow> i < length rs \<and> fst (rs ! i) = p"
  by (auto simp: route_index_def find_Some_iff)

lemma route_index_map_of: "map_of rs p = map_option (\<lambda>i. snd (rs ! i)) (route_index p rs)"
proof (induction rs)
  case (Cons r rs)
  have "find (\<lambda>i. fst ((r # rs) ! i) = p) (map Suc is) = map_option Suc (find (\<lambda>i. fst (rs ! i) = p) is)" for "is"
    by (induction "is") simp_all
  moreover have "[0..<length (r # rs)] = 0 # map Suc [0..<length rs]"
    unfolding map_Suc_upt by (simp only: list.size upt_conv_Cons zero_less_Suc One_nat_def add_Suc_right add_0_right)
  ultimately show ?case using Cons.IH by (cases r) (auto simp: route_index_def option.map_comp comp_def)
qed (simp add: route_index_def)

text \<open>Registration on the abstract table.\<close>

definition register :: "route list \<Rightarrow> byte list \<Rightarrow> byte list \<Rightarrow> byte list \<Rightarrow> handler \<Rightarrow> route list \<times> int" where
  "register rs method path ct h =
     (case content_type_of ct of
        None \<Rightarrow> (rs, - 1)
      | Some c \<Rightarrow>
          if \<not> starts_with (lit ''GET'') method \<or> \<not> starts_with [slash] path then (rs, - 1)
          else (case (if method = lit ''GET'' then route_index path rs else None) of
                  Some i \<Rightarrow> (rs[i := (path, c, h)], 0)
                | None \<Rightarrow> if length rs \<ge> TWO_MAX_RESOURCES then (rs, - 1) else (rs @ [(path, c, h)], 0)))"

lemma content_type_of_mem: "content_type_of ct = Some c \<Longrightarrow> c \<in> set content_types"
  by (auto simp: content_type_of_def find_Some_iff)

lemma routes_rel_replace:
  assumes "routes_rel t rs" "i < length rs" "fst (rs ! i) = path" "c \<in> set content_types"
  shows "routes_rel (t\<lparr>server_resources := (server_resources t)[i := (stored_resource (rs ! i))
    \<lparr>rs_content_type := Some (c @ [0]), rs_handler := Some h\<rparr>]\<rparr>) (rs[i := (path, c, h)])"
proof -
  have new: "(stored_resource (rs ! i))\<lparr>rs_content_type := Some (c @ [0]), rs_handler := Some h\<rparr> =
      stored_resource (path, c, h)"
    using assms(3) by (cases "rs ! i") (simp add: stored_resource_def)
  have ok: "route_ok (rs ! i)" using assms(1,2) by (auto simp: routes_rel_def list_all_length)
  then have ok': "route_ok (path, c, h)" "length (rs_path (stored_resource (path, c, h))) = TWO_MAX_PATH_SIZE"
    using assms(3,4) by (auto simp: route_ok_def stored_resource_def split: prod.splits)
  from assms(1,2) ok' show ?thesis
    unfolding new
    by (auto simp: routes_rel_def take_update_swap map_update list_all_length nth_list_update
        dest!: set_update_subset_insert [THEN subsetD])
qed

lemma routes_rel_append:
  assumes "routes_rel t rs" "length rs < TWO_MAX_RESOURCES" "route_ok r" "inited_app_resources t"
  shows "routes_rel (t\<lparr>server_resources := (server_resources t)[length rs := stored_resource r],
    server_resources_size := length rs + 1\<rparr>) (rs @ [r])"
proof -
  have "length (rs_path (stored_resource r)) = TWO_MAX_PATH_SIZE"
    using assms(3) by (auto simp: route_ok_def stored_resource_def split: prod.splits)
  with assms show ?thesis
    by (auto simp: routes_rel_def take_Suc_conv_app_nth dest!: set_update_subset_insert [THEN subsetD])
qed

text \<open>The arguments that pass the checks reach the search of the table, which the first call initialises.\<close>

definition initialised :: "server_table \<Rightarrow> server_table" where
  "initialised t = (if inited_app_resources t then t
     else t\<lparr>server_resources := replicate TWO_MAX_RESOURCES null_resource, inited_app_resources := True\<rparr>)"

lemma initialised_rel: "routes_rel t rs \<Longrightarrow> routes_rel (initialised t) rs \<and> inited_app_resources (initialised t)"
  by (auto simp: initialised_def routes_rel_def null_resource_def)

lemma is_valid_path_correct: "is_valid_path (p @ 0 # r) = Some (starts_with [slash] p)"
  by (cases p) (auto simp: is_valid_path_def rd_Cons)

lemma register_accepted:
  assumes "routes_rel t rs" "nul_free m" "nul_free p" "nul_free c" "length p < TWO_MAX_PATH_SIZE"
    "content_type_of c = Some ct" "starts_with (lit ''GET'') m" "starts_with [slash] p"
  shows "two_register_resource t (Some (m @ 0 # mr)) (Some (p @ 0 # pr)) (Some (c @ 0 # cr)) (Some h) =
    (case (if m = lit ''GET'' then route_index p rs else None) of
       Some i \<Rightarrow> do {
         res \<leftarrow> rd (server_resources (initialised t)) i;
         rs \<leftarrow> wr (server_resources (initialised t)) i (res\<lparr>rs_content_type := Some (ct @ [0]), rs_handler := Some h\<rparr>);
         Some ((initialised t)\<lparr>server_resources := rs\<rparr>, 0)
       }
     | None \<Rightarrow>
         if length rs \<ge> TWO_MAX_RESOURCES then Some (initialised t, - 1)
         else do {
           res \<leftarrow> rd (server_resources (initialised t)) (length rs);
           p \<leftarrow> strncpy (rs_path res) 0 (p @ 0 # pr) TWO_MAX_PATH_SIZE;
           rs' \<leftarrow> wr (server_resources (initialised t)) (length rs)
             \<lparr>rs_path = p, rs_method = Some (zstr ''GET''), rs_content_type = Some (ct @ [0]), rs_handler = Some h\<rparr>;
           Some ((initialised t)\<lparr>server_resources := rs', server_resources_size := length rs + 1\<rparr>, 0)
         })"
proof -
  have i: "routes_rel (initialised t) rs" using initialised_rel [OF assms(1)] by blast
  then have "server_resources_size (initialised t) = length rs" by (simp add: routes_rel_def)
  moreover define old where "old = (if m = lit ''GET'' then route_index p rs else None)"
  ultimately show ?thesis
    using find_registered_correct [OF i assms(3,2), of mr pr, folded old_def] http_get_method_get [OF assms(2,7), of mr] assms(5-8)
    unfolding old_def [symmetric]
    by (simp add: two_register_resource_def initialised_def [symmetric] strlen_append [OF assms(3)] is_valid_path_correct
        http_has_method_support_correct [OF assms(2)] content_type_allowed_correct [OF assms(4)] Let_def
        cong: option.case_cong)
qed

lemma register_appends:
  assumes "routes_rel t rs" "nul_free m" "nul_free p" "nul_free c" "length p < TWO_MAX_PATH_SIZE"
    "content_type_of c = Some ct" "starts_with (lit ''GET'') m" "starts_with [slash] p"
    "(if m = lit ''GET'' then route_index p rs else None) = None" "length rs < TWO_MAX_RESOURCES"
  shows "\<exists>t'. two_register_resource t (Some (m @ 0 # mr)) (Some (p @ 0 # pr)) (Some (c @ 0 # cr)) (Some h) = Some (t', 0) \<and>
    routes_rel t' (rs @ [(p, ct, h)])"
proof -
  let ?t = "initialised t"
  have t: "routes_rel ?t rs" "inited_app_resources ?t" using initialised_rel [OF assms(1)] by blast+
  note sz = t(1) [unfolded routes_rel_def]
  have r: "route_ok (p, ct, h)"
    using assms content_type_of_mem [OF assms(6)] by (simp add: route_ok_def)
  have len: "length rs < length (server_resources ?t)" using sz assms(10) by simp
  define old where "old = server_resources ?t ! length rs"
  have "length (rs_path old) = TWO_MAX_PATH_SIZE" using sz len unfolding old_def by simp
  then have "strncpy (rs_path old) 0 (p @ 0 # pr) TWO_MAX_PATH_SIZE =
      Some (p @ replicate (TWO_MAX_PATH_SIZE - length p) 0)"
    using strncpy_padded [OF assms(3,5), of "rs_path old" pr] by (simp add: overwrite_def assms(5) less_imp_le)
  then have "two_register_resource t (Some (m @ 0 # mr)) (Some (p @ 0 # pr)) (Some (c @ 0 # cr)) (Some h) =
      Some (?t\<lparr>server_resources := (server_resources ?t)[length rs := stored_resource (p, ct, h)],
        server_resources_size := length rs + 1\<rparr>, 0)"
    unfolding register_accepted [OF assms(1-8)] assms(9)
    using len assms(10) by (simp add: rd_Some wr_Some old_def [symmetric] stored_resource_def)
  then show ?thesis using routes_rel_append [OF t(1) assms(10) r t(2)] by simp
qed

lemma register_resource_correct:
  assumes "routes_rel t rs" "cstr method = Some m" "cstr path = Some p" "cstr ctype = Some c"
    "length p < TWO_MAX_PATH_SIZE"
  shows "\<exists>t'. two_register_resource t (Some method) (Some path) (Some ctype) (Some h) =
      Some (t', snd (register rs m p c h)) \<and> routes_rel t' (fst (register rs m p c h))"
proof -
  obtain mr pr cr where z: "method = m @ 0 # mr" "path = p @ 0 # pr" "ctype = c @ 0 # cr"
    "nul_free m" "nul_free p" "nul_free c"
    by (metis cstrE assms(2-4))
  consider (bad) "content_type_of c = None \<or> \<not> starts_with (lit ''GET'') m \<or> \<not> starts_with [slash] p"
    | (good) ct where "content_type_of c = Some ct" "starts_with (lit ''GET'') m" "starts_with [slash] p"
    by fastforce
  then show ?thesis
  proof cases
    case bad
    then have "register rs m p c h = (rs, - 1)" by (auto simp: register_def split: option.splits)
    moreover have "two_register_resource t (Some method) (Some path) (Some ctype) (Some h) = Some (t, - 1)"
      using bad by (auto simp: two_register_resource_def z(1-3) strlen_append [OF z(5)] is_valid_path_correct
          http_has_method_support_correct [OF z(4)] content_type_allowed_correct [OF z(6)] assms(5))
    ultimately show ?thesis using assms(1) by simp
  next
    case good
    have t: "routes_rel (initialised t) rs" using initialised_rel [OF assms(1)] by blast
    note acc = register_accepted [OF assms(1) z(4-6) assms(5) good, of mr pr cr h]
    show ?thesis
    proof (cases "if m = lit ''GET'' then route_index p rs else None")
      case (Some i)
      then have i: "i < length rs" "fst (rs ! i) = p" using route_index_SomeD by (auto split: if_splits)
      have len: "i < length (server_resources (initialised t))" using t i(1) by (simp add: routes_rel_def)
      have "register rs m p c h = (rs[i := (p, ct, h)], 0)"
        using Some good by (simp only: register_def option.case simp_thms if_False)
      then show ?thesis
        unfolding z(1-3) acc Some using routes_rel_nth [OF t i(1)] len
          routes_rel_replace [OF t i content_type_of_mem [OF good(1)], of h] by (simp add: wr_Some)
    next
      case None
      then have "register rs m p c h = (if length rs \<ge> TWO_MAX_RESOURCES then (rs, - 1) else (rs @ [(p, ct, h)], 0))"
        using good by (simp only: register_def option.case simp_thms if_False)
      moreover have "two_register_resource t (Some method) (Some path) (Some ctype) (Some h) = Some (initialised t, - 1)"
        if "length rs \<ge> TWO_MAX_RESOURCES" unfolding z(1-3) acc None using that by simp
      ultimately show ?thesis
        using register_appends [OF assms(1) z(4-6) assms(5) good None, of mr pr cr h] t z(1-3)
        by (cases "length rs \<ge> TWO_MAX_RESOURCES") auto
    qed
  qed
qed

text \<open>
  Claim C26. \<open>two_register_resource\<close> implements the abstract registration: for every well-formed table and
  any three strings it returns the same code and leaves the corresponding table. A method that is not
  supported, a path without a leading slash, an unknown content type and a full table are refused, and
  registering a path again with the method \<open>GET\<close> replaces the handler.
\<close>

theorem register_resource_refines:
  assumes "routes_rel t rs" "cstr method = Some m" "cstr path = Some p" "cstr ctype = Some c"
    "length p < TWO_MAX_PATH_SIZE"
  shows "\<exists>t'. two_register_resource t (Some method) (Some path) (Some ctype) (Some h) =
      Some (t', snd (register rs m p c h)) \<and> routes_rel t' (fst (register rs m p c h))"
  using assms by (rule register_resource_correct)

theorem register_resource_refines_witness:
  "\<exists>t'. two_register_resource initial_table (Some (zstr ''GET'')) (Some (zstr ''/a'')) (Some (zstr ''text/plain''))
      (Some (\<lambda>_ _ buf _. Some (buf, 0))) = Some (t', 0) \<and>
     routes_rel t' [(lit ''/a'', lit ''text/plain'', \<lambda>_ _ buf _. Some (buf, 0))]"
proof -
  have c: "cstr (zstr ''GET'') = Some (lit ''GET'')" "cstr (zstr ''/a'') = Some (lit ''/a'')"
    "cstr (zstr ''text/plain'') = Some (lit ''text/plain'')"
    by (simp_all add: zstr_def lit_def)
  have "register [] (lit ''GET'') (lit ''/a'') (lit ''text/plain'') h = ([(lit ''/a'', lit ''text/plain'', h)], 0)" for h
    by (simp add: register_def content_type_of_def content_types_def lit_def route_index_def TWO_MAX_RESOURCES_def)
  moreover have "length (lit ''/a'') < TWO_MAX_PATH_SIZE" by (simp add: TWO_MAX_PATH_SIZE_def lit_def)
  ultimately show ?thesis
    using register_resource_refines [OF initial_table_rel c, of "\<lambda>_ _ buf _. Some (buf, 0)"]
    by (simp only: fst_conv snd_conv simp_thms)
qed

subsection \<open>The answer to a request\<close>

definition request_path :: "byte list \<Rightarrow> byte list" where
  "request_path uri = take (TWO_MAX_PATH_SIZE - 1) (uri_path uri)"

lemma uri_path_nul_free: "nul_free s \<Longrightarrow> nul_free (uri_path s)"
  by (simp add: uri_path_def Let_def)

lemma request_path_parsed:
  assumes "cstr uri = Some u"
  obtains r where "parse_uri uri (replicate TWO_MAX_PATH_SIZE 0) (of_nat TWO_MAX_PATH_SIZE) None 0 =
    Some (request_path u @ 0 # r, None)" "nul_free (request_path u)"
proof -
  have "parse_uri uri (replicate TWO_MAX_PATH_SIZE 0) (of_nat TWO_MAX_PATH_SIZE) None 0 =
      Some (overwrite (replicate TWO_MAX_PATH_SIZE 0) 0
        (take (unat (of_nat TWO_MAX_PATH_SIZE :: u32) - 1) (uri_path u) @ [0]), query_out None 0 u)"
    by (rule parse_uri_correct [OF assms]) (simp_all add: TWO_MAX_PATH_SIZE_def)
  moreover have "nul_free (request_path u)"
    using cstr_nul_free [OF assms] by (simp add: request_path_def uri_path_nul_free)
  ultimately show ?thesis
    using that by (simp add: request_path_def TWO_MAX_PATH_SIZE_def overwrite_def query_out_def)
qed

text \<open>What the handler is called with and how its result becomes the answer.\<close>

definition answer :: "http_response \<Rightarrow> byte list \<Rightarrow> u32 \<Rightarrow> byte list \<times> int \<Rightarrow> http_response" where
  "answer res ct maxlen = (\<lambda>(content, k).
     if k < 0 then res\<lparr>rp_content := content, rp_status := 500, rp_content_length := 0\<rparr>
     else res\<lparr>rp_content := content, rp_status := 200, rp_content_length := min k (uint maxlen),
              rp_content_type := Some (ct @ [0])\<rparr>)"

lemma handle_request_correct:
  assumes "routes_rel t rs" "rq_method req = Some method" "rq_path req = Some uri"
    "cstr method = Some m" "cstr uri = Some u" "0 < rq_headers_length req" "rq_headers req \<noteq> None"
    "unat maxlen \<le> length (rp_content res)"
  shows "\<exists>buf. cstr buf = Some (request_path u) \<and>
    http_handle_request t req res maxlen =
     (if \<not> starts_with (lit ''GET'') m then Some (http_error res 501)
      else case map_of rs (request_path u) of
        None \<Rightarrow> Some (http_error res 404)
      | Some (ct, h) \<Rightarrow> map_option (answer res ct maxlen)
          (h method buf (overwrite (rp_content res) 0 (replicate (unat maxlen) 0)) maxlen))"
proof -
  obtain mr where z: "method = m @ 0 # mr" "nul_free m" by (rule cstrE [OF assms(4)])
  obtain r where p: "parse_uri uri (replicate TWO_MAX_PATH_SIZE 0) (of_nat TWO_MAX_PATH_SIZE) None 0 =
      Some (request_path u @ 0 # r, None)" "nul_free (request_path u)"
    by (rule request_path_parsed [OF assms(5)])
  define p' where "p' = request_path u"
  note facts = assms(2,3,6,7) http_has_method_support_correct [OF z(2), of mr, folded z(1)] p(1) [folded p'_def]
  have "http_handle_request t req res maxlen =
     (if \<not> starts_with (lit ''GET'') m then Some (http_error res 501)
      else case map_of rs p' of
        None \<Rightarrow> Some (http_error res 404)
      | Some (ct, h) \<Rightarrow> map_option (answer res ct maxlen)
          (h method (p' @ 0 # r) (overwrite (rp_content res) 0 (replicate (unat maxlen) 0)) maxlen))"
  proof (cases "starts_with (lit ''GET'') m")
    case True
    note f = find_resource_correct [OF assms(1) p(2) z(2) True, of mr r, folded z(1) p'_def]
    show ?thesis
    proof (cases "route_index p' rs")
      case None
      then show ?thesis using True f
        by (simp add: http_handle_request_def facts route_index_map_of)
    next
      case (Some i)
      obtain path ct h where ri: "rs ! i = (path, ct, h)" by (cases "rs ! i")
      have "rd (server_resources t) i = Some (stored_resource (path, ct, h))"
        using routes_rel_nth [OF assms(1)] route_index_SomeD [OF Some] ri by simp
      moreover have "mem_write (rp_content res) 0 (replicate (unat maxlen) 0) =
          Some (overwrite (rp_content res) 0 (replicate (unat maxlen) 0))"
        using assms(8) by (simp add: mem_write_def)
      ultimately show ?thesis using True f Some ri
        by (cases "h method (p' @ 0 # r) (overwrite (rp_content res) 0 (replicate (unat maxlen) 0)) maxlen")
          (auto simp: http_handle_request_def facts route_index_map_of stored_resource_def answer_def http_error_def)
    qed
  qed (simp add: http_handle_request_def facts)
  with p(2) show ?thesis unfolding p'_def by (intro exI [of _ "request_path u @ 0 # r"]) simp
qed

text \<open>
  Claim C25. A request is answered from the table and nothing else: 501 if the method is not supported, 404
  if no resource has the path of the URI, 500 if the handler of the first resource with that path reports
  an error, and 200 otherwise, with the content type that was registered and a content length that never
  exceeds the buffer. The handler receives the cleaned buffer and the path.
\<close>

theorem handle_request_spec:
  assumes "routes_rel t rs" "rq_method req = Some method" "rq_path req = Some uri"
    "cstr method = Some m" "cstr uri = Some u" "0 < rq_headers_length req" "rq_headers req \<noteq> None"
    "unat maxlen \<le> length (rp_content res)"
  shows "\<exists>buf. cstr buf = Some (request_path u) \<and>
    http_handle_request t req res maxlen =
     (if \<not> starts_with (lit ''GET'') m then Some (http_error res 501)
      else case map_of rs (request_path u) of
        None \<Rightarrow> Some (http_error res 404)
      | Some (ct, h) \<Rightarrow> map_option (answer res ct maxlen)
          (h method buf (overwrite (rp_content res) 0 (replicate (unat maxlen) 0)) maxlen))"
  using assms by (rule handle_request_correct)

definition example_request :: "string \<Rightarrow> string \<Rightarrow> http_request" where
  "example_request method uri =
     \<lparr>rq_method = Some (zstr method), rq_path = Some (zstr uri), rq_headers_length = 1, rq_headers = Some [(0, 8)]\<rparr>"

definition example_response :: http_response where
  "example_response = \<lparr>rp_status = 0, rp_content_type = None, rp_content_length = 0, rp_content = replicate 8 7\<rparr>"

theorem handle_request_spec_witness:
  "http_handle_request initial_table (example_request ''GET'' ''/x'') example_response 8 =
     Some (http_error example_response 404)"
proof -
  have c: "cstr (zstr ''GET'') = Some (lit ''GET'')" "cstr (zstr ''/x'') = Some (lit ''/x'')"
    by (simp_all add: zstr_def lit_def)
  have "\<exists>buf. cstr buf = Some (request_path (lit ''/x'')) \<and>
    http_handle_request initial_table (example_request ''GET'' ''/x'') example_response 8 =
     (if \<not> starts_with (lit ''GET'') (lit ''GET'') then Some (http_error example_response 501)
      else case map_of [] (request_path (lit ''/x'')) of
        None \<Rightarrow> Some (http_error example_response 404)
      | Some (ct, h) \<Rightarrow> map_option (answer example_response ct 8)
          (h (zstr ''GET'') buf (overwrite (rp_content example_response) 0 (replicate (unat (8 :: u32)) 0)) (8 :: u32)))"
    by (rule handle_request_spec [OF initial_table_rel _ _ c])
      (simp_all add: example_request_def example_response_def)
  then show ?thesis by (simp add: starts_with_def)
qed

lemma register_lookup:
  assumes "snd (register rs (lit ''GET'') p c h) = 0"
  obtains ct where "content_type_of c = Some ct" "map_of (fst (register rs (lit ''GET'') p c h)) p = Some (ct, h)"
proof -
  obtain ct where ct: "content_type_of c = Some ct" "starts_with [slash] p"
    using assms by (auto simp: register_def split: option.splits if_splits)
  have get: "starts_with (lit ''GET'') (lit ''GET'')" by (simp add: starts_with_def)
  show ?thesis
  proof (cases "route_index p rs")
    case None
    then have "map_of rs p = None" by (simp add: route_index_map_of)
    with None ct assms that get show ?thesis by (auto simp: register_def map_add_def split: if_splits)
  next
    case (Some i)
    have i: "i < length rs" "fst (rs ! i) = p" using route_index_SomeD [OF Some] by auto
    then have "fst (rs[i := (p, ct, h)] ! j) = fst (rs ! j)" for j
      by (cases "i = j") (simp_all add: nth_list_update)
    then have "route_index p (rs[i := (p, ct, h)]) = Some i" using Some by (simp add: route_index_def)
    with i have "map_of (rs[i := (p, ct, h)]) p = Some (ct, h)" by (simp add: route_index_map_of)
    with Some ct get that show ?thesis by (simp add: register_def)
  qed
qed

text \<open>
  Claim C24. Once a resource is registered under the method \<open>GET\<close>, every supported request for its path is
  answered by its handler and with its content type, whatever was registered before.
\<close>

theorem registered_resource_answers:
  assumes "routes_rel t rs" "cstr path = Some p" "cstr ctype = Some c" "length p < TWO_MAX_PATH_SIZE"
    "two_register_resource t (Some (zstr ''GET'')) (Some path) (Some ctype) (Some h) = Some (t', 0)"
    "rq_method req = Some method" "rq_path req = Some uri" "cstr method = Some m" "cstr uri = Some u"
    "0 < rq_headers_length req" "rq_headers req \<noteq> None" "unat maxlen \<le> length (rp_content res)"
    "starts_with (lit ''GET'') m" "uri_path u = p"
  shows "\<exists>buf ct. cstr buf = Some p \<and> content_type_of c = Some ct \<and> http_handle_request t' req res maxlen =
    map_option (answer res ct maxlen)
      (h method buf (overwrite (rp_content res) 0 (replicate (unat maxlen) 0)) maxlen)"
proof -
  have "cstr (zstr ''GET'') = Some (lit ''GET'')" by (simp add: zstr_def)
  from register_resource_correct [OF assms(1) this assms(2,3,4), of h] assms(5)
  have r: "snd (register rs (lit ''GET'') p c h) = 0" "routes_rel t' (fst (register rs (lit ''GET'') p c h))"
    by auto
  obtain ct where ct: "content_type_of c = Some ct" "map_of (fst (register rs (lit ''GET'') p c h)) p = Some (ct, h)"
    by (rule register_lookup [OF r(1)])
  have "request_path u = p" using assms(4,14) by (simp add: request_path_def TWO_MAX_PATH_SIZE_def)
  with handle_request_correct [OF r(2) assms(6-12)] assms(13) ct show ?thesis by auto
qed

theorem registered_resource_answers_witness:
  "\<exists>t'. two_register_resource initial_table (Some (zstr ''GET'')) (Some (zstr ''/a'')) (Some (zstr ''text/plain''))
      (Some (\<lambda>_ _ buf _. Some (buf, 3))) = Some (t', 0) \<and>
     map_option rp_status (http_handle_request t' (example_request ''GET'' ''a?q'') example_response 8) = Some 200 \<and>
     map_option rp_content_length (http_handle_request t' (example_request ''GET'' ''a?q'') example_response 8) = Some 3"
proof -
  let ?h = "\<lambda>_ _ buf _. Some (buf, 3)"
  have c: "cstr (zstr ''/a'') = Some (lit ''/a'')" "cstr (zstr ''text/plain'') = Some (lit ''text/plain'')"
    "cstr (zstr ''GET'') = Some (lit ''GET'')" "cstr (zstr ''a?q'') = Some (lit ''a?q'')"
    by (simp_all add: zstr_def lit_def)
  have len: "length (lit ''/a'') < TWO_MAX_PATH_SIZE" by (simp add: TWO_MAX_PATH_SIZE_def lit_def)
  have "snd (register [] (lit ''GET'') (lit ''/a'') (lit ''text/plain'') ?h) = 0"
    by (simp add: register_def content_type_of_def content_types_def lit_def route_index_def TWO_MAX_RESOURCES_def)
  with register_resource_correct [OF initial_table_rel c(3,1,2) len, of ?h]
  obtain t' where t': "two_register_resource initial_table (Some (zstr ''GET'')) (Some (zstr ''/a''))
      (Some (zstr ''text/plain'')) (Some ?h) = Some (t', 0)" by auto
  have "\<exists>buf ct. cstr buf = Some (lit ''/a'') \<and> content_type_of (lit ''text/plain'') = Some ct \<and>
    http_handle_request t' (example_request ''GET'' ''a?q'') example_response 8 =
    map_option (answer example_response ct 8) (?h (zstr ''GET'') buf
      (overwrite (rp_content example_response) 0 (replicate (unat (8 :: u32)) 0)) (8 :: u32))"
    by (rule registered_resource_answers [OF initial_table_rel c(1,2) len t' _ _ c(3,4)])
      (simp_all add: example_request_def example_response_def starts_with_def uri_path_def lit_def)
  with t' show ?thesis by (auto simp: answer_def)
qed

subsection \<open>Prefixes\<close>

text \<open>
  Methods and content types are compared up to the length of the known word, and a path is cut to fit
  \<open>path\<close> before it is looked up.
\<close>

lemma method_prefix_supported: "http_has_method_support (Some (zstr ''GETX'')) = Some True"
proof -
  have "nul_free (lit ''GETX'')" by (simp add: lit_def)
  from http_has_method_support_correct [OF this, of "[]"] show ?thesis by (simp add: zstr_def starts_with_def lit_def)
qed

lemma content_type_prefix_allowed:
  "content_type_allowed (Some (zstr ''text/plainer'')) = Some (Some (zstr ''text/plain''))"
proof -
  have "nul_free (lit ''text/plainer'')" by (simp add: lit_def)
  from content_type_allowed_correct [OF this, of "[]"] show ?thesis
    by (simp add: zstr_def lit_def content_type_of_def content_types_def)
qed

lemma long_path_cut:
  assumes "length p = TWO_MAX_PATH_SIZE - 1" "uri_path p = p" "question_mark \<notin> set (p @ q)" "p \<noteq> []"
  shows "request_path (p @ q) = p"
proof -
  have "uri_path (p @ q) = p @ q"
    using assms(2-4) by (cases p) (auto simp: uri_path_def Let_def split: if_splits)
  with assms(1) show ?thesis by (simp add: request_path_def)
qed

end
