(* ===== verification/Http2_Connection.thy ===== *)
theory Http2_Connection
  imports Frames Resources
begin

text \<open>
  \<open>src/src/http2.h\<close> and the first half of \<open>src/src/http2.c\<close>: the context of a client, how connections are
  opened and closed, and the frames that concern the connection (SETTINGS, GOAWAY, PING, WINDOW_UPDATE)
  and the sending of DATA under flow control.

  The state extends that of the event loop by the pool of contexts and by the table of resources of
  \<open>Resources\<close>. A context is named by its index in the static array \<open>clients_list\<close>.

  \<open>int32_t\<close> windows are words that \<open>sint\<close> reads; additions that overflow a signed type are \<open>None\<close>.
\<close>

definition HTTP2_HEADER_TABLE_SIZE :: nat where "HTTP2_HEADER_TABLE_SIZE = 4096"
definition HTTP2_ENABLE_PUSH :: nat where "HTTP2_ENABLE_PUSH = 0"
definition HTTP2_MAX_CONCURRENT_STREAMS :: nat where "HTTP2_MAX_CONCURRENT_STREAMS = 1"
definition HTTP2_INITIAL_WINDOW_SIZE :: nat where "HTTP2_INITIAL_WINDOW_SIZE = 512"
definition HTTP2_MAX_FRAME_SIZE :: nat where "HTTP2_MAX_FRAME_SIZE = 16384"
definition HTTP2_MAX_HEADER_LIST_SIZE :: nat where "HTTP2_MAX_HEADER_LIST_SIZE = 512"
definition HTTP2_SETTINGS_WAIT :: nat where "HTTP2_SETTINGS_WAIT = 300"
definition HTTP2_SOCK_READ_SIZE :: nat where "HTTP2_SOCK_READ_SIZE = HTTP2_INITIAL_WINDOW_SIZE"
definition HTTP2_SOCK_WRITE_SIZE :: nat where "HTTP2_SOCK_WRITE_SIZE = 512"
definition HTTP2_STREAM_BUF_SIZE :: nat where "HTTP2_STREAM_BUF_SIZE = 512"
definition HTTP2_MAX_CLIENTS :: nat where "HTTP2_MAX_CLIENTS = EVENT_MAX_SOCKETS - 1"

text \<open>The function pointers the program stores in events, and the error codes.\<close>

datatype callback =
    On_New_Connection
  | Waiting_For_Preface | Waiting_For_Settings | Receiving
  | Close_On_Write_Error | Close_On_Goaway_Sent | On_Settings_Sent | On_Stream_Send_Complete
  | On_Settings_Timeout
  | Http2_On_Client_Close | On_Client_Close | On_Server_Close

datatype http2_error_code =
    HTTP2_NO_ERROR | HTTP2_PROTOCOL_ERROR | HTTP2_INTERNAL_ERROR | HTTP2_FLOW_CONTROL_ERROR
  | HTTP2_SETTINGS_TIMEOUT | HTTP2_STREAM_CLOSED_ERROR | HTTP2_FRAME_SIZE_ERROR | HTTP2_REFUSED_STREAM
  | HTTP2_CANCEL | HTTP2_COMPRESSION_ERROR | HTTP2_CONNECT_ERROR | HTTP2_ENHANCE_YOUR_CALM
  | HTTP2_INADEQUATE_SECURITY | HTTP2_HTTP_1_1_REQUIRED

fun error_val :: "http2_error_code \<Rightarrow> u32" where
  "error_val HTTP2_NO_ERROR = 0x0"
| "error_val HTTP2_PROTOCOL_ERROR = 0x1"
| "error_val HTTP2_INTERNAL_ERROR = 0x2"
| "error_val HTTP2_FLOW_CONTROL_ERROR = 0x3"
| "error_val HTTP2_SETTINGS_TIMEOUT = 0x4"
| "error_val HTTP2_STREAM_CLOSED_ERROR = 0x5"
| "error_val HTTP2_FRAME_SIZE_ERROR = 0x6"
| "error_val HTTP2_REFUSED_STREAM = 0x7"
| "error_val HTTP2_CANCEL = 0x8"
| "error_val HTTP2_COMPRESSION_ERROR = 0x9"
| "error_val HTTP2_CONNECT_ERROR = 0xa"
| "error_val HTTP2_ENHANCE_YOUR_CALM = 0xb"
| "error_val HTTP2_INADEQUATE_SECURITY = 0xc"
| "error_val HTTP2_HTTP_1_1_REQUIRED = 0xd"

subsection \<open>Contexts\<close>

text \<open>\<open>HTTP2_STREAM_CLOSED\<close> and \<open>HTTP2_STREAM_IDLE\<close> are the same value in the code.\<close>

datatype stream_state =
  HTTP2_STREAM_IDLE | HTTP2_STREAM_OPEN | HTTP2_STREAM_HALF_CLOSED_LOCAL | HTTP2_STREAM_HALF_CLOSED_REMOTE

abbreviation HTTP2_STREAM_CLOSED :: stream_state where "HTTP2_STREAM_CLOSED \<equiv> HTTP2_STREAM_IDLE"

text \<open>\<open>bufptr\<close> always points into \<open>buf\<close>, or is \<open>NULL\<close> before the first stream; \<open>buflen\<close> has 16 bits.\<close>

record http2_stream =
  st_id :: u32
  st_state :: stream_state
  st_window_size :: u32
  st_buf :: "byte list"
  st_buflen :: nat
  st_bufptr :: "nat option"

definition to_u16 :: "int \<Rightarrow> nat" where
  "to_u16 n = nat (n mod 2 ^ 16)"

record http2_settings =
  header_table_size :: u32
  enable_push :: u32
  max_concurrent_streams :: u32
  initial_window_size :: u32
  max_frame_size :: u32
  max_header_list_size :: u32

definition default_settings :: http2_settings where
  "default_settings = \<lparr>header_table_size = 4096, enable_push = 1, max_concurrent_streams = 1,
     initial_window_size = 65535, max_frame_size = 16384, max_header_list_size = 0xFFFFFFFF\<rparr>"

datatype connection_state = HTTP2_CLOSED | HTTP2_WAITING_PREFACE | HTTP2_WAITING_SETTINGS | HTTP2_READY | HTTP2_CLOSING

abbreviation HTTP2_FLAGS_NONE :: byte where "HTTP2_FLAGS_NONE \<equiv> 0x0"
abbreviation HTTP2_FLAGS_WAITING_SETTINGS_ACK :: byte where "HTTP2_FLAGS_WAITING_SETTINGS_ACK \<equiv> 0x1"
abbreviation HTTP2_FLAGS_WAITING_END_HEADERS :: byte where "HTTP2_FLAGS_WAITING_END_HEADERS \<equiv> 0x2"
abbreviation HTTP2_FLAGS_WAITING_END_STREAM :: byte where "HTTP2_FLAGS_WAITING_END_STREAM \<equiv> 0x4"
abbreviation HTTP2_FLAGS_GOAWAY_RECV :: byte where "HTTP2_FLAGS_GOAWAY_RECV \<equiv> 0x8"
abbreviation HTTP2_FLAGS_GOAWAY_SENT :: byte where "HTTP2_FLAGS_GOAWAY_SENT \<equiv> 0x10"
abbreviation HTTP2_FLAGS_WAITING_TRAILERS :: byte where "HTTP2_FLAGS_WAITING_TRAILERS \<equiv> 0x20"

definition has_flag :: "byte \<Rightarrow> byte \<Rightarrow> bool" where
  "has_flag flags f \<longleftrightarrow> flags AND f \<noteq> 0"

text \<open>
  \<open>read_buf\<close> and \<open>write_buf\<close> are only touched through the circular buffers that are set up on them, so the
  bytes are kept there; here they are the contents when the connection is opened.
\<close>

record http2_context =
  cx_id :: byte
  cx_socket :: "nat option"
  cx_settings :: http2_settings
  cx_state :: connection_state
  cx_window_size :: u32
  cx_stream :: http2_stream
  cx_last_opened_stream_id :: u32
  cx_flags :: byte
  cx_read_buf :: "byte list"
  cx_write_buf :: "byte list"
  cx_hpack_dynamic_table :: hpack_dynamic_table
  cx_timer :: "nat option"

definition null_stream :: http2_stream where
  "null_stream = \<lparr>st_id = 0, st_state = HTTP2_STREAM_IDLE, st_window_size = 0,
     st_buf = replicate HTTP2_STREAM_BUF_SIZE 0, st_buflen = 0, st_bufptr = None\<rparr>"

definition null_table :: hpack_dynamic_table where
  "null_table = \<lparr>dt_max_size = 0, dt_first = 0, dt_next = 0, dt_actual_size = 0, dt_n_entries = 0,
     dt_settings_max_table_size = 0, dt_buffer = replicate HPACK_MAX_DYNAMIC_TABLE_SIZE 0\<rparr>"

definition null_context :: http2_context where
  "null_context = \<lparr>cx_id = 0, cx_socket = None,
     cx_settings = \<lparr>header_table_size = 0, enable_push = 0, max_concurrent_streams = 0,
       initial_window_size = 0, max_frame_size = 0, max_header_list_size = 0\<rparr>,
     cx_state = HTTP2_CLOSED, cx_window_size = 0, cx_stream = null_stream, cx_last_opened_stream_id = 0,
     cx_flags = 0, cx_read_buf = replicate HTTP2_SOCK_READ_SIZE 0,
     cx_write_buf = replicate HTTP2_SOCK_WRITE_SIZE 0, cx_hpack_dynamic_table = null_table, cx_timer = None\<rparr>"

text \<open>The static variables of \<open>http2.c\<close>, and the resources of \<open>two.c\<close>, which the requests are answered from.\<close>

record http2_state = "callback event_loop" +
  clients :: "nat option"
  connected_clients :: "nat option"
  client_next :: links
  ctx_mem :: "nat \<Rightarrow> http2_context"
  client_id :: byte
  clients_inited :: bool
  resources :: server_table

definition upd_ctx :: "nat \<Rightarrow> (http2_context \<Rightarrow> http2_context) \<Rightarrow> 'z http2_state_scheme \<Rightarrow> 'z http2_state_scheme" where
  "upd_ctx c f s = s\<lparr>ctx_mem := (ctx_mem s)(c := f (ctx_mem s c))\<rparr>"

definition upd_stream :: "nat \<Rightarrow> (http2_stream \<Rightarrow> http2_stream) \<Rightarrow> 'z http2_state_scheme \<Rightarrow> 'z http2_state_scheme" where
  "upd_stream c f = upd_ctx c (\<lambda>x. x\<lparr>cx_stream := f (cx_stream x)\<rparr>)"

definition set_flag :: "byte \<Rightarrow> http2_context \<Rightarrow> http2_context" where
  "set_flag f x = x\<lparr>cx_flags := cx_flags x OR f\<rparr>"

definition clear_flag :: "byte \<Rightarrow> http2_context \<Rightarrow> http2_context" where
  "clear_flag f x = x\<lparr>cx_flags := cx_flags x AND NOT f\<rparr>"

subsection \<open>Opening and closing a connection\<close>

definition http2_new_client :: "nat \<Rightarrow> 'z http2_state_scheme \<Rightarrow> ('z http2_state_scheme \<times> nat option) option" where
  "http2_new_client client s = do {
     let s = (if clients_inited s then s
              else let (h, p) = LL_INIT HTTP2_MAX_CLIENTS
                   in s\<lparr>client_next := h, clients := p, ctx_mem := (\<lambda>_. null_context),
                        connected_clients := None, clients_inited := True\<rparr>);
     (h, free, used, ctx) \<leftarrow> LL_MOVE (client_next s) (clients s) (connected_clients s);
     let s = s\<lparr>client_next := h, clients := free, connected_clients := used\<rparr>;
     (case ctx of
        None \<Rightarrow> do {
          (s, _) \<leftarrow> event_close client (Some Http2_On_Client_Close) s;
          Some (s, None)
        }
      | Some c \<Rightarrow> do {
          let s = upd_sock client (\<lambda>k. k\<lparr>sk_data := Some c\<rparr>) s;
          let ctx = null_context\<lparr>cx_id := client_id s, cx_socket := Some client, cx_settings := default_settings,
            cx_stream := null_stream\<lparr>st_id := 0, st_state := HTTP2_STREAM_IDLE\<rparr>,
            cx_state := HTTP2_WAITING_PREFACE, cx_flags := HTTP2_FLAGS_NONE, cx_last_opened_stream_id := 0,
            cx_window_size := initial_window_size default_settings\<rparr>;
          t \<leftarrow> hpack_init (cx_hpack_dynamic_table ctx) HTTP2_HEADER_TABLE_SIZE;
          let ctx = ctx\<lparr>cx_hpack_dynamic_table := t\<rparr>;
          let s = s\<lparr>ctx_mem := (ctx_mem s)(c := ctx), client_id := client_id s + 1\<rparr>;
          s \<leftarrow> event_read_start client (Some (cx_read_buf ctx)) (int HTTP2_SOCK_READ_SIZE) (Some Waiting_For_Preface) s;
          s \<leftarrow> event_write_enable client (Some (cx_write_buf ctx)) (int HTTP2_SOCK_WRITE_SIZE) s;
          Some (s, Some c)
        })
   }"

definition http2_on_client_close :: "nat \<Rightarrow> 'z http2_state_scheme \<Rightarrow> 'z http2_state_scheme option" where
  "http2_on_client_close sock s =
     (case sk_data (sock_mem s sock) of
        None \<Rightarrow> Some s
      | Some ctx \<Rightarrow> do {
          (h, used, _) \<leftarrow> LL_DELETE ctx (client_next s) (connected_clients s);
          let (h, free) = LL_PUSH ctx h (clients s);
          Some (s\<lparr>client_next := h, connected_clients := used, clients := free\<rparr>)
        })"

definition http2_close_immediate :: "nat \<Rightarrow> 'z http2_state_scheme \<Rightarrow> 'z http2_state_scheme option" where
  "http2_close_immediate ctx s = do {
     socket \<leftarrow> cx_socket (ctx_mem s ctx);
     let s = upd_ctx ctx (\<lambda>x. x\<lparr>cx_state := HTTP2_CLOSED\<rparr>) s;
     let s = upd_stream ctx (\<lambda>x. x\<lparr>st_state := HTTP2_STREAM_CLOSED\<rparr>) s;
     (s, _) \<leftarrow> event_read_stop socket s;
     (s, _) \<leftarrow> event_close socket (Some Http2_On_Client_Close) s;
     Some s
   }"

definition http2_close_gracefully :: "nat \<Rightarrow> 'z http2_state_scheme \<Rightarrow> ('z http2_state_scheme \<times> int) option" where
  "http2_close_gracefully ctx s =
     (if cx_state (ctx_mem s ctx) = HTTP2_CLOSED \<or> cx_state (ctx_mem s ctx) = HTTP2_CLOSING then Some (s, - 1)
      else do {
        let s = upd_ctx ctx (\<lambda>x. x\<lparr>cx_state := HTTP2_CLOSING, cx_flags := cx_flags x AND HTTP2_FLAGS_GOAWAY_SENT\<rparr>) s;
        socket \<leftarrow> cx_socket (ctx_mem s ctx);
        (s, _) \<leftarrow> send_goaway_frame socket (error_val HTTP2_NO_ERROR)
          (cx_last_opened_stream_id (ctx_mem s ctx)) Close_On_Write_Error s;
        Some (s, 0)
      })"

definition http2_error :: "nat \<Rightarrow> http2_error_code \<Rightarrow> 'z http2_state_scheme \<Rightarrow> 'z http2_state_scheme option" where
  "http2_error ctx err s = do {
     let s = upd_ctx ctx (\<lambda>x. x\<lparr>cx_state := HTTP2_CLOSING, cx_flags := cx_flags x AND HTTP2_FLAGS_GOAWAY_SENT\<rparr>) s;
     socket \<leftarrow> cx_socket (ctx_mem s ctx);
     (s, _) \<leftarrow> event_read_stop socket s;
     (s, _) \<leftarrow> send_goaway_frame socket (error_val err) (cx_last_opened_stream_id (ctx_mem s ctx)) Close_On_Goaway_Sent s;
     Some s
   }"

text \<open>A handler that ends a connection with an error returns \<open>-1\<close>.\<close>

definition error_return :: "nat \<Rightarrow> http2_error_code \<Rightarrow> 'z http2_state_scheme \<Rightarrow> ('z http2_state_scheme \<times> int) option" where
  "error_return ctx err s = do { s \<leftarrow> http2_error ctx err s; Some (s, - 1) }"

definition http2_stream_error :: "nat \<Rightarrow> u32 \<Rightarrow> http2_error_code \<Rightarrow> 'z http2_state_scheme \<Rightarrow> 'z http2_state_scheme option" where
  "http2_stream_error ctx stream_id err s = do {
     socket \<leftarrow> cx_socket (ctx_mem s ctx);
     (s, _) \<leftarrow> send_rst_stream_frame socket (error_val err) stream_id Close_On_Write_Error s;
     Some (if stream_id = st_id (cx_stream (ctx_mem s ctx))
           then upd_stream ctx (\<lambda>x. x\<lparr>st_state := HTTP2_STREAM_CLOSED\<rparr>) s else s)
   }"

subsection \<open>Callbacks\<close>

text \<open>\<open>(http2_context_t * )sock->data\<close>: every callback below dereferences it.\<close>

definition context_of :: "nat \<Rightarrow> 'z http2_state_scheme \<Rightarrow> nat option" where
  "context_of sock s = sk_data (sock_mem s sock)"

definition close_on_write_error :: "nat \<Rightarrow> int \<Rightarrow> 'z http2_state_scheme \<Rightarrow> 'z http2_state_scheme option" where
  "close_on_write_error sock status s =
     (if status < 0 then do { ctx \<leftarrow> context_of sock s; http2_close_immediate ctx s } else Some s)"

definition close_on_goaway_sent :: "nat \<Rightarrow> int \<Rightarrow> 'z http2_state_scheme \<Rightarrow> 'z http2_state_scheme option" where
  "close_on_goaway_sent sock status s = do { ctx \<leftarrow> context_of sock s; http2_close_immediate ctx s }"

definition on_settings_timeout :: "nat \<Rightarrow> 'z http2_state_scheme \<Rightarrow> ('z http2_state_scheme \<times> int) option" where
  "on_settings_timeout sock s = do {
     ctx \<leftarrow> context_of sock s;
     s \<leftarrow> http2_error ctx HTTP2_SETTINGS_TIMEOUT s;
     Some (s, 1)
   }"

definition on_settings_sent :: "nat \<Rightarrow> int \<Rightarrow> 'z http2_state_scheme \<Rightarrow> 'z http2_state_scheme option" where
  "on_settings_sent sock status s = do {
     ctx \<leftarrow> context_of sock s;
     if status < 0 then http2_close_immediate ctx s
     else do {
       let s = upd_ctx ctx (set_flag HTTP2_FLAGS_WAITING_SETTINGS_ACK) s;
       (s, timer) \<leftarrow> event_timer_set sock (int HTTP2_SETTINGS_WAIT) (Some On_Settings_Timeout) s;
       Some (upd_ctx ctx (\<lambda>x. x\<lparr>cx_timer := Some timer\<rparr>) s)
     }
   }"

subsection \<open>SETTINGS\<close>

definition read_setting :: "byte list \<Rightarrow> nat \<Rightarrow> (u16 \<times> u32) option" where
  "read_setting data i = do {
     a \<leftarrow> rd data i; b \<leftarrow> rd data (i + 1);
     c \<leftarrow> rd data (i + 2); d \<leftarrow> rd data (i + 3); e \<leftarrow> rd data (i + 4); f \<leftarrow> rd data (i + 5);
     Some (push_bit 8 (ucast a) OR ucast b,
           push_bit 24 (ucast c) OR push_bit 16 (ucast d) OR push_bit 8 (ucast e) OR ucast f)
   }"

text \<open>
  One parameter. The result says whether the loop goes on (\<open>Some n\<close>, \<open>n\<close> to be added to the total) or the
  function returns 0 (\<open>None\<close>). The sum of two \<open>int32_t\<close> must not overflow.
\<close>

definition setting_field :: "nat \<Rightarrow> (http2_settings \<Rightarrow> http2_settings) \<Rightarrow> 'z http2_state_scheme \<Rightarrow> 'z http2_state_scheme" where
  "setting_field ctx f = upd_ctx ctx (\<lambda>x. x\<lparr>cx_settings := f (cx_settings x)\<rparr>)"

definition error_stop :: "nat \<Rightarrow> http2_error_code \<Rightarrow> 'z http2_state_scheme \<Rightarrow> ('z http2_state_scheme \<times> nat option) option" where
  "error_stop ctx err s = do { s \<leftarrow> http2_error ctx err s; Some (s, None) }"

definition update_initial_window :: "nat \<Rightarrow> u32 \<Rightarrow> 'z http2_state_scheme \<Rightarrow> ('z http2_state_scheme \<times> nat option) option" where
  "update_initial_window ctx val s =
     (if val > 0x7FFFFFFF then error_stop ctx HTTP2_FLOW_CONTROL_ERROR s
      else do {
        let st = cx_stream (ctx_mem s ctx);
        if st_state st = HTTP2_STREAM_OPEN \<or> st_state st = HTTP2_STREAM_HALF_CLOSED_REMOTE then do {
          let diff = val - initial_window_size (cx_settings (ctx_mem s ctx));
          let sum = sint (st_window_size st) + sint diff;
          guard (- (2 ^ 31) \<le> sum \<and> sum < 2 ^ 31);
          if sum > 0 \<and> (word_of_int sum :: u32) > 0x7FFFFFFF then error_stop ctx HTTP2_FLOW_CONTROL_ERROR s
          else do {
            let s = upd_stream ctx (\<lambda>x. x\<lparr>st_window_size := st_window_size x + diff\<rparr>) s;
            Some (setting_field ctx (\<lambda>t. t\<lparr>initial_window_size := val\<rparr>) s, Some 1)
          }
        }
        else Some (setting_field ctx (\<lambda>t. t\<lparr>initial_window_size := val\<rparr>) s, Some 1)
      })"

definition update_setting :: "nat \<Rightarrow> u16 \<Rightarrow> u32 \<Rightarrow> 'z http2_state_scheme \<Rightarrow> ('z http2_state_scheme \<times> nat option) option" where
  "update_setting ctx sid val s =
     (if sid = 0x1 then do {
        let s = setting_field ctx (\<lambda>t. t\<lparr>header_table_size := val\<rparr>) s;
        t \<leftarrow> hpack_dynamic_change_max_size (cx_hpack_dynamic_table (ctx_mem s ctx)) (min (of_nat HTTP2_HEADER_TABLE_SIZE) val);
        Some (upd_ctx ctx (\<lambda>x. x\<lparr>cx_hpack_dynamic_table := t\<rparr>) s, Some 1)
      }
      else if sid = 0x2 then
        (if val \<noteq> 0 \<and> val \<noteq> 1 then error_stop ctx HTTP2_PROTOCOL_ERROR s
         else Some (setting_field ctx (\<lambda>t. t\<lparr>enable_push := val\<rparr>) s, Some 1))
      else if sid = 0x3 then Some (setting_field ctx (\<lambda>t. t\<lparr>max_concurrent_streams := val\<rparr>) s, Some 1)
      else if sid = 0x4 then update_initial_window ctx val s
      else if sid = 0x5 then
        (if val < 0x4000 \<or> val > 0xFFFFFF then error_stop ctx HTTP2_PROTOCOL_ERROR s
         else Some (setting_field ctx (\<lambda>t. t\<lparr>max_frame_size := val\<rparr>) s, Some 1))
      else if sid = 0x6 then Some (setting_field ctx (\<lambda>t. t\<lparr>max_header_list_size := val\<rparr>) s, Some 1)
      else Some (s, Some 0))"

function update_settings_loop :: "nat \<Rightarrow> byte list \<Rightarrow> nat \<Rightarrow> nat \<Rightarrow> nat \<Rightarrow> nat \<Rightarrow> 'z http2_state_scheme \<Rightarrow>
    ('z http2_state_scheme \<times> int) option" where
  "update_settings_loop ctx data p len i tot s =
     (if i < len then do {
        (sid, val) \<leftarrow> read_setting data (p + i);
        (s, r) \<leftarrow> update_setting ctx sid val s;
        (case r of
           None \<Rightarrow> Some (s, 0)
         | Some n \<Rightarrow> update_settings_loop ctx data p len (i + 6) (tot + n) s)
      }
      else Some (s, int tot))"
  by pat_completeness auto
termination
  by (relation "measure (\<lambda>(ctx, data, p, len, i, tot, s). len - i)") auto

declare update_settings_loop.simps [simp del]

definition update_settings :: "nat \<Rightarrow> byte list \<Rightarrow> nat \<Rightarrow> nat \<Rightarrow> 'z http2_state_scheme \<Rightarrow>
    ('z http2_state_scheme \<times> int) option" where
  "update_settings ctx data p len s = update_settings_loop ctx data p len 0 0 s"

definition handle_settings_frame :: "nat \<Rightarrow> frame_header \<Rightarrow> byte list \<Rightarrow> nat \<Rightarrow> 'z http2_state_scheme \<Rightarrow>
    ('z http2_state_scheme \<times> int) option" where
  "handle_settings_frame ctx header payload p s =
     (if fh_stream_id header \<noteq> 0 then error_return ctx HTTP2_PROTOCOL_ERROR s
      else if \<not> has_flag (fh_flags header) FRAME_FLAGS_ACK then
        (if unat (fh_length header) mod 6 \<noteq> 0 then error_return ctx HTTP2_FRAME_SIZE_ERROR s
         else do {
           (s, tot) \<leftarrow> update_settings ctx payload p (unat (fh_length header)) s;
           if tot > 0 then do {
             socket \<leftarrow> cx_socket (ctx_mem s ctx);
             (s, _) \<leftarrow> send_settings_frame socket True [] Close_On_Write_Error s;
             Some (s, 0)
           }
           else Some (s, 0)
         })
      else if fh_length header \<noteq> 0 then error_return ctx HTTP2_FRAME_SIZE_ERROR s
      else if \<not> has_flag (cx_flags (ctx_mem s ctx)) HTTP2_FLAGS_WAITING_SETTINGS_ACK then Some (s, 0)
      else do {
        let s = upd_ctx ctx (clear_flag HTTP2_FLAGS_WAITING_SETTINGS_ACK) s;
        s \<leftarrow> event_timer_stop (cx_timer (ctx_mem s ctx)) s;
        Some (upd_ctx ctx (\<lambda>x. x\<lparr>cx_timer := None\<rparr>) s, 0)
      })"

subsection \<open>GOAWAY and PING\<close>

definition handle_goaway_frame :: "nat \<Rightarrow> frame_header \<Rightarrow> byte list \<Rightarrow> nat \<Rightarrow> 'z http2_state_scheme \<Rightarrow>
    ('z http2_state_scheme \<times> int) option" where
  "handle_goaway_frame ctx header payload p s =
     (if fh_stream_id header \<noteq> 0 then error_return ctx HTTP2_PROTOCOL_ERROR s
      else if fh_length header < 8 then error_return ctx HTTP2_FRAME_SIZE_ERROR s
      else do {
        last_stream_id \<leftarrow> buffer_get_u31 payload p;
        if has_flag (cx_flags (ctx_mem s ctx)) HTTP2_FLAGS_GOAWAY_SENT then do {
          s \<leftarrow> http2_close_immediate ctx s;
          Some (s, 0)
        }
        else if has_flag (cx_flags (ctx_mem s ctx)) HTTP2_FLAGS_GOAWAY_RECV then Some (s, 0)
        else do {
          let s = upd_ctx ctx (set_flag HTTP2_FLAGS_GOAWAY_RECV) s;
          let s = (if st_id (cx_stream (ctx_mem s ctx)) > last_stream_id
                   then upd_stream ctx (\<lambda>x. x\<lparr>st_state := HTTP2_STREAM_CLOSED\<rparr>) s else s);
          let s = upd_ctx ctx (\<lambda>x. x\<lparr>cx_state := HTTP2_CLOSING\<rparr>) s;
          socket \<leftarrow> cx_socket (ctx_mem s ctx);
          (s, _) \<leftarrow> event_read socket (Some Receiving) s;
          (s, _) \<leftarrow> send_goaway_frame socket (error_val HTTP2_NO_ERROR)
            (cx_last_opened_stream_id (ctx_mem s ctx)) Close_On_Goaway_Sent s;
          Some (s, 0)
        }
      })"

definition handle_ping_frame :: "nat \<Rightarrow> frame_header \<Rightarrow> byte list \<Rightarrow> nat \<Rightarrow> 'z http2_state_scheme \<Rightarrow>
    ('z http2_state_scheme \<times> int) option" where
  "handle_ping_frame ctx header payload p s =
     (if fh_stream_id header \<noteq> 0 then error_return ctx HTTP2_PROTOCOL_ERROR s
      else if fh_length header \<noteq> 8 then error_return ctx HTTP2_FRAME_SIZE_ERROR s
      else if has_flag (fh_flags header) FRAME_FLAGS_ACK then Some (s, 0)
      else do {
        socket \<leftarrow> cx_socket (ctx_mem s ctx);
        (s, _) \<leftarrow> send_ping_frame socket payload p True Close_On_Write_Error s;
        Some (s, 0)
      })"

subsection \<open>Sending under flow control\<close>

definition http2_continue_send :: "nat \<Rightarrow> 'z http2_state_scheme \<Rightarrow> 'z http2_state_scheme option" where
  "http2_continue_send ctx s = do {
     let st = cx_stream (ctx_mem s ctx);
     let window_size = min (sint (cx_window_size (ctx_mem s ctx))) (sint (st_window_size st));
     let len = min (int (st_buflen st)) window_size;
     if len \<le> 0 then Some s
     else do {
       let len = min len (int HTTP2_SOCK_WRITE_SIZE);
       socket \<leftarrow> cx_socket (ctx_mem s ctx);
       bufptr \<leftarrow> st_bufptr st;
       (s, _) \<leftarrow> send_data_frame socket (st_buf st) bufptr (word_of_int len) (st_id st)
         (int (st_buflen st) - len \<le> 0) On_Stream_Send_Complete s;
       let s = upd_stream ctx (\<lambda>x. x\<lparr>st_bufptr := Some (bufptr + nat len),
         st_buflen := to_u16 (int (st_buflen x) - len), st_window_size := st_window_size x - word_of_int len\<rparr>) s;
       Some (upd_ctx ctx (\<lambda>x. x\<lparr>cx_window_size := cx_window_size x - word_of_int len\<rparr>) s)
     }
   }"

definition on_stream_send_complete :: "nat \<Rightarrow> int \<Rightarrow> 'z http2_state_scheme \<Rightarrow> 'z http2_state_scheme option" where
  "on_stream_send_complete sock status s = do {
     ctx \<leftarrow> context_of sock s;
     if status < 0 then http2_close_immediate ctx s
     else if st_buflen (cx_stream (ctx_mem s ctx)) = 0
     then Some (upd_stream ctx (\<lambda>x. x\<lparr>st_state := HTTP2_STREAM_CLOSED\<rparr>) s)
     else http2_continue_send ctx s
   }"

definition handle_window_update_frame :: "nat \<Rightarrow> frame_header \<Rightarrow> byte list \<Rightarrow> nat \<Rightarrow> 'z http2_state_scheme \<Rightarrow>
    ('z http2_state_scheme \<times> int) option" where
  "handle_window_update_frame ctx header payload p s =
     (if fh_length header \<noteq> 4 then error_return ctx HTTP2_FRAME_SIZE_ERROR s
      else if fh_stream_id header > cx_last_opened_stream_id (ctx_mem s ctx) then error_return ctx HTTP2_PROTOCOL_ERROR s
      else if fh_stream_id header \<noteq> 0 \<and> fh_stream_id header = st_id (cx_stream (ctx_mem s ctx)) \<and>
        st_state (cx_stream (ctx_mem s ctx)) = HTTP2_STREAM_CLOSED then error_return ctx HTTP2_STREAM_CLOSED_ERROR s
      else do {
        inc \<leftarrow> buffer_get_u31 payload p;
        if inc = 0 then error_return ctx HTTP2_PROTOCOL_ERROR s
        else if fh_stream_id header = 0 then
          (if cx_window_size (ctx_mem s ctx) + inc > 0x7FFFFFFF then error_return ctx HTTP2_FLOW_CONTROL_ERROR s
           else Some (upd_ctx ctx (\<lambda>x. x\<lparr>cx_window_size := cx_window_size x + inc\<rparr>) s, 0))
        else if st_window_size (cx_stream (ctx_mem s ctx)) + inc > 0x7FFFFFFF then do {
          s \<leftarrow> http2_stream_error ctx (st_id (cx_stream (ctx_mem s ctx))) HTTP2_FLOW_CONTROL_ERROR s;
          Some (s, - 1)
        }
        else do {
          let s = upd_stream ctx (\<lambda>x. x\<lparr>st_window_size := st_window_size x + inc\<rparr>) s;
          s \<leftarrow> http2_continue_send ctx s;
          Some (s, 0)
        }
      })"

end
