(* ===== verification/Http2.thy ===== *)
theory Http2
  imports Http2_Connection
begin

text \<open>
  The second half of \<open>src/src/http2.c\<close>: header blocks and requests, DATA, CONTINUATION and RST_STREAM frames,
  and the three functions that read from the socket, one for each state of the connection.
\<close>

subsection \<open>Requests\<close>

text \<open>\<open>snprintf(buf, n, "%d", x)\<close>: the decimal representation, cut to \<open>n - 1\<close> characters.\<close>

fun decimal :: "nat \<Rightarrow> byte list" where
  "decimal n = (if n < 10 then [of_nat (48 + n)] else decimal (n div 10) @ [of_nat (48 + n mod 10)])"

declare decimal.simps [simp del]

definition snprintf_d :: "nat \<Rightarrow> int \<Rightarrow> byte list" where
  "snprintf_d n x = take (n - 1) (if x < 0 then 0x2D # decimal (nat (- x)) else decimal (nat x)) @ [0]"

definition header_value :: "header_list \<Rightarrow> string \<Rightarrow> byte list option option" where
  "header_value headers name = do {
     pos \<leftarrow> header_list_get headers (zstr name);
     Some (if pos < 0 then None else Some (drop (nat pos) (hl_buffer headers)))
   }"

abbreviation comma :: byte where "comma \<equiv> 0x2C"

fun check_pseudoheaders :: "header_list \<Rightarrow> string list \<Rightarrow> bool option" where
  "check_pseudoheaders headers [] = Some True"
| "check_pseudoheaders headers (name # names) = do {
     val \<leftarrow> header_value headers name;
     (case val of
        None \<Rightarrow> Some False
      | Some v \<Rightarrow> do {
          len \<leftarrow> strlen v;
          if len = 0 then Some False
          else do {
            i \<leftarrow> c_index v comma;
            if i \<noteq> None then Some False else check_pseudoheaders headers names
          }
        })
   }"

definition validate_pseudoheaders :: "header_list \<Rightarrow> int option" where
  "validate_pseudoheaders headers = do {
     ok \<leftarrow> check_pseudoheaders headers ['':method'', '':scheme'', '':path''];
     if \<not> ok then Some (- 1)
     else do {
       connection \<leftarrow> header_value headers ''connection'';
       if connection \<noteq> None then Some (- 1)
       else do {
         te \<leftarrow> header_value headers ''te'';
         (case te of
            None \<Rightarrow> Some 0
          | Some te \<Rightarrow> do {
              eq \<leftarrow> strcmp_eq te (zstr ''trailers'');
              Some (if eq then 0 else - 1)
            })
       }
     }
   }"

text \<open>The local variable \<open>header_list\<close> before it is reset; its contents do not matter.\<close>

definition fresh_header_list :: header_list where
  "fresh_header_list = \<lparr>hl_buffer = replicate HEADER_LIST_MAX_SIZE 0, hl_count = 0, hl_size = 0\<rparr>"

text \<open>The response headers; the return values of \<open>header_list_set\<close> are dropped.\<close>

definition response_headers :: "header_list \<Rightarrow> http_response \<Rightarrow> header_list option" where
  "response_headers headers res = do {
     headers \<leftarrow> header_list_reset headers;
     (headers, _) \<leftarrow> header_list_set headers (zstr '':status'') (snprintf_d 4 (rp_status res));
     (headers, _) \<leftarrow>
       (case rp_content_type res of
          None \<Rightarrow> Some (headers, 0)
        | Some ct \<Rightarrow> header_list_set headers (zstr ''content-type'') ct);
     (headers, _) \<leftarrow> header_list_set headers (zstr ''content-length'') (snprintf_d 10 (rp_content_length res));
     Some headers
   }"

text \<open>
  The response is written to the stream buffer, which held the header block before. The dynamic table of
  the connection is used for decoding and for encoding.
\<close>

definition handle_request :: "nat \<Rightarrow> header_list \<Rightarrow> 'z http2_state_scheme \<Rightarrow> ('z http2_state_scheme \<times> http_response) option" where
  "handle_request ctx headers s = do {
     let headers_length = nat (header_list_count headers);
     method \<leftarrow> header_value headers '':method'';
     path \<leftarrow> header_value headers '':path'';
     hs \<leftarrow> header_list_all headers (replicate headers_length (0, 0));
     let req = \<lparr>rq_method = method, rq_path = path, rq_headers_length = headers_length, rq_headers = Some hs\<rparr>;
     let res = \<lparr>rp_status = 0, rp_content_type = None, rp_content_length = 0,
                rp_content = st_buf (cx_stream (ctx_mem s ctx))\<rparr>;
     res \<leftarrow> http_handle_request (resources s) req res (of_nat HTTP2_STREAM_BUF_SIZE);
     Some (upd_stream ctx (\<lambda>x. x\<lparr>st_buf := rp_content res\<rparr>) s, res)
   }"

definition send_response :: "nat \<Rightarrow> header_list \<Rightarrow> http_response \<Rightarrow> 'z http2_state_scheme \<Rightarrow>
    ('z http2_state_scheme \<times> int) option" where
  "send_response ctx headers res s = do {
     headers \<leftarrow> response_headers headers res;
     let s = upd_stream ctx (\<lambda>x. x\<lparr>st_buflen := to_u16 (rp_content_length res)\<rparr>) s;
     socket \<leftarrow> cx_socket (ctx_mem s ctx);
     let st = cx_stream (ctx_mem s ctx);
     (s, t, hlen) \<leftarrow> send_headers_frame socket headers (cx_hpack_dynamic_table (ctx_mem s ctx)) (st_id st)
       (st_buflen st = 0) On_Stream_Send_Complete s;
     let s = upd_ctx ctx (\<lambda>x. x\<lparr>cx_hpack_dynamic_table := t\<rparr>) s;
     if hlen < 0 then error_return ctx HTTP2_INTERNAL_ERROR s else Some (s, 0)
   }"

definition handle_end_stream :: "nat \<Rightarrow> 'z http2_state_scheme \<Rightarrow> ('z http2_state_scheme \<times> int) option" where
  "handle_end_stream ctx s = do {
     headers \<leftarrow> header_list_reset fresh_header_list;
     let st = cx_stream (ctx_mem s ctx);
     (t, headers, rc) \<leftarrow> hpack_decode (cx_hpack_dynamic_table (ctx_mem s ctx)) (st_buf st) 0 (int (st_buflen st)) headers;
     let s = upd_ctx ctx (\<lambda>x. x\<lparr>cx_hpack_dynamic_table := t\<rparr>) s;
     if rc = HPACK_COMPRESSION_ERROR then error_return ctx HTTP2_COMPRESSION_ERROR s
     else if rc = HPACK_MEMORY_ERROR then error_return ctx HTTP2_FLOW_CONTROL_ERROR s
     else if rc = HPACK_INTERNAL_ERROR then error_return ctx HTTP2_INTERNAL_ERROR s
     else do {
       v \<leftarrow> validate_pseudoheaders headers;
       if v < 0 then error_return ctx HTTP2_PROTOCOL_ERROR s
       else do {
         (s, res) \<leftarrow> handle_request ctx headers s;
         send_response ctx headers res s
       }
     }
   }"

subsection \<open>Header blocks\<close>

text \<open>Whether END_HEADERS and END_STREAM have both been received.\<close>

definition request_complete :: "http2_context \<Rightarrow> bool" where
  "request_complete x \<longleftrightarrow> \<not> has_flag (cx_flags x) HTTP2_FLAGS_WAITING_END_HEADERS \<and>
     \<not> has_flag (cx_flags x) HTTP2_FLAGS_WAITING_END_STREAM"

definition finish_header_block :: "nat \<Rightarrow> frame_header \<Rightarrow> 'z http2_state_scheme \<Rightarrow>
    ('z http2_state_scheme \<times> int) option" where
  "finish_header_block ctx header s = do {
     let s = (if has_flag (fh_flags header) FRAME_FLAGS_END_STREAM
              then upd_stream ctx (\<lambda>x. x\<lparr>st_state := HTTP2_STREAM_HALF_CLOSED_REMOTE\<rparr>)
                     (upd_ctx ctx (clear_flag HTTP2_FLAGS_WAITING_END_STREAM) s)
              else s);
     let s = (if has_flag (fh_flags header) FRAME_FLAGS_END_HEADERS
              then upd_ctx ctx (clear_flag HTTP2_FLAGS_WAITING_END_HEADERS) s else s);
     if request_complete (ctx_mem s ctx) then handle_end_stream ctx s else Some (s, 0)
   }"

definition handle_header_block :: "nat \<Rightarrow> frame_header \<Rightarrow> byte list \<Rightarrow> nat \<Rightarrow> int \<Rightarrow> 'z http2_state_scheme \<Rightarrow>
    ('z http2_state_scheme \<times> int) option" where
  "handle_header_block ctx header data p sz s = do {
     let st = cx_stream (ctx_mem s ctx);
     let copylen = min sz (int HTTP2_STREAM_BUF_SIZE - int (st_buflen st));
     if copylen \<le> 0 then error_return ctx HTTP2_FLOW_CONTROL_ERROR s
     else do {
       s \<leftarrow> (if \<not> has_flag (cx_flags (ctx_mem s ctx)) HTTP2_FLAGS_WAITING_TRAILERS then do {
               buf \<leftarrow> memcpy (st_buf st) (int (st_buflen st)) data (int p) copylen;
               Some (upd_stream ctx (\<lambda>x. x\<lparr>st_buf := buf, st_buflen := to_u16 (int (st_buflen x) + copylen)\<rparr>) s)
             } else Some s);
       finish_header_block ctx header s
     }
   }"

text \<open>Padding and priority are cut off; the results are the offset and the size of the block.\<close>

definition strip_header_block :: "frame_header \<Rightarrow> byte list \<Rightarrow> nat \<Rightarrow> (nat \<times> int) option option" where
  "strip_header_block header payload p = do {
     let sz = int (unat (fh_length header));
     b \<leftarrow> (if has_flag (fh_flags header) FRAME_FLAGS_PADDED then do {
             pad \<leftarrow> rd payload p;
             Some (if unat pad \<ge> unat (fh_length header) then None else Some (p + 1, sz - 1 - int (unat pad)))
           } else Some (Some (p, sz)));
     Some (case b of
             None \<Rightarrow> None
           | Some (p, sz) \<Rightarrow>
               if has_flag (fh_flags header) FRAME_FLAGS_PRIORITY then Some (p + 5, sz - 5) else Some (p, sz))
   }"

definition open_stream :: "nat \<Rightarrow> u32 \<Rightarrow> 'z http2_state_scheme \<Rightarrow> 'z http2_state_scheme" where
  "open_stream ctx stream_id =
     upd_ctx ctx (\<lambda>x. set_flag HTTP2_FLAGS_WAITING_END_STREAM (set_flag HTTP2_FLAGS_WAITING_END_HEADERS
       (x\<lparr>cx_stream := (cx_stream x)\<lparr>st_id := stream_id, st_state := HTTP2_STREAM_OPEN,
            st_window_size := initial_window_size (cx_settings x), st_buflen := 0, st_bufptr := Some 0\<rparr>,
          cx_last_opened_stream_id := stream_id\<rparr>)))"

definition handle_headers_frame :: "nat \<Rightarrow> frame_header \<Rightarrow> byte list \<Rightarrow> nat \<Rightarrow> 'z http2_state_scheme \<Rightarrow>
    ('z http2_state_scheme \<times> int) option" where
  "handle_headers_frame ctx header payload p s = do {
     let x = ctx_mem s ctx;
     let sid = fh_stream_id header;
     if cx_state x = HTTP2_CLOSING then Some (s, 0)
     else if sid = 0 then error_return ctx HTTP2_PROTOCOL_ERROR s
     else if sid < cx_last_opened_stream_id x \<or> even (unat sid) then error_return ctx HTTP2_PROTOCOL_ERROR s
     else if sid > cx_last_opened_stream_id x \<and> st_state (cx_stream x) \<noteq> HTTP2_STREAM_IDLE
     then error_return ctx HTTP2_REFUSED_STREAM s
     else if sid = cx_last_opened_stream_id x \<and>
       (st_state (cx_stream x) = HTTP2_STREAM_HALF_CLOSED_REMOTE \<or> st_state (cx_stream x) = HTTP2_STREAM_CLOSED)
     then error_return ctx HTTP2_STREAM_CLOSED_ERROR s
     else if sid = cx_last_opened_stream_id x \<and> \<not> has_flag (fh_flags header) FRAME_FLAGS_END_STREAM then do {
       s \<leftarrow> http2_stream_error ctx sid HTTP2_PROTOCOL_ERROR s;
       Some (s, - 1)
     }
     else do {
       let s = (if sid = cx_last_opened_stream_id x
                then upd_ctx ctx (\<lambda>x. set_flag HTTP2_FLAGS_WAITING_END_HEADERS (set_flag HTTP2_FLAGS_WAITING_TRAILERS x)) s
                else open_stream ctx sid s);
       block \<leftarrow> strip_header_block header payload p;
       (case block of
          None \<Rightarrow> error_return ctx HTTP2_PROTOCOL_ERROR s
        | Some (p, sz) \<Rightarrow> handle_header_block ctx header payload p sz s)
     }
   }"

subsection \<open>The remaining frames\<close>

text \<open>The result of \<open>handle_end_stream\<close> is dropped.\<close>

definition handle_data_frame :: "nat \<Rightarrow> frame_header \<Rightarrow> byte list \<Rightarrow> nat \<Rightarrow> 'z http2_state_scheme \<Rightarrow>
    ('z http2_state_scheme \<times> int) option" where
  "handle_data_frame ctx header payload p s = do {
     let x = ctx_mem s ctx;
     let sid = fh_stream_id header;
     if sid = 0 \<or> sid > cx_last_opened_stream_id x then error_return ctx HTTP2_PROTOCOL_ERROR s
     else if sid < cx_last_opened_stream_id x \<or> st_state (cx_stream x) \<noteq> HTTP2_STREAM_OPEN then do {
       s \<leftarrow> http2_stream_error ctx sid HTTP2_STREAM_CLOSED_ERROR s;
       Some (s, - 1)
     }
     else do {
       bad \<leftarrow> (if has_flag (fh_flags header) FRAME_FLAGS_PADDED then do {
                 pad \<leftarrow> rd payload p;
                 Some (unat pad \<ge> unat (fh_length header))
               } else Some False);
       if bad then error_return ctx HTTP2_PROTOCOL_ERROR s
       else do {
         let s = (if has_flag (fh_flags header) FRAME_FLAGS_END_STREAM
                  then upd_stream ctx (\<lambda>x. x\<lparr>st_state := HTTP2_STREAM_HALF_CLOSED_REMOTE\<rparr>)
                         (upd_ctx ctx (clear_flag HTTP2_FLAGS_WAITING_END_STREAM) s)
                  else s);
         if request_complete (ctx_mem s ctx) then do {
           (s, _) \<leftarrow> handle_end_stream ctx s;
           Some (s, 0)
         }
         else Some (s, 0)
       }
     }
   }"

definition handle_continuation_frame :: "nat \<Rightarrow> frame_header \<Rightarrow> byte list \<Rightarrow> nat \<Rightarrow> 'z http2_state_scheme \<Rightarrow>
    ('z http2_state_scheme \<times> int) option" where
  "handle_continuation_frame ctx header payload p s = do {
     let x = ctx_mem s ctx;
     if fh_stream_id header = 0 \<or>
       (st_state (cx_stream x) \<noteq> HTTP2_STREAM_OPEN \<and> st_state (cx_stream x) \<noteq> HTTP2_STREAM_HALF_CLOSED_REMOTE) \<or>
       \<not> has_flag (cx_flags x) HTTP2_FLAGS_WAITING_END_HEADERS
     then error_return ctx HTTP2_PROTOCOL_ERROR s
     else handle_header_block ctx header payload p (int (unat (fh_length header))) s
   }"

definition handle_rst_stream_frame :: "nat \<Rightarrow> frame_header \<Rightarrow> 'z http2_state_scheme \<Rightarrow>
    ('z http2_state_scheme \<times> int) option" where
  "handle_rst_stream_frame ctx header s =
     (if fh_stream_id header = 0 then error_return ctx HTTP2_PROTOCOL_ERROR s
      else if fh_length header \<noteq> 4 then error_return ctx HTTP2_FRAME_SIZE_ERROR s
      else if fh_stream_id header \<noteq> cx_last_opened_stream_id (ctx_mem s ctx) then error_return ctx HTTP2_PROTOCOL_ERROR s
      else Some (upd_stream ctx (\<lambda>x. x\<lparr>st_state := HTTP2_STREAM_CLOSED\<rparr>) s, 0))"

subsection \<open>The states of a connection\<close>

text \<open>
  The callbacks of \<open>event_read\<close>: the size is not positive if the stream has ended or failed, and \<open>buf\<close> holds
  \<open>size\<close> bytes otherwise. The result is the number of bytes used up.
\<close>

definition HTTP2_PREFACE :: "byte list" where
  "HTTP2_PREFACE = lit ''PRI * HTTP/2.0'' @ [13, 10, 13, 10] @ lit ''SM'' @ [13, 10, 13, 10, 0]"

definition local_settings :: "u32 list" where
  "local_settings = map of_nat [HTTP2_HEADER_TABLE_SIZE, HTTP2_ENABLE_PUSH, HTTP2_MAX_CONCURRENT_STREAMS,
     HTTP2_INITIAL_WINDOW_SIZE, HTTP2_MAX_FRAME_SIZE, HTTP2_MAX_HEADER_LIST_SIZE]"

definition waiting_for_preface :: "nat \<Rightarrow> int \<Rightarrow> byte list \<Rightarrow> 'z http2_state_scheme \<Rightarrow>
    ('z http2_state_scheme \<times> int) option" where
  "waiting_for_preface client sz buf s = do {
     ctx \<leftarrow> context_of client s;
     if sz \<le> 0 then do { s \<leftarrow> http2_close_immediate ctx s; Some (s, 0) }
     else if sz < 24 then Some (s, 0)
     else do {
       eq \<leftarrow> strncmp_eq buf HTTP2_PREFACE 24;
       if \<not> eq then do { s \<leftarrow> http2_close_immediate ctx s; Some (s, 24) }
       else do {
         let s = upd_ctx ctx (\<lambda>x. x\<lparr>cx_state := HTTP2_WAITING_SETTINGS\<rparr>) s;
         (s, _) \<leftarrow> send_settings_frame client False local_settings On_Settings_Sent s;
         (s, _) \<leftarrow> event_read client (Some Waiting_For_Settings) s;
         Some (s, 24)
       }
     }
   }"

definition waiting_for_settings :: "nat \<Rightarrow> int \<Rightarrow> byte list \<Rightarrow> 'z http2_state_scheme \<Rightarrow>
    ('z http2_state_scheme \<times> int) option" where
  "waiting_for_settings sock sz buf s = do {
     ctx \<leftarrow> context_of sock s;
     if sz \<le> 0 then do { s \<leftarrow> http2_close_immediate ctx s; Some (s, 0) }
     else if sz < 9 then Some (s, 0)
     else do {
       header \<leftarrow> frame_parse_header buf 0 sz;
       let frame_size = 9 + int (unat (fh_length header));
       if fh_type header \<noteq> FRAME_SETTINGS_TYPE \<or> fh_flags header \<noteq> FRAME_FLAGS_NONE then do {
         s \<leftarrow> http2_error ctx HTTP2_PROTOCOL_ERROR s;
         Some (s, frame_size)
       }
       else if sz < frame_size then Some (s, 0)
       else do {
         (s, rc) \<leftarrow> handle_settings_frame ctx header buf 9 s;
         if rc < 0 then Some (s, sz)
         else do {
           let s = upd_ctx ctx (\<lambda>x. x\<lparr>cx_state := HTTP2_READY\<rparr>) s;
           (s, _) \<leftarrow> event_read sock (Some Receiving) s;
           Some (s, frame_size)
         }
       }
     }
   }"

text \<open>The \<open>switch\<close> over the frame types; frames of unknown type are ignored.\<close>

definition handle_frame :: "nat \<Rightarrow> frame_header \<Rightarrow> byte list \<Rightarrow> nat \<Rightarrow> 'z http2_state_scheme \<Rightarrow>
    ('z http2_state_scheme \<times> int) option" where
  "handle_frame ctx header buf p s =
     (if fh_type header = FRAME_GOAWAY_TYPE then handle_goaway_frame ctx header buf p s
      else if fh_type header = FRAME_SETTINGS_TYPE then handle_settings_frame ctx header buf p s
      else if fh_type header = FRAME_PING_TYPE then handle_ping_frame ctx header buf p s
      else if fh_type header = FRAME_HEADERS_TYPE then handle_headers_frame ctx header buf p s
      else if fh_type header = FRAME_CONTINUATION_TYPE then handle_continuation_frame ctx header buf p s
      else if fh_type header = FRAME_WINDOW_UPDATE_TYPE then handle_window_update_frame ctx header buf p s
      else if fh_type header = FRAME_RST_STREAM_TYPE then handle_rst_stream_frame ctx header s
      else if fh_type header = FRAME_PRIORITY_TYPE then Some (s, 0)
      else if fh_type header = FRAME_DATA_TYPE then handle_data_frame ctx header buf p s
      else if fh_type header = FRAME_PUSH_PROMISE_TYPE then do {
        s \<leftarrow> http2_error ctx HTTP2_PROTOCOL_ERROR s;
        Some (s, 0)
      }
      else Some (s, 0))"

function receiving_loop :: "nat \<Rightarrow> byte list \<Rightarrow> nat \<Rightarrow> nat \<Rightarrow> 'z http2_state_scheme \<Rightarrow>
    ('z http2_state_scheme \<times> nat) option" where
  "receiving_loop ctx buf bytes_read bytes_remaining s =
     (if bytes_remaining < 9 then Some (s, bytes_read)
      else do {
        header \<leftarrow> frame_parse_header buf bytes_read 9;
        let len = unat (fh_length header);
        if len > HTTP2_MAX_FRAME_SIZE then do {
          s \<leftarrow> http2_error ctx HTTP2_FRAME_SIZE_ERROR s;
          Some (s, bytes_read)
        }
        else if len > HTTP2_SOCK_READ_SIZE then do {
          s \<leftarrow> http2_error ctx HTTP2_FLOW_CONTROL_ERROR s;
          Some (s, bytes_read)
        }
        else if bytes_remaining < 9 + len then Some (s, bytes_read)
        else if has_flag (cx_flags (ctx_mem s ctx)) HTTP2_FLAGS_WAITING_END_HEADERS \<and>
          fh_type header \<noteq> FRAME_CONTINUATION_TYPE then do {
          s \<leftarrow> http2_error ctx HTTP2_PROTOCOL_ERROR s;
          Some (s, bytes_read + 9)
        }
        else do {
          (s, rc) \<leftarrow> handle_frame ctx header buf (bytes_read + 9) s;
          if rc < 0 then Some (s, bytes_read + 9 + len)
          else receiving_loop ctx buf (bytes_read + 9 + len) (bytes_remaining - 9 - len) s
        }
      })"
  by pat_completeness auto
termination
  by (relation "measure (\<lambda>(ctx, buf, bytes_read, bytes_remaining, s). bytes_remaining)") auto

declare receiving_loop.simps [simp del]

definition receiving :: "nat \<Rightarrow> int \<Rightarrow> byte list \<Rightarrow> 'z http2_state_scheme \<Rightarrow> ('z http2_state_scheme \<times> int) option" where
  "receiving sock sz buf s = do {
     ctx \<leftarrow> context_of sock s;
     if sz \<le> 0 then do { s \<leftarrow> http2_close_immediate ctx s; Some (s, 0) }
     else do {
       (s, bytes_read) \<leftarrow> receiving_loop ctx buf 0 (nat sz) s;
       Some (s, int bytes_read)
     }
   }"

end
