(* ===== verification/Two_Server.thy ===== *)
theory Two_Server
  imports Http2
begin

text \<open>
  \<open>src/src/two.c\<close>, the server: it listens, accepts clients, hands them to \<open>Http2\<close> and runs the event loop. The
  callbacks that the lower layers only name get their meaning here.

  \<open>global_close_cb\<close> is a function of the application; the state counts how often it was called.
\<close>

record two_state = http2_state +
  server_sock :: "nat option"
  global_close_cb :: bool
  close_notified :: nat

definition on_server_close :: "nat \<Rightarrow> 'z two_state_scheme \<Rightarrow> 'z two_state_scheme option" where
  "on_server_close sock s = Some (if global_close_cb s then s\<lparr>close_notified := close_notified s + 1\<rparr> else s)"

definition on_client_close :: "nat \<Rightarrow> 'z two_state_scheme \<Rightarrow> 'z two_state_scheme option" where
  "on_client_close sock s = Some s"

definition on_new_connection :: "nat \<Rightarrow> 'z two_state_scheme \<Rightarrow> ('z two_state_scheme \<times> nat option) option" where
  "on_new_connection server s = do {
     guard (sk_loop (sock_mem s server));
     (s, client) \<leftarrow> event_sock_create s;
     (s, rc) \<leftarrow> event_accept server client s;
     if rc = 0 then do {
       (s, _) \<leftarrow> http2_new_client client s;
       Some (s, Some client)
     }
     else do {
       (s, _) \<leftarrow> event_close client (Some On_Client_Close) s;
       Some (s, Some client)
     }
   }"

text \<open>A name of the wrong type is never stored in an event; calling it would be undefined.\<close>

definition run_connection_cb :: "callback \<Rightarrow> nat \<Rightarrow> 'z two_state_scheme \<Rightarrow> ('z two_state_scheme \<times> nat option) option" where
  "run_connection_cb cb sock s = (case cb of On_New_Connection \<Rightarrow> on_new_connection sock s | _ \<Rightarrow> None)"

definition run_read_cb :: "callback \<Rightarrow> nat \<Rightarrow> int \<Rightarrow> byte list \<Rightarrow> 'z two_state_scheme \<Rightarrow> ('z two_state_scheme \<times> int) option" where
  "run_read_cb cb sock sz buf s =
     (case cb of
        Waiting_For_Preface \<Rightarrow> waiting_for_preface sock sz buf s
      | Waiting_For_Settings \<Rightarrow> waiting_for_settings sock sz buf s
      | Receiving \<Rightarrow> receiving sock sz buf s
      | _ \<Rightarrow> None)"

definition run_write_cb :: "callback \<Rightarrow> nat \<Rightarrow> int \<Rightarrow> 'z two_state_scheme \<Rightarrow> 'z two_state_scheme option" where
  "run_write_cb cb sock status s =
     (case cb of
        Close_On_Write_Error \<Rightarrow> close_on_write_error sock status s
      | Close_On_Goaway_Sent \<Rightarrow> close_on_goaway_sent sock status s
      | On_Settings_Sent \<Rightarrow> on_settings_sent sock status s
      | On_Stream_Send_Complete \<Rightarrow> on_stream_send_complete sock status s
      | _ \<Rightarrow> None)"

definition run_timer_cb :: "callback \<Rightarrow> nat \<Rightarrow> 'z two_state_scheme \<Rightarrow> ('z two_state_scheme \<times> int) option" where
  "run_timer_cb cb sock s = (case cb of On_Settings_Timeout \<Rightarrow> on_settings_timeout sock s | _ \<Rightarrow> None)"

definition run_close_cb :: "callback \<Rightarrow> nat \<Rightarrow> 'z two_state_scheme \<Rightarrow> 'z two_state_scheme option" where
  "run_close_cb cb sock s =
     (case cb of
        Http2_On_Client_Close \<Rightarrow> http2_on_client_close sock s
      | On_Client_Close \<Rightarrow> on_client_close sock s
      | On_Server_Close \<Rightarrow> on_server_close sock s
      | _ \<Rightarrow> None)"

definition two_callbacks :: "(callback, 'z two_state_scheme) callbacks" where
  "two_callbacks = \<lparr>connection_cb = run_connection_cb, read_cb = run_read_cb, write_cb = run_write_cb,
     timer_cb = run_timer_cb, close_cb = run_close_cb\<rparr>"

text \<open>
  \<open>env\<close> answers the calls in front of the loop, \<open>envs\<close> the rounds of the loop. The result is the return value,
  or \<open>None\<close> in its place as long as the loop is running.
\<close>

definition two_server_start :: "u16 \<Rightarrow> os_env \<Rightarrow> os_env list \<Rightarrow> 'z two_state_scheme \<Rightarrow>
    ('z two_state_scheme \<times> int option) option" where
  "two_server_start port env envs s = do {
     let s = event_loop_init (s\<lparr>os := env\<rparr>);
     (s, server) \<leftarrow> event_sock_create s;
     let s = s\<lparr>server_sock := Some server\<rparr>;
     (s, r) \<leftarrow> event_listen server port (Some On_New_Connection) s;
     if r < 0 then Some (s, Some 1)
     else do {
       (s, ended) \<leftarrow> event_loop_run two_callbacks envs s;
       Some (s, if ended then Some 0 else None)
     }
   }"

definition two_server_stop :: "bool \<Rightarrow> 'z two_state_scheme \<Rightarrow> 'z two_state_scheme option" where
  "two_server_stop cb s = do {
     let s = s\<lparr>global_close_cb := cb\<rparr>;
     server \<leftarrow> server_sock s;
     (s, _) \<leftarrow> event_close server (Some On_Server_Close) s;
     Some s
   }"

end
