(* ===== verification/Session.thy ===== *)
theory Session
  imports Two_Server
begin

text \<open>
  Running the server on concrete answers of the operating system. \<open>run_simps\<close> holds the rewrite rules that
  execute the event loop and the opening of a connection symbolically; with the weak congruence rule for
  \<open>bind\<close> the simplifier evaluates a round from left to right, and the loops unfold only as far as they run.
\<close>

named_theorems run_simps \<open>rules that execute rounds of the event loop\<close>

lemma bind_weak_cong: "x = y \<Longrightarrow> Option.bind x f = Option.bind y f"
  by simp

lemma init_loop_numeral [run_simps]:
  "init_loop h i n = (if n = 0 then h else init_loop (h(i := Some (i + 1))) (i + 1) (n - 1))"
  by (cases n) simp_all

declare
  two_server_start_def [run_simps] event_loop_run_def [run_simps] event_loop_rounds.simps [run_simps]
  event_loop_step_def [run_simps] event_loop_timers_def [run_simps] event_loop_poll_def [run_simps]
  event_loop_pending_def [run_simps] event_loop_close_def [run_simps] event_loop_init_def [run_simps]
  event_loop_is_alive_def [run_simps] timers_loop.simps [run_simps] sock_timers_loop.simps [run_simps]
  poll_loop.simps [run_simps] poll_sock_def [run_simps] pending_loop.simps [run_simps] close_loop.simps [run_simps]
  is_closable_def [run_simps] event_sock_handle_read_def [run_simps] event_sock_connect_def [run_simps]
  event_sock_create_def [run_simps] event_sock_find_def [run_simps] event_listen_def [run_simps]
  event_accept_def [run_simps] event_find_free_def [run_simps] event_find_def [run_simps]
  event_read_start_def [run_simps] event_write_enable_def [run_simps]
  events_of_def [run_simps] data_of_def [run_simps] upd_sock_def [run_simps] os_do_def [run_simps]
  null_sock_def [run_simps] null_event_def [run_simps] fd_set_def [run_simps] FD_SETSIZE_def [run_simps]
  EVENT_MAX_SOCKETS_def [run_simps] EVENT_MAX_EVENTS_def [run_simps] EVENT_WRITE_QUEUE_SIZE_def [run_simps]
  LL_INIT_def [run_simps] LL_POP_def [run_simps] LL_PUSH_def [run_simps] LL_MOVEP_def [run_simps]
  LL_MOVE_def [run_simps] LL_APPEND_def [run_simps] LL_FIND.simps [run_simps] append_loop.simps [run_simps]
  cbuf_init_def [run_simps] cbuf_len_def [run_simps] cbuf_maxlen_def [run_simps] cbuf_has_ended_def [run_simps]
  two_callbacks_def [run_simps] run_connection_cb_def [run_simps] on_new_connection_def [run_simps]
  http2_new_client_def [run_simps] HTTP2_MAX_CLIENTS_def [run_simps] HTTP2_SOCK_READ_SIZE_def [run_simps]
  HTTP2_INITIAL_WINDOW_SIZE_def [run_simps] HTTP2_SOCK_WRITE_SIZE_def [run_simps] Let_def [run_simps]

lemma init_null_table [run_simps]:
  "hpack_init (cx_hpack_dynamic_table null_context) HTTP2_HEADER_TABLE_SIZE =
     Some (null_table\<lparr>dt_settings_max_table_size := 4096, dt_max_size := 4096\<rparr>)"
  by (simp add: mem_write_def overwrite_def HPACK_MAX_DYNAMIC_TABLE_SIZE_def hpack_init_def null_table_def
      null_context_def hpack_tables_init_dynamic_table_def HTTP2_HEADER_TABLE_SIZE_def)

text \<open>A program in front of \<open>two_server_start\<close>: static memory is zero, and no resource is registered.\<close>

definition idle_env :: os_env where
  "idle_env = \<lparr>os_now = 0, os_select = None, os_recv = (\<lambda>_ _. Recv_Again), os_send = (\<lambda>_ b. Sent (length b)),
     os_accept = (\<lambda>_. 4), os_socket = 3, os_bind = 0, os_listen = 0\<rparr>"

definition program_start :: two_state where
  "program_start = \<lparr>os = idle_env, os_log = [], lp_reserved = None, lp_sockets = None, lp_events = None,
     lp_writes = None, sock_next = (\<lambda>_. None), event_next = (\<lambda>_. None), write_next = (\<lambda>_. None),
     sock_mem = (\<lambda>_. null_sock), event_mem = (\<lambda>_. null_event), op_mem = (\<lambda>_. null_op), lp_running = False,
     lp_active_fds = {}, lp_nfds = 0, clients = None, connected_clients = None, client_next = (\<lambda>_. None),
     ctx_mem = (\<lambda>_. null_context), client_id = 0, clients_inited = False, resources = initial_table,
     server_sock = None, global_close_cb = False, close_notified = 0\<rparr>"

text \<open>The listening socket has descriptor 3 in the examples.\<close>

definition client_arrives :: os_env where
  "client_arrives = idle_env\<lparr>os_select := Some ({3}, {})\<rparr>"

text \<open>
  After one round with a new client the server is in front of the next round: the context of the client
  waits for the preface, and its socket reads and writes with the buffers of the context.
\<close>

lemma client_accepted:
  "\<exists>s. two_server_start 8080 idle_env [client_arrives] program_start = Some (s, None) \<and>
     os_log s = [Os_Bind 3 8080, Os_Listen 3 2] \<and> lp_reserved s = Some 1 \<and> context_of 1 s = Some 0 \<and>
     cx_socket (ctx_mem s 0) = Some 1 \<and> cx_state (ctx_mem s 0) = HTTP2_WAITING_PREFACE \<and>
     sk_state (sock_mem s 1) = EVENT_SOCK_CONNECTED"
  by (simp add: run_simps program_start_def client_arrives_def idle_env_def context_of_def
      cong: bind_weak_cong del: One_nat_def add_2_eq_Suc add_2_eq_Suc')

end
