(* ===== verification/Request.thy ===== *)
theory Request
  imports Session
begin

text \<open>
  From a header block to the response, across HPACK, the header list, the table of resources and the
  frames: what \<open>handle_end_stream\<close> of \<open>src/src/http2.c\<close> does with a complete request.

  The headers are a list of pairs here, the decoder and the encoder are known from \<open>Hpack\<close>, the table of
  resources from \<open>Resources\<close>; the lemmas of this theory join them.
\<close>

subsection \<open>Looking up a header\<close>

definition field :: "header list \<Rightarrow> string \<Rightarrow> byte list option" where
  "field hs name = map_option (\<lambda>i. snd (hs ! i)) (position (lit name) hs)"

lemma header_value_correct:
  assumes "hl_rel H hs" "hl_size H < HEADER_LIST_MAX_SIZE" "nul_free (lit name)"
  obtains v where "header_value H name = Some v" "map_option cstr v = map_option Some (field hs name)"
proof -
  have "room_for H hs (lit name)" using assms(2) by (simp add: room_for_def)
  from header_list_get_correct [OF assms(1) this assms(3), of "[]"] obtain p where
    p: "header_list_get H (zstr name) = Some p" "case position (lit name) hs of None \<Rightarrow> p = - 1
      | Some i \<Rightarrow> 0 \<le> p \<and> cstr (drop (nat p) (hl_buffer H)) = Some (snd (hs ! i))"
    by (auto simp: zstr_def)
  then show ?thesis
    by (intro that [of "if p < 0 then None else Some (drop (nat p) (hl_buffer H))"])
      (auto simp: header_value_def field_def split: option.splits)
qed

lemma header_value_Some:
  assumes "hl_rel H hs" "hl_size H < HEADER_LIST_MAX_SIZE" "nul_free (lit name)" "field hs name = Some w"
  obtains v where "header_value H name = Some (Some v)" "cstr v = Some w"
proof (rule header_value_correct [OF assms(1-3)])
  fix v
  assume "header_value H name = Some v" "map_option cstr v = map_option Some (field hs name)"
  then show thesis using assms(4) that by (cases v) auto
qed

subsection \<open>Which requests are accepted\<close>

text \<open>
  What \<open>validate_pseudoheaders\<close> accepts: a look-up of each pseudo-header finds a value that is not empty and
  has no comma, which the decoder puts between the values of a repeated header; a look-up of \<open>connection\<close>
  finds nothing, and one of \<open>te\<close> nothing but \<open>trailers\<close>. A look-up finds the first header whose name is a
  prefix of the searched one, whatever the case of the letters, so that \<open>:m\<close> passes for \<open>:method\<close>.
\<close>

definition pseudo_ok :: "header list \<Rightarrow> string \<Rightarrow> bool" where
  "pseudo_ok hs name = (case field hs name of None \<Rightarrow> False | Some v \<Rightarrow> v \<noteq> [] \<and> comma \<notin> set v)"

definition accepted_request :: "header list \<Rightarrow> bool" where
  "accepted_request hs \<longleftrightarrow> pseudo_ok hs '':method'' \<and> pseudo_ok hs '':scheme'' \<and> pseudo_ok hs '':path'' \<and>
     field hs ''connection'' = None \<and> (\<forall>v. field hs ''te'' = Some v \<longrightarrow> v = lit ''trailers'')"

lemma check_pseudoheaders_correct:
  assumes "hl_rel H hs" "hl_size H < HEADER_LIST_MAX_SIZE" "\<forall>n \<in> set names. nul_free (lit n)"
  shows "check_pseudoheaders H names = Some (\<forall>n \<in> set names. pseudo_ok hs n)"
  using assms(3)
proof (induction names)
  case (Cons n names)
  have IH: "check_pseudoheaders H names = Some (\<forall>n \<in> set names. pseudo_ok hs n)"
    using Cons by simp
  from header_value_correct [OF assms(1,2)] Cons.prems obtain v where
    v: "header_value H n = Some v" "map_option cstr v = map_option Some (field hs n)"
    by (metis list.set_intros(1))
  show ?case
  proof (cases "field hs n")
    case None
    with v show ?thesis by (simp add: pseudo_ok_def)
  next
    case (Some w)
    with v(2) obtain b where b: "v = Some b" "cstr b = Some w" by (cases v) auto
    then obtain r where "b = w @ 0 # r" "nul_free w" by (blast elim: cstrE)
    with v(1) b Some IH show ?thesis by (simp add: pseudo_ok_def c_index_def)
  qed
qed simp

lemma nul_free_names [simp]:
  "nul_free (lit '':method'')" "nul_free (lit '':scheme'')" "nul_free (lit '':path'')" "nul_free (lit ''connection'')"
  "nul_free (lit ''te'')" "nul_free (lit ''trailers'')" "nul_free (lit '':status'')" "nul_free (lit ''content-type'')"
  "nul_free (lit ''content-length'')"
  by (simp_all add: lit_def)

lemma validate_correct:
  assumes "hl_rel H hs" "hl_size H < HEADER_LIST_MAX_SIZE"
  shows "validate_pseudoheaders H = Some (if accepted_request hs then 0 else - 1)"
proof -
  note val = header_value_correct [OF assms]
  obtain c where c: "header_value H ''connection'' = Some c" "map_option cstr c = map_option Some (field hs ''connection'')"
    by (rule val [of "''connection''"]) simp
  obtain t where t: "header_value H ''te'' = Some t" "map_option cstr t = map_option Some (field hs ''te'')"
    by (rule val [of "''te''"]) simp
  have te: "(case t of None \<Rightarrow> Some (0 :: int)
      | Some te \<Rightarrow> do { eq \<leftarrow> strcmp_eq te (zstr ''trailers''); Some (if eq then 0 else - 1) }) =
      Some (if \<forall>v. field hs ''te'' = Some v \<longrightarrow> v = lit ''trailers'' then 0 else - 1)"
  proof (cases t)
    case (Some b)
    with t(2) obtain w where w: "cstr b = Some w" "field hs ''te'' = Some w" by (cases "field hs ''te''") auto
    then obtain r where "b = w @ 0 # r" "nul_free w" by (blast elim: cstrE)
    with Some w(2) show ?thesis using strcmp_eq_iff [of w "lit ''trailers''" r "[]"] by (simp add: zstr_def)
  qed (use t in auto)
  have "check_pseudoheaders H ['':method'', '':scheme'', '':path''] =
      Some (pseudo_ok hs '':method'' \<and> pseudo_ok hs '':scheme'' \<and> pseudo_ok hs '':path'')"
    by (subst check_pseudoheaders_correct [OF assms]) auto
  moreover have "c = None \<longleftrightarrow> field hs ''connection'' = None" using c(2) by (cases c; cases "field hs ''connection''") auto
  ultimately show ?thesis
    using c(1) t(1) te by (simp add: validate_pseudoheaders_def accepted_request_def)
qed

subsection \<open>The request as it was sent\<close>

text \<open>
  The fields of the header block, before the decoder collects them. A name is \<open>clear\<close> if no other name of
  the list is a prefix of it or has it as a prefix, so that look-ups and the joining of values treat it as
  the name it is.
\<close>

definition clear :: "byte list \<Rightarrow> header list \<Rightarrow> bool" where
  "clear q hs \<longleftrightarrow> (\<forall>h \<in> set hs. name_starts (fst h) q \<or> name_starts q (fst h) \<longrightarrow> fst h = q)"

definition occurrences :: "byte list \<Rightarrow> header list \<Rightarrow> byte list list" where
  "occurrences q hs = map snd (filter (\<lambda>h. fst h = q) hs)"

fun joined :: "byte list list \<Rightarrow> byte list list" where
  "joined [] = []"
| "joined (v # vs) = [foldl (\<lambda>w u. w @ comma # u) v vs]"

lemma occurrences_simps [simp]:
  "occurrences q [] = []" "occurrences q ((n, v) # hs) = (if n = q then v # occurrences q hs else occurrences q hs)"
  "occurrences q (hs @ hs') = occurrences q hs @ occurrences q hs'"
  by (simp_all add: occurrences_def)

lemma name_starts_refl [simp]: "name_starts n n"
  by (simp add: name_starts_def)

lemma clear_found:
  assumes "clear q hs" "position q hs = Some i"
  shows "i < length hs" "hs ! i = (q, snd (hs ! i))"
proof -
  show i: "i < length hs" using position_Some [OF assms(2)] by blast
  have "fst (hs ! i) = q" using position_Some [OF assms(2)] nth_mem [OF i] assms(1) by (auto simp: clear_def)
  then show "hs ! i = (q, snd (hs ! i))" by (auto simp: prod_eq_iff)
qed

lemma occurrences_remove_at:
  "i < length hs \<Longrightarrow> occurrences q hs = occurrences q (take i hs) @ (if fst (hs ! i) = q then [snd (hs ! i)] else []) @
     occurrences q (drop (Suc i) hs)"
  by (subst (1) id_take_nth_drop [of i hs]) (simp_all add: occurrences_def)

lemma clear_remove_at: "clear q hs \<Longrightarrow> clear q (remove_at i hs)"
  by (auto simp: clear_def remove_at_def dest: in_set_takeD in_set_dropD)

text \<open>What a header \<open>(n, v)\<close> changes of the values of a clear name \<open>q\<close>.\<close>

lemma add_hs_occurrences:
  assumes "clear q acc" "clear q [(n, v)]" "length (occurrences q acc) \<le> 1" "snd (add_hs acc n v) = 0"
  shows "clear q (fst (add_hs acc n v))"
    "occurrences q (fst (add_hs acc n v)) = (if n = q then joined (occurrences q acc @ [v]) else occurrences q acc)"
proof -
  have "clear q (fst (add_hs acc n v)) \<and>
    occurrences q (fst (add_hs acc n v)) = (if n = q then joined (occurrences q acc @ [v]) else occurrences q acc)"
  proof (cases "position n acc")
    case None
    then have "fst (add_hs acc n v) = acc @ [(n, v)]"
      using assms(4) by (simp add: add_hs_def append_hs_def split: if_splits)
    moreover have "occurrences n acc = []"
      using None by (auto simp: position_None_iff occurrences_def filter_empty_conv)
    ultimately show ?thesis using assms(1,2) by (auto simp: clear_def)
  next
    case (Some i)
    then have r: "fst (add_hs acc n v) = remove_at i acc @ [(n, snd (acc ! i) @ comma # v)]"
      using assms(4) by (simp add: add_hs_def append_hs_def split: if_splits)
    have c: "clear q (fst (add_hs acc n v))"
      using clear_remove_at [OF assms(1), of i] assms(2) unfolding r by (auto simp: clear_def)
    have i: "i < length acc" "name_starts (fst (acc ! i)) n"
      using position_Some [OF Some] by blast+
    have "fst (acc ! i) = q \<longleftrightarrow> n = q"
      using i assms(1,2) by (auto simp: clear_def)
    then show ?thesis
      using c occurrences_remove_at [OF i(1), of q] assms(3) unfolding r
      by (auto simp: remove_at_def le_Suc_eq)
  qed
  then show "clear q (fst (add_hs acc n v))"
    "occurrences q (fst (add_hs acc n v)) = (if n = q then joined (occurrences q acc @ [v]) else occurrences q acc)"
    by blast+
qed

lemma joined_joined [simp]: "joined (joined vs @ us) = joined (vs @ us)"
  by (cases vs) simp_all

lemma length_joined: "length (joined vs) \<le> 1"
  by (cases vs) simp_all

lemma add_fields_occurrences:
  assumes "add_fields acc hs = Some fs" "clear q acc" "clear q hs" "length (occurrences q acc) \<le> 1"
  shows "clear q fs \<and> occurrences q fs = joined (occurrences q acc @ occurrences q (filter nonempty hs))"
  using assms
proof (induction hs arbitrary: acc)
  case Nil
  then show ?case by (cases "occurrences q acc") auto
next
  case (Cons h hs)
  obtain n v where h: "h = (n, v)" by (cases h)
  have hs: "clear q hs" "clear q [(n, v)]" using Cons.prems(3) by (simp_all add: clear_def h)
  show ?case
  proof (cases "nonempty h")
    case False
    then show ?thesis using Cons.IH [OF _ Cons.prems(2) hs(1) Cons.prems(4)] Cons.prems(1) by (auto simp: h nonempty_def)
  next
    case True
    then have a: "snd (add_hs acc n v) = 0" "add_fields (fst (add_hs acc n v)) hs = Some fs"
      using Cons.prems(1) by (auto simp: h nonempty_def split: if_splits)
    note occ = add_hs_occurrences [OF Cons.prems(2) hs(2) Cons.prems(4) a(1)]
    have "length (occurrences q (fst (add_hs acc n v))) \<le> 1"
      using occ(2) length_joined [of "occurrences q acc @ [v]"] Cons.prems(4) by (simp split: if_splits)
    from Cons.IH [OF a(2) occ(1) hs(1) this] occ(2) True show ?thesis by (auto simp: h)
  qed
qed

lemma field_collected:
  assumes "add_fields [] hs = Some fs" "clear (lit n) hs"
  shows "map_option (\<lambda>v. [v]) (field fs n) = (case occurrences (lit n) (filter nonempty hs) of [] \<Rightarrow> None
    | v # vs \<Rightarrow> Some (joined (v # vs)))"
proof -
  have c: "clear (lit n) fs" "occurrences (lit n) fs = joined (occurrences (lit n) (filter nonempty hs))"
    using add_fields_occurrences [OF assms(1) _ assms(2)] by (simp_all add: clear_def)
  show ?thesis
  proof (cases "position (lit n) fs")
    case None
    then have "occurrences (lit n) fs = []" by (auto simp: position_None_iff occurrences_def filter_empty_conv)
    with c(2) None show ?thesis by (cases "occurrences (lit n) (filter nonempty hs)") (simp_all add: field_def)
  next
    case (Some i)
    note f = clear_found [OF c(1) Some]
    have "snd (fs ! i) \<in> set (occurrences (lit n) fs)"
      using f(2) nth_mem [OF f(1)] by (auto simp: occurrences_def image_iff intro!: bexI [of _ "fs ! i"])
    with c(2) Some show ?thesis by (cases "occurrences (lit n) (filter nonempty hs)") (auto simp: field_def)
  qed
qed

text \<open>
  A malformed request: a pseudo-header does not occur exactly once with a value, or its value has a comma,
  or \<open>connection\<close> occurs, or \<open>te\<close> occurs other than once as \<open>trailers\<close>. Fields with an empty value do not count;
  the decoder skips them.
\<close>

definition given :: "header list \<Rightarrow> string \<Rightarrow> byte list list" where
  "given hs n = occurrences (lit n) (filter nonempty hs)"

definition malformed :: "header list \<Rightarrow> bool" where
  "malformed hs \<longleftrightarrow> (\<exists>n \<in> {'':method'', '':scheme'', '':path''}. length (given hs n) \<noteq> 1 \<or> comma \<in> set (concat (given hs n))) \<or>
     given hs ''connection'' \<noteq> [] \<or> given hs ''te'' \<notin> {[], [lit ''trailers'']}"

definition checked_names :: "string list" where
  "checked_names = ['':method'', '':scheme'', '':path'', ''connection'', ''te'']"

lemma comma_foldl: "comma \<in> set (foldl (\<lambda>w u. w @ comma # u) v vs) \<longleftrightarrow> vs \<noteq> [] \<or> comma \<in> set v"
  by (induction vs arbitrary: v) auto

lemma given_value: "v \<in> set (given hs n) \<Longrightarrow> v \<noteq> []"
  by (auto simp: given_def occurrences_def nonempty_def)

lemma field_given:
  assumes "add_fields [] hs = Some fs" "clear (lit n) hs"
  shows "field fs n = None \<longleftrightarrow> given hs n = []" "pseudo_ok fs n \<longleftrightarrow> length (given hs n) = 1 \<and> comma \<notin> set (concat (given hs n))"
    "comma \<notin> set u \<Longrightarrow> field fs n = Some u \<longleftrightarrow> given hs n = [u]"
  using field_collected [OF assms] given_value [of _ hs n] unfolding given_def [symmetric]
  by (cases "given hs n"; cases "tl (given hs n)"; cases "field fs n"; auto simp: pseudo_ok_def comma_foldl)+

lemma accepted_iff:
  assumes "add_fields [] hs = Some fs" "\<forall>n \<in> set checked_names. clear (lit n) hs"
  shows "accepted_request fs \<longleftrightarrow> \<not> malformed hs"
proof -
  note f = field_given [OF assms(1)]
  have "comma \<notin> set (lit ''trailers'')" by (simp add: lit_def)
  then have "(\<forall>v. field fs ''te'' = Some v \<longrightarrow> v = lit ''trailers'') \<longleftrightarrow> given hs ''te'' \<in> {[], [lit ''trailers'']}"
    using f(1,3) [of "''te''"] assms(2) by (cases "field fs ''te''") (auto simp: checked_names_def)
  then show ?thesis
    using f(2) [of "'':method''"] f(2) [of "'':scheme''"] f(2) [of "'':path''"] f(1) [of "''connection''"] assms(2)
    by (auto simp: accepted_request_def malformed_def checked_names_def)
qed

subsection \<open>The headers of the response\<close>

lemma printable_decimal: "printable (decimal n) \<and> decimal n \<noteq> []"
proof (induction n rule: decimal.induct)
  case (1 n)
  have digit: "unat (of_nat (48 + k) :: byte) = 48 + k" if "k < 10" for k
    using that unat_of_nat_byte [of "48 + k"] by (simp del: of_nat_add)
  show ?case
  proof (cases "n < 10")
    case True
    with digit [OF this] show ?thesis by (subst (1 2) decimal.simps) simp
  next
    case False
    with 1 digit [of "n mod 10"] show ?thesis
      by (subst (1 2) decimal.simps) (simp add: printable_def)
  qed
qed

lemma length_decimal: "n < 10 ^ k \<Longrightarrow> 0 < k \<Longrightarrow> length (decimal n) \<le> k"
proof (induction n arbitrary: k rule: decimal.induct)
  case (1 n)
  show ?case
  proof (cases "n < 10")
    case False
    with 1(2,3) obtain j where k: "k = Suc j" "0 < j" by (cases k; cases "k - 1") auto
    with 1(2) have "n div 10 < 10 ^ j" by (simp add: div_less_iff_less_mult mult.commute)
    from 1(1) [OF False this k(2)] show ?thesis by (subst decimal.simps) (simp add: False k(1))
  qed (use 1(3) in \<open>subst decimal.simps, simp\<close>)
qed

lemma length_decimal_3: "0 \<le> k \<Longrightarrow> k < 1000 \<Longrightarrow> length (decimal (nat k)) \<le> 3"
  using length_decimal [of "nat k" 3] by simp

text \<open>Numbers of at most three digits are printed in full.\<close>

lemma snprintf_decimal:
  assumes "0 \<le> n" "n < 1000" "3 < k"
  shows "snprintf_d k n = decimal (nat n) @ [0]"
  using length_decimal_3 [OF assms(1,2)] assms by (simp add: snprintf_d_def)

definition response_fields :: "int \<Rightarrow> byte list option \<Rightarrow> int \<Rightarrow> header list" where
  "response_fields status ct len = (lit '':status'', decimal (nat status)) #
     (case ct of None \<Rightarrow> [] | Some c \<Rightarrow> [(lit ''content-type'', c)]) @ [(lit ''content-length'', decimal (nat len))]"

text \<open>The values of the fields are short enough for the buffers of HPACK.\<close>

definition response_small :: "int \<Rightarrow> byte list option \<Rightarrow> int \<Rightarrow> bool" where
  "response_small status ct len \<longleftrightarrow> 0 \<le> status \<and> status < 1000 \<and> 0 \<le> len \<and> len < 1000 \<and>
     (\<forall>c. ct = Some c \<longrightarrow> nul_free c \<and> length c < HPACK_HEADER_VALUE_LEN)"

lemma set_new_header:
  assumes "hl_rel H hs" "position n hs = None" "length (flat hs) + length n + length v + 2 < HEADER_LIST_MAX_SIZE"
    "n \<noteq> []" "nul_free n" "nul_free v"
  obtains H' where "header_list_set H (n @ 0 # ns) (v @ 0 # vs) = Some (H', 0)" "hl_rel H' (hs @ [(n, v)])"
proof -
  have "room_for H hs n" using assms(1,3) by (simp add: room_for_def hl_rel_def)
  moreover have "set_hs hs n v = (hs @ [(n, v)], 0)" using assms(2,3) by (simp add: set_hs_def append_hs_def)
  ultimately show ?thesis
    using header_list_set_correct [OF assms(1) _ assms(4-6), of ns vs] that by auto
qed

lemma response_headers_correct:
  assumes "length (hl_buffer H) = HEADER_LIST_MAX_SIZE" "map_option cstr (rp_content_type res) = map_option Some ct"
    "response_small (rp_status res) ct (rp_content_length res)"
  obtains H' where "response_headers H res = Some H'" "hl_rel H' (response_fields (rp_status res) ct (rp_content_length res))"
proof -
  define a where "a = decimal (nat (rp_status res))"
  define b where "b = decimal (nat (rp_content_length res))"
  have ab: "snprintf_d 4 (rp_status res) = a @ [0]" "snprintf_d 10 (rp_content_length res) = b @ [0]"
    "nul_free a" "nul_free b" "length a \<le> 3" "length b \<le> 3"
    using assms(3) snprintf_decimal [of "rp_status res" 4] snprintf_decimal [of "rp_content_length res" 10]
      printable_decimal printable_nul_free
    by (auto simp: length_decimal_3 a_def b_def response_small_def)
  obtain H0 where H0: "header_list_reset H = Some H0" "hl_rel H0 []" by (rule header_list_reset_correct [OF assms(1)])
  obtain H1 where H1: "header_list_set H0 (zstr '':status'') (a @ [0]) = Some (H1, 0)" "hl_rel H1 [(lit '':status'', a)]"
    by (rule set_new_header [OF H0(2), of "lit '':status''" a "[]" "[]"])
      (use ab in \<open>auto simp: zstr_def lit_def HEADER_LIST_MAX_SIZE_def\<close>)
  have none: "position (lit ''content-type'') [(lit '':status'', a)] = None"
    "position (lit ''content-length'') [(lit '':status'', a)] = None"
    "position (lit ''content-length'') [(lit '':status'', a), (lit ''content-type'', c)] = None" for c
    by (simp_all add: name_starts_def lit_def tolower_def)
  show ?thesis
  proof (cases ct)
    case None
    obtain H2 where "header_list_set H1 (zstr ''content-length'') (b @ [0]) = Some (H2, 0)"
      "hl_rel H2 ([(lit '':status'', a)] @ [(lit ''content-length'', b)])"
      by (rule set_new_header [OF H1(2) none(2), of b "[]" "[]"])
        (use ab in \<open>auto simp: zstr_def lit_def HEADER_LIST_MAX_SIZE_def\<close>)
    with None H0 H1 ab assms(2) show ?thesis
      by (intro that) (simp_all add: response_headers_def response_fields_def a_def [symmetric] b_def [symmetric])
  next
    case (Some c)
    with assms(2) obtain p where p: "rp_content_type res = Some p" "cstr p = Some c" by (cases "rp_content_type res") auto
    then obtain r where r: "p = c @ 0 # r" "nul_free c" by (blast elim: cstrE)
    have c: "length c < 64" using assms(3) Some by (simp add: response_small_def HPACK_HEADER_VALUE_LEN_def)
    obtain H2 where H2: "header_list_set H1 (zstr ''content-type'') p = Some (H2, 0)"
      "hl_rel H2 ([(lit '':status'', a)] @ [(lit ''content-type'', c)])"
      by (rule set_new_header [OF H1(2) none(1), of c "[]" r])
        (use ab c r in \<open>auto simp: zstr_def lit_def HEADER_LIST_MAX_SIZE_def\<close>)
    obtain H3 where "header_list_set H2 (zstr ''content-length'') (b @ [0]) = Some (H3, 0)"
      "hl_rel H3 ([(lit '':status'', a), (lit ''content-type'', c)] @ [(lit ''content-length'', b)])"
      by (rule set_new_header [of H2 "[(lit '':status'', a), (lit ''content-type'', c)]" "lit ''content-length''" b "[]" "[]"])
        (use H2(2) ab c none in \<open>auto simp: zstr_def lit_def HEADER_LIST_MAX_SIZE_def\<close>)
    with Some H0 H1 H2 p ab show ?thesis
      by (intro that) (simp_all add: response_headers_def response_fields_def a_def [symmetric] b_def [symmetric])
  qed
qed

text \<open>The fields do not confuse the searches of the encoder with one another.\<close>

lemma response_compatible:
  assumes "response_small status ct len" "\<forall>e \<in> set es. fst e \<noteq> []" "\<forall>h \<in> set (response_fields status ct len). exact es h"
  shows "compatible es (response_fields status ct len)"
proof -
  have d: "nul_free (decimal (nat k))" "length (decimal (nat k)) < HPACK_HEADER_VALUE_LEN" if "0 \<le> k" "k < 1000" for k
    using printable_decimal [THEN conjunct1, THEN printable_nul_free] length_decimal_3 [OF that]
    by (simp_all add: HPACK_HEADER_VALUE_LEN_def)
  have "short_header h" if "h \<in> set (response_fields status ct len)" for h
    using that assms(1) d [of status] d [of len]
    by (auto simp: response_fields_def response_small_def short_header_def HPACK_HEADER_NAME_LEN_def lit_def
        split: option.splits)
  moreover have "exact (response_fields status ct len) h" if "h \<in> set (response_fields status ct len)" for h
    using that
    by (auto simp: response_fields_def exact_def entry_matches_def name_matches_def lit_def split: option.splits)
  ultimately show ?thesis using assms(2,3) by (simp add: compatible_def)
qed

lemma response_room:
  assumes "response_small status ct len"
  shows "block_room (response_fields status ct len) < 256"
proof -
  have "length (decimal (nat status)) \<le> 3" "length (decimal (nat len)) \<le> 3"
    using assms by (simp_all add: response_small_def length_decimal_3)
  with assms show ?thesis
    by (auto simp: response_fields_def response_small_def block_room_def field_room_def lit_def
        HPACK_HEADER_VALUE_LEN_def split: option.splits)
qed

subsection \<open>Sending the response\<close>

text \<open>The \<open>n\<close> bytes of a HEADERS frame are queued and the table \<open>t\<close> of the encoder is kept.\<close>

definition queue_response :: "nat \<Rightarrow> nat \<Rightarrow> nat \<Rightarrow> byte list \<Rightarrow> hpack_dynamic_table \<Rightarrow> 'z http2_state_scheme \<Rightarrow>
    ('z http2_state_scheme \<times> int) option" where
  "queue_response ctx k n bytes t s = do {
     (s, rc) \<leftarrow> event_write k (int n) (Some bytes) (Some On_Stream_Send_Complete) s;
     let s = upd_ctx ctx (\<lambda>x. x\<lparr>cx_hpack_dynamic_table := t\<rparr>) s;
     if rc < 0 then error_return ctx HTTP2_INTERNAL_ERROR s else Some (s, 0)
   }"

lemma send_response_correct:
  assumes "cx_socket (ctx_mem s ctx) = Some k" "table_rel (cx_hpack_dynamic_table (ctx_mem s ctx)) (M, S, es)"
    "M \<le> HPACK_MAX_DYNAMIC_TABLE_SIZE" "length (hl_buffer H) = HEADER_LIST_MAX_SIZE"
    "map_option cstr (rp_content_type res) = map_option Some ct"
    "response_small (rp_status res) ct (rp_content_length res)"
    "compatible es (response_fields (rp_status res) ct (rp_content_length res))"
  obtains t' es' block bytes where
    "block_repr True (M, S, es) block (response_fields (rp_status res) ct (rp_content_length res)) (M, S, es')"
    "table_rel t' (M, S, es')"
    "take (9 + length block) bytes =
       frame_octets (Headers_Frame (st_id (cx_stream (ctx_mem s ctx))) (rp_content_length res = 0) block)"
    "send_response ctx H res s = queue_response ctx k (9 + length block) bytes t'
       (upd_stream ctx (\<lambda>x. x\<lparr>st_buflen := nat (rp_content_length res)\<rparr>) s)"
proof -
  define t where "t = cx_hpack_dynamic_table (ctx_mem s ctx)"
  define hs where "hs = response_fields (rp_status res) ct (rp_content_length res)"
  have len: "to_u16 (rp_content_length res) = nat (rp_content_length res)" "0 \<le> rp_content_length res"
    using assms(6) by (simp_all add: to_u16_def response_small_def)
  obtain H' where H': "response_headers H res = Some H'" "hl_rel H' hs"
    using response_headers_correct [OF assms(4-6)] unfolding hs_def by blast
  have room: "block_room hs < 256" unfolding hs_def by (rule response_room [OF assms(6)])
  let ?fin = "rp_content_length res = 0" and ?id = "st_id (cx_stream (ctx_mem s ctx))"
  let ?s = "upd_stream ctx (\<lambda>x. x\<lparr>st_buflen := nat (rp_content_length res)\<rparr>) s"
  obtain t' es' block bytes where e: "block_repr True (M, S, es) block hs (M, S, es')" "table_rel t' (M, S, es')"
    "take (9 + length block) bytes = frame_octets (Headers_Frame ?id ?fin block)"
    "send_headers_frame k H' t ?id ?fin On_Stream_Send_Complete ?s = do {
       (s, rc) \<leftarrow> event_write k (int (9 + length block)) (Some bytes) (Some On_Stream_Send_Complete) ?s;
       Some (s, t', rc)
     }"
    using send_headers_encoded [OF assms(2) [folded t_def] assms(3) H'(2) assms(7) [folded hs_def] room,
        of ?id ?fin k On_Stream_Send_Complete ?s] by blast
  have "send_response ctx H res s = queue_response ctx k (9 + length block) bytes t' ?s"
    using len assms(1) H'(1) e(4)
    by (cases ?fin) (simp_all add: send_response_def queue_response_def upd_stream_def upd_ctx_def
        t_def [symmetric] Let_def split: prod.splits Option.bind_split)
  with that e(1-3) show ?thesis unfolding hs_def by blast
qed

subsection \<open>The answer to a request\<close>

text \<open>
  What \<open>http_handle_request\<close> answers to method \<open>m\<close> and URI \<open>u\<close> on the routes \<open>rs\<close>; \<open>meth\<close> and \<open>path\<close> are the
  pointers that the handler gets, and \<open>buf\<close> is the stream buffer.
\<close>

definition reply :: "route list \<Rightarrow> byte list \<Rightarrow> byte list \<Rightarrow> byte list \<Rightarrow> byte list \<Rightarrow> byte list \<Rightarrow> http_response option" where
  "reply rs m u meth path buf = (let res = \<lparr>rp_status = 0, rp_content_type = None, rp_content_length = 0, rp_content = buf\<rparr> in
     if \<not> starts_with (lit ''GET'') m then Some (http_error res 501)
     else case map_of rs (request_path u) of
        None \<Rightarrow> Some (http_error res 404)
      | Some (ct, h) \<Rightarrow> map_option (answer res ct (of_nat HTTP2_STREAM_BUF_SIZE))
          (h meth path (replicate HTTP2_STREAM_BUF_SIZE 0) (of_nat HTTP2_STREAM_BUF_SIZE)))"

definition response_type :: "http_response \<Rightarrow> byte list option" where
  "response_type res = Option.bind (rp_content_type res) cstr"

lemma routes_content_type:
  assumes "routes_rel t rs" "map_of rs p = Some (ct, h)"
  shows "ct \<in> set content_types"
proof -
  have "(p, ct, h) \<in> set rs" by (rule map_of_SomeD [OF assms(2)])
  with assms(1) show ?thesis by (auto simp: routes_rel_def list_all_iff route_ok_def)
qed

lemma reply_small:
  assumes "reply rs m u meth path buf = Some res" "routes_rel t rs"
  shows "map_option cstr (rp_content_type res) = map_option Some (response_type res)"
    "response_small (rp_status res) (response_type res) (rp_content_length res)"
proof -
  have ct: "cstr (c @ [0]) = Some c" "nul_free c" "length c < HPACK_HEADER_VALUE_LEN" if "map_of rs p = Some (c, h)" for p c h
    using routes_content_type [OF assms(2) that] by (auto simp: content_types_def lit_def HPACK_HEADER_VALUE_LEN_def)
  from assms(1) show "map_option cstr (rp_content_type res) = map_option Some (response_type res)"
    by (auto simp: reply_def response_type_def http_error_def answer_def Let_def ct(1) split: if_splits option.splits)
  from assms(1) show "response_small (rp_status res) (response_type res) (rp_content_length res)"
    by (auto simp: reply_def response_type_def response_small_def http_error_def answer_def Let_def ct
        HTTP2_STREAM_BUF_SIZE_def min_def split: if_splits option.splits)
qed

lemma stream_request_correct:
  assumes "hl_rel H hs" "hl_size H < HEADER_LIST_MAX_SIZE" "field hs '':method'' = Some m" "field hs '':path'' = Some u"
    "routes_rel (resources s) rs" "length (st_buf (cx_stream (ctx_mem s ctx))) = HTTP2_STREAM_BUF_SIZE"
  obtains meth path where "cstr meth = Some m" "cstr path = Some (request_path u)"
    "handle_request ctx H s = map_option (\<lambda>res. (upd_stream ctx (\<lambda>x. x\<lparr>st_buf := rp_content res\<rparr>) s, res))
       (reply rs m u meth path (st_buf (cx_stream (ctx_mem s ctx))))"
proof -
  let ?buf = "st_buf (cx_stream (ctx_mem s ctx))"
  obtain meth where meth: "header_value H '':method'' = Some (Some meth)" "cstr meth = Some m"
    by (rule header_value_Some [OF assms(1,2) nul_free_names(1) assms(3)])
  obtain uri where uri: "header_value H '':path'' = Some (Some uri)" "cstr uri = Some u"
    by (rule header_value_Some [OF assms(1,2) nul_free_names(3) assms(4)])
  have n: "nat (header_list_count H) = length hs" using assms(1) by (simp add: header_list_count_def hl_rel_def)
  have "hs \<noteq> []" using assms(3) by (auto simp: field_def)
  obtain ps where ps: "header_list_all H (replicate (length hs) (0, 0)) = Some ps"
    using header_list_all_full [OF assms(1,2), of "replicate (length hs) (0, 0)"] by auto
  define req where "req = \<lparr>rq_method = Some meth, rq_path = Some uri, rq_headers_length = length hs, rq_headers = Some ps\<rparr>"
  define res where "res = \<lparr>rp_status = 0, rp_content_type = None, rp_content_length = 0, rp_content = ?buf\<rparr>"
  have u512: "unat (of_nat HTTP2_STREAM_BUF_SIZE :: u32) = 512" by (simp add: HTTP2_STREAM_BUF_SIZE_def)
  have zero: "overwrite ?buf 0 (replicate 512 0) = replicate HTTP2_STREAM_BUF_SIZE 0"
    using assms(6) by (simp add: overwrite_def HTTP2_STREAM_BUF_SIZE_def)
  have pre: "rq_method req = Some meth" "rq_path req = Some uri" "0 < rq_headers_length req" "rq_headers req \<noteq> None"
    "unat (of_nat HTTP2_STREAM_BUF_SIZE :: u32) \<le> length (rp_content res)"
    using \<open>hs \<noteq> []\<close> assms(6) u512 by (simp_all add: req_def res_def HTTP2_STREAM_BUF_SIZE_def)
  have buf: "rp_content res = ?buf" by (simp add: res_def)
  obtain path where path: "cstr path = Some (request_path u)"
    "http_handle_request (resources s) req res (of_nat HTTP2_STREAM_BUF_SIZE) = reply rs m u meth path ?buf"
    using handle_request_correct [OF assms(5) pre(1,2) meth(2) uri(2) pre(3-5)]
    unfolding reply_def res_def [symmetric] Let_def buf u512 zero by blast
  have "handle_request ctx H s = map_option (\<lambda>res. (upd_stream ctx (\<lambda>x. x\<lparr>st_buf := rp_content res\<rparr>) s, res))
       (reply rs m u meth path ?buf)"
    unfolding handle_request_def n meth(1) uri(1) ps Let_def bind.bind_lunit req_def [symmetric] res_def [symmetric] path(2)
    by (cases "reply rs m u meth path ?buf") simp_all
  then show ?thesis by (rule that [OF meth(2) path(1)])
qed

subsection \<open>A complete request\<close>

text \<open>
  The stream buffer of context \<open>ctx\<close> holds a header block that stands for the fields \<open>hs\<close>, and the decoder
  collects them to the headers \<open>fs\<close>; \<open>a'\<close> is the dynamic table afterwards.
\<close>

definition holds_block :: "'z http2_state_scheme \<Rightarrow> nat \<Rightarrow> header list \<Rightarrow> header list \<Rightarrow> abs_table \<Rightarrow> bool" where
  "holds_block s ctx hs fs a' \<longleftrightarrow> (let x = ctx_mem s ctx; st = cx_stream x in
     length (st_buf st) = HTTP2_STREAM_BUF_SIZE \<and> st_buflen st \<le> HTTP2_STREAM_BUF_SIZE \<and>
     length (flat fs) < HEADER_LIST_MAX_SIZE \<and>
     (\<exists>a. block_repr True a (take (st_buflen st) (st_buf st)) hs a' \<and> table_rel (cx_hpack_dynamic_table x) a) \<and>
     list_all decodable hs \<and> add_fields [] hs = Some fs)"

definition holds_request :: "'z http2_state_scheme \<Rightarrow> nat \<Rightarrow> header list \<Rightarrow> abs_table \<Rightarrow> bool" where
  "holds_request s ctx fs a' \<longleftrightarrow> (\<exists>hs. holds_block s ctx hs fs a')"

lemma request_decoded:
  assumes "holds_request s ctx fs a'"
  obtains H0 t1 H where "header_list_reset fresh_header_list = Some H0"
    "hpack_decode (cx_hpack_dynamic_table (ctx_mem s ctx)) (st_buf (cx_stream (ctx_mem s ctx))) 0
       (int (st_buflen (cx_stream (ctx_mem s ctx)))) H0 = Some (t1, H, int (st_buflen (cx_stream (ctx_mem s ctx))))"
    "table_rel t1 a'" "hl_rel H fs" "hl_size H < HEADER_LIST_MAX_SIZE" "length (hl_buffer H) = HEADER_LIST_MAX_SIZE"
proof -
  define st where "st = cx_stream (ctx_mem s ctx)"
  define c where "c = take (st_buflen st) (st_buf st)"
  obtain a hs where r: "length (st_buf st) = HTTP2_STREAM_BUF_SIZE" "st_buflen st \<le> HTTP2_STREAM_BUF_SIZE"
    "length (flat fs) < HEADER_LIST_MAX_SIZE" "block_repr True a c hs a'" "table_rel (cx_hpack_dynamic_table (ctx_mem s ctx)) a"
    "list_all decodable hs" "add_fields [] hs = Some fs"
    using assms unfolding holds_request_def holds_block_def Let_def c_def st_def by blast
  obtain H0 where H0: "header_list_reset fresh_header_list = Some H0" "hl_rel H0 []"
    by (rule header_list_reset_correct [of fresh_header_list]) (simp add: fresh_header_list_def)
  have c: "length c = st_buflen st" "code_here (st_buf st) 0 c" using r(1,2) by (simp_all add: c_def code_here_def)
  obtain t1 H where d: "hpack_decode (cx_hpack_dynamic_table (ctx_mem s ctx)) (st_buf st) 0 (int (length c)) H0 =
      Some (t1, H, int (length c))" "table_rel t1 a'" "hl_rel H fs"
    using decode_block_correct [OF r(4-6) H0(2) r(7), of "st_buf st" 0 0 "length c"] c(2)
    by (auto simp: hpack_decode_def hpack_decoder_decode_def)
  have "hl_size H < HEADER_LIST_MAX_SIZE" "length (hl_buffer H) = HEADER_LIST_MAX_SIZE"
    using d(3) r(3) by (simp_all add: hl_rel_def)
  with H0(1) d c(1) show ?thesis using that unfolding st_def by metis
qed

lemma decode_result_ok: "int n \<noteq> HPACK_COMPRESSION_ERROR \<and> int n \<noteq> HPACK_MEMORY_ERROR \<and> int n \<noteq> HPACK_INTERNAL_ERROR"
  by (simp add: HPACK_COMPRESSION_ERROR_def HPACK_MEMORY_ERROR_def HPACK_INTERNAL_ERROR_def)


text \<open>A connection whose stream buffer holds indexed fields of the static table.\<close>

definition stream_with :: "byte list \<Rightarrow> two_state" where
  "stream_with c = upd_ctx 0 (\<lambda>x. x\<lparr>cx_socket := Some 1,
     cx_hpack_dynamic_table := null_table\<lparr>dt_settings_max_table_size := 4096, dt_max_size := 4096\<rparr>,
     cx_stream := null_stream\<lparr>st_id := 1, st_buf := c @ replicate (HTTP2_STREAM_BUF_SIZE - length c) 0,
       st_buflen := length c\<rparr>\<rparr>) program_start"

lemma indexed_octet:
  assumes "entry_at es i = Some h" "0 < i" "i < 62"
  shows "field_repr M es [0x80 OR of_nat i] h es"
proof -
  have "coded_int INDEXED_HEADER_FIELD i = [0x80 OR of_nat i]"
    using assms(3) by (simp add: coded_int_def int_code_def or.commute)
  moreover have "field_repr M es (coded_int INDEXED_HEADER_FIELD i) h es"
    by (rule indexed [OF assms(1)]) (use assms(3) in \<open>simp add: HPACK_MAXIMUM_INTEGER_def\<close>)
  ultimately show ?thesis by simp
qed

definition get_request :: "header list" where
  "get_request = [(lit '':method'', lit ''GET''), (lit '':scheme'', lit ''http''), (lit '':path'', lit ''/'')]"

lemma get_request_static:
  "entry_at es 2 = Some (get_request ! 0)" "entry_at es 6 = Some (get_request ! 1)" "entry_at es 4 = Some (get_request ! 2)"
  by (simp_all add: entry_at_def snames_def svalues_def static_names_def static_values_def get_request_def)

lemma get_request_block:
  "block_repr True (M, S, es) [0x82] [get_request ! 0] (M, S, es)"
  "block_repr True (M, S, es) [0x82, 0x86, 0x84] get_request (M, S, es)"
proof -
  have f: "field_repr M es [0x82] (get_request ! 0) es" "field_repr M es [0x86] (get_request ! 1) es"
    "field_repr M es [0x84] (get_request ! 2) es"
    using indexed_octet [OF get_request_static(1), where M = M] indexed_octet [OF get_request_static(2), where M = M]
      indexed_octet [OF get_request_static(3), where M = M] by simp_all
  show "block_repr True (M, S, es) [0x82] [get_request ! 0] (M, S, es)"
    using block_field [OF f(1) block_end] by simp
  have "block_repr True (M, S, es) ([0x82] @ [0x86] @ [0x84] @ []) [get_request ! 0, get_request ! 1, get_request ! 2] (M, S, es)"
    by (rule block_field [OF f(1)], rule block_field [OF f(2)], rule block_field [OF f(3)], rule block_end)
  then show "block_repr True (M, S, es) [0x82, 0x86, 0x84] get_request (M, S, es)" by (simp add: get_request_def)
qed

lemma stream_with_holds:
  assumes "block_repr True (4096, 4096, []) c hs a'" "length c \<le> 8" "list_all printable_header hs" "separate hs"
    "length (flat hs) < HEADER_LIST_MAX_SIZE"
  shows "holds_block (stream_with c) 0 hs hs a'"
proof -
  have d: "list_all decodable hs" "filter nonempty hs = hs" using printable_headers [OF assms(3)] by blast+
  have "add_fields [] hs = Some hs" using add_fields_separate [of "[]" hs] assms(4,5) d(2) by simp
  moreover have "table_rel (null_table\<lparr>dt_settings_max_table_size := 4096, dt_max_size := 4096\<rparr>) (4096, 4096, [])"
    by (simp add: null_table_def dt_rel_def HPACK_MAX_DYNAMIC_TABLE_SIZE_def)
  ultimately show ?thesis
    using assms d(1) by (auto simp: holds_block_def stream_with_def upd_ctx_def HTTP2_STREAM_BUF_SIZE_def Let_def)
qed

lemma get_request_fields:
  "list_all printable_header get_request" "separate get_request" "length (flat get_request) < HEADER_LIST_MAX_SIZE"
  "accepted_request get_request" "field get_request '':method'' = Some (lit ''GET'')" "field get_request '':path'' = Some (lit ''/'')"
  by (simp_all add: get_request_def printable_header_def decodable_def nonempty_def lit_def HPACK_HEADER_NAME_LEN_def HPACK_HEADER_VALUE_LEN_def
      separate_def name_starts_def tolower_def HEADER_LIST_MAX_SIZE_def accepted_request_def pseudo_ok_def field_def)


text \<open>
  What passes the checks although RFC 7540, section 8.1.2, calls it malformed: \<open>:m\<close> instead of \<open>:method\<close>, since
  the name is a prefix of it, and a connection-specific header other than \<open>connection\<close> and \<open>te\<close>.
\<close>

lemma incomplete_request_accepted:
  assumes "hl_rel H [(lit '':m'', lit ''GET''), (lit '':scheme'', lit ''http''), (lit '':path'', lit ''/''),
      (lit ''keep-alive'', lit ''1'')]" "hl_size H < HEADER_LIST_MAX_SIZE"
  shows "validate_pseudoheaders H = Some 0"
  using validate_correct [OF assms]
  by (simp add: accepted_request_def pseudo_ok_def field_def name_starts_def tolower_def lit_def)

text \<open>
  Claim C30. From request to response. Let the stream buffer hold the header block of a request that passes
  the checks, and the resources be those of the routes \<open>rs\<close>. The answer is the one of the routes: 501, 404, 500 or the
  content of the handler. Its status, content type and content length become a header block for the same
  dynamic table, which is queued as a HEADERS frame on the stream, with END_STREAM exactly if there is no
  content; the content is in the stream buffer, ready to be sent. It is assumed that the reply does not
  depend on what follows the terminated strings the handler gets, and that no field of the response
  merely starts with an entry of the table.
\<close>

theorem request_answered:
  assumes "holds_request s ctx fs (M, S, es)" "accepted_request fs"
    and "field fs '':method'' = Some m" "field fs '':path'' = Some u" "routes_rel (resources s) rs"
    and "\<forall>meth path. cstr meth = Some m \<longrightarrow> cstr path = Some (request_path u) \<longrightarrow>
      reply rs m u meth path (st_buf (cx_stream (ctx_mem s ctx))) = Some res"
    and "rfs = response_fields (rp_status res) (response_type res) (rp_content_length res)"
    and "\<forall>e \<in> set es. fst e \<noteq> []" "\<forall>h \<in> set rfs. exact es h" "M \<le> HPACK_MAX_DYNAMIC_TABLE_SIZE"
    and "cx_socket (ctx_mem s ctx) = Some k"
  shows "\<exists>t1 t2 es' block bytes. table_rel t1 (M, S, es) \<and> block_repr True (M, S, es) block rfs (M, S, es') \<and>
    table_rel t2 (M, S, es') \<and> take (9 + length block) bytes =
      frame_octets (Headers_Frame (st_id (cx_stream (ctx_mem s ctx))) (rp_content_length res = 0) block) \<and>
    handle_end_stream ctx s = queue_response ctx k (9 + length block) bytes t2
      (upd_ctx ctx (\<lambda>x. x\<lparr>cx_hpack_dynamic_table := t1, cx_stream := (cx_stream x)\<lparr>st_buf := rp_content res,
         st_buflen := nat (rp_content_length res)\<rparr>\<rparr>) s)"
proof -
  obtain H0 t1 H where d: "header_list_reset fresh_header_list = Some H0"
    "hpack_decode (cx_hpack_dynamic_table (ctx_mem s ctx)) (st_buf (cx_stream (ctx_mem s ctx))) 0
       (int (st_buflen (cx_stream (ctx_mem s ctx)))) H0 = Some (t1, H, int (st_buflen (cx_stream (ctx_mem s ctx))))"
    "table_rel t1 (M, S, es)" "hl_rel H fs" "hl_size H < HEADER_LIST_MAX_SIZE" "length (hl_buffer H) = HEADER_LIST_MAX_SIZE"
    by (rule request_decoded [OF assms(1)])
  let ?s = "upd_ctx ctx (\<lambda>x. x\<lparr>cx_hpack_dynamic_table := t1\<rparr>) s"
  let ?s' = "upd_stream ctx (\<lambda>x. x\<lparr>st_buf := rp_content res\<rparr>) ?s"
  have buf: "length (st_buf (cx_stream (ctx_mem ?s ctx))) = HTTP2_STREAM_BUF_SIZE" "routes_rel (resources ?s) rs"
    using assms(1,5) by (auto simp: holds_request_def holds_block_def upd_ctx_def Let_def)
  obtain meth path where q: "cstr meth = Some m" "cstr path = Some (request_path u)"
    "handle_request ctx H ?s = map_option (\<lambda>res. (upd_stream ctx (\<lambda>x. x\<lparr>st_buf := rp_content res\<rparr>) ?s, res))
       (reply rs m u meth path (st_buf (cx_stream (ctx_mem ?s ctx))))"
    by (rule stream_request_correct [OF d(4,5) assms(3,4) buf(2,1)])
  have r: "reply rs m u meth path (st_buf (cx_stream (ctx_mem s ctx))) = Some res" using assms(6) q(1,2) by blast
  then have hr: "handle_request ctx H ?s = Some (?s', res)" unfolding q(3) by (simp add: upd_ctx_def)
  note small = reply_small [OF r assms(5)]
  have comp: "compatible es rfs" unfolding assms(7)
    by (rule response_compatible [OF small(2) assms(8)]) (use assms(7,9) in blast)
  have ctx: "cx_socket (ctx_mem ?s' ctx) = Some k" "table_rel (cx_hpack_dynamic_table (ctx_mem ?s' ctx)) (M, S, es)"
    "st_id (cx_stream (ctx_mem ?s' ctx)) = st_id (cx_stream (ctx_mem s ctx))"
    using assms(11) d(3) by (simp_all add: upd_ctx_def upd_stream_def)
  obtain t2 es' block bytes where b: "block_repr True (M, S, es) block rfs (M, S, es')" "table_rel t2 (M, S, es')"
    "take (9 + length block) bytes =
      frame_octets (Headers_Frame (st_id (cx_stream (ctx_mem s ctx))) (rp_content_length res = 0) block)"
    "send_response ctx H res ?s' = queue_response ctx k (9 + length block) bytes t2
       (upd_stream ctx (\<lambda>x. x\<lparr>st_buflen := nat (rp_content_length res)\<rparr>) ?s')"
    using send_response_correct [OF ctx(1,2) assms(10) d(6) small comp [unfolded assms(7)]] unfolding ctx(3) assms(7) by metis
  have "handle_end_stream ctx s = send_response ctx H res ?s'"
    using d(1,2) hr assms(2) validate_correct [OF d(4,5)] by (simp add: handle_end_stream_def decode_result_ok Let_def)
  with b(4) have "handle_end_stream ctx s = queue_response ctx k (9 + length block) bytes t2
      (upd_ctx ctx (\<lambda>x. x\<lparr>cx_hpack_dynamic_table := t1, cx_stream := (cx_stream x)\<lparr>st_buf := rp_content res,
         st_buflen := nat (rp_content_length res)\<rparr>\<rparr>) s)"
    by (simp add: upd_ctx_def upd_stream_def)
  with d(3) b(1-3) show ?thesis by blast
qed

text \<open>A request for a path that nobody registered: the HEADERS frame ends the stream.\<close>

theorem request_answered_witness:
  "\<exists>t1 t2 es' block bytes. block_repr True (4096, 4096, []) block
      [(lit '':status'', lit ''404''), (lit ''content-length'', lit ''0'')] (4096, 4096, es') \<and>
    take (9 + length block) bytes = frame_octets (Headers_Frame 1 True block) \<and>
    handle_end_stream 0 (stream_with [0x82, 0x86, 0x84]) = queue_response 0 1 (9 + length block) bytes t2
      (upd_ctx 0 (\<lambda>x. x\<lparr>cx_hpack_dynamic_table := t1, cx_stream := (cx_stream x)\<lparr>
         st_buf := [0x82, 0x86, 0x84] @ replicate 509 0, st_buflen := 0\<rparr>\<rparr>) (stream_with [0x82, 0x86, 0x84]))"
proof -
  let ?s = "stream_with [0x82, 0x86, 0x84]" and ?b = "[0x82, 0x86, 0x84] @ replicate 509 0 :: byte list"
  let ?res = "\<lparr>rp_status = 404, rp_content_type = None, rp_content_length = 0, rp_content = ?b\<rparr>"
  have h: "holds_request ?s 0 get_request (4096, 4096, [])"
    unfolding holds_request_def
    by (rule exI, rule stream_with_holds [OF get_request_block(2) _ get_request_fields(1-3)]) simp
  have s: "st_buf (cx_stream (ctx_mem ?s 0)) = ?b" "st_id (cx_stream (ctx_mem ?s 0)) = 1"
    "cx_socket (ctx_mem ?s 0) = Some 1" "resources ?s = initial_table"
    by (simp_all add: stream_with_def upd_ctx_def HTTP2_STREAM_BUF_SIZE_def program_start_def)
  have r: "\<forall>meth path. cstr meth = Some (lit ''GET'') \<longrightarrow> cstr path = Some (request_path (lit ''/'')) \<longrightarrow>
      reply [] (lit ''GET'') (lit ''/'') meth path (st_buf (cx_stream (ctx_mem ?s 0))) = Some ?res"
    by (simp add: s reply_def http_error_def starts_with_def)
  have f: "response_fields (rp_status ?res) (response_type ?res) (rp_content_length ?res) =
      [(lit '':status'', lit ''404''), (lit ''content-length'', lit ''0'')]"
    by (simp add: response_fields_def response_type_def decimal.simps lit_def)
  have rel: "routes_rel (resources ?s) []" unfolding s(4) by (rule initial_table_rel)
  have "(4096 :: nat) \<le> HPACK_MAX_DYNAMIC_TABLE_SIZE" by (simp add: HPACK_MAX_DYNAMIC_TABLE_SIZE_def)
  from request_answered [OF h get_request_fields(4-6) rel r refl _ _ this s(3)] show ?thesis
    unfolding f s(2) by (fastforce simp: exact_def)
qed

end
