(* ===== verification/Event_Loop.thy ===== *)
theory Event_Loop
  imports Event
begin

text \<open>
  What the event loop guarantees to the layers above it. The operations of \<open>Event\<close> leave the part of the
  state that extends \<open>event_loop\<close> alone, and the phases of the loop change it only through the callbacks.
  So a property of that part which all callbacks preserve holds forever; this is the locale
  \<open>loop_client\<close>, whose parameters are the callbacks and the property.
\<close>

subsection \<open>Operations\<close>

named_theorems keeps_more \<open>operations of the event loop that leave the state of the layers above alone\<close>

lemma prim_more [simp]:
  "event_loop.more (upd_sock k f s) = event_loop.more s"
  "event_loop.more (set_data e d s) = event_loop.more s"
  "event_loop.more (set_op op r s) = event_loop.more s"
  "event_loop.more (os_do c s) = event_loop.more s"
  by (simp_all add: upd_sock_def set_data_def set_op_def os_do_def)

lemma push_more [simp]:
  "event_loop.more (event_push e s) = event_loop.more s"
  "event_loop.more (op_push op s) = event_loop.more s"
  "event_loop.more (fst (event_find_free sock s)) = event_loop.more s"
  "event_find_free sock s = (s', r) \<Longrightarrow> event_loop.more s' = event_loop.more s"
  by (auto simp: event_push_def op_push_def LL_PUSH_def event_find_free_def split: prod.splits)

lemmas option_splits = option.splits prod.splits if_splits Option.bind_splits

lemma delete_more [keeps_more]: "event_delete sock e s = Some s' \<Longrightarrow> event_loop.more s' = event_loop.more s"
  by (auto simp: event_delete_def split: option_splits)

lemma queue_pop_more [keeps_more]: "queue_pop e s = Some (s', r) \<Longrightarrow> event_loop.more s' = event_loop.more s"
  by (auto simp: queue_pop_def split: option_splits)

lemma listen_more [keeps_more]: "event_listen sock port cb s = Some (s', r) \<Longrightarrow> event_loop.more s' = event_loop.more s"
  by (auto simp: event_listen_def Let_def split: option_splits dest!: push_more(4))

lemma read_start_more [keeps_more]: "event_read_start sock buf n cb s = Some s' \<Longrightarrow> event_loop.more s' = event_loop.more s"
  by (auto simp: event_read_start_def Let_def split: option_splits dest!: push_more(4))

lemma read_more [keeps_more]: "event_read sock cb s = Some (s', r) \<Longrightarrow> event_loop.more s' = event_loop.more s"
  by (auto simp: event_read_def Let_def split: option_splits)

lemma read_stop_more [keeps_more]: "event_read_stop sock s = Some (s', r) \<Longrightarrow> event_loop.more s' = event_loop.more s"
  by (auto simp: event_read_stop_def Let_def split: option_splits dest!: keeps_more)

lemma write_enable_more [keeps_more]: "event_write_enable sock buf n s = Some s' \<Longrightarrow> event_loop.more s' = event_loop.more s"
  by (auto simp: event_write_enable_def Let_def split: option_splits dest!: push_more(4))

lemma write_more [keeps_more]: "event_write sock n buf cb s = Some (s', r) \<Longrightarrow> event_loop.more s' = event_loop.more s"
  by (auto simp: event_write_def Let_def split: option_splits)

lemma timer_set_more [keeps_more]: "event_timer_set sock n cb s = Some (s', r) \<Longrightarrow> event_loop.more s' = event_loop.more s"
  by (auto simp: event_timer_set_def Let_def split: option_splits dest!: push_more(4))

lemma timer_reset_more [keeps_more]: "event_timer_reset t s = Some s' \<Longrightarrow> event_loop.more s' = event_loop.more s"
  by (auto simp: event_timer_reset_def Let_def split: option_splits)

lemma timer_stop_more [keeps_more]: "event_timer_stop t s = Some s' \<Longrightarrow> event_loop.more s' = event_loop.more s"
  by (auto simp: event_timer_stop_def Let_def split: option_splits dest!: keeps_more)

lemma accept_more [keeps_more]: "event_accept sv cl s = Some (s', r) \<Longrightarrow> event_loop.more s' = event_loop.more s"
  by (auto simp: event_accept_def Let_def split: option_splits)

lemma close_more [keeps_more]: "event_close sock cb s = Some (s', r) \<Longrightarrow> event_loop.more s' = event_loop.more s"
  by (auto simp: event_close_def Let_def split: option_splits)

lemma sock_create_more [keeps_more]: "event_sock_create s = Some (s', r) \<Longrightarrow> event_loop.more s' = event_loop.more s"
  by (auto simp: event_sock_create_def Let_def LL_PUSH_def split: option_splits)
lemma loop_init_more [simp]: "event_loop.more (event_loop_init s) = event_loop.more s"
  by (auto simp: event_loop_init_def Let_def split: option_splits)

subsection \<open>The phases of the loop\<close>

locale loop_client =
  fixes cbs :: "('cb, 'z) loop_callbacks" and good :: "('cb, 'z) event_loop_scheme \<Rightarrow> bool"
  assumes good_more: "event_loop.more s' = event_loop.more s \<Longrightarrow> good s \<Longrightarrow> good s'"
    and connection_good: "connection_cb cbs cb k s = Some (s', v) \<Longrightarrow> good s \<Longrightarrow> good s'"
    and read_good: "read_cb cbs cb k n buf s = Some (s', r) \<Longrightarrow> good s \<Longrightarrow> good s'"
    and write_good: "write_cb cbs cb k n s = Some s' \<Longrightarrow> good s \<Longrightarrow> good s'"
    and timer_good: "timer_cb cbs cb k s = Some (s', r) \<Longrightarrow> good s \<Longrightarrow> good s'"
    and close_good: "close_cb cbs cb k s = Some s' \<Longrightarrow> good s \<Longrightarrow> good s'"
begin

lemma good_iff: "event_loop.more s' = event_loop.more s \<Longrightarrow> good s' = good s"
  using good_more [of s s'] good_more [of s' s] by auto

lemma good_prim [simp]:
  "good (upd_sock k f s) = good s" "good (set_data e d s) = good s" "good (set_op op r s) = good s"
  "good (os_do c s) = good s" "good (event_push e s) = good s" "good (op_push op s) = good s"
  by (rule good_iff; simp)+

lemma good_fields [simp]:
  "good (s\<lparr>lp_running := b\<rparr>) = good s" "good (s\<lparr>os := env\<rparr>) = good s" "good (s\<lparr>lp_nfds := n\<rparr>) = good s"
  "good (s\<lparr>lp_active_fds := fds\<rparr>) = good s" "good (s\<lparr>sock_next := h\<rparr>) = good s"
  "good (s\<lparr>lp_sockets := p\<rparr>) = good s" "good (s\<lparr>lp_reserved := p\<rparr>) = good s" "good (s\<lparr>write_next := h\<rparr>) = good s"
  by (rule good_iff; simp)+

lemma good_queue_pop: "queue_pop e s = Some (s', r) \<Longrightarrow> good s \<Longrightarrow> good s'"
  by (rule good_more [OF queue_pop_more])

lemma good_delete: "event_delete k e s = Some s' \<Longrightarrow> good s \<Longrightarrow> good s'"
  by (rule good_more [OF delete_more])

lemma connect_good: "event_sock_connect cbs sock event s = Some (s', r) \<Longrightarrow> good s \<Longrightarrow> good s'"
  by (auto simp: event_sock_connect_def split: option_splits dest: connection_good)

lemma close_ops_good:
  assumes "close_ops_loop e op s = Some s'"
  shows "good s \<longrightarrow> good s'"
  by (rule close_ops_loop.raw_induct [OF _ assms]) (auto split: option_splits dest!: good_queue_pop)

lemma sock_close_good: "event_sock_close cbs sock status s = Some s' \<Longrightarrow> good s \<Longrightarrow> good s'"
  by (auto simp: event_sock_close_def Let_def split: option_splits
      dest!: good_queue_pop close_ops_good dest: read_good write_good)

lemma sock_read_good: "event_sock_read cbs sock event s = Some s' \<Longrightarrow> good s \<Longrightarrow> good s'"
  by (auto simp: event_sock_read_def Let_def split: option_splits recv_result.splits dest: sock_close_good)

lemma handle_read_good: "event_sock_handle_read cbs sock event s = Some s' \<Longrightarrow> good s \<Longrightarrow> good s'"
  by (auto simp: event_sock_handle_read_def Let_def split: option_splits dest!: read_good)

lemma handle_write_loop_good:
  assumes "handle_write_loop cbs sock e op n s = Some r"
  shows "good s \<longrightarrow> good (fst r)"
proof -
  have "cbs = cbs \<longrightarrow> good s \<longrightarrow> good (fst r)"
    by (rule handle_write_loop.raw_induct [where P = "\<lambda>c sock e op n s r. c = cbs \<longrightarrow> good s \<longrightarrow> good (fst r)", OF _ assms])
      (auto simp: Let_def split: option_splits dest!: good_queue_pop write_good)
  then show ?thesis by simp
qed

lemma handle_write_good: "event_sock_handle_write cbs sock e n s = Some s' \<Longrightarrow> good s \<Longrightarrow> good s'"
  by (auto simp: event_sock_handle_write_def split: option_splits dest!: good_queue_pop handle_write_loop_good)

lemma sock_write_good: "event_sock_write cbs sock event s = Some s' \<Longrightarrow> good s \<Longrightarrow> good s'"
  by (auto simp: event_sock_write_def Let_def split: option_splits send_result.splits
      dest: sock_close_good handle_write_good)

lemma sock_timers_good:
  assumes "sock_timers_loop cbs now sock event s = Some s'"
  shows "good s \<longrightarrow> good s'"
proof -
  have "cbs = cbs \<longrightarrow> good s \<longrightarrow> good s'"
    by (rule sock_timers_loop.raw_induct [where P = "\<lambda>c now sock event s s'. c = cbs \<longrightarrow> good s \<longrightarrow> good s'", OF _ assms])
      (auto simp: Let_def split: option_splits dest!: good_delete timer_good)
  then show ?thesis by simp
qed

lemma timers_good:
  assumes "timers_loop cbs now sock s = Some s'"
  shows "good s \<longrightarrow> good s'"
proof -
  have "cbs = cbs \<longrightarrow> good s \<longrightarrow> good s'"
    by (rule timers_loop.raw_induct [where P = "\<lambda>c now sock s s'. c = cbs \<longrightarrow> good s \<longrightarrow> good s'", OF _ assms])
      (auto split: option_splits dest!: sock_timers_good)
  then show ?thesis by simp
qed

lemma poll_sock_good: "poll_sock cbs rs ws i s = Some s' \<Longrightarrow> good s \<Longrightarrow> good s'"
  by (auto simp: poll_sock_def split: option_splits dest!: sock_read_good connect_good sock_write_good)

lemma poll_good:
  assumes "poll_loop cbs rs ws i s = Some s'"
  shows "good s \<longrightarrow> good s'"
proof -
  have "cbs = cbs \<longrightarrow> good s \<longrightarrow> good s'"
    by (rule poll_loop.raw_induct [where P = "\<lambda>c rs ws i s s'. c = cbs \<longrightarrow> good s \<longrightarrow> good s'", OF _ assms])
      (auto split: option_splits dest!: poll_sock_good)
  then show ?thesis by simp
qed

lemma pending_good:
  assumes "pending_loop cbs sock s = Some s'"
  shows "good s \<longrightarrow> good s'"
proof -
  have "cbs = cbs \<longrightarrow> good s \<longrightarrow> good s'"
    by (rule pending_loop.raw_induct [where P = "\<lambda>c sock s s'. c = cbs \<longrightarrow> good s \<longrightarrow> good s'", OF _ assms])
      (auto split: option_splits dest!: handle_read_good)
  then show ?thesis by simp
qed

lemma release_events_good:
  assumes "release_events_loop event s = Some s'"
  shows "good s \<longrightarrow> good s'"
  by (rule release_events_loop.raw_induct [OF _ assms]) (auto split: option_splits)

lemma close_sock_good: "close_sock cbs sock prev s = Some (s', r) \<Longrightarrow> good s \<Longrightarrow> good s'"
  by (auto simp: close_sock_def LL_PUSH_def Let_def split: option_splits dest!: release_events_good close_good)

lemma close_loop_good:
  assumes "close_loop cbs sock prev m s = Some r"
  shows "good s \<longrightarrow> good (fst r)"
proof -
  have "cbs = cbs \<longrightarrow> good s \<longrightarrow> good (fst r)"
    by (rule close_loop.raw_induct [where P = "\<lambda>c sock prev m s r. c = cbs \<longrightarrow> good s \<longrightarrow> good (fst r)", OF _ assms])
      (auto split: option_splits dest!: close_sock_good)
  then show ?thesis by simp
qed

text \<open>The property survives every round, whatever the operating system answers.\<close>

lemma step_good: "event_loop_step cbs env s = Some s' \<Longrightarrow> good s \<Longrightarrow> good s'"
  by (auto simp: event_loop_step_def event_loop_timers_def event_loop_poll_def event_loop_pending_def
      event_loop_close_def split: option_splits dest!: timers_good poll_good pending_good close_loop_good)

lemma rounds_good: "event_loop_rounds cbs envs s = Some (s', ended) \<Longrightarrow> good s \<Longrightarrow> good s'"
proof (induction envs arbitrary: s)
  case Nil
  then show ?case by (subst (asm) event_loop_rounds.simps) (auto split: option_splits)
next
  case (Cons env envs)
  from Cons.prems show ?case
    by (subst (asm) event_loop_rounds.simps) (auto split: option_splits dest!: step_good dest: Cons.IH)
qed

end

end
