(* ===== verification/Pools.thy ===== *)
theory Pools
  imports Ll
begin

text \<open>
  Several lists in one array. The event loop chains the elements of each of its static arrays in one list
  of free elements and in many lists of used ones (the events of each socket, the pending writes of each
  write event), and a function may hold elements that it has taken out of a list and not yet put back.

  \<open>lists n h p q K F E H\<close> says that with the links \<open>h\<close> the pointer \<open>p\<close> starts the list \<open>F\<close> of free elements,
  \<open>q k\<close> starts the list \<open>E k\<close> for each owner \<open>k\<close> in \<open>K\<close>, that \<open>H\<close> are the elements held, and that these
  share the \<open>n\<close> elements of the array between them. Each list operation is a lemma about it.
\<close>

definition lists :: "nat \<Rightarrow> links \<Rightarrow> nat option \<Rightarrow> ('k \<Rightarrow> nat option) \<Rightarrow> 'k set \<Rightarrow> nat list \<Rightarrow> ('k \<Rightarrow> nat list) \<Rightarrow>
    nat set \<Rightarrow> bool" where
  "lists n h p q K F E H \<longleftrightarrow> chain h p F \<and> (\<forall>k\<in>K. chain h (q k) (E k)) \<and>
     (\<forall>k\<in>K. \<forall>e\<in>set (E k). e \<notin> set F \<and> e \<notin> H \<and> (\<forall>j\<in>K. e \<in> set (E j) \<longrightarrow> j = k)) \<and> (\<forall>e\<in>H. e \<notin> set F) \<and>
     (\<forall>e. e < n \<longleftrightarrow> e \<in> set F \<or> e \<in> H \<or> (\<exists>k\<in>K. e \<in> set (E k)))"

lemma chain_frame: "(\<And>y. y \<in> set xs \<Longrightarrow> h' y = h y) \<Longrightarrow> chain h' p xs = chain h p xs"
  by (induction xs arbitrary: p) auto

lemma lists_cong:
  assumes "\<And>k. k \<in> K \<Longrightarrow> q' k = q k" "\<And>k. k \<in> K \<Longrightarrow> E' k = E k"
  shows "lists n h p q' K F E' H = lists n h p q K F E H"
  using assms by (simp add: lists_def)

lemma listsD:
  assumes "lists n h p q K F E H"
  shows "chain h p F" "k \<in> K \<Longrightarrow> chain h (q k) (E k)" "k \<in> K \<Longrightarrow> e \<in> set (E k) \<Longrightarrow> e < n"
    "e \<in> set F \<Longrightarrow> e < n" "e \<in> H \<Longrightarrow> e < n"
  using assms unfolding lists_def by blast+

lemma lists_owner: "lists n h p q K F E H \<Longrightarrow> j \<in> K \<Longrightarrow> k \<in> K \<Longrightarrow> e \<in> set (E j) \<Longrightarrow> e \<in> set (E k) \<Longrightarrow> j = k"
  unfolding lists_def by blast

lemma lists_apart:
  assumes "lists n h p q K F E H" "k \<in> K" "e \<in> set (E k)"
  shows "e \<notin> set F" "e \<notin> H"
  using assms unfolding lists_def by blast+

lemma lists_init:
  assumes "0 < n"
  shows "lists n (fst (LL_INIT n)) (snd (LL_INIT n)) q {} [0..<n] E {}"
  using LL_INIT_correct [OF assms] by (auto simp: lists_def)

text \<open>
  Every operation changes one list and what is held, and the links of these elements only; the elements
  of the list and those held stay together the same.
\<close>

lemma lists_update:
  assumes l: "lists n h p q K F E H" and k: "k \<in> K" and c: "chain h' r xs"
    and f: "\<And>y. y \<notin> set (E k) \<Longrightarrow> y \<notin> H \<Longrightarrow> h' y = h y"
    and u: "\<And>y. y \<in> set xs \<or> y \<in> H' \<longleftrightarrow> y \<in> set (E k) \<or> y \<in> H" and d: "\<And>y. y \<in> set xs \<Longrightarrow> y \<notin> H'"
  shows "lists n h' p (q(k := r)) K F (E(k := xs)) H'"
proof -
  have F: "chain h' p F" using chain_frame [of F h' h p] l k f unfolding lists_def by blast
  have E: "chain h' ((q(k := r)) j) ((E(k := xs)) j)" if "j \<in> K" for j
  proof (cases "j = k")
    case False
    then have "\<And>y. y \<in> set (E j) \<Longrightarrow> h' y = h y" using l k f that unfolding lists_def by blast
    with False listsD(2) [OF l that] show ?thesis by (simp add: chain_frame [of "E j" h' h])
  qed (use c in simp)
  have m: "e \<in> set ((E(k := xs)) j) \<longleftrightarrow> (if j = k then e \<in> set xs else e \<in> set (E j))" for e j by simp
  show ?thesis
    unfolding lists_def
  proof (intro conjI allI ballI)
    fix j e assume j: "j \<in> K" and e: "e \<in> set ((E(k := xs)) j)"
    then have e': "if j = k then e \<in> set xs else e \<in> set (E j)" by (simp only: m)
    then show "e \<notin> set F" using j l k u unfolding lists_def by (metis (mono_tags))
    show "e \<notin> H'" using e' j l k u d unfolding lists_def by (metis (mono_tags))
    show "e \<in> set ((E(k := xs)) i) \<longrightarrow> i = j" if "i \<in> K" for i
      using that e' j l k u unfolding lists_def m by (metis (mono_tags))
  next
    fix e assume "e \<in> H'"
    then show "e \<notin> set F" using l k u unfolding lists_def by (metis (mono_tags))
  next
    fix e
    have "(\<exists>j\<in>K. e \<in> set ((E(k := xs)) j)) \<longleftrightarrow> e \<in> set xs \<or> (\<exists>j\<in>K. j \<noteq> k \<and> e \<in> set (E j))"
      unfolding m using k by auto
    moreover have "e < n \<longleftrightarrow> e \<in> set F \<or> e \<in> H \<or> e \<in> set (E k) \<or> (\<exists>j\<in>K. j \<noteq> k \<and> e \<in> set (E j))"
      using l k unfolding lists_def by (metis (mono_tags))
    ultimately show "e < n \<longleftrightarrow> e \<in> set F \<or> e \<in> H' \<or> (\<exists>j\<in>K. e \<in> set ((E(k := xs)) j))" using u by blast
  qed (use F E in blast)+
qed

lemma lists_update_free:
  assumes l: "lists n h p q K F E H" and c: "chain h' r xs"
    and f: "\<And>y. y \<notin> set F \<Longrightarrow> y \<notin> H \<Longrightarrow> h' y = h y"
    and u: "\<And>y. y \<in> set xs \<or> y \<in> H' \<longleftrightarrow> y \<in> set F \<or> y \<in> H" and d: "\<And>y. y \<in> set xs \<Longrightarrow> y \<notin> H'"
  shows "lists n h' r q K xs E H'"
proof -
  have E: "chain h' (q j) (E j)" if "j \<in> K" for j
    using chain_frame [of "E j" h' h "q j"] listsD(2) [OF l that] lists_apart [OF l that] f by blast
  show ?thesis
    unfolding lists_def
  proof (intro conjI allI ballI)
    fix j e assume j: "j \<in> K" and e: "e \<in> set (E j)"
    show "e \<notin> set xs" "e \<notin> H'" using lists_apart [OF l j e] u by blast+
    show "e \<in> set (E i) \<longrightarrow> i = j" if "i \<in> K" for i using lists_owner [OF l that j _ e] by blast
  next
    fix e assume "e \<in> H'"
    then show "e \<notin> set xs" using d by blast
  next
    fix e
    show "e < n \<longleftrightarrow> e \<in> set xs \<or> e \<in> H' \<or> (\<exists>k\<in>K. e \<in> set (E k))" using l u [of e] unfolding lists_def by blast
  qed (use c E in blast)+
qed

subsection \<open>Taking and giving back\<close>

lemma lists_pop_free:
  assumes "lists n h (Some e) q K F E H"
  shows "\<exists>F'. F = e # F' \<and> lists n h (h e) q K F' E (insert e H)"
proof -
  obtain F' where F: "F = e # F'" "chain h (h e) F'" using listsD(1) [OF assms] by (auto simp: chain_Some)
  have "distinct F" by (rule chain_distinct [OF listsD(1) [OF assms]])
  moreover have "\<forall>y\<in>H. y \<notin> set F" using assms by (simp add: lists_def)
  ultimately have "lists n h (h e) q K F' E (insert e H)"
    by (intro lists_update_free [OF assms F(2)]) (use F in auto)
  with F show ?thesis by blast
qed

lemma lists_push_free:
  assumes "lists n h p q K F E H" "e \<in> H"
  shows "lists n (h(e := p)) (Some e) q K (e # F) E (H - {e})"
proof -
  have "e \<notin> set F" "\<forall>y\<in>H. y \<notin> set F" using assms by (auto simp: lists_def)
  then show ?thesis
    by (intro lists_update_free [OF assms(1)]) (use assms(2) listsD(1) [OF assms(1)] in auto)
qed

lemma lists_push:
  assumes "lists n h p q K F E H" "e \<in> H" "k \<in> K"
  shows "lists n (h(e := q k)) p (q(k := Some e)) K F (E(k := e # E k)) (H - {e})"
proof -
  have "e \<notin> set (E k)" "\<forall>y\<in>set (E k). y \<notin> H" using assms by (auto simp: lists_def)
  then show ?thesis
    by (intro lists_update [OF assms(1,3)]) (use assms(2) listsD(2) [OF assms(1,3)] in auto)
qed

lemma lists_pop:
  assumes "lists n h p q K F E H" "k \<in> K" "q k = Some e"
  shows "\<exists>xs. E k = e # xs \<and> lists n h p (q(k := h e)) K F (E(k := xs)) (insert e H)"
proof -
  obtain xs where E: "E k = e # xs" "chain h (h e) xs"
    using assms listsD(2) [OF assms(1,2)] by (auto simp: chain_Some)
  have "distinct (E k)" by (rule chain_distinct [OF listsD(2) [OF assms(1,2)]])
  moreover have "\<forall>y\<in>set (E k). y \<notin> H" using assms by (simp add: lists_def)
  ultimately have "lists n h p (q(k := h e)) K F (E(k := xs)) (insert e H)"
    by (intro lists_update [OF assms(1,2) E(2)]) (use E in auto)
  with E show ?thesis by blast
qed

lemma lists_write:
  assumes "lists n h p q K F E H" "e \<in> H"
  shows "lists n (h(e := v)) p q K F E H"
  by (rule lists_update_free [OF assms(1)]) (use assms listsD(1) [OF assms(1)] in \<open>auto simp: lists_def\<close>)

lemma lists_append:
  assumes "lists n h p q K F E H" "e \<in> H" "h e = None" "k \<in> K"
  obtains h' r where "LL_APPEND e h (q k) = Some (h', r)"
    "lists n h' p (q(k := r)) K F (E(k := E k @ [e])) (H - {e})"
proof -
  have e: "e \<notin> set (E k)" "\<forall>y\<in>set (E k). y \<notin> H" using assms by (auto simp: lists_def)
  obtain h' r where a: "LL_APPEND e h (q k) = Some (h', r)" "chain h' r (E k @ [e])"
    "\<And>y. y \<notin> set (E k) \<Longrightarrow> h' y = h y"
    using LL_APPEND_correct [OF listsD(2) [OF assms(1,4)] e(1) assms(3)] by metis
  have "lists n h' p (q(k := r)) K F (E(k := E k @ [e])) (H - {e})"
    by (rule lists_update [OF assms(1,4) a(2)]) (use a(3) e assms(2) in auto)
  with a(1) that show ?thesis by blast
qed

lemma lists_delete:
  assumes "lists n h p q K F E H" "k \<in> K" "e \<in> set (E k)"
  obtains h' r where "LL_DELETE e h (q k) = Some (h', r, Some e)" "h' e = h e"
    "lists n h' p (q(k := r)) K F (E(k := remove1 e (E k))) (insert e H)"
proof -
  note c = listsD(2) [OF assms(1,2)]
  obtain h' r where a: "LL_DELETE e h (q k) = Some (h', r, Some e)" "chain h' r (remove1 e (E k))"
    "\<And>y. y \<notin> set (E k) \<or> y = e \<Longrightarrow> h' y = h y"
    by (rule LL_DELETE_correct [OF c, of e]) (use assms(3) in auto)
  have "set (remove1 e (E k)) = set (E k) - {e}" using chain_distinct [OF c] by simp
  moreover have "\<forall>y\<in>set (E k). y \<notin> H" using assms by (simp add: lists_def)
  ultimately have "lists n h' p (q(k := r)) K F (E(k := remove1 e (E k))) (insert e H)"
    by (intro lists_update [OF assms(1,2) a(2)]) (use a(3) assms(3) in auto)
  with a that show ?thesis by blast
qed

subsection \<open>Owners that come and go\<close>

lemma lists_new_owner:
  assumes "lists n h p q K F E H" "k \<notin> K" "q' k = None" "\<And>j. j \<in> K \<Longrightarrow> q' j = q j"
  shows "lists n h p q' (insert k K) F (E(k := [])) H"
proof -
  have "lists n h p q' (insert k K) F E' H" if "E' k = []" "\<And>j. j \<in> K \<Longrightarrow> E' j = E j" for E'
    using assms that unfolding lists_def by simp
  then show ?thesis using assms(2) by fastforce
qed

lemma lists_hold_all:
  assumes "lists n h p q K F E H" "k \<in> K"
  shows "lists n h p q (K - {k}) F E (H \<union> set (E k))"
  using assms unfolding lists_def by auto

lemma lists_drop_owners:
  assumes "lists n h p q K F E H" "\<And>k. k \<in> K \<Longrightarrow> k \<in> J \<Longrightarrow> E k = []"
  shows "lists n h p q (K - J) F E H"
proof -
  have "(\<exists>k\<in>K. e \<in> set (E k)) \<longleftrightarrow> (\<exists>k\<in>K - J. e \<in> set (E k))" for e using assms(2) by fastforce
  with assms(1) show ?thesis unfolding lists_def by blast
qed

text \<open>No list is longer than the array: following the links for \<open>n\<close> steps finds all of it.\<close>

fun walk :: "nat \<Rightarrow> links \<Rightarrow> nat option \<Rightarrow> nat list" where
  "walk 0 h p = []"
| "walk (Suc n) h p = (case p of None \<Rightarrow> [] | Some e \<Rightarrow> e # walk n h (h e))"

lemma walk_chain: "chain h p xs \<Longrightarrow> length xs \<le> n \<Longrightarrow> walk n h p = xs"
proof (induction xs arbitrary: p n)
  case Nil
  then show ?case by (cases n) auto
next
  case (Cons x xs)
  then show ?case by (cases n) auto
qed

lemma lists_walk:
  assumes "lists n h p q K F E H" "k \<in> K"
  shows "walk n h (q k) = E k"
proof (rule walk_chain [OF listsD(2) [OF assms]])
  have "set (E k) \<subseteq> {..<n}" using listsD(3) [OF assms] by blast
  then have "card (set (E k)) \<le> n" using card_mono [of "{..<n}" "set (E k)"] by simp
  then show "length (E k) \<le> n" by (simp add: distinct_card [OF chain_distinct [OF listsD(2) [OF assms]]])
qed

lemma chain_next: "chain h p xs \<Longrightarrow> x \<in> set xs \<Longrightarrow> h x = Some y \<Longrightarrow> y \<in> set xs"
  by (induction xs arbitrary: p) (auto simp: chain_Some)

end
