(* ===== verification/Event_Memory.thy ===== *)
theory Event_Memory
  imports Event_Loop Pools
begin

text \<open>
  The static memory of the event loop. \<open>mem_rel\<close> relates a state to its layout: which sockets are in use,
  which events each of them has, which write operations wait in each write event. The arrays are shared
  without loss or overlap, every event in use is well formed for its type, and the pending write operations
  of a socket account for exactly the bytes in its write buffer.

  Two parameters describe a function of the loop in the middle of its work: \<open>H\<close>, the write operations it has
  taken out of a queue, and \<open>x\<close>, the write events it works on with the difference between the bytes of the
  waiting operations and the bytes in the buffer. Between two functions both are empty. \<open>ty\<close> tells which
  callbacks are meant for which type of event, \<open>None\<close> for the callbacks of \<open>event_close\<close>.
\<close>

subsection \<open>The layout\<close>

record layout =
  l_socks :: "nat list"
  l_free_socks :: "nat list"
  l_events :: "nat \<Rightarrow> nat list"
  l_free_events :: "nat list"
  l_ops :: "nat \<Rightarrow> nat list"
  l_free_ops :: "nat list"

definition queue_of :: "('cb, 'z) event_loop_scheme \<Rightarrow> nat \<Rightarrow> nat option" where
  "queue_of s e = (case write_data (data_of s e) of Some (buf, queue) \<Rightarrow> queue | None \<Rightarrow> None)"

definition in_use :: "layout \<Rightarrow> nat \<Rightarrow> nat \<Rightarrow> bool" where
  "in_use L k e \<longleftrightarrow> k \<in> set (l_socks L) \<and> e \<in> set (l_events L k)"

definition writers :: "('cb, 'z) event_loop_scheme \<Rightarrow> layout \<Rightarrow> nat set" where
  "writers s L = {e. (\<exists>k. in_use L k e) \<and> data_type (data_of s e) = EVENT_WRITE_TYPE}"

definition slack :: "(nat \<rightharpoonup> int) \<Rightarrow> nat \<Rightarrow> int" where
  "slack x e = (case x e of None \<Rightarrow> 0 | Some d \<Rightarrow> d)"

definition typed :: "('cb \<Rightarrow> event_type option) \<Rightarrow> event_type option \<Rightarrow> 'cb option \<Rightarrow> bool" where
  "typed ty t cb \<longleftrightarrow> (\<exists>c. cb = Some c \<and> ty c = t)"

definition op_ok :: "('cb \<Rightarrow> event_type option) \<Rightarrow> 'cb event_write_op \<Rightarrow> bool" where
  "op_ok ty r \<longleftrightarrow> 0 < op_bytes r \<and> typed ty (Some EVENT_WRITE_TYPE) (op_cb r)"

text \<open>The bytes that the waiting operations of an event stand for.\<close>

definition waiting :: "('cb, 'z) event_loop_scheme \<Rightarrow> nat list \<Rightarrow> int" where
  "waiting s ops = (\<Sum>op\<leftarrow>ops. int (op_bytes (op_mem s op)))"

fun data_ok :: "('cb \<Rightarrow> event_type option) \<Rightarrow> int \<Rightarrow> 'cb event_data \<Rightarrow> bool" where
  "data_ok ty w (Event_Connection cb) = typed ty (Some EVENT_CONNECTION_TYPE) cb"
| "data_ok ty w (Event_Read buf cb) = (cbuf_wf buf \<and> typed ty (Some EVENT_READ_TYPE) cb)"
| "data_ok ty w (Event_Write buf queue) = (cbuf_wf buf \<and> w = cb_len buf)"
| "data_ok ty w (Event_Timer millis start cb) = typed ty (Some EVENT_TIMER_TYPE) cb"

definition event_ok :: "('cb \<Rightarrow> event_type option) \<Rightarrow> (nat \<rightharpoonup> int) \<Rightarrow> ('cb, 'z) event_loop_scheme \<Rightarrow> layout \<Rightarrow>
    nat \<Rightarrow> nat \<Rightarrow> bool" where
  "event_ok ty x s L k e \<longleftrightarrow> ev_sock (event_mem s e) = Some k \<and>
     data_ok ty (waiting s (l_ops L e) - slack x e) (data_of s e)"

text \<open>A socket has at most one event that reads and one that writes.\<close>

definition single :: "event_type \<Rightarrow> bool" where
  "single t \<longleftrightarrow> t = EVENT_READ_TYPE \<or> t = EVENT_WRITE_TYPE"

definition singles_ok :: "('cb, 'z) event_loop_scheme \<Rightarrow> layout \<Rightarrow> bool" where
  "singles_ok s L \<longleftrightarrow> (\<forall>k e e'. in_use L k e \<and> in_use L k e' \<and> single (data_type (data_of s e)) \<and>
     data_type (data_of s e) = data_type (data_of s e') \<longrightarrow> e = e')"

definition events_ok :: "('cb \<Rightarrow> event_type option) \<Rightarrow> (nat \<rightharpoonup> int) \<Rightarrow> ('cb, 'z) event_loop_scheme \<Rightarrow> layout \<Rightarrow> bool" where
  "events_ok ty x s L \<longleftrightarrow> (\<forall>k e. in_use L k e \<longrightarrow> event_ok ty x s L k e) \<and>
     singles_ok s L \<and> dom x \<subseteq> writers s L"

definition sock_ok :: "('cb \<Rightarrow> event_type option) \<Rightarrow> 'cb event_sock \<Rightarrow> bool" where
  "sock_ok ty k \<longleftrightarrow> sk_loop k \<and> (sk_state k = EVENT_SOCK_CLOSING \<longrightarrow> typed ty None (sk_close_cb k))"

text \<open>Every watched descriptor belongs to a socket that is not closed.\<close>

definition socks_ok :: "('cb \<Rightarrow> event_type option) \<Rightarrow> ('cb, 'z) event_loop_scheme \<Rightarrow> layout \<Rightarrow> bool" where
  "socks_ok ty s L \<longleftrightarrow> (\<forall>k \<in> set (l_socks L). sock_ok ty (sock_mem s k)) \<and>
     (\<forall>fd \<in> lp_active_fds s. \<exists>k \<in> set (l_socks L). sk_descriptor (sock_mem s k) = fd \<and>
        sk_state (sock_mem s k) \<noteq> EVENT_SOCK_CLOSED)"

abbreviation sock_lists :: "('cb, 'z) event_loop_scheme \<Rightarrow> layout \<Rightarrow> nat set \<Rightarrow> bool" where
  "sock_lists s L H \<equiv> lists EVENT_MAX_SOCKETS (sock_next s) (lp_sockets s) (\<lambda>_ :: unit. lp_reserved s) UNIV
     (l_free_socks L) (\<lambda>_. l_socks L) H"

abbreviation event_lists :: "('cb, 'z) event_loop_scheme \<Rightarrow> layout \<Rightarrow> nat set \<Rightarrow> bool" where
  "event_lists s L H \<equiv> lists EVENT_MAX_EVENTS (event_next s) (lp_events s) (events_of s) (set (l_socks L))
     (l_free_events L) (l_events L) H"

abbreviation op_lists :: "('cb, 'z) event_loop_scheme \<Rightarrow> layout \<Rightarrow> nat set \<Rightarrow> bool" where
  "op_lists s L H \<equiv> lists EVENT_WRITE_QUEUE_SIZE (write_next s) (lp_writes s) (queue_of s) (writers s L)
     (l_free_ops L) (l_ops L) H"

definition ops_ok :: "('cb \<Rightarrow> event_type option) \<Rightarrow> ('cb, 'z) event_loop_scheme \<Rightarrow> layout \<Rightarrow> bool" where
  "ops_ok ty s L \<longleftrightarrow> (\<forall>op < EVENT_WRITE_QUEUE_SIZE. op \<notin> set (l_free_ops L) \<longrightarrow> op_ok ty (op_mem s op))"

definition mem_rel :: "('cb \<Rightarrow> event_type option) \<Rightarrow> nat set \<Rightarrow> (nat \<rightharpoonup> int) \<Rightarrow> ('cb, 'z) event_loop_scheme \<Rightarrow>
    layout \<Rightarrow> bool" where
  "mem_rel ty H x s L \<longleftrightarrow> sock_lists s L {} \<and> event_lists s L {} \<and> op_lists s L H \<and>
     socks_ok ty s L \<and> events_ok ty x s L \<and> ops_ok ty s L"

text \<open>The fields of the state that are the memory of the loop.\<close>

definition memory :: "('cb, 'z) event_loop_scheme \<Rightarrow>
    (links \<times> nat option \<times> nat option) \<times> (links \<times> nat option) \<times> (links \<times> nat option) \<times>
    (nat \<Rightarrow> 'cb event_sock) \<times> (nat \<Rightarrow> 'cb event) \<times> (nat \<Rightarrow> 'cb event_write_op) \<times> int set" where
  "memory s = ((sock_next s, lp_sockets s, lp_reserved s), (event_next s, lp_events s), (write_next s, lp_writes s),
     sock_mem s, event_mem s, op_mem s, lp_active_fds s)"

lemma memory_objects:
  assumes "memory s' = memory s"
  shows "data_of s' = data_of s" "events_of s' = events_of s" "queue_of s' = queue_of s" "writers s' L = writers s L"
    "waiting s' = waiting s"
  using assms by (simp_all add: memory_def data_of_def events_of_def queue_of_def writers_def waiting_def fun_eq_iff)

lemma mem_rel_memory: "memory s' = memory s \<Longrightarrow> mem_rel ty H x s' L = mem_rel ty H x s L"
  using memory_objects [of s' s]
  by (simp add: memory_def mem_rel_def socks_ok_def ops_ok_def events_ok_def event_ok_def singles_ok_def cong: conj_cong)

subsection \<open>Reading the layout off the state\<close>

definition reserved_socks :: "('cb, 'z) event_loop_scheme \<Rightarrow> nat list" where
  "reserved_socks s = walk EVENT_MAX_SOCKETS (sock_next s) (lp_reserved s)"

definition sock_events :: "('cb, 'z) event_loop_scheme \<Rightarrow> nat \<Rightarrow> nat list" where
  "sock_events s k = walk EVENT_MAX_EVENTS (event_next s) (events_of s k)"

definition queued_ops :: "('cb, 'z) event_loop_scheme \<Rightarrow> nat \<Rightarrow> nat list" where
  "queued_ops s e = walk EVENT_WRITE_QUEUE_SIZE (write_next s) (queue_of s e)"

lemma mem_relD:
  assumes "mem_rel ty H x s L"
  shows "sock_lists s L {}" "event_lists s L {}" "op_lists s L H" "socks_ok ty s L" "events_ok ty x s L" "ops_ok ty s L"
  using assms by (simp_all add: mem_rel_def)

lemma layout_eqs:
  assumes "mem_rel ty H x s L"
  shows "reserved_socks s = l_socks L" "k \<in> set (l_socks L) \<Longrightarrow> sock_events s k = l_events L k"
    "e \<in> writers s L \<Longrightarrow> queued_ops s e = l_ops L e"
  using lists_walk [OF mem_relD(1) [OF assms], of "()"] lists_walk [OF mem_relD(2) [OF assms], of k]
    lists_walk [OF mem_relD(3) [OF assms], of e]
  by (simp_all add: reserved_socks_def sock_events_def queued_ops_def)

lemma find_correct:
  assumes "mem_rel ty H x s L" "k \<in> set (l_socks L)"
  shows "event_find s (events_of s k) t = Some (find (\<lambda>e. data_type (data_of s e) = t) (l_events L k))"
  unfolding event_find_def by (rule LL_FIND_correct [OF listsD(2) [OF mem_relD(2) [OF assms(1)] assms(2)]])

lemma find_in_use:
  assumes "mem_rel ty H x s L" "k \<in> set (l_socks L)" "event_find s (events_of s k) t = Some r"
  shows "r = Some e \<Longrightarrow> in_use L k e \<and> data_type (data_of s e) = t"
    "r = None \<Longrightarrow> in_use L k e \<Longrightarrow> data_type (data_of s e) \<noteq> t"
  using assms by (auto simp: find_correct in_use_def find_Some_iff find_None_iff)

lemma data_type_cases:
  "data_type d = EVENT_READ_TYPE \<longleftrightarrow> (\<exists>buf cb. d = Event_Read buf cb)"
  "data_type d = EVENT_WRITE_TYPE \<longleftrightarrow> (\<exists>buf q. d = Event_Write buf q)"
  "data_type d = EVENT_CONNECTION_TYPE \<longleftrightarrow> (\<exists>cb. d = Event_Connection cb)"
  "data_type d = EVENT_TIMER_TYPE \<longleftrightarrow> (\<exists>m t cb. d = Event_Timer m t cb)"
  by (cases d; simp)+

lemma member_of_union:
  "read_data d = Some (buf, cb) \<longleftrightarrow> d = Event_Read buf cb" "write_data d = Some (buf, q) \<longleftrightarrow> d = Event_Write buf q"
  "timer_data d = Some (m, t, cb) \<longleftrightarrow> d = Event_Timer m t cb" "connection_data d = Some cb \<longleftrightarrow> d = Event_Connection cb"
  by (cases d; auto)+

lemma writer_in_use: "in_use L k e \<Longrightarrow> data_of s e = Event_Write buf q \<Longrightarrow> e \<in> writers s L"
  by (auto simp: writers_def)

lemma one_owner:
  assumes "mem_rel ty H x s L" "in_use L j e" "in_use L k e"
  shows "j = k"
  using lists_owner [OF mem_relD(2) [OF assms(1)], of j k e] assms(2,3) by (auto simp: in_use_def)


subsection \<open>Updates of single objects\<close>

lemma obj_simps [simp]:
  "data_of (set_data e d s) e' = (if e' = e then d else data_of s e')"
  "data_of (upd_sock k f s) = data_of s" "data_of (set_op op r s) = data_of s" "data_of (os_do c s) = data_of s"
  "events_of (set_data e d s) = events_of s" "events_of (set_op op r s) = events_of s" "events_of (os_do c s) = events_of s"
  "events_of (upd_sock k f s) j = (if j = k then sk_events (f (sock_mem s k)) else events_of s j)"
  "sock_mem (set_data e d s) = sock_mem s" "sock_mem (set_op op r s) = sock_mem s" "sock_mem (os_do c s) = sock_mem s"
  "sock_mem (upd_sock k f s) = (sock_mem s)(k := f (sock_mem s k))"
  "op_mem (set_data e d s) = op_mem s" "op_mem (upd_sock k f s) = op_mem s" "op_mem (os_do c s) = op_mem s"
  "op_mem (set_op op r s) = (op_mem s)(op := r)"
  "ev_sock (event_mem (set_data e d s) e') = ev_sock (event_mem s e')"
  "event_mem (upd_sock k f s) = event_mem s" "event_mem (set_op op r s) = event_mem s" "event_mem (os_do c s) = event_mem s"
  by (simp_all add: data_of_def set_data_def upd_sock_def set_op_def os_do_def events_of_def fun_eq_iff)

lemma list_fields [simp]:
  "sock_next (set_data e d s) = sock_next s" "sock_next (upd_sock k f s) = sock_next s"
  "sock_next (set_op op r s) = sock_next s" "sock_next (os_do c s) = sock_next s"
  "event_next (set_data e d s) = event_next s" "event_next (upd_sock k f s) = event_next s"
  "event_next (set_op op r s) = event_next s" "event_next (os_do c s) = event_next s"
  "write_next (set_data e d s) = write_next s" "write_next (upd_sock k f s) = write_next s"
  "write_next (set_op op r s) = write_next s" "write_next (os_do c s) = write_next s"
  "lp_sockets (set_data e d s) = lp_sockets s" "lp_sockets (upd_sock k f s) = lp_sockets s"
  "lp_sockets (set_op op r s) = lp_sockets s" "lp_sockets (os_do c s) = lp_sockets s"
  "lp_reserved (set_data e d s) = lp_reserved s" "lp_reserved (upd_sock k f s) = lp_reserved s"
  "lp_reserved (set_op op r s) = lp_reserved s" "lp_reserved (os_do c s) = lp_reserved s"
  "lp_events (set_data e d s) = lp_events s" "lp_events (upd_sock k f s) = lp_events s"
  "lp_events (set_op op r s) = lp_events s" "lp_events (os_do c s) = lp_events s"
  "lp_writes (set_data e d s) = lp_writes s" "lp_writes (upd_sock k f s) = lp_writes s"
  "lp_writes (set_op op r s) = lp_writes s" "lp_writes (os_do c s) = lp_writes s"
  "lp_active_fds (set_data e d s) = lp_active_fds s" "lp_active_fds (upd_sock k f s) = lp_active_fds s"
  "lp_active_fds (set_op op r s) = lp_active_fds s" "lp_active_fds (os_do c s) = lp_active_fds s"
  by (simp_all add: set_data_def upd_sock_def set_op_def os_do_def)

definition queue_in :: "'cb event_data \<Rightarrow> nat option" where
  "queue_in d = (case write_data d of Some (buf, queue) \<Rightarrow> queue | None \<Rightarrow> None)"

lemma queue_in_simps [simp]:
  "queue_in (Event_Write buf q) = q" "queue_in (Event_Read buf cb) = None"
  "queue_in (Event_Timer m t cb) = None" "queue_in (Event_Connection cb) = None"
  by (simp_all add: queue_in_def)

lemma queue_of_eq: "queue_of s e = queue_in (data_of s e)"
  by (simp add: queue_of_def queue_in_def)

lemma waiting_simps [simp]:
  "waiting (set_data e d s) ops = waiting s ops" "waiting (upd_sock k f s) ops = waiting s ops"
  "waiting (os_do c s) ops = waiting s ops" "op \<notin> set ops \<Longrightarrow> waiting (set_op op r s) ops = waiting s ops"
  "waiting s [] = 0" "waiting s (op # ops) = int (op_bytes (op_mem s op)) + waiting s ops"
  "waiting s (ops @ ops') = waiting s ops + waiting s ops'"
  by (auto simp: waiting_def intro!: arg_cong [where f = sum_list])

text \<open>New data of the same type for an event in use.\<close>

lemma set_data_mem:
  assumes m: "mem_rel ty H x s L" and u: "in_use L k e" and t: "data_type d = data_type (data_of s e)"
    and q: "queue_in d = queue_in (data_of s e)" and d: "data_ok ty (waiting s (l_ops L e) - slack x' e) d"
    and x: "\<And>e'. e' \<noteq> e \<Longrightarrow> x' e' = x e'" "dom x' \<subseteq> writers s L"
  shows "mem_rel ty H x' (set_data e d s) L"
proof -
  have w: "writers (set_data e d s) L = writers s L" using t by (auto simp: writers_def)
  have q': "queue_of (set_data e d s) = queue_of s" using q by (auto simp: queue_of_eq fun_eq_iff)
  have e: "in_use L j e \<Longrightarrow> j = k" for j using one_owner [OF m u] by blast
  have sl: "e' \<noteq> e \<Longrightarrow> slack x' e' = slack x e'" for e' using x(1) by (simp add: slack_def)
  have ty: "data_type (data_of (set_data e d s) e') = data_type (data_of s e')" for e' using t by simp
  have "event_ok ty x' (set_data e d s) L j e'" if "in_use L j e'" for j e'
    using mem_relD(5) [OF m] that d e [of j] sl [of e'] by (cases "e' = e") (auto simp: events_ok_def event_ok_def)
  then have "events_ok ty x' (set_data e d s) L"
    using mem_relD(5) [OF m] x(2) unfolding events_ok_def singles_ok_def w ty by blast
  then show ?thesis
    using m by (simp add: mem_rel_def w q' socks_ok_def ops_ok_def fun_eq_iff [of "events_of _"])
qed

lemma events_okD:
  assumes "mem_rel ty H x s L" "in_use L k e"
  shows "ev_sock (event_mem s e) = Some k" "data_ok ty (waiting s (l_ops L e) - slack x e) (data_of s e)"
    "in_use L k e' \<Longrightarrow> single (data_type (data_of s e)) \<Longrightarrow> data_type (data_of s e) = data_type (data_of s e') \<Longrightarrow> e = e'"
    "dom x \<subseteq> writers s L"
  using assms by (auto simp: mem_rel_def events_ok_def event_ok_def singles_ok_def)

lemma set_read_mem:
  assumes "mem_rel ty H x s L" "in_use L k e" "data_of s e = Event_Read buf cb" "cbuf_wf buf'"
    "typed ty (Some EVENT_READ_TYPE) cb'"
  shows "mem_rel ty H x (set_data e (Event_Read buf' cb') s) L"
  by (rule set_data_mem [OF assms(1,2)]) (use assms(3-5) events_okD(4) [OF assms(1,2)] in auto)

lemma set_write_mem:
  assumes "mem_rel ty H x s L" "in_use L k e" "data_of s e = Event_Write buf q" "cbuf_wf buf'" "cb_len buf' = cb_len buf"
  shows "mem_rel ty H x (set_data e (Event_Write buf' q) s) L"
  by (rule set_data_mem [OF assms(1,2)]) (use assms(3-5) events_okD(2,4) [OF assms(1,2)] in auto)

text \<open>An event that is not in use may hold anything.\<close>

lemma set_free_mem:
  assumes m: "mem_rel ty H x s L" and u: "\<And>k. \<not> in_use L k e"
  shows "mem_rel ty H x (set_data e d s) L"
proof -
  have w: "writers (set_data e d s) L = writers s L" using u by (auto simp: writers_def)
  have q: "e' \<in> writers s L \<Longrightarrow> queue_of (set_data e d s) e' = queue_of s e'" for e'
    using u by (auto simp: queue_of_eq writers_def)
  have "events_ok ty x (set_data e d s) L"
    using mem_relD(5) [OF m] u by (fastforce simp: events_ok_def event_ok_def singles_ok_def w)
  moreover have "op_lists (set_data e d s) L H"
    using mem_relD(3) [OF m] lists_cong [of "writers s L", OF q refl] by (simp add: w)
  ultimately show ?thesis
    using m by (simp add: mem_rel_def socks_ok_def ops_ok_def fun_eq_iff [of "events_of _"])
qed


subsection \<open>Write operations\<close>

lemma layout_simps [simp]:
  "in_use (L\<lparr>l_ops := f\<rparr>) = in_use L" "in_use (L\<lparr>l_free_ops := f'\<rparr>) = in_use L"
  "writers s (L\<lparr>l_ops := f\<rparr>) = writers s L" "writers s (L\<lparr>l_free_ops := f'\<rparr>) = writers s L"
  by (simp_all add: in_use_def writers_def fun_eq_iff)

lemma op_fields [simp]:
  "data_of (s\<lparr>write_next := h\<rparr>) = data_of s" "data_of (s\<lparr>lp_writes := p\<rparr>) = data_of s" "data_of (s\<lparr>op_mem := om\<rparr>) = data_of s"
  "events_of (s\<lparr>write_next := h\<rparr>) = events_of s" "events_of (s\<lparr>lp_writes := p\<rparr>) = events_of s"
  "events_of (s\<lparr>op_mem := om\<rparr>) = events_of s"
  "writers (s\<lparr>write_next := h\<rparr>) L = writers s L" "writers (s\<lparr>lp_writes := p\<rparr>) L = writers s L"
  "writers (s\<lparr>op_mem := om\<rparr>) L = writers s L"
  "singles_ok (s\<lparr>write_next := h\<rparr>) L = singles_ok s L" "singles_ok (s\<lparr>lp_writes := p\<rparr>) L = singles_ok s L"
  "singles_ok (set_op op r s) L = singles_ok s L" "singles_ok s (L\<lparr>l_free_ops := f\<rparr>) = singles_ok s L"
  by (simp_all add: data_of_def events_of_def writers_def singles_ok_def set_op_def fun_eq_iff)

text \<open>
  What the list operations do to the queue of one write event: new links, a new queue, new contents of
  the operations of this queue and of those held.
\<close>

lemma ops_mem:
  assumes m: "mem_rel ty H x s L" and u: "in_use L k e" and d: "data_of s e = Event_Write buf q"
    and l: "lists EVENT_WRITE_QUEUE_SIZE h p ((queue_of s)(e := q')) (writers s L) F ((l_ops L)(e := ops)) H'"
    and om: "\<And>op e'. e' \<in> writers s L \<Longrightarrow> e' \<noteq> e \<Longrightarrow> op \<in> set (l_ops L e') \<Longrightarrow> om op = op_mem s op"
    and ok: "\<And>op. op < EVENT_WRITE_QUEUE_SIZE \<Longrightarrow> op \<notin> set F \<Longrightarrow> op_ok ty (om op)"
    and b: "cbuf_wf buf'" "(\<Sum>op\<leftarrow>ops. int (op_bytes (om op))) - slack x' e = cb_len buf'"
    and x: "\<And>e'. e' \<noteq> e \<Longrightarrow> x' e' = x e'" "dom x' \<subseteq> writers s L"
  shows "mem_rel ty H' x' (set_data e (Event_Write buf' q') (s\<lparr>write_next := h, lp_writes := p, op_mem := om\<rparr>))
    (L\<lparr>l_ops := (l_ops L)(e := ops), l_free_ops := F\<rparr>)" (is "mem_rel ty H' x' ?s ?L")
proof -
  have w: "writers ?s L = writers s L" using d by (auto simp: writers_def)
  have e: "in_use L j e \<Longrightarrow> j = k" for j using one_owner [OF m u] by blast
  have ty: "data_type (data_of ?s e') = data_type (data_of s e')" for e' using d by simp
  have sl: "e' \<noteq> e \<Longrightarrow> slack x' e' = slack x e'" for e' using x(1) by (simp add: slack_def)
  have wt: "waiting ?s (l_ops L e') = waiting s (l_ops L e')" if "e' \<in> writers s L" "e' \<noteq> e" for e'
    using om [OF that] by (auto simp: waiting_def intro!: arg_cong [where f = sum_list])
  have "event_ok ty x' ?s ?L j e'" if "in_use L j e'" for j e'
  proof (cases "e' = e")
    case True
    with mem_relD(5) [OF m] that b e [of j] show ?thesis
      by (auto simp: events_ok_def event_ok_def waiting_def)
  next
    case False
    have "data_ok ty (waiting s (l_ops L e') - slack x e') (data_of s e')" "ev_sock (event_mem s e') = Some j"
      using events_okD [OF m that] by blast+
    moreover have "data_ok ty v (data_of s e') = data_ok ty v' (data_of s e')" if "e' \<notin> writers s L" for v v'
      using that \<open>in_use L j e'\<close> by (cases "data_of s e'") (auto simp: writers_def)
    ultimately show ?thesis using False sl wt by (cases "e' \<in> writers s L") (auto simp: event_ok_def)
  qed
  then have "events_ok ty x' ?s ?L"
    using mem_relD(5) [OF m] x(2) unfolding events_ok_def singles_ok_def ty layout_simps w by blast
  moreover have "queue_of ?s = (queue_of s)(e := q')" by (auto simp: queue_of_eq fun_eq_iff)
  ultimately show ?thesis
    using m l ok by (simp add: mem_rel_def w socks_ok_def ops_ok_def fun_eq_iff [of "events_of _"])
qed

lemma op_push_mem:
  assumes "mem_rel ty H x s L" "op \<in> H"
  shows "mem_rel ty (H - {op}) x (op_push op s) (L\<lparr>l_free_ops := op # l_free_ops L\<rparr>)"
proof -
  have "lists EVENT_WRITE_QUEUE_SIZE ((write_next s)(op := lp_writes s)) (Some op) (queue_of s) (writers s L)
    (op # l_free_ops L) (l_ops L) (H - {op})"
    by (rule lists_push_free [OF mem_relD(3) [OF assms(1)] assms(2)])
  moreover have "queue_of (op_push op s) = queue_of s" by (simp add: queue_of_eq op_push_def LL_PUSH_def fun_eq_iff)
  ultimately show ?thesis
    using assms(1) by (simp add: mem_rel_def op_push_def LL_PUSH_def socks_ok_def ops_ok_def events_ok_def event_ok_def waiting_def)
qed

lemma set_op_mem:
  assumes m: "mem_rel ty H x s L" and "op \<in> H" "op_ok ty r"
  shows "mem_rel ty H x (set_op op r s) L"
proof -
  have w: "writers (set_op op r s) L = writers s L" "queue_of (set_op op r s) = queue_of s"
    by (simp_all add: writers_def queue_of_eq fun_eq_iff)
  have "data_ok ty (waiting (set_op op r s) (l_ops L e) - slack x e) (data_of s e)" if "in_use L k e" for k e
  proof (cases "e \<in> writers s L")
    case True
    then have "op \<notin> set (l_ops L e)" using lists_apart [OF mem_relD(3) [OF m]] assms(2) by blast
    with events_okD(2) [OF m that] show ?thesis by simp
  next
    case False
    with events_okD(2) [OF m that] that show ?thesis by (cases "data_of s e") (auto simp: writers_def)
  qed
  with m assms(3) show ?thesis
    by (simp add: mem_rel_def w socks_ok_def ops_ok_def events_ok_def event_ok_def)
qed

lemma queue_pop_mem:
  assumes m: "mem_rel ty H x s L" and u: "in_use L k e" and d: "data_of s e = Event_Write buf q"
    and p: "queue_pop e s = Some (s', r)"
  obtains "r = None" "s' = s" "l_ops L e = []" "q = None"
  | op ops where "r = Some op" "l_ops L e = op # ops" "q = Some op" "s' = set_data e (Event_Write buf (write_next s op)) s"
    "mem_rel ty (insert op H) (x(e \<mapsto> slack x e - int (op_bytes (op_mem s op)))) s' (L\<lparr>l_ops := (l_ops L)(e := ops)\<rparr>)"
proof (cases q)
  case None
  have w: "e \<in> writers s L" by (rule writer_in_use [OF u d])
  have "queue_of s e = None" using d None by (simp add: queue_of_eq)
  then have "l_ops L e = []" using listsD(2) [OF mem_relD(3) [OF m] w] by simp
  moreover have "s' = set_data e (data_of s e) s" "r = None" using p d None by (auto simp: queue_pop_def LL_POP_def)
  moreover have "set_data e (data_of s e) s = s" by (simp add: set_data_def data_of_def)
  ultimately show ?thesis using that(1) None by metis
next
  case (Some op)
  have w: "e \<in> writers s L" by (rule writer_in_use [OF u d])
  have r: "r = Some op" "s' = set_data e (Event_Write buf (write_next s op)) s"
    using p d Some by (auto simp: queue_pop_def LL_POP_def)
  have "queue_of s e = Some op" using d Some by (simp add: queue_of_eq)
  from lists_pop [OF mem_relD(3) [OF m] w this] obtain ops where l: "l_ops L e = op # ops"
    "lists EVENT_WRITE_QUEUE_SIZE (write_next s) (lp_writes s) ((queue_of s)(e := write_next s op)) (writers s L)
       (l_free_ops L) ((l_ops L)(e := ops)) (insert op H)" by blast
  have "mem_rel ty (insert op H) (x(e \<mapsto> slack x e - int (op_bytes (op_mem s op))))
    (set_data e (Event_Write buf (write_next s op)) (s\<lparr>write_next := write_next s, lp_writes := lp_writes s, op_mem := op_mem s\<rparr>))
    (L\<lparr>l_ops := (l_ops L)(e := ops), l_free_ops := l_free_ops L\<rparr>)"
  proof (rule ops_mem [OF m u d l(2)])
    show "(\<Sum>op\<leftarrow>ops. int (op_bytes (op_mem s op))) - slack (x(e \<mapsto> slack x e - int (op_bytes (op_mem s op)))) e = cb_len buf"
      using events_okD(2) [OF m u] l(1) d by (simp add: slack_def waiting_def)
  qed (use mem_relD(6) [OF m] events_okD(2,4) [OF m u] d w in \<open>auto simp: ops_ok_def\<close>)
  then have "mem_rel ty (insert op H) (x(e \<mapsto> slack x e - int (op_bytes (op_mem s op)))) s' (L\<lparr>l_ops := (l_ops L)(e := ops)\<rparr>)"
    by (simp add: r(2))
  with r l(1) Some that(2) show ?thesis by blast
qed


text \<open>Putting an operation back in front of its queue, and a new operation at its end.\<close>

lemma queue_push_mem:
  assumes m: "mem_rel ty H x s L" and u: "in_use L k e" and d: "data_of s e = Event_Write buf q" and op: "op \<in> H"
  shows "mem_rel ty (H - {op}) (x(e \<mapsto> slack x e + int (op_bytes (op_mem s op))))
    (set_data e (Event_Write buf (Some op)) (s\<lparr>write_next := (write_next s)(op := q)\<rparr>))
    (L\<lparr>l_ops := (l_ops L)(e := op # l_ops L e)\<rparr>)"
proof -
  have w: "e \<in> writers s L" by (rule writer_in_use [OF u d])
  have q: "queue_of s e = q" using d by (simp add: queue_of_eq)
  note l = lists_push [OF mem_relD(3) [OF m] op w, unfolded q]
  have "mem_rel ty (H - {op}) (x(e \<mapsto> slack x e + int (op_bytes (op_mem s op))))
    (set_data e (Event_Write buf (Some op)) (s\<lparr>write_next := (write_next s)(op := q), lp_writes := lp_writes s, op_mem := op_mem s\<rparr>))
    (L\<lparr>l_ops := (l_ops L)(e := op # l_ops L e), l_free_ops := l_free_ops L\<rparr>)"
  proof (rule ops_mem [OF m u d l])
    show "(\<Sum>o'\<leftarrow>op # l_ops L e. int (op_bytes (op_mem s o'))) -
      slack (x(e \<mapsto> slack x e + int (op_bytes (op_mem s op)))) e = cb_len buf"
      using events_okD(2) [OF m u] d by (simp add: slack_def waiting_def)
  qed (use mem_relD(6) [OF m] events_okD(2,4) [OF m u] d w in \<open>auto simp: ops_ok_def\<close>)
  then show ?thesis by simp
qed

lemma queue_append_mem:
  assumes m: "mem_rel ty H x s L" and u: "in_use L k e" and d: "data_of s e = Event_Write buf q"
    and mv: "LL_MOVE (write_next s) (lp_writes s) q = Some (h, free, q', Some op)"
    and r: "op_ok ty r" and b: "cbuf_wf buf'" "cb_len buf' = cb_len buf + int (op_bytes r)"
  shows "lp_writes s = Some op \<and> (\<exists>F. l_free_ops L = op # F \<and>
    mem_rel ty H x (set_op op r (set_data e (Event_Write buf' q') (s\<lparr>write_next := h, lp_writes := free\<rparr>)))
      (L\<lparr>l_ops := (l_ops L)(e := l_ops L e @ [op]), l_free_ops := F\<rparr>))"
proof -
  have w: "e \<in> writers s L" by (rule writer_in_use [OF u d])
  have q: "queue_of s e = q" using d by (simp add: queue_of_eq)
  have p: "lp_writes s = Some op" and free: "free = write_next s op"
    and a: "LL_APPEND op ((write_next s)(op := None)) q = Some (h, q')"
    using mv by (auto simp: LL_MOVE_def LL_POP_def split: option.splits Option.bind_splits)
  obtain F where F: "l_free_ops L = op # F"
    "lists EVENT_WRITE_QUEUE_SIZE (write_next s) (write_next s op) (queue_of s) (writers s L) F (l_ops L) (insert op H)"
    using lists_pop_free mem_relD(3) [OF m] p by metis
  have ops: "op \<notin> H" "\<And>e'. e' \<in> writers s L \<Longrightarrow> op \<notin> set (l_ops L e')"
    using mem_relD(3) [OF m] F(1) by (auto simp: lists_def)
  have "lists EVENT_WRITE_QUEUE_SIZE h (write_next s op) ((queue_of s)(e := q')) (writers s L) F
    ((l_ops L)(e := l_ops L e @ [op])) H"
  proof (rule lists_append [OF lists_write [OF F(2), of op None], of op e])
    fix h' r'
    assume "LL_APPEND op ((write_next s)(op := None)) (queue_of s e) = Some (h', r')"
      "lists EVENT_WRITE_QUEUE_SIZE h' (write_next s op) ((queue_of s)(e := r')) (writers s L) F
        ((l_ops L)(e := l_ops L e @ [op])) (insert op H - {op})"
    with a q ops(1) show ?thesis by simp
  qed (use w in simp_all)
  then have "mem_rel ty H x
    (set_data e (Event_Write buf' q') (s\<lparr>write_next := h, lp_writes := write_next s op, op_mem := (op_mem s)(op := r)\<rparr>))
    (L\<lparr>l_ops := (l_ops L)(e := l_ops L e @ [op]), l_free_ops := F\<rparr>)"
  proof (rule ops_mem [OF m u d])
    have "(\<Sum>o'\<leftarrow>l_ops L e. int (op_bytes (((op_mem s)(op := r)) o'))) = waiting s (l_ops L e)"
      using ops(2) [OF w] by (auto simp: waiting_def intro!: arg_cong [where f = sum_list])
    then show "(\<Sum>o'\<leftarrow>l_ops L e @ [op]. int (op_bytes (((op_mem s)(op := r)) o'))) - slack x e = cb_len buf'"
      using events_okD(2) [OF m u] d b by simp
  qed (use mem_relD(6) [OF m] events_okD(4) [OF m u] ops r b F(1) in \<open>auto simp: ops_ok_def\<close>)
  moreover have "set_op op r (set_data e (Event_Write buf' q') (s\<lparr>write_next := h, lp_writes := free\<rparr>)) =
    set_data e (Event_Write buf' q') (s\<lparr>write_next := h, lp_writes := write_next s op, op_mem := (op_mem s)(op := r)\<rparr>)"
    by (cases s) (simp add: set_op_def set_data_def free)
  ultimately show ?thesis using p F(1) by simp
qed

subsection \<open>Events\<close>

lemma event_fields [simp]:
  "queue_of (s\<lparr>event_next := h\<rparr>) = queue_of s" "queue_of (s\<lparr>lp_events := p\<rparr>) = queue_of s"
  "queue_of (upd_sock k f s) = queue_of s"
  "data_of (s\<lparr>event_next := h\<rparr>) = data_of s" "data_of (s\<lparr>lp_events := p\<rparr>) = data_of s"
  "data_of (s\<lparr>sock_mem := m\<rparr>) = data_of s"
  "events_of (s\<lparr>event_next := h\<rparr>) = events_of s" "events_of (s\<lparr>lp_events := p\<rparr>) = events_of s"
  "events_of (s\<lparr>event_mem := em\<rparr>) = events_of s"
  by (simp_all add: queue_of_eq data_of_def events_of_def upd_sock_def fun_eq_iff)

text \<open>A new event: \<open>event_find_free\<close>, then its fields.\<close>

lemma new_event_mem:
  assumes m: "mem_rel ty H x s L" and k: "k \<in> set (l_socks L)" and f: "event_find_free k s = (s1, Some e)"
    and d: "data_ok ty 0 d" "queue_in d = None"
    and single: "\<And>e'. single (data_type d) \<Longrightarrow> in_use L k e' \<Longrightarrow> data_type (data_of s e') \<noteq> data_type d"
  shows "\<exists>F. l_free_events L = e # F \<and>
    mem_rel ty H x (s1\<lparr>event_mem := (event_mem s1)(e := \<lparr>ev_sock = Some k, ev_data = d\<rparr>)\<rparr>)
      (L\<lparr>l_events := (l_events L)(k := e # l_events L k), l_free_events := F, l_ops := (l_ops L)(e := [])\<rparr>)"
proof -
  define t where "t = s1\<lparr>event_mem := (event_mem s1)(e := \<lparr>ev_sock = Some k, ev_data = d\<rparr>)\<rparr>"
  have p: "lp_events s = Some e" and t: "t = upd_sock k (\<lambda>j. j\<lparr>sk_events := Some e\<rparr>)
      (s\<lparr>event_next := (event_next s)(e := events_of s k), lp_events := event_next s e,
         event_mem := (event_mem s)(e := \<lparr>ev_sock = Some k, ev_data = d\<rparr>)\<rparr>)"
    using f by (auto simp: event_find_free_def LL_MOVEP_def LL_POP_def LL_PUSH_def t_def upd_sock_def
        split: option.splits)
  obtain F where F: "l_free_events L = e # F"
    "lists EVENT_MAX_EVENTS (event_next s) (event_next s e) (events_of s) (set (l_socks L)) F (l_events L) (insert e {})"
    using lists_pop_free mem_relD(2) [OF m] p by metis
  define L' where "L' = L\<lparr>l_events := (l_events L)(k := e # l_events L k), l_free_events := F, l_ops := (l_ops L)(e := [])\<rparr>"
  have e: "\<not> in_use L j e" for j using lists_apart(1) [OF mem_relD(2) [OF m], of j e] F(1) by (auto simp: in_use_def)
  have use': "in_use L' j e' \<longleftrightarrow> in_use L j e' \<or> (j = k \<and> e' = e)" for j e' using k by (auto simp: in_use_def L'_def)
  have data: "data_of t e' = (if e' = e then d else data_of s e')" for e' by (simp add: t data_of_def upd_sock_def)
  have w: "writers t L' = (if data_type d = EVENT_WRITE_TYPE then insert e (writers s L) else writers s L)"
    using e by (auto simp: writers_def use' data)
  have xe: "x e = None" using events_okD(4) [of ty H x s L] m e by (auto simp: mem_rel_def events_ok_def writers_def)
  have "event_lists t L' {}"
  proof -
    have "events_of t = (events_of s)(k := Some e)" by (auto simp: t events_of_def upd_sock_def fun_eq_iff)
    then show ?thesis using lists_push [OF F(2) _ k] by (simp add: L'_def t)
  qed
  moreover have "op_lists t L' H"
  proof -
    have q: "queue_of t = (queue_of s)(e := None)" using d(2) by (auto simp: queue_of_eq data fun_eq_iff)
    have ew: "e \<notin> writers s L" using e by (auto simp: writers_def)
    then have "j \<noteq> e" if "j \<in> writers s L" for j using that by blast
    then have o: "j \<in> writers s L \<Longrightarrow> queue_of t j = queue_of s j \<and> ((l_ops L)(e := [])) j = l_ops L j" for j
      by (simp add: q)
    have "lists EVENT_WRITE_QUEUE_SIZE (write_next s) (lp_writes s) (queue_of t) (insert e (writers s L))
        (l_free_ops L) ((l_ops L)(e := [])) H"
      by (rule lists_new_owner [OF mem_relD(3) [OF m] ew]) (use o q in auto)
    moreover have "lists EVENT_WRITE_QUEUE_SIZE (write_next s) (lp_writes s) (queue_of t) (writers s L)
        (l_free_ops L) ((l_ops L)(e := [])) H"
      by (rule lists_cong [THEN iffD2, OF _ _ mem_relD(3) [OF m]]) (use o in auto)
    moreover have "write_next t = write_next s" "lp_writes t = lp_writes s" "l_free_ops L' = l_free_ops L"
      "l_ops L' = (l_ops L)(e := [])" by (simp_all add: t L'_def)
    ultimately show ?thesis by (simp add: w)
  qed
  moreover have "events_ok ty x t L'"
    unfolding events_ok_def
  proof (intro conjI allI impI)
    show "event_ok ty x t L' j e'" if "in_use L' j e'" for j e'
    proof (cases "e' = e")
      case True
      with that e [of j] have "j = k" by (auto simp: use')
      then show ?thesis using d(1) xe True by (simp add: event_ok_def data slack_def) (simp add: t L'_def upd_sock_def)
    next
      case False
      with that have "in_use L j e'" by (simp add: use')
      from events_okD(1,2) [OF m this] False show ?thesis
        by (simp add: event_ok_def data) (simp add: t L'_def upd_sock_def waiting_def)
    qed
    show "singles_ok t L'"
      unfolding singles_ok_def
    proof (intro allI impI)
      fix j e1 e2
      assume a: "in_use L' j e1 \<and> in_use L' j e2 \<and> single (data_type (data_of t e1)) \<and>
        data_type (data_of t e1) = data_type (data_of t e2)"
      then show "e1 = e2"
        using single [of e1] single [of e2] e [of j] events_okD(3) [OF m, of j e1 e2]
        by (cases "e1 = e"; cases "e2 = e") (auto simp: use' data)
    qed
    show "dom x \<subseteq> writers t L'" using mem_relD(5) [OF m] by (auto simp: events_ok_def w)
  qed
  moreover have "sock_lists t L' {}" "socks_ok ty t L'" "ops_ok ty t L'"
    using m by (auto simp: mem_rel_def t L'_def upd_sock_def socks_ok_def sock_ok_def ops_ok_def)
  ultimately show ?thesis using F(1) by (auto simp: mem_rel_def t_def L'_def)
qed


text \<open>An event that does not write goes back to the pool.\<close>

definition released :: "nat \<Rightarrow> nat \<Rightarrow> layout \<Rightarrow> layout" where
  "released k e L = L\<lparr>l_events := (l_events L)(k := remove1 e (l_events L k)), l_free_events := e # l_free_events L\<rparr>"

lemma release_event_mem:
  assumes m: "mem_rel ty H x s L" and u: "in_use L k e" and nw: "data_type (data_of s e) \<noteq> EVENT_WRITE_TYPE"
  shows "\<exists>s1. event_delete k e s = Some s1 \<and> data_of s1 = data_of s \<and> event_mem s1 = event_mem s \<and>
    event_next s1 e = event_next s e \<and> mem_rel ty H x (event_push e (set_data e d s1)) (released k e L)"
proof -
  have k: "k \<in> set (l_socks L)" "e \<in> set (l_events L k)" using u by (auto simp: in_use_def)
  obtain h r where a: "LL_DELETE e (event_next s) (events_of s k) = Some (h, r, Some e)" "h e = event_next s e"
    "lists EVENT_MAX_EVENTS h (lp_events s) ((events_of s)(k := r)) (set (l_socks L)) (l_free_events L)
      ((l_events L)(k := remove1 e (l_events L k))) (insert e {})"
    using lists_delete [OF mem_relD(2) [OF m] k] by metis
  define s1 where "s1 = upd_sock k (\<lambda>j. j\<lparr>sk_events := r\<rparr>) (s\<lparr>event_next := h\<rparr>)"
  define t where "t = event_push e (set_data e d s1)"
  define L' where "L' = released k e L"
  have s1: "event_delete k e s = Some s1" using a(1) by (simp add: event_delete_def s1_def)
  have d1: "data_of s1 = data_of s" by (simp add: s1_def)
  have t: "t = set_data e d (upd_sock k (\<lambda>j. j\<lparr>sk_events := r\<rparr>) (s\<lparr>event_next := h(e := lp_events s), lp_events := Some e\<rparr>))"
    by (cases s) (simp add: t_def s1_def event_push_def LL_PUSH_def set_data_def upd_sock_def)
  have "distinct (l_events L k)" by (rule chain_distinct [OF listsD(2) [OF mem_relD(2) [OF m] k(1)]])
  then have use': "in_use L' j e' \<longleftrightarrow> in_use L j e' \<and> e' \<noteq> e" for j e'
    using one_owner [OF m u] by (auto simp: in_use_def L'_def released_def)
  have data: "data_of t e' = (if e' = e then d else data_of s e')" for e' by (simp add: t)
  have w: "writers t L' = writers s L" using nw by (auto simp: writers_def use' data)
  have "event_lists t L' {}"
  proof -
    have "events_of t = (events_of s)(k := r)" by (auto simp: t fun_eq_iff)
    then show ?thesis using lists_push_free [OF a(3), of e] by (simp add: t L'_def released_def)
  qed
  moreover have "op_lists t L' H"
  proof -
    have "queue_of t j = queue_of s j" if "j \<in> writers s L" for j
      using that nw by (auto simp: queue_of_eq data writers_def)
    then have "lists EVENT_WRITE_QUEUE_SIZE (write_next s) (lp_writes s) (queue_of t) (writers s L) (l_free_ops L) (l_ops L) H"
      using lists_cong [of "writers s L" "queue_of t" "queue_of s"] mem_relD(3) [OF m] by simp
    moreover have "write_next t = write_next s" "lp_writes t = lp_writes s" "l_free_ops L' = l_free_ops L"
      "l_ops L' = l_ops L" by (simp_all add: t L'_def released_def)
    ultimately show ?thesis by (simp add: w)
  qed
  moreover have "events_ok ty x t L'"
    unfolding events_ok_def
  proof (intro conjI allI impI)
    show "event_ok ty x t L' j e'" if "in_use L' j e'" for j e'
      using that events_okD(1,2) [OF m, of j e'] by (auto simp: use' event_ok_def data) (simp_all add: t L'_def released_def waiting_def)
    show "singles_ok t L'" using mem_relD(5) [OF m] by (auto simp: events_ok_def singles_ok_def use' data)
    show "dom x \<subseteq> writers t L'" using mem_relD(5) [OF m] by (auto simp: events_ok_def w)
  qed
  moreover have "sock_lists t L' {}" "socks_ok ty t L'" "ops_ok ty t L'"
    using m by (auto simp: mem_rel_def t L'_def released_def socks_ok_def sock_ok_def ops_ok_def)
  ultimately have "mem_rel ty H x t L'" by (simp add: mem_rel_def)
  with s1 d1 a(2) show ?thesis by (auto simp: t_def L'_def s1_def upd_sock_def)
qed

lemma set_data_same: "set_data e (data_of s e) s = s"
  by (simp add: set_data_def data_of_def)

subsection \<open>Sockets\<close>

text \<open>Fields that the lists do not depend on.\<close>

lemma upd_sock_mem:
  assumes m: "mem_rel ty H x s L" and k: "k \<in> set (l_socks L)" and f: "sk_events (f (sock_mem s k)) = sk_events (sock_mem s k)"
    and ok: "sock_ok ty (f (sock_mem s k))"
    and fd: "sk_state (sock_mem s k) = EVENT_SOCK_CLOSED \<or> sk_descriptor (sock_mem s k) \<notin> lp_active_fds s \<or> sk_descriptor (f (sock_mem s k)) = sk_descriptor (sock_mem s k) \<and>
      sk_state (f (sock_mem s k)) \<noteq> EVENT_SOCK_CLOSED"
  shows "mem_rel ty H x (upd_sock k f s) L"
proof -
  have ev: "events_of (upd_sock k f s) = events_of s" using f by (auto simp: fun_eq_iff events_of_def)
  have w: "writers (upd_sock k f s) L = writers s L" by (simp add: writers_def)
  have singles: "singles_ok (upd_sock k f s) L = singles_ok s L" by (simp add: singles_ok_def)
  have "socks_ok ty (upd_sock k f s) L"
    unfolding socks_ok_def
  proof (intro conjI ballI)
    fix d assume "d \<in> lp_active_fds (upd_sock k f s)"
    then obtain j where j: "j \<in> set (l_socks L)" "sk_descriptor (sock_mem s j) = d" "sk_state (sock_mem s j) \<noteq> EVENT_SOCK_CLOSED"
      using mem_relD(4) [OF m] by (auto simp: socks_ok_def)
    then show "\<exists>j \<in> set (l_socks L). sk_descriptor (sock_mem (upd_sock k f s) j) = d \<and>
        sk_state (sock_mem (upd_sock k f s) j) \<noteq> EVENT_SOCK_CLOSED"
      using fd \<open>d \<in> lp_active_fds (upd_sock k f s)\<close> by (intro bexI [of _ j]) auto
  qed (use ok mem_relD(4) [OF m] in \<open>auto simp: socks_ok_def\<close>)
  with m show ?thesis
    by (simp add: mem_rel_def ev w ops_ok_def events_ok_def event_ok_def singles)
qed

lemma other_fields_mem [simp]:
  "mem_rel ty H x (s\<lparr>lp_nfds := n\<rparr>) L = mem_rel ty H x s L" "mem_rel ty H x (os_do c s) L = mem_rel ty H x s L"
  "mem_rel ty H x (s\<lparr>os := env\<rparr>) L = mem_rel ty H x s L" "mem_rel ty H x (s\<lparr>lp_running := b\<rparr>) L = mem_rel ty H x s L"
  by (rule mem_rel_memory; simp add: memory_def os_do_def)+

lemma active_fds_mem:
  assumes "mem_rel ty H x s L" "\<And>fd. fd \<in> S \<Longrightarrow> fd \<in> lp_active_fds s \<or> (\<exists>k \<in> set (l_socks L). sk_descriptor (sock_mem s k) = fd \<and>
    sk_state (sock_mem s k) \<noteq> EVENT_SOCK_CLOSED)"
  shows "mem_rel ty H x (s\<lparr>lp_active_fds := S\<rparr>) L"
proof -
  have "socks_ok ty (s\<lparr>lp_active_fds := S\<rparr>) L"
    using mem_relD(4) [OF assms(1)] assms(2) by (simp add: socks_ok_def) blast
  moreover have "data_of (s\<lparr>lp_active_fds := S\<rparr>) = data_of s" "events_of (s\<lparr>lp_active_fds := S\<rparr>) = events_of s"
    by (simp_all add: data_of_def events_of_def fun_eq_iff)
  moreover from this have "queue_of (s\<lparr>lp_active_fds := S\<rparr>) = queue_of s" "writers (s\<lparr>lp_active_fds := S\<rparr>) L = writers s L"
    "singles_ok (s\<lparr>lp_active_fds := S\<rparr>) L = singles_ok s L"
    by (simp_all add: queue_of_eq writers_def singles_ok_def fun_eq_iff)
  ultimately show ?thesis
    using assms(1) by (simp add: mem_rel_def ops_ok_def events_ok_def event_ok_def waiting_def)
qed


lemma sock_create_mem:
  assumes m: "mem_rel ty H x s L" and c: "event_sock_create s = Some (s', k)"
  shows "\<exists>F. l_free_socks L = k # F \<and>
    mem_rel ty H x s' (L\<lparr>l_socks := k # l_socks L, l_free_socks := F, l_events := (l_events L)(k := [])\<rparr>)"
proof -
  have p: "lp_sockets s = Some k" and s': "s' = s\<lparr>lp_sockets := sock_next s k,
      sock_mem := (sock_mem s)(k := null_sock\<lparr>sk_loop := True, sk_state := EVENT_SOCK_CLOSED, sk_descriptor := - 1\<rparr>),
      sock_next := (sock_next s)(k := lp_reserved s), lp_reserved := Some k\<rparr>"
    using c by (cases s; auto simp: event_sock_create_def LL_POP_def LL_PUSH_def split: option.splits)+
  obtain F where F: "l_free_socks L = k # F"
    "lists EVENT_MAX_SOCKETS (sock_next s) (sock_next s k) (\<lambda>_ :: unit. lp_reserved s) UNIV F (\<lambda>_. l_socks L) (insert k {})"
    using lists_pop_free mem_relD(1) [OF m] p by metis
  define L' where "L' = L\<lparr>l_socks := k # l_socks L, l_free_socks := F, l_events := (l_events L)(k := [])\<rparr>"
  have k: "k \<notin> set (l_socks L)" using lists_apart(1) [OF mem_relD(1) [OF m], of "()" k] F(1) by auto
  have use': "in_use L' j e \<longleftrightarrow> in_use L j e" for j e using k by (auto simp: in_use_def L'_def)
  have data: "data_of s' = data_of s" by (simp add: s' data_of_def fun_eq_iff)
  then have w: "writers s' L' = writers s L" and q: "queue_of s' = queue_of s" and sg: "singles_ok s' L' = singles_ok s L"
    by (simp_all add: writers_def use' queue_of_eq singles_ok_def fun_eq_iff)
  have "sock_lists s' L' {}"
    using lists_push [OF F(2), of k "()"] by (simp add: s' L'_def fun_upd_def)
  moreover have "event_lists s' L' {}"
  proof -
    have "events_of s' k = None" "\<And>j. j \<in> set (l_socks L) \<Longrightarrow> events_of s' j = events_of s j"
      using k by (auto simp: s' events_of_def null_sock_def)
    from lists_new_owner [OF mem_relD(2) [OF m] k this] show ?thesis by (simp add: s' L'_def)
  qed
  moreover have "op_lists s' L' H" using mem_relD(3) [OF m] by (simp add: w q) (simp add: s' L'_def)
  moreover have "socks_ok ty s' L'"
    using mem_relD(4) [OF m] k by (auto simp: socks_ok_def sock_ok_def s' L'_def null_sock_def)
  moreover have "events_ok ty x s' L'" using mem_relD(5) [OF m]
    by (simp add: events_ok_def event_ok_def use' w sg data) (simp add: s' L'_def waiting_def)
  moreover have "ops_ok ty s' L'" using mem_relD(6) [OF m] by (simp add: ops_ok_def s' L'_def)
  ultimately show ?thesis using F(1) by (auto simp: mem_rel_def L'_def)
qed

text \<open>The memory after \<open>event_loop_init\<close>.\<close>

definition init_layout :: layout where
  "init_layout = \<lparr>l_socks = [], l_free_socks = [0..<EVENT_MAX_SOCKETS], l_events = (\<lambda>_. []),
     l_free_events = [0..<EVENT_MAX_EVENTS], l_ops = (\<lambda>_. []), l_free_ops = [0..<EVENT_WRITE_QUEUE_SIZE]\<rparr>"

lemma loop_init_mem: "mem_rel ty {} Map.empty (event_loop_init s) init_layout"
proof -
  have n: "0 < EVENT_MAX_SOCKETS" "0 < EVENT_MAX_EVENTS" "0 < EVENT_WRITE_QUEUE_SIZE"
    by (simp_all add: EVENT_MAX_SOCKETS_def EVENT_MAX_EVENTS_def EVENT_WRITE_QUEUE_SIZE_def)
  have u: "\<not> in_use init_layout k e" for k e by (simp add: in_use_def init_layout_def)
  then have w: "writers (event_loop_init s) init_layout = {}" by (simp add: writers_def)
  have "lists EVENT_MAX_SOCKETS (fst (LL_INIT EVENT_MAX_SOCKETS)) (snd (LL_INIT EVENT_MAX_SOCKETS)) (\<lambda>_. None)
      (insert () {}) [0..<EVENT_MAX_SOCKETS] ((\<lambda>_. [])(() := [])) {}"
    by (rule lists_new_owner [OF lists_init [OF n(1)]]) simp_all
  moreover have "insert () {} = UNIV" "((\<lambda>_. [])(() := [])) = (\<lambda>_ :: unit. [] :: nat list)" by auto
  ultimately have "sock_lists (event_loop_init s) init_layout {}"
    by (simp add: event_loop_init_def init_layout_def case_prod_beta)
  moreover have "event_lists (event_loop_init s) init_layout {}" "op_lists (event_loop_init s) init_layout {}"
    using lists_init [OF n(2)] lists_init [OF n(3)]
    unfolding w by (simp_all add: event_loop_init_def init_layout_def case_prod_beta)
  ultimately show ?thesis
    using u by (auto simp: mem_rel_def socks_ok_def events_ok_def singles_ok_def ops_ok_def)
      (simp_all add: init_layout_def event_loop_init_def split: prod.splits)
qed

end
