(* ===== verification/Event_Operations.thy ===== *)
theory Event_Operations
  imports Event_Memory
begin

text \<open>
  The operations of the event loop on its memory: each one keeps \<open>mem_ok\<close>, whatever functions of the loop
  are in the middle of their work (\<open>H\<close> and \<open>x\<close> are arbitrary), and \<open>evolves\<close> says what it leaves alone: the
  sockets in use, their user data, and timers that were set.
\<close>

definition mem_ok :: "('cb \<Rightarrow> event_type option) \<Rightarrow> nat set \<Rightarrow> (nat \<rightharpoonup> int) \<Rightarrow> ('cb, 'z) event_loop_scheme \<Rightarrow> bool" where
  "mem_ok ty H x s \<longleftrightarrow> (\<exists>L. mem_rel ty H x s L)"

definition has_timer :: "('cb, 'z) event_loop_scheme \<Rightarrow> nat \<Rightarrow> nat \<Rightarrow> bool" where
  "has_timer s k e \<longleftrightarrow> k \<in> set (reserved_socks s) \<and> e \<in> set (sock_events s k) \<and> data_type (data_of s e) = EVENT_TIMER_TYPE"

text \<open>A write buffer that has ended takes nothing any more.\<close>

definition shut :: "('cb, 'z) event_loop_scheme \<Rightarrow> nat \<Rightarrow> nat \<Rightarrow> cbuf \<Rightarrow> bool" where
  "shut s k e buf \<longleftrightarrow> k \<in> set (reserved_socks s) \<and> e \<in> set (sock_events s k) \<and> cbuf_has_ended buf \<and>
     (\<exists>q. data_of s e = Event_Write buf q)"

definition evolves :: "('cb, 'z) event_loop_scheme \<Rightarrow> ('cb, 'z) event_loop_scheme \<Rightarrow> bool" where
  "evolves s s' \<longleftrightarrow> reserved_socks s' = reserved_socks s \<and> (\<forall>j. sk_data (sock_mem s' j) = sk_data (sock_mem s j)) \<and>
     (\<forall>j e. has_timer s j e \<longrightarrow> has_timer s' j e) \<and> (\<forall>j e buf. shut s j e buf \<longrightarrow> shut s' j e buf)"

lemma evolves_refl [simp]: "evolves s s"
  by (simp add: evolves_def)

lemma evolves_trans [trans]: "evolves s t \<Longrightarrow> evolves t u \<Longrightarrow> evolves s u"
  by (simp add: evolves_def)

lemma has_timer_layout:
  "mem_rel ty H x s L \<Longrightarrow> has_timer s k e \<longleftrightarrow> in_use L k e \<and> data_type (data_of s e) = EVENT_TIMER_TYPE"
  by (auto simp: has_timer_def in_use_def layout_eqs)

lemma shut_layout:
  "mem_rel ty H x s L \<Longrightarrow> shut s k e buf \<longleftrightarrow> in_use L k e \<and> cbuf_has_ended buf \<and> (\<exists>q. data_of s e = Event_Write buf q)"
  by (auto simp: shut_def in_use_def layout_eqs)

lemma evolvesI:
  assumes "mem_rel ty H x s L" "mem_rel ty H' x' s' L'" "l_socks L' = l_socks L"
    "\<And>j. sk_data (sock_mem s' j) = sk_data (sock_mem s j)"
    "\<And>j e. in_use L j e \<Longrightarrow> data_type (data_of s e) = EVENT_TIMER_TYPE \<Longrightarrow>
      in_use L' j e \<and> data_type (data_of s' e) = EVENT_TIMER_TYPE"
    "\<And>j e buf q. in_use L j e \<Longrightarrow> data_of s e = Event_Write buf q \<Longrightarrow> cbuf_has_ended buf \<Longrightarrow>
      in_use L' j e \<and> (\<exists>q'. data_of s' e = Event_Write buf q')"
  shows "mem_ok ty H' x' s' \<and> evolves s s'"
  using assms(1-4) unfolding evolves_def has_timer_layout [OF assms(1)] has_timer_layout [OF assms(2)]
    shut_layout [OF assms(1)] shut_layout [OF assms(2)] layout_eqs(1) [OF assms(1)] layout_eqs(1) [OF assms(2)] mem_ok_def
  by (meson assms(5,6))

lemma reserved_layout: "mem_rel ty H x s L \<Longrightarrow> k \<in> set (reserved_socks s) \<longleftrightarrow> k \<in> set (l_socks L)"
  by (simp add: layout_eqs)

lemma set_data_ok:
  assumes "mem_rel ty H x s L" "mem_rel ty H' x' (set_data e d s) L'" "data_type d = data_type (data_of s e)"
    "in_use L' = in_use L" "l_socks L' = l_socks L"
    "\<And>buf q. data_of s e = Event_Write buf q \<Longrightarrow> cbuf_has_ended buf \<Longrightarrow> \<exists>q'. d = Event_Write buf q'"
  shows "mem_ok ty H' x' (set_data e d s) \<and> evolves s (set_data e d s)"
  by (rule evolvesI [OF assms(1,2)]) (use assms(3-6) in auto)

lemma ended_buffer:
  assumes "cbuf_has_ended buf"
  shows "cbuf_push buf b n = Some (buf, 0)" "cbuf_end buf = buf"
  using assms by (auto simp: cbuf_has_ended_def cbuf_push_def cbuf_end_def cbuf_push_loop.simps)

lemma pop_drops:
  assumes "cbuf_wf cb" "cbuf_pop cb None n = Some (cb', d, r)"
  shows "cbuf_wf cb'" "cb_len cb' = cb_len cb - pop_avail cb n" "cb_state cb' = cb_state cb" "cb_ptr cb' = cb_ptr cb"
proof -
  have f: "fits None 0 (pop_avail cb n)" by (simp add: fits_def)
  obtain b where b: "cbuf_pop cb None n = Some (b, filled None 0 (take (nat (pop_avail cb n)) (cbuf_contents cb)), pop_avail cb n)"
    "cbuf_wf b" "cbuf_contents b = drop (nat (pop_avail cb n)) (cbuf_contents cb)" "cb_state b = cb_state cb" "cb_ptr b = cb_ptr cb"
    using cbuf_pop_correct [OF assms(1) f] by metis
  have "nat (cb_len b) = nat (cb_len cb) - nat (pop_avail cb n)"
    using arg_cong [where f = length, OF b(3)] by (simp only: length_cbuf_contents length_drop)
  moreover have "0 \<le> pop_avail cb n" "pop_avail cb n \<le> cb_len cb" "0 \<le> cb_len b"
    using assms(1) b(2) by (auto simp: pop_avail_def cbuf_wf_def)
  ultimately show "cbuf_wf cb'" "cb_len cb' = cb_len cb - pop_avail cb n" "cb_state cb' = cb_state cb" "cb_ptr cb' = cb_ptr cb"
    using assms(2) b by auto
qed

subsection \<open>Starting to listen, to read and to write\<close>

text \<open>What all operations that take a new event share.\<close>

lemma new_event_ok:
  assumes m: "mem_rel ty H x s L" and k: "k \<in> set (reserved_socks s)" and f: "event_find_free k s = (s1, Some e)"
    and d: "data_ok ty 0 d" "queue_in d = None"
    and single: "single (data_type d) \<Longrightarrow> event_find s (events_of s k) (data_type d) = Some None"
  shows "mem_ok ty H x (s1\<lparr>event_mem := (event_mem s1)(e := \<lparr>ev_sock = Some k, ev_data = d\<rparr>)\<rparr>) \<and>
    evolves s (s1\<lparr>event_mem := (event_mem s1)(e := \<lparr>ev_sock = Some k, ev_data = d\<rparr>)\<rparr>) \<and>
    (data_type d = EVENT_TIMER_TYPE \<longrightarrow> has_timer (s1\<lparr>event_mem := (event_mem s1)(e := \<lparr>ev_sock = Some k, ev_data = d\<rparr>)\<rparr>) k e)"
    (is "mem_ok ty H x ?t \<and> _ \<and> _")
proof -
  have kl: "k \<in> set (l_socks L)" using k by (simp add: reserved_layout [OF m])
  have "single (data_type d) \<Longrightarrow> in_use L k e' \<Longrightarrow> data_type (data_of s e') \<noteq> data_type d" for e'
    using find_in_use(2) [OF m kl single] by blast
  from new_event_mem [OF m kl f d this] obtain F where F: "l_free_events L = e # F"
    "mem_rel ty H x ?t (L\<lparr>l_events := (l_events L)(k := e # l_events L k), l_free_events := F, l_ops := (l_ops L)(e := [])\<rparr>)"
    (is "mem_rel ty H x ?t ?L") by blast
  have ne: "e' \<noteq> e" if "in_use L j e'" for j e'
    using lists_apart(1) [OF mem_relD(2) [OF m], of j e'] that F(1) by (auto simp: in_use_def)
  have use': "in_use ?L j e' \<longleftrightarrow> in_use L j e' \<or> (j = k \<and> e' = e)" for j e' using kl by (auto simp: in_use_def)
  have data: "data_of ?t e' = (if e' = e then d else data_of s e')" "sk_data (sock_mem ?t j) = sk_data (sock_mem s j)" for e' j
    using f by (auto simp: event_find_free_def data_of_def upd_sock_def LL_MOVEP_def LL_POP_def LL_PUSH_def split: option.splits)
  have "mem_ok ty H x ?t \<and> evolves s ?t"
  proof (rule evolvesI [OF m F(2)])
    show "in_use ?L j e' \<and> data_type (data_of ?t e') = EVENT_TIMER_TYPE"
      if "in_use L j e'" "data_type (data_of s e') = EVENT_TIMER_TYPE" for j e'
      unfolding use' data using that ne [OF that(1)] by simp
    show "in_use ?L j e' \<and> (\<exists>q'. data_of ?t e' = Event_Write buf q')"
      if "in_use L j e'" "data_of s e' = Event_Write buf q" for j e' buf q
      unfolding use' data using that ne [OF that(1)] by simp
  qed (use data(2) in simp_all)
  moreover have "has_timer ?t k e" if "data_type d = EVENT_TIMER_TYPE"
    using that unfolding has_timer_layout [OF F(2)] use' data by simp
  ultimately show ?thesis by blast
qed

lemma read_start_ok:
  assumes "event_read_start k buf n cb s = Some s'" "mem_ok ty H x s" "k \<in> set (reserved_socks s)"
    "typed ty (Some EVENT_READ_TYPE) cb" "0 < n" "nat n \<le> length (the buf)"
  shows "mem_ok ty H x s' \<and> evolves s s'"
proof -
  obtain L where m: "mem_rel ty H x s L" using assms(2) by (auto simp: mem_ok_def)
  from assms(1) obtain b c e s1 where e: "buf = Some b" "cb = Some c" "event_find_free k s = (s1, Some e)"
    "event_find s (events_of s k) EVENT_READ_TYPE = Some None"
    "s' = s1\<lparr>event_mem := (event_mem s1)(e := \<lparr>ev_sock = Some k, ev_data = Event_Read (cbuf_init b n) (Some c)\<rparr>)\<rparr>"
    by (auto simp: event_read_start_def Let_def split: option_splits)
  then show ?thesis
    using new_event_ok [OF m assms(3) e(3), of "Event_Read (cbuf_init b n) (Some c)"] assms(4-6) cbuf_init_wf(1) [of n b] by simp
qed

lemma write_enable_ok:
  assumes "event_write_enable k buf n s = Some s'" "mem_ok ty H x s" "k \<in> set (reserved_socks s)" "nat n \<le> length (the buf)"
  shows "mem_ok ty H x s' \<and> evolves s s'"
proof -
  obtain L where m: "mem_rel ty H x s L" using assms(2) by (auto simp: mem_ok_def)
  from assms(1) obtain b e s1 where e: "buf = Some b" "event_find_free k s = (s1, Some e)" "0 < n"
    "event_find s (events_of s k) EVENT_WRITE_TYPE = Some None"
    "s' = s1\<lparr>event_mem := (event_mem s1)(e := \<lparr>ev_sock = Some k, ev_data = Event_Write (cbuf_init b n) None\<rparr>)\<rparr>"
    by (auto simp: event_write_enable_def Let_def split: option_splits)
  then show ?thesis
    using new_event_ok [OF m assms(3) e(2), of "Event_Write (cbuf_init b n) None"] assms(4) cbuf_init_wf(1) [of n b]
    by (simp add: cbuf_init_def)
qed

lemma timer_set_ok:
  assumes "event_timer_set k n cb s = Some (s', e)" "mem_ok ty H x s" "k \<in> set (reserved_socks s)"
    "typed ty (Some EVENT_TIMER_TYPE) cb"
  shows "mem_ok ty H x s' \<and> evolves s s' \<and> has_timer s' k e"
proof -
  obtain L where m: "mem_rel ty H x s L" using assms(2) by (auto simp: mem_ok_def)
  from assms(1) obtain c s1 where e: "cb = Some c" "event_find_free k s = (s1, Some e)"
    "s' = s1\<lparr>event_mem := (event_mem s1)(e := \<lparr>ev_sock = Some k, ev_data = Event_Timer n (os_now (os s1)) (Some c)\<rparr>)\<rparr>"
    by (auto simp: event_timer_set_def Let_def split: option_splits)
  then show ?thesis
    using new_event_ok [OF m assms(3) e(2), of "Event_Timer n (os_now (os s1)) (Some c)"] assms(4)
    by (simp add: single_def)
qed


lemma listen_ok:
  assumes "event_listen k port cb s = Some (s', r)" "mem_ok ty H x s" "k \<in> set (reserved_socks s)"
    "typed ty (Some EVENT_CONNECTION_TYPE) cb"
  shows "mem_ok ty H x s' \<and> evolves s s'"
proof -
  obtain L where m: "mem_rel ty H x s L" using assms(2) by (auto simp: mem_ok_def)
  have k: "k \<in> set (l_socks L)" using assms(3) by (simp add: reserved_layout [OF m])
  have st: "sk_state (sock_mem s k) = EVENT_SOCK_CLOSED" "sock_ok ty (sock_mem s k)"
    using assms(1) mem_relD(4) [OF m] k by (auto simp: event_listen_def socks_ok_def split: Option.bind_splits if_splits)
  define s1 where "s1 = upd_sock k (\<lambda>j. j\<lparr>sk_descriptor := os_socket (os s)\<rparr>) s"
  define s2 where "s2 = upd_sock k (\<lambda>j. j\<lparr>sk_state := EVENT_SOCK_LISTENING\<rparr>) (os_do (Os_Listen (os_socket (os s)) (EVENT_MAX_SOCKETS - 1))
      (os_do (Os_Bind (os_socket (os s)) port) s1)\<lparr>lp_nfds := os_socket (os s) + 1, lp_active_fds := insert (os_socket (os s)) (lp_active_fds s)\<rparr>)"
  have m1: "mem_rel ty H x s1 L" unfolding s1_def
    by (rule upd_sock_mem [OF m k]) (use st in \<open>simp_all add: sock_ok_def\<close>)
  have m2: "mem_rel ty H x s2 L"
  proof -
    have "mem_rel ty H x (upd_sock k (\<lambda>j. j\<lparr>sk_state := EVENT_SOCK_LISTENING\<rparr>) s1) L"
      by (rule upd_sock_mem [OF m1 k]) (use st in \<open>simp_all add: s1_def sock_ok_def\<close>)
    then have "mem_rel ty H x ((upd_sock k (\<lambda>j. j\<lparr>sk_state := EVENT_SOCK_LISTENING\<rparr>) s1)\<lparr>lp_active_fds :=
        insert (os_socket (os s)) (lp_active_fds s)\<rparr>) L"
      by (rule active_fds_mem) (use k in \<open>auto simp: s1_def\<close>)
    then show ?thesis
      by (rule mem_rel_memory [THEN iffD1, rotated]) (simp add: memory_def s2_def upd_sock_def os_do_def)
  qed
  have e1: "mem_ok ty H x s1 \<and> evolves s s1" by (rule evolvesI [OF m m1]) (auto simp: s1_def)
  have e2: "mem_ok ty H x s2 \<and> evolves s s2"
  proof (rule evolvesI [OF m m2])
    have "data_of s2 = data_of s" by (simp add: s2_def s1_def data_of_def upd_sock_def os_do_def fun_eq_iff)
    then show "in_use L j e \<Longrightarrow> data_type (data_of s e) = EVENT_TIMER_TYPE \<Longrightarrow>
        in_use L j e \<and> data_type (data_of s2 e) = EVENT_TIMER_TYPE"
      "in_use L j e \<Longrightarrow> data_of s e = Event_Write buf q \<Longrightarrow> in_use L j e \<and> (\<exists>q'. data_of s2 e = Event_Write buf q')"
      for j e buf q by auto
  qed (simp_all add: s2_def s1_def upd_sock_def os_do_def)
  have fin: "mem_ok ty H x s' \<and> evolves s s'" if "s' = os_do (Os_Close fd) s1 \<or> s' = s1 \<or>
      s' = os_do (Os_Close fd) (os_do (Os_Bind fd port) s1)" for fd
  proof -
    have "mem_rel ty H x s' L" "\<And>j. sk_data (sock_mem s' j) = sk_data (sock_mem s j)" "data_of s' = data_of s"
      using that m1 by (auto simp: s1_def)
    then show ?thesis by (intro evolvesI [OF m]) auto
  qed
  from assms(1,4) show ?thesis
  proof (cases "r = 0")
    case True
    with assms(1) obtain c s3 e where c: "cb = Some c" "event_find_free k s2 = (s3, Some e)"
      "s' = s3\<lparr>event_mem := (event_mem s3)(e := \<lparr>ev_sock = Some k, ev_data = Event_Connection (Some c)\<rparr>)\<rparr>"
      by (auto simp: event_listen_def Let_def fd_set_def s2_def s1_def os_do_def split: option_splits)
    have "k \<in> set (reserved_socks s2)" using k by (simp add: reserved_layout [OF m2])
    from new_event_ok [OF m2 this c(2), of "Event_Connection (Some c)"] assms(4) c(1,3) e2 show ?thesis
      by (auto simp: single_def intro: evolves_trans)
  next
    case False
    with assms(1) fin [of "os_socket (os s)"] show ?thesis
      by (auto simp: event_listen_def Let_def s1_def [symmetric] split: option_splits)
  qed
qed

subsection \<open>Reading\<close>

lemma read_ok:
  assumes "event_read k cb s = Some (s', r)" "mem_ok ty H x s" "k \<in> set (reserved_socks s)"
    "typed ty (Some EVENT_READ_TYPE) cb"
  shows "mem_ok ty H x s' \<and> evolves s s'"
proof -
  obtain L where m: "mem_rel ty H x s L" using assms(2) by (auto simp: mem_ok_def)
  have k: "k \<in> set (l_socks L)" using assms(3) by (simp add: reserved_layout [OF m])
  from assms(1) obtain c e buf cb' where e: "cb = Some c" "event_find s (events_of s k) EVENT_READ_TYPE = Some (Some e)"
    "data_of s e = Event_Read buf cb'" "s' = set_data e (Event_Read buf (Some c)) s"
    by (auto simp: event_read_def member_of_union split: option_splits)
  have u: "in_use L k e" using find_in_use(1) [OF m k e(2) refl] by blast
  have "mem_rel ty H x s' L"
    unfolding e(4) by (rule set_read_mem [OF m u e(3)]) (use assms(4) e events_okD(2) [OF m u] in auto)
  then show ?thesis unfolding e(4) by (rule set_data_ok [OF m]) (simp_all add: e(3))
qed

text \<open>\<open>event_read_stop\<close> returns in every state; the bytes not yet read are in front of the buffer.\<close>

lemma read_stop_total:
  assumes m: "mem_rel ty H x s L" and k: "k \<in> set (l_socks L)"
  obtains "event_find s (events_of s k) EVENT_READ_TYPE = Some None" "event_read_stop k s = Some (s, 0)"
  | e buf cb buf' s1 where "in_use L k e" "data_of s e = Event_Read buf cb" "cbuf_wf buf" "cb_len buf' = 0" "cbuf_wf buf'"
    "cb_ptr buf' = overwrite (cb_ptr buf) 0 (cbuf_contents buf)"
    "event_delete k e s = Some s1" "event_read_stop k s = Some (event_push e (set_data e (Event_Read buf' None) s1), cb_len buf)"
proof -
  have lp: "sk_loop (sock_mem s k)" using mem_relD(4) [OF m] k by (simp add: socks_ok_def sock_ok_def)
  show ?thesis
  proof (cases "find (\<lambda>e. data_type (data_of s e) = EVENT_READ_TYPE) (l_events L k)")
    case None
    then have "event_find s (events_of s k) EVENT_READ_TYPE = Some None" by (simp add: find_correct [OF m k])
    with lp that(1) show ?thesis by (simp add: event_read_stop_def)
  next
    case (Some e)
    then have f: "event_find s (events_of s k) EVENT_READ_TYPE = Some (Some e)" by (simp add: find_correct [OF m k])
    then have u: "in_use L k e" "data_type (data_of s e) = EVENT_READ_TYPE" using find_in_use(1) [OF m k] by blast+
    then obtain buf cb where d: "data_of s e = Event_Read buf cb" by (auto simp: data_type_cases)
    have wf: "cbuf_wf buf" using events_okD(2) [OF m u(1)] d by simp
    obtain s1 where s1: "event_delete k e s = Some s1" "data_of s1 = data_of s"
      using release_event_mem [OF m u(1)] u(2) by fastforce
    have av: "pop_avail buf (cb_len buf) = cb_len buf" "0 \<le> cb_len buf" "cb_len buf \<le> cb_maxlen buf"
      "nat (cb_maxlen buf) \<le> length (cb_ptr buf)" using wf by (auto simp: pop_avail_def cbuf_wf_def)
    have "fits (Some (replicate (nat (cb_len buf)) 0)) 0 (pop_avail buf (cb_len buf))" using av by (simp add: fits_def)
    from cbuf_pop_correct [OF wf this] obtain b where b: "cbuf_pop buf (Some (replicate (nat (cb_len buf)) 0)) (cb_len buf) =
        Some (b, filled (Some (replicate (nat (cb_len buf)) 0)) 0 (take (nat (cb_len buf)) (cbuf_contents buf)), cb_len buf)"
      "cbuf_wf b" "cbuf_contents b = drop (nat (cb_len buf)) (cbuf_contents buf)" "cb_ptr b = cb_ptr buf"
      unfolding av(1) by metis
    have out: "filled (Some (replicate (nat (cb_len buf)) 0)) 0 (cbuf_contents buf) = Some (cbuf_contents buf)"
      by (simp add: filled_def overwrite_def)
    have cp: "memcpy (cb_ptr buf) 0 (cbuf_contents buf) 0 (cb_len buf) = Some (overwrite (cb_ptr buf) 0 (cbuf_contents buf))"
      using av by (simp add: memcpy_eq_Some_iff)
    have len: "cb_len b = 0" "cbuf_wf (b\<lparr>cb_ptr := overwrite (cb_ptr buf) 0 (cbuf_contents buf)\<rparr>)"
    proof -
      have "nat (cb_len b) = 0" using arg_cong [where f = length, OF b(3)] by (simp only: length_cbuf_contents length_drop diff_self_eq_0)
      then show "cb_len b = 0" using b(2) by (simp add: cbuf_wf_def)
      have "length (overwrite (cb_ptr buf) 0 (cbuf_contents buf)) = length (cb_ptr buf)" using av by (simp add: overwrite_def)
      with b(2,4) show "cbuf_wf (b\<lparr>cb_ptr := overwrite (cb_ptr buf) 0 (cbuf_contents buf)\<rparr>)" by (simp add: cbuf_wf_def)
    qed
    have "event_read_stop k s = Some (event_push e (set_data e (Event_Read (b\<lparr>cb_ptr := overwrite (cb_ptr buf) 0 (cbuf_contents buf)\<rparr>) None) s1), cb_len buf)"
      using lp f s1 d b(1) cp by (simp add: event_read_stop_def cbuf_len_def Let_def out b(4))
    then show ?thesis by (rule that(2) [OF u(1) d wf _ _ _ s1(1), rotated 3]) (use len in simp_all)
  qed
qed

lemma read_stop_ok:
  assumes "event_read_stop k s = Some (s', r)" "mem_ok ty H x s" "k \<in> set (reserved_socks s)"
  shows "mem_ok ty H x s' \<and> evolves s s'"
proof -
  obtain L where m: "mem_rel ty H x s L" using assms(2) by (auto simp: mem_ok_def)
  have k: "k \<in> set (l_socks L)" using assms(3) by (simp add: reserved_layout [OF m])
  show ?thesis
  proof (rule read_stop_total [OF m k])
    fix e buf cb buf' s1
    assume u: "in_use L k e" and d: "data_of s e = Event_Read buf cb" and s1: "event_delete k e s = Some s1"
      and r: "event_read_stop k s = Some (event_push e (set_data e (Event_Read buf' None) s1), cb_len buf)"
    have s': "s' = event_push e (set_data e (Event_Read buf' None) s1)" using assms(1) r by simp
    have m': "mem_rel ty H x s' (released k e L)" and d1: "data_of s1 = data_of s"
      using release_event_mem [OF m u, of "Event_Read buf' None"] d s1 s' by auto
    show ?thesis
    proof (rule evolvesI [OF m m'])
      show "in_use (released k e L) j e' \<and> data_type (data_of s' e') = EVENT_TIMER_TYPE"
        if "in_use L j e'" "data_type (data_of s e') = EVENT_TIMER_TYPE" for j e'
        using that d d1 by (auto simp: s' in_use_def released_def event_push_def LL_PUSH_def)
      show "in_use (released k e L) j e' \<and> (\<exists>q'. data_of s' e' = Event_Write bf q')"
        if "in_use L j e'" "data_of s e' = Event_Write bf q" for j e' bf q
        using that d d1 by (auto simp: s' in_use_def released_def event_push_def LL_PUSH_def)
    qed (use s1 in \<open>auto simp: s' released_def event_delete_def event_push_def LL_PUSH_def split: option_splits\<close>)
  qed (use assms m in \<open>auto simp: mem_ok_def\<close>)
qed


subsection \<open>Writing\<close>

text \<open>
  \<open>event_write\<close> on a connected socket that can write: it fails only if bytes were accepted and no write
  operation is free.
\<close>

lemma write_cases:
  assumes "event_write k n bytes cb s = Some (s', r)" "mem_rel ty H x s L" "k \<in> set (l_socks L)"
    "typed ty (Some EVENT_WRITE_TYPE) cb"
  obtains e buf q buf' where "in_use L k e" "data_of s e = Event_Write buf q" "cbuf_push buf (the bytes) n = Some (buf', r)"
    "r = 0" "s' = set_data e (Event_Write buf' q) s" "mem_rel ty H x s' L"
  | e buf q buf' op F q' where "in_use L k e" "data_of s e = Event_Write buf q" "cbuf_push buf (the bytes) n = Some (buf', r)"
    "0 < r" "l_free_ops L = op # F" "data_of s' e = Event_Write buf' q'" "\<And>e'. e' \<noteq> e \<Longrightarrow> data_of s' e' = data_of s e'"
    "op_mem s' op = \<lparr>op_bytes = nat r, op_cb = cb\<rparr>" "sock_mem s' = sock_mem s"
    "mem_rel ty H x s' (L\<lparr>l_ops := (l_ops L)(e := l_ops L e @ [op]), l_free_ops := F\<rparr>)"
    "\<And>op'. op' \<noteq> op \<Longrightarrow> op_mem s' op' = op_mem s op'"
proof -
  note m = assms(2)
  from assms(1) obtain c b e buf q buf' where e: "cb = Some c" "bytes = Some b"
    "event_find s (events_of s k) EVENT_WRITE_TYPE = Some (Some e)" "data_of s e = Event_Write buf q"
    "cbuf_push buf b n = Some (buf', r)"
    by (auto simp: event_write_def member_of_union split: option_splits)
  have u: "in_use L k e" using find_in_use(1) [OF m assms(3) e(3) refl] by blast
  have wf: "cbuf_wf buf" using events_okD(2) [OF m u] e(4) by simp
  from cbuf_push_keeps [OF e(5) wf] have b: "cbuf_wf buf'" "cb_len buf' = cb_len buf + r" "0 \<le> r" by auto
  show ?thesis
  proof (cases "r > 0")
    case False
    then have "s' = set_data e (Event_Write buf' q) s" using assms(1) e by (auto simp: event_write_def split: option_splits)
    moreover have "mem_rel ty H x (set_data e (Event_Write buf' q) s) L"
      by (rule set_write_mem [OF m u e(4) b(1)]) (use b False in simp)
    ultimately show ?thesis using that(1) [OF u e(4)] e(2,5) b(3) False by auto
  next
    case True
    then obtain h free q' op where mv: "LL_MOVE (write_next s) (lp_writes s) q = Some (h, free, q', Some op)"
      and s': "s' = set_op op \<lparr>op_bytes = nat r, op_cb = Some c\<rparr>
        (set_data e (Event_Write buf' q') (s\<lparr>write_next := h, lp_writes := free\<rparr>))"
      using assms(1) e by (auto simp: event_write_def Let_def split: option_splits)
    have "op_ok ty \<lparr>op_bytes = nat r, op_cb = Some c\<rparr>" using True assms(4) e(1) by (auto simp: op_ok_def)
    from queue_append_mem [OF m u e(4) mv this b(1)] b(2) True obtain F where F: "l_free_ops L = op # F"
      "mem_rel ty H x s' (L\<lparr>l_ops := (l_ops L)(e := l_ops L e @ [op]), l_free_ops := F\<rparr>)" by (auto simp: s')
    show ?thesis by (rule that(2) [OF u e(4) _ True F(1) _ _ _ _ F(2)]) (use e s' in simp_all)
  qed
qed

text \<open>
  On a connected socket with a write event, \<open>event_write\<close> returns as long as an operation is free: it takes
  as many bytes as the write buffer has room for.
\<close>

lemma write_returns:
  assumes m: "mem_rel ty H x s L" and k: "k \<in> set (l_socks L)"
    and sk: "sk_loop (sock_mem s k)" "sk_state (sock_mem s k) = EVENT_SOCK_CONNECTED"
    and u: "in_use L k e" and d: "data_of s e = Event_Write buf q"
    and n: "nat n \<le> length bytes" and free: "lp_writes s = Some op"
  shows "\<exists>s' buf' q'. event_write k n (Some bytes) (Some cb) s = Some (s', push_room buf n) \<and>
    data_of s' e = Event_Write buf' q' \<and> cbuf_contents buf' = cbuf_contents buf @ take (nat (push_room buf n)) bytes"
proof -
  obtain r where r: "event_find s (events_of s k) EVENT_WRITE_TYPE = Some r" using find_correct [OF m k] by blast
  have ty: "data_type (data_of s e) = EVENT_WRITE_TYPE" using d by simp
  then obtain e' where e': "r = Some e'" using find_in_use(2) [OF m k r _ u] by (cases r) auto
  have "in_use L k e'" "data_type (data_of s e') = EVENT_WRITE_TYPE" using find_in_use(1) [OF m k r e'] by blast+
  then have "e = e'" using events_okD(3) [OF m u, of e'] ty by (simp add: single_def)
  note find = r [unfolded e', folded this]
  have wf: "cbuf_wf buf" using events_okD(2) [OF m u] d by simp
  obtain buf' where b: "cbuf_push buf bytes n = Some (buf', push_room buf n)"
    "cbuf_contents buf' = cbuf_contents buf @ take (nat (push_room buf n)) bytes"
    by (rule cbuf_push_correct [OF wf n])
  have w: "e \<in> writers s L" by (rule writer_in_use [OF u d])
  have q: "queue_of s e = q" using d by (simp add: queue_of_eq)
  have c: "chain (write_next s) q (l_ops L e)" using listsD(2) [OF mem_relD(3) [OF m] w] q by simp
  have "op \<in> set (l_free_ops L)" using listsD(1) [OF mem_relD(3) [OF m]] free by (auto simp: chain_Some)
  then have op: "op \<notin> set (l_ops L e)" using lists_apart(1) [OF mem_relD(3) [OF m] w, of op] by blast
  then have c': "chain ((write_next s)(op := None)) q (l_ops L e)" using c by simp
  obtain h q' where "LL_APPEND op ((write_next s)(op := None)) q = Some (h, q')"
    by (rule LL_APPEND_correct [OF c' op fun_upd_same])
  then have "LL_MOVE (write_next s) (lp_writes s) q = Some (h, write_next s op, q', Some op)"
    by (simp add: LL_MOVE_def LL_POP_def free)
  with find b d sk show ?thesis by (simp add: event_write_def Let_def)
qed

lemma write_ok:
  assumes "event_write k n bytes cb s = Some (s', r)" "mem_ok ty H x s" "k \<in> set (reserved_socks s)"
    "typed ty (Some EVENT_WRITE_TYPE) cb"
  shows "mem_ok ty H x s' \<and> evolves s s'"
proof -
  obtain L where m: "mem_rel ty H x s L" using assms(2) by (auto simp: mem_ok_def)
  have k: "k \<in> set (l_socks L)" using assms(3) by (simp add: reserved_layout [OF m])
  show ?thesis
  proof (rule write_cases [OF assms(1) m k assms(4)], goal_cases)
    case (1 e buf q buf')
    show ?thesis unfolding 1(5)
      by (rule set_data_ok [OF m 1(6) [unfolded 1(5)]]) (use 1(2,3) ended_buffer(1) [of buf "the bytes" n] in auto)
  next
    case (2 e buf q buf' op F q')
    show ?thesis
    proof (rule evolvesI [OF m 2(10)])
      show "in_use (L\<lparr>l_ops := (l_ops L)(e := l_ops L e @ [op]), l_free_ops := F\<rparr>) j e' \<and> data_type (data_of s' e') = EVENT_TIMER_TYPE"
        if "in_use L j e'" "data_type (data_of s e') = EVENT_TIMER_TYPE" for j e'
        using that 2(2,6,7) by (cases "e' = e") auto
      show "in_use (L\<lparr>l_ops := (l_ops L)(e := l_ops L e @ [op]), l_free_ops := F\<rparr>) j e' \<and> (\<exists>q'. data_of s' e' = Event_Write bf q')"
        if "in_use L j e'" "data_of s e' = Event_Write bf q''" "cbuf_has_ended bf" for j e' bf q''
        using that 2(2-4,7) ended_buffer(1) [of bf "the bytes" n] by (cases "e' = e") auto
    qed (use 2(9) in simp_all)
  qed
qed

subsection \<open>Timers\<close>

lemma timer_reset_ok:
  assumes "event_timer_reset t s = Some s'" "mem_ok ty H x s"
    "\<And>e. t = Some e \<Longrightarrow> \<exists>k. has_timer s k e"
  shows "mem_ok ty H x s' \<and> evolves s s'"
proof (cases t)
  case None
  with assms(1,2) show ?thesis by (simp add: event_timer_reset_def)
next
  case (Some e)
  obtain L where m: "mem_rel ty H x s L" using assms(2) by (auto simp: mem_ok_def)
  obtain k where u: "in_use L k e" using assms(3) [OF Some] has_timer_layout [OF m] by blast
  from assms(1) Some obtain i j cb where d: "data_of s e = Event_Timer i j cb" "s' = set_data e (Event_Timer i (os_now (os s)) cb) s"
    by (auto simp: event_timer_reset_def member_of_union split: option_splits)
  have "mem_rel ty H x s' L" unfolding d(2)
    by (rule set_data_mem [OF m u]) (use d(1) events_okD(2,4) [OF m u] in auto)
  then show ?thesis unfolding d(2) by (rule set_data_ok [OF m]) (simp_all add: d(1))
qed

text \<open>Stopping a timer that is set: all other timers stay.\<close>

lemma timer_stop_ok:
  assumes "event_timer_stop (Some e) s = Some s'" "mem_ok ty H x s" "has_timer s k e"
  shows "mem_ok ty H x s'" "reserved_socks s' = reserved_socks s" "sk_data (sock_mem s' j) = sk_data (sock_mem s j)"
    "has_timer s j e' \<Longrightarrow> e' \<noteq> e \<Longrightarrow> has_timer s' j e'" "shut s j e' buf \<Longrightarrow> shut s' j e' buf"
proof -
  obtain L where m: "mem_rel ty H x s L" using assms(2) by (auto simp: mem_ok_def)
  have u: "in_use L k e" "data_type (data_of s e) = EVENT_TIMER_TYPE" using assms(3) has_timer_layout [OF m] by auto
  have sk: "ev_sock (event_mem s e) = Some k" by (rule events_okD(1) [OF m u(1)])
  obtain s1 where s1: "event_delete k e s = Some s1" "data_of s1 = data_of s"
    "mem_rel ty H x (event_push e (set_data e (data_of s e) s1)) (released k e L)"
    using release_event_mem [OF m u(1), of "data_of s e"] u(2) by auto
  have s': "s' = event_push e s1" using assms(1) sk s1(1) by (auto simp: event_timer_stop_def split: Option.bind_splits)
  have m': "mem_rel ty H x s' (released k e L)" using s1(2,3) set_data_same [of e s1] by (simp add: s')
  then show "mem_ok ty H x s'" by (auto simp: mem_ok_def)
  show "reserved_socks s' = reserved_socks s" using layout_eqs(1) [OF m] layout_eqs(1) [OF m'] by (simp add: released_def)
  show "sk_data (sock_mem s' j) = sk_data (sock_mem s j)" using s1(1)
    by (auto simp: s' event_delete_def event_push_def LL_PUSH_def split: option_splits)
  have d': "data_of s' = data_of s" using s1(2) by (simp add: s' event_push_def LL_PUSH_def)
  show "has_timer s' j e'" if "has_timer s j e'" "e' \<noteq> e"
    using that by (auto simp: has_timer_layout [OF m] has_timer_layout [OF m'] in_use_def released_def d')
  show "shut s' j e' buf" if "shut s j e' buf"
  proof -
    have "e' \<noteq> e" using that u(2) by (auto simp: shut_def)
    with that show ?thesis by (auto simp: shut_layout [OF m] shut_layout [OF m'] in_use_def released_def d')
  qed
qed

subsection \<open>Accepting, closing and creating sockets\<close>

lemma accept_ok:
  assumes "event_accept server k s = Some (s', r)" "mem_ok ty H x s" "k \<in> set (reserved_socks s)"
  shows "mem_ok ty H x s' \<and> evolves s s'"
proof -
  obtain L where m: "mem_rel ty H x s L" using assms(2) by (auto simp: mem_ok_def)
  have k: "k \<in> set (l_socks L)" using assms(3) by (simp add: reserved_layout [OF m])
  have st: "sk_state (sock_mem s k) = EVENT_SOCK_CLOSED" "sock_ok ty (sock_mem s k)"
    using assms(1) mem_relD(4) [OF m] k by (auto simp: event_accept_def socks_ok_def split: option_splits)
  define fd where "fd = os_accept (os s) (sk_descriptor (sock_mem s server))"
  define s1 where "s1 = upd_sock k (\<lambda>j. j\<lparr>sk_descriptor := fd, sk_state := EVENT_SOCK_CONNECTED\<rparr>) s"
  have "mem_rel ty H x s1 L" unfolding s1_def
    by (rule upd_sock_mem [OF m k]) (use st in \<open>simp_all add: sock_ok_def\<close>)
  then have m1: "mem_rel ty H x (s1\<lparr>lp_active_fds := insert fd (lp_active_fds s)\<rparr>) L"
    by (rule active_fds_mem) (use k in \<open>auto simp: s1_def\<close>)
  show ?thesis
  proof (cases "fd < 0")
    case True
    with assms(1,2) show ?thesis by (auto simp: event_accept_def fd_def split: Option.bind_splits if_splits)
  next
    case False
    then have s': "s' = upd_sock k (\<lambda>j. j\<lparr>sk_descriptor := fd, sk_state := EVENT_SOCK_CONNECTED\<rparr>)
        (s\<lparr>lp_nfds := fd + 1, lp_active_fds := insert fd (lp_active_fds s)\<rparr>)"
      using assms(1) by (auto simp: event_accept_def fd_def [symmetric] fd_set_def Let_def split: option_splits)
    have "mem_rel ty H x s' L"
      by (rule mem_rel_memory [THEN iffD1, OF _ m1]) (simp add: memory_def s' s1_def upd_sock_def)
    then show ?thesis by (rule evolvesI [OF m]) (auto simp: s' upd_sock_def data_of_def)
  qed
qed

lemma close_ok:
  assumes "event_close k cb s = Some (s', r)" "mem_ok ty H x s" "k \<in> set (reserved_socks s)" "typed ty None cb"
  shows "mem_ok ty H x s' \<and> evolves s s'"
proof -
  obtain L where m: "mem_rel ty H x s L" using assms(2) by (auto simp: mem_ok_def)
  have k: "k \<in> set (l_socks L)" using assms(3) by (simp add: reserved_layout [OF m])
  have st: "sock_ok ty (sock_mem s k)" using mem_relD(4) [OF m] k by (auto simp: socks_ok_def)
  define s1 where "s1 = upd_sock k (\<lambda>j. j\<lparr>sk_state := EVENT_SOCK_CLOSING, sk_close_cb := cb\<rparr>) s"
  have m1: "mem_rel ty H x s1 L" unfolding s1_def
    by (rule upd_sock_mem [OF m k]) (use st assms(4) in \<open>simp_all add: sock_ok_def\<close>)
  have e1: "mem_ok ty H x s1 \<and> evolves s s1" by (rule evolvesI [OF m m1]) (auto simp: s1_def)
  from assms(1) obtain c where c: "cb = Some c" by (auto simp: event_close_def split: Option.bind_splits)
  from assms(1) obtain ev where ev: "event_find s1 (events_of s1 k) EVENT_WRITE_TYPE = Some ev"
    and s': "(case ev of None \<Rightarrow> Some (s1, 0) | Some e \<Rightarrow> do {
          (buf, queue) \<leftarrow> write_data (data_of s1 e);
          Some (set_data e (Event_Write (cbuf_end buf) queue) s1, 0)}) = Some (s', r)"
    unfolding event_close_def Let_def c bind.bind_lunit s1_def [unfolded c, symmetric]
    by (auto split: Option.bind_splits if_splits)
  show ?thesis
  proof (cases ev)
    case None
    with s' e1 show ?thesis by simp
  next
    case (Some e)
    have u: "in_use L k e" using find_in_use(1) [OF m1 k ev Some] by blast
    from s' Some obtain buf q where d: "data_of s1 e = Event_Write buf q" "s' = set_data e (Event_Write (cbuf_end buf) q) s1"
      by (auto simp: member_of_union split: option_splits)
    have "mem_rel ty H x s' L" unfolding d(2)
      by (rule set_write_mem [OF m1 u d(1)]) (use events_okD(2) [OF m1 u] d(1) in \<open>auto simp: cbuf_end_def cbuf_wf_def\<close>)
    then have "mem_ok ty H x s' \<and> evolves s1 s'" unfolding d(2)
      by (rule set_data_ok [OF m1]) (use d(1) ended_buffer(2) [of buf] in simp_all)
    with e1 show ?thesis by (blast intro: evolves_trans)
  qed
qed

lemma sock_create_ok:
  assumes "event_sock_create s = Some (s', k)" "mem_ok ty H x s"
  shows "mem_ok ty H x s'" "reserved_socks s' = k # reserved_socks s" "k \<notin> set (reserved_socks s)"
    "j \<noteq> k \<Longrightarrow> sk_data (sock_mem s' j) = sk_data (sock_mem s j)" "sk_data (sock_mem s' k) = None"
    "has_timer s j e \<Longrightarrow> has_timer s' j e" "shut s j e buf \<Longrightarrow> shut s' j e buf"
proof -
  obtain L where m: "mem_rel ty H x s L" using assms(2) by (auto simp: mem_ok_def)
  obtain F where F: "l_free_socks L = k # F"
    "mem_rel ty H x s' (L\<lparr>l_socks := k # l_socks L, l_free_socks := F, l_events := (l_events L)(k := [])\<rparr>)"
    using sock_create_mem [OF m assms(1)] by blast
  then show "mem_ok ty H x s'" by (auto simp: mem_ok_def)
  show "reserved_socks s' = k # reserved_socks s" using layout_eqs(1) [OF m] layout_eqs(1) [OF F(2)] by simp
  have k: "k \<notin> set (l_socks L)" using lists_apart(1) [OF mem_relD(1) [OF m], of "()" k] F(1) by auto
  then show "k \<notin> set (reserved_socks s)" by (simp add: layout_eqs(1) [OF m])
  have d: "data_of s' = data_of s" and sm: "sock_mem s' = (sock_mem s)(k := null_sock\<lparr>sk_loop := True, sk_state := EVENT_SOCK_CLOSED,
      sk_descriptor := - 1\<rparr>)"
    using assms(1) by (auto simp: event_sock_create_def LL_POP_def LL_PUSH_def data_of_def fun_eq_iff split: option_splits)
  show "j \<noteq> k \<Longrightarrow> sk_data (sock_mem s' j) = sk_data (sock_mem s j)" "sk_data (sock_mem s' k) = None"
    by (simp_all add: sm null_sock_def)
  show "has_timer s j e \<Longrightarrow> has_timer s' j e"
    using k d by (auto simp: has_timer_layout [OF m] has_timer_layout [OF F(2)] in_use_def)
  show "shut s j e buf \<Longrightarrow> shut s' j e buf"
    using k d by (auto simp: shut_layout [OF m] shut_layout [OF F(2)] in_use_def)
qed

end
