(* ===== verification/Loop_Memory.thy ===== *)
theory Loop_Memory
  imports Event_Operations
begin

text \<open>
  The loop on its memory. The functions of the loop take write operations out of queues, call the layers
  above and put the operations back; between two of them the memory is consistent again. The callbacks are
  the parameters of the locale \<open>memory_client\<close>, whose laws say what the loop relies on.
\<close>

subsection \<open>Closing the pending writes of a socket\<close>

lemma op_push_ok:
  assumes "mem_rel ty H x s L" "op \<in> H"
  shows "mem_ok ty (H - {op}) x (op_push op s) \<and> evolves s (op_push op s)"
  by (rule evolvesI [OF assms(1) op_push_mem [OF assms]]) (auto simp: op_push_def LL_PUSH_def)

lemma queue_pop_total:
  assumes "data_of s e = Event_Write buf q"
  obtains s' r where "queue_pop e s = Some (s', r)"
  using assms by (cases q) (auto simp: queue_pop_def LL_POP_def)

lemma forget_slack:
  assumes "mem_rel ty H x s L" "slack x e = 0"
  shows "mem_rel ty H (x(e := None)) s L"
proof -
  have "slack (x(e := None)) e' = slack x e'" for e' using assms(2) by (simp add: slack_def)
  moreover have "dom (x(e := None)) \<subseteq> dom x" by (auto split: if_splits)
  ultimately show ?thesis using assms(1) by (auto simp: mem_rel_def events_ok_def event_ok_def)
qed

lemma close_ops_mem:
  assumes "mem_rel ty (set_option op) x s L" "in_use L k e" "data_of s e = Event_Write buf q" "cb_len buf = 0"
    "op = None \<Longrightarrow> q = None"
  shows "\<exists>s' L'. close_ops_loop e op s = Some s' \<and> mem_rel ty {} (x(e := None)) s' L' \<and> evolves s s' \<and> l_ops L' e = []"
  using assms
proof (induction "length (l_ops L e)" arbitrary: op x s L q rule: less_induct)
  case less
  have w: "e \<in> writers s L" by (rule writer_in_use [OF less.prems(2,3)])
  show ?case
  proof (cases op)
    case None
    have "chain (write_next s) (queue_of s e) (l_ops L e)" by (rule listsD(2) [OF mem_relD(3) [OF less.prems(1)] w])
    with less.prems(3,5) None have "l_ops L e = []" by (simp add: queue_of_eq)
    moreover from this have "slack x e = 0" using events_okD(2) [OF less.prems(1,2)] less.prems(3,4) by simp
    ultimately show ?thesis using less.prems(1) None forget_slack [of ty "{}" x s L e]
      by (subst close_ops_loop.simps) auto
  next
    case (Some o')
    define s1 where "s1 = op_push o' s"
    define L1 where "L1 = L\<lparr>l_free_ops := o' # l_free_ops L\<rparr>"
    have m1: "mem_rel ty {} x s1 L1" using op_push_mem [OF less.prems(1), of o'] Some by (simp add: s1_def L1_def)
    have d1: "data_of s1 e = Event_Write buf q" using less.prems(3) by (simp add: s1_def op_push_def LL_PUSH_def)
    have u1: "in_use L1 k e" using less.prems(2) by (simp add: L1_def)
    have ev1: "evolves s s1" using op_push_ok [OF less.prems(1), of o'] Some by (simp add: s1_def)
    obtain s2 r where p: "queue_pop e s1 = Some (s2, r)" by (rule queue_pop_total [OF d1])
    have step: "close_ops_loop e op s = close_ops_loop e r s2"
      using p Some by (subst close_ops_loop.simps) (simp add: s1_def)
    show ?thesis
    proof (rule queue_pop_mem [OF m1 u1 d1 p])
      assume r: "r = None" "s2 = s1" "l_ops L1 e = []"
      have "slack x e = 0" using events_okD(2) [OF m1 u1] d1 r(3) less.prems(4) by simp
      with r ev1 step forget_slack [OF m1] show ?thesis by (subst (asm) close_ops_loop.simps) auto
    next
      fix o2 ops
      assume r: "r = Some o2" "l_ops L1 e = o2 # ops" "s2 = set_data e (Event_Write buf (write_next s1 o2)) s1"
        "mem_rel ty (insert o2 {}) (x(e \<mapsto> slack x e - int (op_bytes (op_mem s1 o2)))) s2 (L1\<lparr>l_ops := (l_ops L1)(e := ops)\<rparr>)"
        (is "mem_rel ty _ ?x s2 ?L")
      have ev2: "evolves s1 s2"
        unfolding r(3) by (rule set_data_ok [OF m1 r(4) [unfolded r(3)], THEN conjunct2]) (use d1 in simp_all)
      have "length (l_ops ?L e) < length (l_ops L e)" using r(2) by (simp add: L1_def)
      from less.hyps [OF this, of "Some o2" ?x s2 "write_next s1 o2"] r less.prems(4) u1
      obtain s' L' where "close_ops_loop e (Some o2) s2 = Some s'" "mem_rel ty {} (?x(e := None)) s' L'" "evolves s2 s'"
        "l_ops L' e = []" by auto
      moreover have "?x(e := None) = x(e := None)" by simp
      ultimately show ?thesis using step r(1) ev1 ev2 by (metis evolves_trans)
    qed
  qed
qed


lemma close_ops_more:
  assumes "close_ops_loop e op s = Some s'"
  shows "event_loop.more s' = event_loop.more s"
  by (rule close_ops_loop.raw_induct [OF _ assms]) (auto split: option_splits dest!: queue_pop_more)

subsection \<open>Removing a socket\<close>

lemma release_loop_lists:
  assumes "lists EVENT_MAX_EVENTS (event_next s) (lp_events s) q K F E (set es)" "chain (event_next s) p es"
  shows "\<exists>h r. release_events_loop p s = Some (s\<lparr>event_next := h, lp_events := r\<rparr>) \<and>
    lists EVENT_MAX_EVENTS h r q K (rev es @ F) E {}"
  using assms
proof (induction es arbitrary: p s F)
  case Nil
  then show ?case by (subst release_events_loop.simps) (auto intro!: exI [of _ "event_next s"] exI [of _ "lp_events s"])
next
  case (Cons e es)
  have p: "p = Some e" "chain (event_next s) (event_next s e) es" using Cons.prems(2) by auto
  have e: "e \<notin> set es" using chain_distinct [OF Cons.prems(2)] by simp
  define s1 where "s1 = event_push e s"
  have s1: "s1 = s\<lparr>event_next := (event_next s)(e := lp_events s), lp_events := Some e\<rparr>"
    by (simp add: s1_def event_push_def LL_PUSH_def)
  have "lists EVENT_MAX_EVENTS (event_next s1) (lp_events s1) q K (e # F) E (set (e # es) - {e})"
    using lists_push_free [OF Cons.prems(1), of e] by (simp add: s1)
  then have "lists EVENT_MAX_EVENTS (event_next s1) (lp_events s1) q K (e # F) E (set es)" using e by simp
  moreover have "chain (event_next s1) (event_next s e) es" using p(2) e by (simp add: s1)
  ultimately obtain h r where "release_events_loop (event_next s e) s1 = Some (s1\<lparr>event_next := h, lp_events := r\<rparr>)"
    "lists EVENT_MAX_EVENTS h r q K (rev es @ e # F) E {}" using Cons.IH by blast
  with p(1) show ?case by (subst release_events_loop.simps) (auto simp: s1_def [symmetric], simp add: s1, blast)
qed

text \<open>Unlinking a socket from the reserved list, with \<open>prev\<close> in front of it.\<close>

lemma unlink_chain:
  assumes "chain h p (xs @ k # ys)" "prev = (if xs = [] then None else Some (last xs))"
  shows "chain (case prev of None \<Rightarrow> h | Some j \<Rightarrow> h(j := h k)) (case prev of None \<Rightarrow> h k | Some j \<Rightarrow> p) (xs @ ys)"
proof (cases xs rule: rev_cases)
  case Nil
  with assms show ?thesis by (auto simp: chain_Some)
next
  case (snoc zs z)
  have "distinct (xs @ k # ys)" by (rule chain_distinct [OF assms(1)])
  with snoc assms show ?thesis by (auto simp: chain_append segment_append)
qed

lemma unlink_lists:
  assumes l: "lists n h f (\<lambda>_ :: unit. p) UNIV F (\<lambda>_. xs @ k # ys) {}" and prev: "prev = (if xs = [] then None else Some (last xs))"
  shows "lists n ((case prev of None \<Rightarrow> h | Some j \<Rightarrow> h(j := h k))(k := f)) (Some k)
    (\<lambda>_ :: unit. case prev of None \<Rightarrow> h k | Some j \<Rightarrow> p) UNIV (k # F) (\<lambda>_. xs @ ys) {}" (is "lists n ?h _ ?q _ _ _ _")
proof -
  have c: "chain h p (xs @ k # ys)" using listsD(2) [OF l, of "()"] by simp
  have dist: "distinct (xs @ k # ys)" by (rule chain_distinct [OF c])
  have notin: "j \<notin> set F" if "j \<in> set (xs @ k # ys)" for j using lists_apart(1) [OF l, of "()"] that by simp
  have used: "chain ?h (?q ()) (xs @ ys)" using unlink_chain [OF c prev] dist by simp
  have "j \<notin> set F" if "prev = Some j" for j using that prev notin by (auto split: if_splits)
  then have free: "chain ?h (Some k) (k # F)" using listsD(1) [OF l] notin [of k] by (auto split: option.splits)
  have "e < n \<longleftrightarrow> e \<in> set F \<or> e \<in> set (xs @ k # ys)" for e using l by (simp add: lists_def)
  then have cover: "e < n \<longleftrightarrow> e \<in> set (k # F) \<or> e \<in> set (xs @ ys)" for e by auto
  have apart: "e \<notin> set (k # F)" if "e \<in> set (xs @ ys)" for e using that notin [of e] dist by auto
  show ?thesis unfolding lists_def using used free cover apart by simp
qed

definition without :: "nat \<Rightarrow> layout \<Rightarrow> layout" where
  "without k L = L\<lparr>l_socks := remove1 k (l_socks L), l_free_socks := k # l_free_socks L,
     l_free_events := rev (l_events L k) @ l_free_events L\<rparr>"

lemma remove_sock_mem:
  assumes m: "mem_rel ty {} Map.empty s L" and k: "l_socks L = xs @ k # ys"
    and prev: "prev = (if xs = [] then None else Some (last xs))"
    and q: "\<And>e. in_use L k e \<Longrightarrow> queue_of s e = None"
    and fd: "sk_descriptor (sock_mem s k) \<notin> lp_active_fds s \<or> sk_state (sock_mem s k) = EVENT_SOCK_CLOSED"
    and s1: "s1 = s\<lparr>sock_next := (sock_next s)(k := lp_sockets s), lp_sockets := Some k\<rparr>"
    and s2: "s2 = (case prev of None \<Rightarrow> s1\<lparr>lp_reserved := sock_next s k\<rparr>
      | Some j \<Rightarrow> s1\<lparr>sock_next := (sock_next s1)(j := sock_next s k)\<rparr>)"
  shows "\<exists>s3. release_events_loop (events_of s k) s2 = Some s3 \<and> mem_rel ty {} Map.empty s3 (without k L) \<and>
    data_of s3 = data_of s \<and> sock_mem s3 = sock_mem s \<and> event_loop.more s3 = event_loop.more s \<and>
    sock_next s3 = sock_next s2"
proof -
  define L' where "L' = without k L"
  have dist: "distinct (xs @ k # ys)" using chain_distinct [OF listsD(2) [OF mem_relD(1) [OF m], of "()"]] k by simp
  have ls: "l_socks L' = xs @ ys" using dist by (auto simp: L'_def without_def k remove1_append)
  have kin: "k \<in> set (l_socks L)" using k by simp
  have sub: "set (l_socks L') = set (l_socks L) - {k}" using dist by (auto simp: ls k)
  have fields: "event_next s2 = event_next s" "lp_events s2 = lp_events s" "write_next s2 = write_next s" "lp_writes s2 = lp_writes s"
    "sock_mem s2 = sock_mem s" "event_mem s2 = event_mem s" "op_mem s2 = op_mem s" "lp_active_fds s2 = lp_active_fds s"
    "event_loop.more s2 = event_loop.more s" "lp_sockets s2 = Some k"
    by (simp_all add: s2 s1 split: option.splits)
  have use': "in_use L' j e \<longleftrightarrow> in_use L j e \<and> j \<noteq> k" for j e
    unfolding in_use_def sub by (auto simp: L'_def without_def)
  have el: "lists EVENT_MAX_EVENTS (event_next s2) (lp_events s2) (events_of s) (set (l_socks L')) (l_free_events L) (l_events L)
      (set (l_events L k))"
    using lists_hold_all [OF mem_relD(2) [OF m] kin] by (simp add: sub fields)
  have "chain (event_next s2) (events_of s k) (l_events L k)" using listsD(2) [OF mem_relD(2) [OF m] kin] by (simp add: fields)
  from release_loop_lists [OF el this] obtain h r where
    r: "release_events_loop (events_of s k) s2 = Some (s2\<lparr>event_next := h, lp_events := r\<rparr>)"
    "lists EVENT_MAX_EVENTS h r (events_of s) (set (l_socks L')) (rev (l_events L k) @ l_free_events L) (l_events L) {}" by blast
  define t where "t = s2\<lparr>event_next := h, lp_events := r\<rparr>"
  have data: "data_of t = data_of s" "events_of t = events_of s" "queue_of t = queue_of s"
    by (simp_all add: t_def data_of_def events_of_def queue_of_def fields fun_eq_iff)
  have wr: "writers t L' = writers s L - set (l_events L k)"
  proof -
    have "in_use L j e \<Longrightarrow> e \<in> set (l_events L k) \<Longrightarrow> j = k" for j e
      using one_owner [OF m, of j e k] kin by (auto simp: in_use_def)
    then show ?thesis by (auto simp: writers_def use' data) (auto simp: in_use_def)
  qed
  have "event_lists t L' {}" using r(2) by (simp add: data) (simp add: t_def L'_def without_def)
  moreover have "op_lists t L' {}"
  proof -
    have "l_ops L e = []" if "e \<in> writers s L" "e \<in> set (l_events L k)" for e
      using listsD(2) [OF mem_relD(3) [OF m] that(1)] q [of e] that(2) kin by (simp add: in_use_def)
    then have "lists EVENT_WRITE_QUEUE_SIZE (write_next s) (lp_writes s) (queue_of s) (writers s L - set (l_events L k))
        (l_free_ops L) (l_ops L) {}"
      by (intro lists_drop_owners [OF mem_relD(3) [OF m]]) blast
    then show ?thesis by (simp add: wr data) (simp add: t_def L'_def without_def fields)
  qed
  moreover have "sock_lists t L' {}"
  proof -
    have "j \<noteq> k" if "prev = Some j" for j using that prev dist by (auto split: if_splits)
    then have sn: "sock_next t = (case prev of None \<Rightarrow> sock_next s | Some j \<Rightarrow> (sock_next s)(j := sock_next s k))(k := lp_sockets s)"
      "lp_reserved t = (case prev of None \<Rightarrow> sock_next s k | Some j \<Rightarrow> lp_reserved s)"
      by (auto simp: t_def s2 s1 fun_upd_twist split: option.splits)
    have "lp_sockets t = Some k" "l_free_socks L' = k # l_free_socks L" by (simp_all add: t_def fields L'_def without_def)
    then show ?thesis using unlink_lists [OF mem_relD(1) [OF m, unfolded k] prev] unfolding sn ls by simp
  qed
  moreover have "socks_ok ty t L'"
  proof -
    have "\<exists>j \<in> set (l_socks L'). sk_descriptor (sock_mem s j) = d \<and> sk_state (sock_mem s j) \<noteq> EVENT_SOCK_CLOSED"
      if "d \<in> lp_active_fds s" for d
      using mem_relD(4) [OF m] fd that unfolding socks_ok_def sub by blast
    then show ?thesis using mem_relD(4) [OF m] by (auto simp: socks_ok_def sub t_def fields)
  qed
  moreover have "events_ok ty Map.empty t L'"
  proof -
    have "singles_ok t L'" using mem_relD(5) [OF m] by (auto simp: events_ok_def singles_ok_def use' data)
    then show ?thesis using mem_relD(5) [OF m]
      by (auto simp: events_ok_def event_ok_def use' data waiting_def) (simp_all add: t_def L'_def without_def fields)
  qed
  moreover have "ops_ok ty t L'" using mem_relD(6) [OF m] by (simp add: ops_ok_def t_def L'_def without_def fields)
  ultimately have "mem_rel ty {} Map.empty t L'" by (simp add: mem_rel_def)
  with r(1) data show ?thesis by (auto simp: L'_def t_def fields)
qed


text \<open>The event after an event of a socket belongs to the same socket.\<close>

lemma chain_acyclic: "chain h p xs \<Longrightarrow> x \<in> set xs \<Longrightarrow> h x \<noteq> Some x"
proof (induction xs arbitrary: p)
  case (Cons a xs)
  show ?case
  proof (cases "x = a")
    case True
    with Cons.prems(1) chain_distinct [OF Cons.prems(1)] show ?thesis by (cases xs) auto
  next
    case False
    with Cons show ?thesis by auto
  qed
qed simp

lemma next_in_use:
  assumes "mem_rel ty H x s L" "in_use L k e" "event_next s e = Some e'"
  shows "in_use L k e'" "e' \<noteq> e"
proof -
  have k: "k \<in> set (l_socks L)" "e \<in> set (l_events L k)" using assms(2) by (auto simp: in_use_def)
  note c = listsD(2) [OF mem_relD(2) [OF assms(1)] k(1)]
  show "in_use L k e'" using chain_next [OF c k(2) assms(3)] k(1) by (simp add: in_use_def)
  show "e' \<noteq> e" using chain_acyclic [OF c k(2)] assms(3) by auto
qed

subsection \<open>What the loop relies on\<close>

text \<open>
  \<open>link K s\<close> is what the layer above keeps about the sockets \<open>K\<close>. It may depend on its own state, on the
  user data of the sockets and on timers that are set, and the callbacks keep it together with the memory.
  A write callback runs while the loop holds write operations; a timer callback does not stop its own
  timer; a close callback works on the state of its layer only, and gives up the socket.
\<close>

definition sees_same :: "nat set \<Rightarrow> (nat \<times> nat) set \<Rightarrow> ('cb, 'z) event_loop_scheme \<Rightarrow> ('cb, 'z) event_loop_scheme \<Rightarrow> bool" where
  "sees_same K T s s' \<longleftrightarrow> event_loop.more s' = event_loop.more s \<and> (\<forall>j. sk_data (sock_mem s' j) = sk_data (sock_mem s j)) \<and>
     (\<forall>j \<in> K. \<forall>e. has_timer s j e \<and> (j, e) \<notin> T \<longrightarrow> has_timer s' j e)"

definition client_ok :: "('cb \<Rightarrow> event_type option) \<Rightarrow> (nat set \<Rightarrow> ('cb, 'z) event_loop_scheme \<Rightarrow> bool) \<Rightarrow> nat set \<Rightarrow>
    (nat \<rightharpoonup> int) \<Rightarrow> ('cb, 'z) event_loop_scheme \<Rightarrow> bool" where
  "client_ok ty link H x s \<longleftrightarrow> mem_ok ty H x s \<and> link (set (reserved_socks s)) s"

text \<open>
  The loop of \<open>event_sock_handle_write\<close>: \<open>written\<close> bytes have left the buffer of \<open>e\<close> and are not yet accounted
  for, and one operation is held.
\<close>

definition writing :: "('cb \<Rightarrow> event_type option) \<Rightarrow> (nat set \<Rightarrow> ('cb, 'z) event_loop_scheme \<Rightarrow> bool) \<Rightarrow> nat \<Rightarrow> nat option \<Rightarrow> nat \<Rightarrow> ('cb, 'z) event_loop_scheme \<Rightarrow> bool" where
  "writing ty link e op written s \<longleftrightarrow> client_ok ty link (set_option op)
     [e \<mapsto> int written - (case op of None \<Rightarrow> 0 | Some o' \<Rightarrow> int (op_bytes (op_mem s o')))] s \<and>
     (op = None \<longrightarrow> queue_of s e = None)"

locale memory_client =
  fixes ty :: "'cb \<Rightarrow> event_type option" and cbs :: "('cb, 'z) loop_callbacks"
    and link :: "nat set \<Rightarrow> ('cb, 'z) event_loop_scheme \<Rightarrow> bool"
  assumes link_same: "link K s \<Longrightarrow> sees_same K {} s s' \<Longrightarrow> link K s'"
    and connection_law: "connection_cb cbs cb k s = Some (s', v) \<Longrightarrow> client_ok ty link {} Map.empty s \<Longrightarrow>
      k \<in> set (reserved_socks s) \<Longrightarrow> client_ok ty link {} Map.empty s' \<and> set (reserved_socks s) \<subseteq> set (reserved_socks s')"
    and read_law: "read_cb cbs cb k n buf s = Some (s', r) \<Longrightarrow> client_ok ty link {} Map.empty s \<Longrightarrow>
      k \<in> set (reserved_socks s) \<Longrightarrow> client_ok ty link {} Map.empty s' \<and> reserved_socks s' = reserved_socks s"
    and write_law: "write_cb cbs cb k n s = Some s' \<Longrightarrow> client_ok ty link H x s \<Longrightarrow>
      k \<in> set (reserved_socks s) \<Longrightarrow> client_ok ty link H x s' \<and> reserved_socks s' = reserved_socks s \<and>
      (\<forall>e buf. shut s k e buf \<longrightarrow> shut s' k e buf)"
    and timer_law: "timer_cb cbs cb k s = Some (s', r) \<Longrightarrow> client_ok ty link {} Map.empty s \<Longrightarrow> has_timer s k e \<Longrightarrow>
      client_ok ty link {} Map.empty s' \<and> reserved_socks s' = reserved_socks s \<and> has_timer s' k e \<and>
      (0 < r \<longrightarrow> (\<forall>s''. sees_same (set (reserved_socks s')) {(k, e)} s' s'' \<longrightarrow> link (set (reserved_socks s')) s''))"
    and close_law: "close_cb cbs cb k s = Some s' \<Longrightarrow> client_ok ty link {} Map.empty s \<Longrightarrow> k \<in> set (reserved_socks s) \<Longrightarrow>
      memory s' = memory s \<and> link (set (reserved_socks s) - {k}) s'"
begin

lemma ok_same:
  assumes "client_ok ty link H x s" "mem_ok ty H' x' s'" "reserved_socks s' = reserved_socks s"
    "sees_same (set (reserved_socks s)) {} s s'"
  shows "client_ok ty link H' x' s'"
  using assms link_same by (auto simp: client_ok_def)

lemma ok_evolves:
  assumes "client_ok ty link H x s" "mem_ok ty H' x' s'" "evolves s s'" "event_loop.more s' = event_loop.more s"
  shows "client_ok ty link H' x' s'"
  by (rule ok_same [OF assms(1,2)]) (use assms(3,4) in \<open>auto simp: sees_same_def evolves_def\<close>)

lemma ok_set_data:
  assumes "client_ok ty link H x s" "mem_rel ty H x s L" "mem_rel ty H' x' (set_data e d s) L'"
    "data_type d = data_type (data_of s e)" "in_use L' = in_use L" "l_socks L' = l_socks L"
  shows "client_ok ty link H' x' (set_data e d s) \<and> reserved_socks (set_data e d s) = reserved_socks s"
proof -
  have r: "reserved_socks (set_data e d s) = reserved_socks s"
    using assms(6) by (simp add: layout_eqs(1) [OF assms(2)] layout_eqs(1) [OF assms(3)])
  have "sees_same (set (reserved_socks s)) {} s (set_data e d s)"
    using assms(4,5) by (auto simp: sees_same_def has_timer_layout [OF assms(2)] has_timer_layout [OF assms(3)])
  with r assms(3) ok_same [OF assms(1), of H' x' "set_data e d s"] show ?thesis by (auto simp: mem_ok_def)
qed

lemma connect_ok:
  assumes "event_sock_connect cbs k event s = Some (s', r)" "client_ok ty link {} Map.empty s" "k \<in> set (reserved_socks s)"
  shows "client_ok ty link {} Map.empty s' \<and> set (reserved_socks s) \<subseteq> set (reserved_socks s')"
  using assms by (auto simp: event_sock_connect_def split: option_splits dest: connection_law)

text \<open>\<open>event_sock_close\<close>: the reader is told, then the pending writes of the socket are dropped.\<close>

lemma close_reader_ok:
  assumes "client_ok ty link {} Map.empty s" "k \<in> set (reserved_socks s)"
    "event_find s (events_of s k) EVENT_READ_TYPE = Some (Some e)" "data_of s e = Event_Read buf cb"
    "read_cb cbs c k status [] (set_data e (Event_Read (cbuf_end buf) cb) s) = Some (t, r)"
  shows "client_ok ty link {} Map.empty t \<and> reserved_socks t = reserved_socks s"
proof -
  obtain L where m: "mem_rel ty {} Map.empty s L" using assms(1) by (auto simp: client_ok_def mem_ok_def)
  have k: "k \<in> set (l_socks L)" using assms(2) by (simp add: reserved_layout [OF m])
  have u: "in_use L k e" using find_in_use(1) [OF m k assms(3) refl] by blast
  have m1: "mem_rel ty {} Map.empty (set_data e (Event_Read (cbuf_end buf) cb) s) L"
    by (rule set_read_mem [OF m u assms(4)]) (use events_okD(2) [OF m u] assms(4) in auto)
  have "client_ok ty link {} Map.empty (set_data e (Event_Read (cbuf_end buf) cb) s) \<and>
      reserved_socks (set_data e (Event_Read (cbuf_end buf) cb) s) = reserved_socks s"
    by (rule ok_set_data [OF assms(1) m m1]) (simp_all add: assms(4))
  with read_law [OF assms(5)] assms(2) show ?thesis by simp
qed

lemma close_ops_ok:
  assumes c: "client_ok ty link (set_option op) y v" and cl: "close_ops_loop e op v = Some s'"
    and vm: "mem_rel ty (set_option op) y v N" and vu: "in_use N j e" and vd: "data_of v e = Event_Write bf qq"
    and vb: "cb_len bf = 0" and vq: "op = None \<Longrightarrow> qq = None" and y: "\<And>e'. e' \<noteq> e \<Longrightarrow> y e' = None"
  shows "client_ok ty link {} Map.empty s' \<and> reserved_socks s' = reserved_socks v"
proof -
  obtain L' where L': "mem_rel ty {} (y(e := None)) s' L'" "evolves v s'"
    using close_ops_mem [OF vm vu vd vb vq] cl by auto
  have "y(e := None) = Map.empty" using y by (auto simp: fun_eq_iff)
  moreover have "event_loop.more s' = event_loop.more v" by (rule close_ops_more [OF cl])
  ultimately show ?thesis using L' ok_evolves [OF c _ L'(2)] by (auto simp: mem_ok_def evolves_def)
qed

lemma emptied_buffer:
  assumes "cbuf_wf buf" "cbuf_pop (cbuf_end buf) None (cbuf_len buf) = Some (buf', bs, n)"
  shows "cbuf_wf buf'" "cb_len buf' = 0" "cbuf_has_ended buf'"
proof -
  have "cbuf_wf (cbuf_end buf)" using assms(1) by simp
  moreover have "pop_avail (cbuf_end buf) (cbuf_len buf) = cb_len (cbuf_end buf)"
    using assms(1) by (auto simp: cbuf_end_def pop_avail_def cbuf_wf_def cbuf_len_def)
  ultimately show "cbuf_wf buf'" "cb_len buf' = 0" "cbuf_has_ended buf'"
    using pop_drops [OF _ assms(2)] by (auto simp: cbuf_has_ended_def cbuf_end_def)
qed

lemma close_writer_ok:
  assumes ok: "client_ok ty link {} Map.empty t" and k: "k \<in> set (reserved_socks t)"
    and f: "event_find t (events_of t k) EVENT_WRITE_TYPE = Some (Some e)" and d: "data_of t e = Event_Write buf q"
    and b: "cbuf_pop (cbuf_end buf) None (cbuf_len buf) = Some (buf', bs, n)"
    and p: "queue_pop e (set_data e (Event_Write buf' q) t) = Some (t1, op)"
    and cb: "t2 = t1 \<or> (\<exists>cb o'. op = Some o' \<and> write_cb cbs cb k status t1 = Some t2)"
    and cl: "close_ops_loop e op t2 = Some s'"
  shows "client_ok ty link {} Map.empty s' \<and> reserved_socks s' = reserved_socks t"
proof -
  obtain M where m: "mem_rel ty {} Map.empty t M" using ok by (auto simp: client_ok_def mem_ok_def)
  have u: "in_use M k e" using find_in_use(1) [OF m _ f refl] k by (simp add: reserved_layout [OF m])
  have w: "cbuf_wf buf" "waiting t (l_ops M e) = cb_len buf" using events_okD(2) [OF m u] d by (auto simp: slack_def)
  note b' = emptied_buffer [OF w(1) b]
  define x where "x = [e \<mapsto> cb_len buf]"
  define v where "v = set_data e (Event_Write buf' q) t"
  have m1: "mem_rel ty {} x v M" unfolding v_def
    by (rule set_data_mem [OF m u]) (use d b' w writer_in_use [OF u d] in \<open>auto simp: x_def slack_def\<close>)
  have c1: "client_ok ty link {} x v" "reserved_socks v = reserved_socks t"
    using ok_set_data [OF ok m m1 [unfolded v_def]] d by (simp_all add: v_def)
  have d1: "data_of v e = Event_Write buf' q" by (simp add: v_def)
  show ?thesis
  proof (rule queue_pop_mem [OF m1 u d1 p [folded v_def]])
    assume r: "op = None" "t1 = v" "q = None"
    with cb have "t2 = v" by auto
    from close_ops_ok [OF _ cl _ u, of x buf' q] this c1 m1 d1 b'(2) r show ?thesis by (simp add: x_def)
  next
    fix o' ops
    assume r: "op = Some o'" "t1 = set_data e (Event_Write buf' (write_next v o')) v"
      and m2: "mem_rel ty (insert o' {}) (x(e \<mapsto> slack x e - int (op_bytes (op_mem v o')))) t1
        (M\<lparr>l_ops := (l_ops M)(e := ops)\<rparr>)" (is "mem_rel ty _ ?y t1 ?M")
    have y: "e' \<noteq> e \<Longrightarrow> ?y e' = None" for e' by (simp add: x_def)
    have c2: "client_ok ty link {o'} ?y t1" "reserved_socks t1 = reserved_socks v"
      using ok_set_data [OF c1(1) m1 m2 [unfolded r(2)]] d1 by (simp_all add: r(2))
    have "data_of t1 e = Event_Write buf' (write_next v o')" by (simp add: r(2))
    then have sh: "shut t1 k e buf'" unfolding shut_layout [OF m2] using u b'(3) by simp
    have c3: "client_ok ty link {o'} ?y t2 \<and> reserved_socks t2 = reserved_socks t1 \<and> shut t2 k e buf'"
      using cb write_law [OF _ c2(1)] c2 c1(2) k sh by auto
    then obtain N where m3: "mem_rel ty {o'} ?y t2 N" by (auto simp: client_ok_def mem_ok_def)
    from c3 obtain qq where e: "in_use N k e" "data_of t2 e = Event_Write buf' qq" by (auto simp: shut_layout [OF m3])
    from close_ops_ok [OF _ cl _ e b'(2), of ?y] c3 m3 y r(1) c2(2) c1(2) show ?thesis by simp
  qed
qed

lemma sock_close_ok:
  assumes "event_sock_close cbs k status s = Some s'" "client_ok ty link {} Map.empty s" "k \<in> set (reserved_socks s)"
  shows "client_ok ty link {} Map.empty s' \<and> reserved_socks s' = reserved_socks s"
proof -
  from assms(1) obtain re t we where re: "event_find s (events_of s k) EVENT_READ_TYPE = Some re"
    and t: "(case re of None \<Rightarrow> Some s | Some e \<Rightarrow> do {
               (buf, cb) \<leftarrow> read_data (data_of s e);
               let s = set_data e (Event_Read (cbuf_end buf) cb) s;
               cb \<leftarrow> cb;
               (s, _) \<leftarrow> read_cb cbs cb k status [] s;
               Some s }) = Some t"
    and we: "event_find t (events_of t k) EVENT_WRITE_TYPE = Some we"
    and w: "(case we of None \<Rightarrow> Some t | Some e \<Rightarrow> do {
          (buf, queue) \<leftarrow> write_data (data_of t e);
          (buf, _, _) \<leftarrow> cbuf_pop (cbuf_end buf) None (cbuf_len buf);
          let s = set_data e (Event_Write buf queue) t;
          (s, op) \<leftarrow> queue_pop e s;
          s \<leftarrow> (case op of
                  Some op' \<Rightarrow> if re = None
                    then do { cb \<leftarrow> op_cb (op_mem s op'); write_cb cbs cb k status s }
                    else Some s
                | None \<Rightarrow> Some s);
          close_ops_loop e op s }) = Some s'"
    by (auto simp: event_sock_close_def split: Option.bind_splits if_splits)
  have t': "client_ok ty link {} Map.empty t \<and> reserved_socks t = reserved_socks s"
    using t assms(2) re by (auto simp: member_of_union split: option_splits dest!: close_reader_ok [OF assms(2,3)])
  then have k: "k \<in> set (reserved_socks t)" using assms(3) by simp
  show ?thesis
  proof (cases we)
    case None
    with w t' show ?thesis by simp
  next
    case (Some e)
    with w obtain buf q buf' bs n t1 op t2 where d: "data_of t e = Event_Write buf q"
      "cbuf_pop (cbuf_end buf) None (cbuf_len buf) = Some (buf', bs, n)" "queue_pop e (set_data e (Event_Write buf' q) t) = Some (t1, op)"
      "(case op of Some op' \<Rightarrow> if re = None then do { cb \<leftarrow> op_cb (op_mem t1 op'); write_cb cbs cb k status t1 } else Some t1
          | None \<Rightarrow> Some t1) = Some t2" "close_ops_loop e op t2 = Some s'"
      by (auto simp: member_of_union split: Option.bind_splits)
    have "t2 = t1 \<or> (\<exists>cb o'. op = Some o' \<and> write_cb cbs cb k status t1 = Some t2)"
      using d(4) by (auto split: option.splits if_splits Option.bind_splits)
    from close_writer_ok [OF t' [THEN conjunct1] k we [unfolded Some] d(1-3) this d(5)] t' show ?thesis by simp
  qed
qed


subsection \<open>Reading and writing\<close>

text \<open>New data for a read event, whether it is still in use or was given back by the callback.\<close>

lemma set_read_ok:
  assumes ok: "client_ok ty link {} Map.empty s" and d: "data_of s e = Event_Read buf cb" and wf: "cbuf_wf buf \<Longrightarrow> cbuf_wf buf'"
  shows "client_ok ty link {} Map.empty (set_data e (Event_Read buf' cb) s) \<and>
    reserved_socks (set_data e (Event_Read buf' cb) s) = reserved_socks s"
proof -
  obtain L where m: "mem_rel ty {} Map.empty s L" using ok by (auto simp: client_ok_def mem_ok_def)
  have "mem_rel ty {} Map.empty (set_data e (Event_Read buf' cb) s) L"
  proof (cases "\<exists>k. in_use L k e")
    case True
    then obtain k where u: "in_use L k e" by blast
    show ?thesis by (rule set_read_mem [OF m u d]) (use events_okD(2) [OF m u] d wf in auto)
  next
    case False
    then show ?thesis by (intro set_free_mem [OF m]) blast
  qed
  then show ?thesis by (rule ok_set_data [OF ok m]) (simp_all add: d)
qed

lemma sock_read_ok:
  assumes "event_sock_read cbs k event s = Some s'" "client_ok ty link {} Map.empty s" "k \<in> set (reserved_socks s)"
  shows "client_ok ty link {} Map.empty s' \<and> reserved_socks s' = reserved_socks s"
proof (cases event)
  case None
  with assms show ?thesis by (simp add: event_sock_read_def)
next
  case (Some e)
  with assms(1) obtain buf cb where d: "data_of s e = Event_Read buf cb"
    by (auto simp: event_sock_read_def member_of_union split: Option.bind_splits)
  have pushed: "client_ok ty link {} Map.empty (set_data e (Event_Read buf' cb) s) \<and>
      reserved_socks (set_data e (Event_Read buf' cb) s) = reserved_socks s"
    if "cbuf_push buf bs n = Some (buf', r)" for buf' bs n r
    by (rule set_read_ok [OF assms(2) d]) (use cbuf_push_keeps [OF that] in blast)
  from assms(1) Some d show ?thesis
    by (auto simp: event_sock_read_def Let_def split: Option.bind_splits recv_result.splits if_splits
        dest!: pushed sock_close_ok [OF _ assms(2,3)])
qed

lemma handle_read_ok:
  assumes "event_sock_handle_read cbs k event s = Some s'" "client_ok ty link {} Map.empty s" "k \<in> set (reserved_socks s)"
  shows "client_ok ty link {} Map.empty s' \<and> reserved_socks s' = reserved_socks s"
proof (cases event)
  case None
  with assms show ?thesis by (simp add: event_sock_handle_read_def)
next
  case (Some e)
  with assms(1) obtain buf cb t where d: "data_of s e = Event_Read buf cb"
    and t: "(if cbuf_len buf > 0 then do {
                  (read_buf, _) \<leftarrow> cbuf_peek buf (Some (replicate (nat (cbuf_len buf)) 0)) (cbuf_len buf);
                  cb \<leftarrow> cb;
                  (s, readlen) \<leftarrow> read_cb cbs cb k (cbuf_len buf) (the read_buf) s;
                  (buf, cb) \<leftarrow> read_data (data_of s e);
                  (buf, _, _) \<leftarrow> cbuf_pop buf None readlen;
                  Some (set_data e (Event_Read buf cb) s)
                } else Some s) = Some t"
    and r: "do { (buf, cb) \<leftarrow> read_data (data_of t e);
          if cbuf_has_ended buf then do { cb \<leftarrow> cb; (s, _) \<leftarrow> read_cb cbs cb k (- 1) [] t; Some s } else Some t } = Some s'"
    unfolding event_sock_handle_read_def Let_def by (auto simp: member_of_union split: Option.bind_splits)
  have popped: "client_ok ty link {} Map.empty (set_data e (Event_Read buf' cb') v) \<and>
      reserved_socks (set_data e (Event_Read buf' cb') v) = reserved_socks v"
    if "client_ok ty link {} Map.empty v" "data_of v e = Event_Read bf cb'" "cbuf_pop bf None n = Some (buf', bs, i)" for v bf cb' n buf' bs i
    by (rule set_read_ok [OF that(1,2)]) (use pop_drops(1) [OF _ that(3)] in blast)
  have t': "client_ok ty link {} Map.empty t \<and> reserved_socks t = reserved_socks s"
  proof (cases "cbuf_len buf > 0")
    case True
    with t obtain c rb v n bf cb' buf' bs i where v: "read_cb cbs c k (cbuf_len buf) rb s = Some (v, n)"
      "data_of v e = Event_Read bf cb'" "cbuf_pop bf None n = Some (buf', bs, i)" "t = set_data e (Event_Read buf' cb') v"
      by (auto simp: member_of_union split: Option.bind_splits)
    with read_law [OF v(1) assms(2,3)] popped [OF _ v(2,3)] show ?thesis by simp
  qed (use t assms(2) in simp)
  from r obtain bf cb' where b: "data_of t e = Event_Read bf cb'" by (auto simp: member_of_union split: Option.bind_splits)
  show ?thesis
  proof (cases "cbuf_has_ended bf")
    case True
    with r b obtain c i where "read_cb cbs c k (- 1) [] t = Some (s', i)" by (auto split: Option.bind_splits)
    from read_law [OF this] t' assms(3) show ?thesis by simp
  qed (use r b t' in simp)
qed

lemma writing_event:
  assumes "writing ty link e op n s"
  obtains L k buf q where "mem_rel ty (set_option op)
      [e \<mapsto> int n - (case op of None \<Rightarrow> 0 | Some o' \<Rightarrow> int (op_bytes (op_mem s o')))] s L"
    "in_use L k e" "data_of s e = Event_Write buf q" "e \<in> writers s L"
proof -
  obtain L where m: "mem_rel ty (set_option op)
      [e \<mapsto> int n - (case op of None \<Rightarrow> 0 | Some o' \<Rightarrow> int (op_bytes (op_mem s o')))] s L"
    using assms by (auto simp: writing_def client_ok_def mem_ok_def)
  then have w: "e \<in> writers s L" using mem_relD(5) [OF m] by (auto simp: events_ok_def)
  then obtain k buf q where "in_use L k e" "data_of s e = Event_Write buf q" by (auto simp: writers_def data_type_cases)
  with m w that show ?thesis by blast
qed

lemma writing_op:
  assumes "writing ty link e (Some op) n s"
  shows "op_ok ty (op_mem s op)"
proof -
  obtain L where m: "mem_rel ty {op} [e \<mapsto> int n - int (op_bytes (op_mem s op))] s L"
    using assms by (auto simp: writing_def client_ok_def mem_ok_def)
  have "op < EVENT_WRITE_QUEUE_SIZE" "op \<notin> set (l_free_ops L)"
    using mem_relD(3) [OF m] by (auto simp: lists_def)
  with mem_relD(6) [OF m] show ?thesis by (simp add: ops_ok_def)
qed

lemma queue_pop_writing:
  assumes ok: "client_ok ty link {} [e \<mapsto> int n] s" and p: "queue_pop e s = Some (s', op)"
  shows "writing ty link e op n s' \<and> reserved_socks s' = reserved_socks s"
proof -
  obtain L where m: "mem_rel ty {} [e \<mapsto> int n] s L" using ok by (auto simp: client_ok_def mem_ok_def)
  then have "e \<in> writers s L" using mem_relD(5) [OF m] by (auto simp: events_ok_def)
  then obtain k buf q where u: "in_use L k e" "data_of s e = Event_Write buf q" by (auto simp: writers_def data_type_cases)
  show ?thesis
  proof (rule queue_pop_mem [OF m u p])
    assume "op = None" "s' = s" "q = None"
    with ok u(2) show ?thesis by (simp add: writing_def queue_of_eq)
  next
    fix o' ops
    assume r: "op = Some o'" "s' = set_data e (Event_Write buf (write_next s o')) s"
      and m': "mem_rel ty (insert o' {}) ([e \<mapsto> int n](e \<mapsto> slack [e \<mapsto> int n] e - int (op_bytes (op_mem s o')))) s'
        (L\<lparr>l_ops := (l_ops L)(e := ops)\<rparr>)"
    from ok_set_data [OF ok m m' [unfolded r(2)]] u(2) show ?thesis
      by (simp add: writing_def r slack_def)
  qed
qed

lemma handle_write_loop_ok:
  "handle_write_loop cbs k e op n s = Some (s', op') \<Longrightarrow> writing ty link e op n s \<Longrightarrow> k \<in> set (reserved_socks s) \<Longrightarrow>
   writing ty link e op' 0 s' \<and> reserved_socks s' = reserved_socks s"
proof (induction n arbitrary: op s rule: less_induct)
  case (less n)
  show ?case
  proof (cases op)
    case None
    then have r: "s' = s" "op' = None" using less.prems(1) by (subst (asm) handle_write_loop.simps; simp)+
    obtain L j buf q where m': "mem_rel ty (set_option op)
        [e \<mapsto> int n - (case op of None \<Rightarrow> 0 | Some o' \<Rightarrow> int (op_bytes (op_mem s o')))] s L"
      and u: "in_use L j e" "data_of s e = Event_Write buf q" "e \<in> writers s L" by (rule writing_event [OF less.prems(2)])
    have m: "mem_rel ty {} [e \<mapsto> int n] s L" using m' None by simp
    have "queue_of s e = None" using less.prems(2) None by (simp add: writing_def)
    then have "l_ops L e = []" using listsD(2) [OF mem_relD(3) [OF m] u(3)] by simp
    then have "n = 0" using events_okD(2) [OF m u(1)] u(2) by (auto simp: slack_def cbuf_wf_def)
    then show ?thesis using less.prems(2) None r by simp
  next
    case (Some o')
    have ok: "op_ok ty (op_mem s o')" using writing_op less.prems(2) Some by simp
    consider "n = 0" | "0 < n" "op_bytes (op_mem s o') \<le> n" | "0 < n" "n < op_bytes (op_mem s o')" by linarith
    then show ?thesis
    proof cases
      case 1
      then show ?thesis using less.prems Some by (subst (asm) handle_write_loop.simps) auto
    next
      case 2
      with less.prems(1) Some obtain cb t t' r where t: "write_cb cbs cb k 0 s = Some t" "queue_pop e (op_push o' t) = Some (t', r)"
        "handle_write_loop cbs k e r (n - op_bytes (op_mem s o')) t' = Some (s', op')"
        by (subst (asm) handle_write_loop.simps) (auto split: Option.bind_splits)
      define d where "d = n - op_bytes (op_mem s o')"
      have d: "d < n" "int d = int n - int (op_bytes (op_mem s o'))" using 2 ok by (auto simp: d_def op_ok_def)
      have "client_ok ty link {o'} [e \<mapsto> int d] s" using less.prems(2) Some d(2) by (simp add: writing_def)
      then have c: "client_ok ty link {o'} [e \<mapsto> int d] t" "reserved_socks t = reserved_socks s"
        using write_law [OF t(1)] less.prems(3) by auto
      obtain L where m: "mem_rel ty {o'} [e \<mapsto> int d] t L" using c(1) by (auto simp: client_ok_def mem_ok_def)
      have c1: "client_ok ty link {} [e \<mapsto> int d] (op_push o' t)" "reserved_socks (op_push o' t) = reserved_socks t"
        using op_push_ok [OF m, of o'] ok_evolves [OF c(1)] by (auto simp: evolves_def)
      from queue_pop_writing [OF c1(1) t(2)] have c2: "writing ty link e r d t'" "reserved_socks t' = reserved_socks s"
        using c1(2) c(2) by auto
      from less.IH [OF d(1) t(3) [folded d_def] c2(1)] c2(2) less.prems(3) show ?thesis by simp
    next
      case 3
      then have r: "s' = set_op o' ((op_mem s o')\<lparr>op_bytes := op_bytes (op_mem s o') - n\<rparr>) s" "op' = Some o'"
        using less.prems(1) Some by (subst (asm) handle_write_loop.simps; simp)+
      have c: "client_ok ty link {o'} [e \<mapsto> int n - int (op_bytes (op_mem s o'))] s" using less.prems(2) Some by (simp add: writing_def)
      then obtain L where m: "mem_rel ty {o'} [e \<mapsto> int n - int (op_bytes (op_mem s o'))] s L" by (auto simp: client_ok_def mem_ok_def)
      have m': "mem_rel ty {o'} [e \<mapsto> int n - int (op_bytes (op_mem s o'))] s' L" unfolding r(1)
        by (rule set_op_mem [OF m]) (use ok 3 in \<open>auto simp: op_ok_def\<close>)
      have "evolves s s'" by (rule evolvesI [OF m m', THEN conjunct2]) (auto simp: r(1))
      with ok_evolves [OF c _ this] m' 3 show ?thesis by (auto simp: writing_def r mem_ok_def evolves_def)
    qed
  qed
qed

lemma handle_write_ok:
  assumes "event_sock_handle_write cbs k e n s = Some s'" "client_ok ty link {} [e \<mapsto> int n] s" "k \<in> set (reserved_socks s)"
  shows "client_ok ty link {} Map.empty s' \<and> reserved_socks s' = reserved_socks s"
proof -
  from assms(1) obtain t op t' op' where t: "queue_pop e s = Some (t, op)" "handle_write_loop cbs k e op n t = Some (t', op')"
    "(case op' of None \<Rightarrow> Some t' | Some op \<Rightarrow> do {
          (buf, queue) \<leftarrow> write_data (data_of t' e);
          case LL_PUSH op (write_next t') queue of (h, queue) \<Rightarrow>
          Some (set_data e (Event_Write buf queue) (t'\<lparr>write_next := h\<rparr>)) }) = Some s'"
    unfolding event_sock_handle_write_def Let_def by (auto split: Option.bind_splits)
  have w: "writing ty link e op' 0 t'" "reserved_socks t' = reserved_socks s"
    using queue_pop_writing [OF assms(2) t(1)] handle_write_loop_ok [OF t(2)] assms(3) by auto
  obtain L j buf q where m: "mem_rel ty (set_option op')
      [e \<mapsto> int 0 - (case op' of None \<Rightarrow> 0 | Some o' \<Rightarrow> int (op_bytes (op_mem t' o')))] t' L"
    and u: "in_use L j e" "data_of t' e = Event_Write buf q" "e \<in> writers t' L" by (rule writing_event [OF w(1)])
  have c: "client_ok ty link (set_option op')
      [e \<mapsto> int 0 - (case op' of None \<Rightarrow> 0 | Some o' \<Rightarrow> int (op_bytes (op_mem t' o')))] t'"
    using w(1) by (simp add: writing_def)
  show ?thesis
  proof (cases op')
    case None
    then have "mem_rel ty {} Map.empty t' L" using forget_slack [of ty "{}" "[e \<mapsto> 0]" t' L e] m by (simp add: slack_def)
    then show ?thesis using t(3) None w(2) ok_evolves [OF c _ evolves_refl] by (auto simp: mem_ok_def)
  next
    case (Some o')
    then have s': "s' = set_data e (Event_Write buf (Some o')) (t'\<lparr>write_next := (write_next t')(o' := q)\<rparr>)"
      using t(3) u(2) by (simp add: LL_PUSH_def)
    have "mem_rel ty {} [e \<mapsto> 0] s' (L\<lparr>l_ops := (l_ops L)(e := o' # l_ops L e)\<rparr>)"
      using queue_push_mem [OF m u(1,2), of o'] Some by (simp add: s' slack_def)
    then have m': "mem_rel ty {} Map.empty s' (L\<lparr>l_ops := (l_ops L)(e := o' # l_ops L e)\<rparr>)"
      using forget_slack [of ty "{}" "[e \<mapsto> 0]" s' _ e] by (simp add: slack_def)
    have "evolves t' s'" by (rule evolvesI [OF m m', THEN conjunct2]) (use u(2) in \<open>auto simp: s'\<close>)
    moreover have "event_loop.more s' = event_loop.more t'" by (simp add: s')
    ultimately show ?thesis using ok_evolves [OF c _ \<open>evolves t' s'\<close>] m' w(2) by (auto simp: mem_ok_def evolves_def)
  qed
qed

lemma sock_write_ok:
  assumes "event_sock_write cbs k event s = Some s'" "client_ok ty link {} Map.empty s" "k \<in> set (reserved_socks s)"
    "event_find s (events_of s k) EVENT_WRITE_TYPE = Some event"
  shows "client_ok ty link {} Map.empty s' \<and> reserved_socks s' = reserved_socks s"
proof (cases event)
  case None
  with assms show ?thesis by (simp add: event_sock_write_def)
next
  case (Some e)
  obtain L where m: "mem_rel ty {} Map.empty s L" using assms(2) by (auto simp: client_ok_def mem_ok_def)
  have u: "in_use L k e" using find_in_use(1) [OF m _ assms(4) Some] assms(3) by (simp add: reserved_layout [OF m])
  from assms(1) Some obtain buf q where d: "data_of s e = Event_Write buf q"
    by (auto simp: event_sock_write_def member_of_union split: Option.bind_splits)
  have ok: "cbuf_wf buf" "waiting s (l_ops L e) = cb_len buf" using events_okD(2) [OF m u] d by (auto simp: slack_def)
  have sent: "client_ok ty link {} Map.empty s' \<and> reserved_socks s' = reserved_socks s"
    if p: "cbuf_pop buf None (int n) = Some (buf', bs, i)" "int n \<le> cbuf_len buf"
      and h: "event_sock_handle_write cbs k e n (set_data e (Event_Write buf' q) (os_do c s)) = Some s'" for n buf' bs i c
  proof -
    have b: "cbuf_wf buf'" "cb_len buf' = cb_len buf - int n"
      using pop_drops(1,2) [OF ok(1) p(1)] p(2) by (auto simp: pop_avail_def cbuf_len_def)
    have mo: "mem_rel ty {} Map.empty (os_do c s) L" using m by simp
    have "sees_same (set (reserved_socks s)) {} s (os_do c s)"
      by (auto simp: sees_same_def has_timer_layout [OF m] has_timer_layout [OF mo])
    then have co: "client_ok ty link {} Map.empty (os_do c s)" "reserved_socks (os_do c s) = reserved_socks s"
      using ok_same [OF assms(2), of "{}" Map.empty "os_do c s"] mo layout_eqs(1) [OF m] layout_eqs(1) [OF mo]
      by (auto simp: mem_ok_def)
    have "mem_rel ty {} [e \<mapsto> int n] (set_data e (Event_Write buf' q) (os_do c s)) L"
      by (rule set_data_mem [OF mo u]) (use d b ok writer_in_use [OF u d] in \<open>auto simp: slack_def writers_def\<close>)
    then have "client_ok ty link {} [e \<mapsto> int n] (set_data e (Event_Write buf' q) (os_do c s)) \<and>
        reserved_socks (set_data e (Event_Write buf' q) (os_do c s)) = reserved_socks s"
      using ok_set_data [OF co(1) mo] co(2) d by simp
    with handle_write_ok [OF h] assms(3) show ?thesis by simp
  qed
  from assms(1) Some d obtain bytes where r: "(case os_send (os s) (sk_descriptor (sock_mem s k)) bytes of
      Send_Error errno \<Rightarrow> event_sock_close cbs k (- errno) s | Send_Again \<Rightarrow> Some s
    | Sent n \<Rightarrow> if n > 0 then do {
          guard (int n \<le> cbuf_len buf);
          (buf, _, _) \<leftarrow> cbuf_pop buf None (int n);
          event_sock_handle_write cbs k e n (set_data e (Event_Write buf q)
            (os_do (Os_Send (sk_descriptor (sock_mem s k)) (take n bytes)) s)) }
        else Some s) = Some s'"
    unfolding event_sock_write_def Let_def by (auto split: Option.bind_splits)
  show ?thesis
  proof (cases "os_send (os s) (sk_descriptor (sock_mem s k)) bytes")
    case (Sent n)
    show ?thesis
    proof (cases "n > 0")
      case True
      with r Sent show ?thesis by (auto split: Option.bind_splits if_splits simp: guard_def dest!: sent)
    qed (use r Sent assms(2) in simp)
  next
    case Send_Again
    with r assms(2) show ?thesis by simp
  next
    case (Send_Error errno)
    with r sock_close_ok [OF _ assms(2,3)] show ?thesis by auto
  qed
qed


subsection \<open>Timers\<close>

lemma fire_timer_ok:
  assumes ok: "client_ok ty link {} Map.empty s" and h: "has_timer s k e" and t: "timer_cb cbs cb k s = Some (t, r)"
    and d: "data_of t e = Event_Timer i j c" and u_def: "u = set_data e (Event_Timer i now c) t"
  shows "client_ok ty link {} Map.empty u" "reserved_socks u = reserved_socks s" "has_timer u k e"
    "0 < r \<Longrightarrow> \<exists>v. event_delete k e u = Some v \<and> client_ok ty link {} Map.empty (event_push e v) \<and>
      reserved_socks (event_push e v) = reserved_socks s \<and>
      (\<forall>e'. event_next v e = Some e' \<longrightarrow> e' \<in> set (sock_events (event_push e v) k))"
proof -
  note law = timer_law [OF t ok h]
  obtain L where m: "mem_rel ty {} Map.empty t L" using law by (auto simp: client_ok_def mem_ok_def)
  have e: "in_use L k e" using law by (auto simp: has_timer_layout [OF m])
  have m1: "mem_rel ty {} Map.empty u L" unfolding u_def
    by (rule set_data_mem [OF m e]) (use d events_okD(2) [OF m e] in auto)
  have c: "client_ok ty link {} Map.empty u" "reserved_socks u = reserved_socks t"
    using ok_set_data [OF _ m m1 [unfolded u_def]] law d by (simp_all add: u_def)
  then show "client_ok ty link {} Map.empty u" "reserved_socks u = reserved_socks s" using law by simp_all
  show "has_timer u k e" using e by (simp add: has_timer_layout [OF m1]) (simp add: u_def)
  assume r: "0 < r"
  obtain v where v: "event_delete k e u = Some v" "data_of v = data_of u" "event_next v e = event_next u e"
    "mem_rel ty {} Map.empty (event_push e (set_data e (data_of u e) v)) (released k e L)"
    using release_event_mem [OF m1 e, of "data_of u e"] by (auto simp: u_def)
  define w where "w = event_push e v"
  have m2: "mem_rel ty {} Map.empty w (released k e L)" using v(2,4) set_data_same [of e v] by (simp add: w_def)
  have same: "reserved_socks w = reserved_socks t" using layout_eqs(1) [OF m] layout_eqs(1) [OF m2] by (simp add: released_def)
  have dw: "data_of w = data_of u" using v(2) by (simp add: w_def event_push_def LL_PUSH_def)
  have "sees_same (set (reserved_socks t)) {(k, e)} t w"
    unfolding sees_same_def
  proof (intro conjI ballI allI impI)
    show "event_loop.more w = event_loop.more t" using delete_more [OF v(1)] by (simp add: w_def u_def)
    show "sk_data (sock_mem w j) = sk_data (sock_mem t j)" for j
      using v(1) by (auto simp: w_def u_def event_delete_def event_push_def LL_PUSH_def split: option_splits)
    show "has_timer w j e'" if "has_timer t j e' \<and> (j, e') \<notin> {(k, e)}" for j e'
      using that by (auto simp: has_timer_layout [OF m] has_timer_layout [OF m2] dw in_use_def released_def u_def)
  qed
  then have "client_ok ty link {} Map.empty w" using law r same m2 by (auto simp: client_ok_def mem_ok_def)
  moreover have "e' \<in> set (sock_events w k)" if "event_next v e = Some e'" for e'
    using next_in_use [OF m1 e] that v(3) layout_eqs(2) [OF m2, of k] by (auto simp: in_use_def released_def)
  ultimately show "\<exists>v. event_delete k e u = Some v \<and> client_ok ty link {} Map.empty (event_push e v) \<and>
      reserved_socks (event_push e v) = reserved_socks s \<and>
      (\<forall>e'. event_next v e = Some e' \<longrightarrow> e' \<in> set (sock_events (event_push e v) k))"
    using v(1) same law by (auto simp: w_def)
qed

lemma next_event:
  assumes "client_ok ty link {} Map.empty s" "k \<in> set (reserved_socks s)" "e \<in> set (sock_events s k)" "event_next s e = Some e'"
  shows "e' \<in> set (sock_events s k)"
proof -
  obtain L where m: "mem_rel ty {} Map.empty s L" using assms(1) by (auto simp: client_ok_def mem_ok_def)
  have k: "k \<in> set (l_socks L)" using assms(2) by (simp add: reserved_layout [OF m])
  from next_in_use [OF m _ assms(4), of k] assms(3) layout_eqs(2) [OF m k] k show ?thesis by (auto simp: in_use_def)
qed

lemma due_timer:
  assumes "do {
      cb \<leftarrow> cb;
      (s, remove) \<leftarrow> T cb;
      (millis, _, cb) \<leftarrow> timer_data (data_of s e);
      let s = set_data e (Event_Timer millis now cb) s;
      if remove > 0 then do { s \<leftarrow> D s; F (event_next s e) (event_push e s) } else F (event_next s e) s
    } = Some s'"
  obtains cb' t r i j c where "T cb' = Some (t, r :: int)" "data_of t e = Event_Timer i j c"
    "0 < r \<longrightarrow> (\<exists>v. D (set_data e (Event_Timer i now c) t) = Some v \<and> F (event_next v e) (event_push e v) = Some s')"
    "\<not> 0 < r \<longrightarrow> F (event_next t e) (set_data e (Event_Timer i now c) t) = Some s'"
proof -
  from assms obtain cb' t r d where a: "cb = Some cb'" "T cb' = Some (t, r)" "timer_data (data_of t e) = Some d"
    by (auto split: Option.bind_splits)
  moreover obtain i j c where "d = (i, j, c)" by (cases d)
  ultimately show ?thesis using assms that [of cb' t r i j c]
    by (cases "0 < r") (auto simp: member_of_union Let_def split: Option.bind_splits)
qed

lemma due_timer_ok:
  assumes step: "do {
      cb \<leftarrow> cb;
      (s, remove) \<leftarrow> timer_cb cbs cb k s;
      (millis, _, cb) \<leftarrow> timer_data (data_of s e);
      let s = set_data e (Event_Timer millis now cb) s;
      if remove > 0 then do { s \<leftarrow> event_delete k e s; F (event_next s e) (event_push e s) } else F (event_next s e) s
    } = Some s'"
    and ok: "client_ok ty link {} Map.empty s" "k \<in> set (reserved_socks s)" "has_timer s k e"
    and rest: "\<And>event t. F event t = Some s' \<Longrightarrow> client_ok ty link {} Map.empty t \<Longrightarrow>
      k \<in> set (reserved_socks t) \<Longrightarrow> \<forall>e. event = Some e \<longrightarrow> e \<in> set (sock_events t k) \<Longrightarrow>
      client_ok ty link {} Map.empty s' \<and> reserved_socks s' = reserved_socks t"
  shows "client_ok ty link {} Map.empty s' \<and> reserved_socks s' = reserved_socks s"
proof -
  obtain cb' t r i j c where t: "timer_cb cbs cb' k s = Some (t, r)" "data_of t e = Event_Timer i j c"
    "0 < r \<longrightarrow> (\<exists>v. event_delete k e (set_data e (Event_Timer i now c) t) = Some v \<and>
        F (event_next v e) (event_push e v) = Some s')"
    "\<not> 0 < r \<longrightarrow> F (event_next t e) (set_data e (Event_Timer i now c) t) = Some s'"
    by (rule due_timer [OF step])
  note fire = fire_timer_ok [OF ok(1,3) t(1,2) refl, of now]
  show ?thesis
  proof (cases "r > 0")
    case True
    with fire(4) t(3) obtain v where "client_ok ty link {} Map.empty (event_push e v)"
      "reserved_socks (event_push e v) = reserved_socks s"
      "\<forall>e'. event_next v e = Some e' \<longrightarrow> e' \<in> set (sock_events (event_push e v) k)"
      "F (event_next v e) (event_push e v) = Some s'" by auto
    with rest [of "event_next v e" "event_push e v"] ok(2) show ?thesis by simp
  next
    case False
    then have "F (event_next t e) (set_data e (Event_Timer i now c) t) = Some s'" using t(4) by blast
    moreover have "e' \<in> set (sock_events (set_data e (Event_Timer i now c) t) k)" if "event_next t e = Some e'" for e'
      by (rule next_event [OF fire(1)]) (use fire(2,3) ok(2) that in \<open>auto simp: has_timer_def\<close>)
    ultimately show ?thesis
      using rest [of "event_next t e" "set_data e (Event_Timer i now c) t"] ok(2) fire(1,2) by simp
  qed
qed

lemma sock_timers_ok:
  assumes "sock_timers_loop cbs now k event s = Some s'" "client_ok ty link {} Map.empty s" "k \<in> set (reserved_socks s)"
    "\<And>e. event = Some e \<Longrightarrow> e \<in> set (sock_events s k)"
  shows "client_ok ty link {} Map.empty s' \<and> reserved_socks s' = reserved_socks s"
proof -
  have "cbs = cbs \<longrightarrow> client_ok ty link {} Map.empty s \<longrightarrow> k \<in> set (reserved_socks s) \<longrightarrow>
      (\<forall>e. event = Some e \<longrightarrow> e \<in> set (sock_events s k)) \<longrightarrow>
      client_ok ty link {} Map.empty s' \<and> reserved_socks s' = reserved_socks s"
  proof (rule sock_timers_loop.raw_induct [where P = "\<lambda>c now k event s s'. c = cbs \<longrightarrow> client_ok ty link {} Map.empty s \<longrightarrow>
      k \<in> set (reserved_socks s) \<longrightarrow> (\<forall>e. event = Some e \<longrightarrow> e \<in> set (sock_events s k)) \<longrightarrow>
      client_ok ty link {} Map.empty s' \<and> reserved_socks s' = reserved_socks s", OF _ assms(1)], intro impI, goal_cases)
    case (1 f c now k event s s')
    show ?case
    proof (cases event)
      case None
      with 1 show ?thesis by simp
    next
      case (Some e)
      have e: "e \<in> set (sock_events s k)" using 1(6) Some by blast
      have skip: "client_ok ty link {} Map.empty s' \<and> reserved_socks s' = reserved_socks s"
        if "f c now k (event_next s e) s = Some s'"
        using 1(1) [OF that] 1(3-5) next_event [OF 1(4,5) e] by blast
      show ?thesis
      proof (cases "timer_data (data_of s e)")
        case None
        with 1(2) Some skip show ?thesis by simp
      next
        case (Some d)
        then obtain i j cb where d: "data_of s e = Event_Timer i j cb" by (cases "data_of s e") auto
        show ?thesis
        proof (cases "(now - j) div 1000 \<ge> i")
          case False
          with 1(2) \<open>event = Some e\<close> d skip show ?thesis by simp
        next
          case True
          with 1(2,3) \<open>event = Some e\<close> d have "do {
              cb \<leftarrow> cb;
              (s, remove) \<leftarrow> timer_cb cbs cb k s;
              (millis, _, cb) \<leftarrow> timer_data (data_of s e);
              let s = set_data e (Event_Timer millis now cb) s;
              if remove > 0 then do {
                s \<leftarrow> event_delete k e s;
                f c now k (event_next s e) (event_push e s)
              }
              else f c now k (event_next s e) s
            } = Some s'" by simp
          moreover have "has_timer s k e" using e d 1(5) by (simp add: has_timer_def)
          ultimately show ?thesis using due_timer_ok [OF _ 1(4,5)] 1(1,3) by blast
        qed
      qed
    qed
  qed
  with assms(2-4) show ?thesis by blast
qed


subsection \<open>The phases of the loop\<close>

lemma next_sock:
  assumes "client_ok ty link {} Map.empty s" "k \<in> set (reserved_socks s)" "sock_next s k = Some j"
  shows "j \<in> set (reserved_socks s)"
proof -
  obtain L where m: "mem_rel ty {} Map.empty s L" using assms(1) by (auto simp: client_ok_def mem_ok_def)
  show ?thesis using chain_next [OF listsD(2) [OF mem_relD(1) [OF m], of "()"] _ assms(3)] assms(2) by (simp add: layout_eqs(1) [OF m])
qed

lemma first_event:
  assumes "client_ok ty link {} Map.empty s" "k \<in> set (reserved_socks s)" "events_of s k = Some e"
  shows "e \<in> set (sock_events s k)"
proof -
  obtain L where m: "mem_rel ty {} Map.empty s L" using assms(1) by (auto simp: client_ok_def mem_ok_def)
  have k: "k \<in> set (l_socks L)" using assms(2) by (simp add: reserved_layout [OF m])
  show ?thesis using listsD(2) [OF mem_relD(2) [OF m] k] assms(3) by (auto simp: layout_eqs(2) [OF m k] chain_Some)
qed

lemma timers_ok:
  assumes "timers_loop cbs now sock s = Some s'" "client_ok ty link {} Map.empty s" "\<And>k. sock = Some k \<Longrightarrow> k \<in> set (reserved_socks s)"
  shows "client_ok ty link {} Map.empty s' \<and> reserved_socks s' = reserved_socks s"
proof -
  have "cbs = cbs \<longrightarrow> client_ok ty link {} Map.empty s \<longrightarrow> (\<forall>k. sock = Some k \<longrightarrow> k \<in> set (reserved_socks s)) \<longrightarrow>
      client_ok ty link {} Map.empty s' \<and> reserved_socks s' = reserved_socks s"
  proof (rule timers_loop.raw_induct [where P = "\<lambda>c now sock s s'. c = cbs \<longrightarrow> client_ok ty link {} Map.empty s \<longrightarrow>
      (\<forall>k. sock = Some k \<longrightarrow> k \<in> set (reserved_socks s)) \<longrightarrow>
      client_ok ty link {} Map.empty s' \<and> reserved_socks s' = reserved_socks s", OF _ assms(1)], intro impI, goal_cases)
    case (1 f c now sock s s')
    show ?case
    proof (cases sock)
      case None
      with 1 show ?thesis by simp
    next
      case (Some k)
      with 1(2,3) obtain t where t: "sock_timers_loop cbs now k (events_of s k) s = Some t" "f c now (sock_next t k) t = Some s'"
        by (auto split: Option.bind_splits)
      have k: "k \<in> set (reserved_socks s)" using 1(5) Some by blast
      have "client_ok ty link {} Map.empty t" "reserved_socks t = reserved_socks s"
        using sock_timers_ok [OF t(1) 1(4) k] first_event [OF 1(4) k] by blast+
      with 1(1) [OF t(2)] 1(3) next_sock [of t k] k show ?thesis by simp
    qed
  qed
  with assms(2,3) show ?thesis by blast
qed

lemma poll_sock_ok:
  assumes "poll_sock cbs rs ws i s = Some s'" "client_ok ty link {} Map.empty s"
  shows "client_ok ty link {} Map.empty s'"
proof -
  obtain L where m: "mem_rel ty {} Map.empty s L" using assms(2) by (auto simp: client_ok_def mem_ok_def)
  have fnd: "event_sock_find s (lp_reserved s) i = Some (find (\<lambda>k. sk_descriptor (sock_mem s k) = i) (l_socks L))"
    unfolding event_sock_find_def by (rule LL_FIND_correct [OF listsD(2) [OF mem_relD(1) [OF m], of "()"]]) simp
  from assms(1) obtain k t where k: "event_sock_find s (lp_reserved s) i = Some (Some k)"
    and t: "(if i \<in> rs then
             (if sk_state (sock_mem s k) = EVENT_SOCK_CONNECTED then do {
                event \<leftarrow> event_find s (events_of s k) EVENT_READ_TYPE;
                event_sock_read cbs k event s
              }
              else if sk_state (sock_mem s k) = EVENT_SOCK_LISTENING then do {
                event \<leftarrow> event_find s (events_of s k) EVENT_CONNECTION_TYPE;
                (s, _) \<leftarrow> event_sock_connect cbs k event s;
                Some s
              }
              else Some s)
           else Some s) = Some t"
    and w: "(if i \<in> ws then do {
       event \<leftarrow> event_find t (events_of t k) EVENT_WRITE_TYPE;
       event_sock_write cbs k event t
     } else Some t) = Some s'"
    unfolding poll_sock_def by (auto split: Option.bind_splits)
  have kr: "k \<in> set (reserved_socks s)"
    using k fnd by (auto simp: layout_eqs(1) [OF m] find_Some_iff)
  have t': "client_ok ty link {} Map.empty t \<and> k \<in> set (reserved_socks t)"
    using t assms(2) kr
    by (auto split: if_splits Option.bind_splits dest!: sock_read_ok [OF _ assms(2) kr] connect_ok [OF _ assms(2) kr])
  then show ?thesis using w by (auto split: if_splits Option.bind_splits dest: sock_write_ok)
qed

lemma poll_ok:
  assumes "poll_loop cbs rs ws i s = Some s'" "client_ok ty link {} Map.empty s"
  shows "client_ok ty link {} Map.empty s'"
proof -
  have "cbs = cbs \<longrightarrow> client_ok ty link {} Map.empty s \<longrightarrow> client_ok ty link {} Map.empty s'"
    by (rule poll_loop.raw_induct [where P = "\<lambda>c rs ws i s s'. c = cbs \<longrightarrow> client_ok ty link {} Map.empty s \<longrightarrow>
        client_ok ty link {} Map.empty s'", OF _ assms(1)])
      (auto split: if_splits Option.bind_splits dest!: poll_sock_ok)
  with assms(2) show ?thesis by blast
qed

lemma pending_ok:
  assumes "pending_loop cbs sock s = Some s'" "client_ok ty link {} Map.empty s" "\<And>k. sock = Some k \<Longrightarrow> k \<in> set (reserved_socks s)"
  shows "client_ok ty link {} Map.empty s' \<and> reserved_socks s' = reserved_socks s"
proof -
  have "cbs = cbs \<longrightarrow> client_ok ty link {} Map.empty s \<longrightarrow> (\<forall>k. sock = Some k \<longrightarrow> k \<in> set (reserved_socks s)) \<longrightarrow>
      client_ok ty link {} Map.empty s' \<and> reserved_socks s' = reserved_socks s"
  proof (rule pending_loop.raw_induct [where P = "\<lambda>c sock s s'. c = cbs \<longrightarrow> client_ok ty link {} Map.empty s \<longrightarrow>
      (\<forall>k. sock = Some k \<longrightarrow> k \<in> set (reserved_socks s)) \<longrightarrow>
      client_ok ty link {} Map.empty s' \<and> reserved_socks s' = reserved_socks s", OF _ assms(1)], intro impI, goal_cases)
    case (1 f c sock s s')
    show ?case
    proof (cases sock)
      case None
      with 1 show ?thesis by simp
    next
      case (Some k)
      with 1(2,3) obtain e t where t: "event_sock_handle_read cbs k e s = Some t" "f c (sock_next t k) t = Some s'"
        by (auto split: Option.bind_splits)
      have k: "k \<in> set (reserved_socks s)" using 1(5) Some by blast
      have "client_ok ty link {} Map.empty t" "reserved_socks t = reserved_socks s" using handle_read_ok [OF t(1) 1(4) k] by blast+
      with 1(1) [OF t(2)] 1(3) next_sock [of t k] k show ?thesis by simp
    qed
  qed
  with assms(2,3) show ?thesis by blast
qed

text \<open>A socket can be closed when none of its events has a write queued.\<close>

lemma closable_layout:
  assumes m: "mem_rel ty H x s L" and k: "k \<in> set (l_socks L)"
  shows "is_closable k s = Some (sk_state (sock_mem s k) = EVENT_SOCK_CLOSING \<and> (\<forall>e. in_use L k e \<longrightarrow> queue_of s e = None))"
proof -
  define w where "w = find (\<lambda>e. data_type (data_of s e) = EVENT_WRITE_TYPE) (l_events L k)"
  have f: "event_find s (events_of s k) EVENT_WRITE_TYPE = Some w" unfolding w_def by (rule find_correct [OF m k])
  have other: "queue_of s e = None" if "data_type (data_of s e) \<noteq> EVENT_WRITE_TYPE" for e
    using that by (cases "data_of s e") (simp_all add: queue_of_eq)
  show ?thesis
  proof (cases w)
    case None
    then have "queue_of s e = None" if "in_use L k e" for e using find_in_use(2) [OF m k f] that other by blast
    with None f show ?thesis by (simp add: is_closable_def)
  next
    case (Some e)
    then have e: "in_use L k e" "data_type (data_of s e) = EVENT_WRITE_TYPE" using find_in_use(1) [OF m k f] by blast+
    have all: "(\<forall>e'. in_use L k e' \<longrightarrow> queue_of s e' = None) \<longleftrightarrow> queue_of s e = None"
      using e events_okD(3) [OF m, of k _ e] other by (metis single_def)
    obtain buf q where "data_of s e = Event_Write buf q" using e(2) by (auto simp: data_type_cases)
    with Some f all show ?thesis by (simp add: is_closable_def queue_of_eq)
  qed
qed

lemma closable_queues:
  assumes "mem_rel ty H x s L" "k \<in> set (l_socks L)" "is_closable k s = Some True" "in_use L k e"
  shows "queue_of s e = None"
  using closable_layout [OF assms(1,2)] assms(3,4) by simp

lemma mark_closed_ok:
  assumes ok: "client_ok ty link {} Map.empty s" and m: "mem_rel ty {} Map.empty s L" and k: "k \<in> set (l_socks L)"
    and fd: "fd = sk_descriptor (sock_mem s k)"
  shows "mem_rel ty {} Map.empty (upd_sock k (\<lambda>k. k\<lparr>sk_state := EVENT_SOCK_CLOSED\<rparr>)
      (os_do (Os_Close fd) (os_do (Os_Shutdown fd) (s\<lparr>lp_active_fds := lp_active_fds s - {fd}\<rparr>)))) L"
    "client_ok ty link {} Map.empty (upd_sock k (\<lambda>k. k\<lparr>sk_state := EVENT_SOCK_CLOSED\<rparr>)
      (os_do (Os_Close fd) (os_do (Os_Shutdown fd) (s\<lparr>lp_active_fds := lp_active_fds s - {fd}\<rparr>))))"
    "data_of (upd_sock k (\<lambda>k. k\<lparr>sk_state := EVENT_SOCK_CLOSED\<rparr>)
      (os_do (Os_Close fd) (os_do (Os_Shutdown fd) (s\<lparr>lp_active_fds := lp_active_fds s - {fd}\<rparr>)))) = data_of s"
proof -
  define t where "t = upd_sock k (\<lambda>k. k\<lparr>sk_state := EVENT_SOCK_CLOSED\<rparr>)
    (os_do (Os_Close fd) (os_do (Os_Shutdown fd) (s\<lparr>lp_active_fds := lp_active_fds s - {fd}\<rparr>)))"
  have mt: "mem_rel ty {} Map.empty t L" unfolding t_def
  proof (rule upd_sock_mem)
    show "mem_rel ty {} Map.empty (os_do (Os_Close fd) (os_do (Os_Shutdown fd) (s\<lparr>lp_active_fds := lp_active_fds s - {fd}\<rparr>))) L"
      by (simp, rule active_fds_mem [OF m]) simp
  qed (use k mem_relD(4) [OF m] in \<open>auto simp: fd socks_ok_def sock_ok_def\<close>)
  have dt: "data_of t = data_of s" by (simp add: t_def data_of_def upd_sock_def os_do_def fun_eq_iff)
  have "client_ok ty link {} Map.empty t"
  proof (rule ok_evolves [OF ok])
    show "evolves s t" by (rule evolvesI [OF m mt, THEN conjunct2]) (auto simp: dt, auto simp: t_def)
  qed (use mt in \<open>auto simp: mem_ok_def t_def\<close>)
  with mt dt show "mem_rel ty {} Map.empty (upd_sock k (\<lambda>k. k\<lparr>sk_state := EVENT_SOCK_CLOSED\<rparr>)
      (os_do (Os_Close fd) (os_do (Os_Shutdown fd) (s\<lparr>lp_active_fds := lp_active_fds s - {fd}\<rparr>)))) L"
    "client_ok ty link {} Map.empty (upd_sock k (\<lambda>k. k\<lparr>sk_state := EVENT_SOCK_CLOSED\<rparr>)
      (os_do (Os_Close fd) (os_do (Os_Shutdown fd) (s\<lparr>lp_active_fds := lp_active_fds s - {fd}\<rparr>))))"
    "data_of (upd_sock k (\<lambda>k. k\<lparr>sk_state := EVENT_SOCK_CLOSED\<rparr>)
      (os_do (Os_Close fd) (os_do (Os_Shutdown fd) (s\<lparr>lp_active_fds := lp_active_fds s - {fd}\<rparr>)))) = data_of s"
    by (simp_all add: t_def)
qed

lemma close_sock_steps:
  assumes "fd = sk_descriptor (sock_mem s k)" "t = upd_sock k (\<lambda>k. k\<lparr>sk_state := EVENT_SOCK_CLOSED\<rparr>)
      (os_do (Os_Close fd) (os_do (Os_Shutdown fd) (s\<lparr>lp_active_fds := lp_active_fds s - {fd}\<rparr>)))"
  shows "close_sock cbs k prev s = (if 0 \<le> fd \<and> fd < FD_SETSIZE then do {
      cb \<leftarrow> sk_close_cb (sock_mem s k);
      u \<leftarrow> close_cb cbs cb k t;
      let next = sock_next u k;
      let (h, free) = LL_PUSH k (sock_next u) (lp_sockets u);
      let s = u\<lparr>sock_next := h, lp_sockets := free\<rparr>;
      let s = (case prev of None \<Rightarrow> s\<lparr>lp_reserved := next\<rparr> | Some p \<Rightarrow> s\<lparr>sock_next := (sock_next s)(p := next)\<rparr>);
      s \<leftarrow> release_events_loop (events_of s k) s;
      Some (s, next) } else None)"
  using assms by (simp add: close_sock_def fd_clr_def Let_def)

text \<open>The end of \<open>close_sock\<close>, and what it leaves of the other sockets.\<close>

lemma close_sock_rest:
  assumes ok: "client_ok ty link {} Map.empty s" and r: "reserved_socks s = xs @ k # ys"
    and prev: "prev = (if xs = [] then None else Some (last xs))" and cl: "is_closable k s = Some True"
    and fd: "fd = sk_descriptor (sock_mem s k)"
    and t_def: "t = upd_sock k (\<lambda>k. k\<lparr>sk_state := EVENT_SOCK_CLOSED\<rparr>)
      (os_do (Os_Close fd) (os_do (Os_Shutdown fd) (s\<lparr>lp_active_fds := lp_active_fds s - {fd}\<rparr>)))"
    and range: "0 \<le> fd" "fd < FD_SETSIZE" and cb: "sk_close_cb (sock_mem s k) = Some cb" and u: "close_cb cbs cb k t = Some u"
  obtains s' nxt where "close_sock cbs k prev s = Some (s', nxt)"
    "client_ok ty link {} Map.empty s'" "reserved_socks s' = xs @ ys" "nxt = (case ys of [] \<Rightarrow> None | y # _ \<Rightarrow> Some y)"
    "\<And>j. j \<in> set (xs @ ys) \<Longrightarrow> is_closable j s' = is_closable j s \<and> sk_descriptor (sock_mem s' j) = sk_descriptor (sock_mem s j)"
proof -
  obtain L where m: "mem_rel ty {} Map.empty s L" using ok by (auto simp: client_ok_def mem_ok_def)
  have ls: "l_socks L = xs @ k # ys" using r by (simp add: layout_eqs(1) [OF m])
  have k: "k \<in> set (l_socks L)" using ls by simp
  have mt: "mem_rel ty {} Map.empty t L" and okt: "client_ok ty link {} Map.empty t" and dt: "data_of t = data_of s"
    using mark_closed_ok [OF ok m k fd] by (simp_all add: t_def)
  have mem: "memory u = memory t" and lk: "link (set (reserved_socks t) - {k}) u"
    using close_law [OF u okt] k by (auto simp: layout_eqs(1) [OF mt])
  have mu: "mem_rel ty {} Map.empty u L" using mt by (simp add: mem_rel_memory [OF mem])
  have q: "queue_of u e = None" if "in_use L k e" for e
    using closable_queues [OF m k cl that] by (simp add: memory_objects [OF mem] queue_of_eq dt)
  have st: "sk_state (sock_mem u k) = EVENT_SOCK_CLOSED" using mem by (simp add: memory_def t_def)
  define s1 where "s1 = u\<lparr>sock_next := (sock_next u)(k := lp_sockets u), lp_sockets := Some k\<rparr>"
  define s2 where "s2 = (case prev of None \<Rightarrow> s1\<lparr>lp_reserved := sock_next u k\<rparr>
    | Some j \<Rightarrow> s1\<lparr>sock_next := (sock_next s1)(j := sock_next u k)\<rparr>)"
  have ev: "events_of s2 k = events_of u k" by (simp add: s2_def s1_def events_of_def split: option.splits)
  obtain s3 where s3: "release_events_loop (events_of u k) s2 = Some s3" "mem_rel ty {} Map.empty s3 (without k L)"
    "data_of s3 = data_of u" "sock_mem s3 = sock_mem u" "event_loop.more s3 = event_loop.more u"
    using remove_sock_mem [OF mu ls prev q disjI2 [OF st] s1_def s2_def] by blast
  have dist: "distinct (xs @ k # ys)" using chain_distinct [OF listsD(2) [OF mem_relD(1) [OF m], of "()"]] ls by simp
  have r3: "reserved_socks s3 = xs @ ys" using dist by (auto simp: layout_eqs(1) [OF s3(2)] without_def ls remove1_append)
  have K: "set (reserved_socks t) - {k} = set (xs @ ys)" using dist by (auto simp: layout_eqs(1) [OF mt] ls)
  have "sees_same (set (xs @ ys)) {} u s3"
    using dist s3(3-5) by (auto simp: sees_same_def has_timer_layout [OF mu] has_timer_layout [OF s3(2)] in_use_def without_def ls remove1_append)
  then have "link (set (xs @ ys)) s3" by (rule link_same [OF lk [unfolded K]])
  then have ok3: "client_ok ty link {} Map.empty s3" using s3(2) by (auto simp: r3 client_ok_def mem_ok_def)
  have nxt: "sock_next u k = (case ys of [] \<Rightarrow> None | y # _ \<Rightarrow> Some y)"
    using listsD(2) [OF mem_relD(1) [OF mu], of "()"] by (auto simp: ls chain_append chain_Some split: list.splits)
  have others: "is_closable j s3 = is_closable j s \<and> sk_descriptor (sock_mem s3 j) = sk_descriptor (sock_mem s j)"
    if j: "j \<in> set (xs @ ys)" for j
  proof -
    have jk: "j \<noteq> k" using j dist by auto
    have same: "sock_mem s3 j = sock_mem s j" using s3(4) mem jk by (simp add: memory_def t_def upd_sock_def os_do_def)
    have l3: "j \<in> set (l_socks (without k L))" using j dist by (auto simp: without_def ls remove1_append)
    have "queue_of s3 = queue_of s" using s3(3) memory_objects(1) [OF mem] dt by (simp add: queue_of_def fun_eq_iff)
    moreover have "in_use (without k L) j e \<longleftrightarrow> in_use L j e" for e using l3 j by (auto simp: in_use_def ls without_def)
    moreover have "j \<in> set (l_socks L)" using j ls by auto
    ultimately show ?thesis using closable_layout [OF m] closable_layout [OF s3(2) l3] same by simp
  qed
  have "close_sock cbs k prev s = Some (s3, sock_next u k)"
    using range s3(1) ev unfolding close_sock_steps [OF fd t_def] LL_PUSH_def Let_def prod.case cb bind.bind_lunit u
      s1_def [symmetric] s2_def [symmetric] by simp
  from that [OF this ok3 r3 nxt others] show ?thesis .
qed

lemma close_sock_ok:
  assumes c: "close_sock cbs k prev s = Some (s', nxt)" and ok: "client_ok ty link {} Map.empty s"
    and r: "reserved_socks s = xs @ k # ys" and prev: "prev = (if xs = [] then None else Some (last xs))"
    and cl: "is_closable k s = Some True"
  shows "client_ok ty link {} Map.empty s' \<and> reserved_socks s' = xs @ ys \<and> nxt = (case ys of [] \<Rightarrow> None | y # _ \<Rightarrow> Some y)"
proof -
  define fd where "fd = sk_descriptor (sock_mem s k)"
  define t where "t = upd_sock k (\<lambda>k. k\<lparr>sk_state := EVENT_SOCK_CLOSED\<rparr>)
    (os_do (Os_Close fd) (os_do (Os_Shutdown fd) (s\<lparr>lp_active_fds := lp_active_fds s - {fd}\<rparr>)))"
  from c obtain cb u where u: "0 \<le> fd" "fd < FD_SETSIZE" "sk_close_cb (sock_mem s k) = Some cb" "close_cb cbs cb k t = Some u"
    unfolding close_sock_steps [OF fd_def t_def] by (auto split: Option.bind_splits if_splits)
  show ?thesis by (rule close_sock_rest [OF ok r prev cl fd_def t_def u]) (use c in simp)
qed

lemma close_loop_ok:
  assumes "close_loop cbs sock prev mx s = Some (s', mx')" "client_ok ty link {} Map.empty s" "reserved_socks s = xs @ ys"
    "prev = (if xs = [] then None else Some (last xs))" "sock = (case ys of [] \<Rightarrow> None | y # _ \<Rightarrow> Some y)"
  shows "client_ok ty link {} Map.empty s'"
  using assms
proof (induction ys arbitrary: sock prev mx s xs)
  case Nil
  then show ?case by (subst (asm) close_loop.simps) simp
next
  case (Cons k ys)
  from Cons.prems(1,5) obtain c where c: "is_closable k s = Some c"
    and r: "(if c then do { (s, next) \<leftarrow> close_sock cbs k prev s; close_loop cbs next prev mx s }
      else close_loop cbs (sock_next s k) sock (max (sk_descriptor (sock_mem s k)) mx) s) = Some (s', mx')"
    by (subst (asm) close_loop.simps) (auto split: Option.bind_splits)
  show ?case
  proof (cases c)
    case True
    with r obtain t nxt where t: "close_sock cbs k prev s = Some (t, nxt)" "close_loop cbs nxt prev mx t = Some (s', mx')"
      by (auto split: Option.bind_splits)
    from close_sock_ok [OF t(1) Cons.prems(2-4)] c True have "client_ok ty link {} Map.empty t" "reserved_socks t = xs @ ys"
      "nxt = (case ys of [] \<Rightarrow> None | y # _ \<Rightarrow> Some y)" by auto
    from Cons.IH [OF t(2) this(1,2) Cons.prems(4) this(3)] show ?thesis .
  next
    case False
    obtain L where m: "mem_rel ty {} Map.empty s L" using Cons.prems(2) by (auto simp: client_ok_def mem_ok_def)
    have "sock_next s k = (case ys of [] \<Rightarrow> None | y # _ \<Rightarrow> Some y)"
      using listsD(2) [OF mem_relD(1) [OF m], of "()"] Cons.prems(3)
      by (auto simp: layout_eqs(1) [OF m] chain_append chain_Some split: list.splits)
    with r False Cons.IH [of "sock_next s k" sock "max (sk_descriptor (sock_mem s k)) mx" s "xs @ [k]"] Cons.prems(2,3,5)
    show ?thesis by simp
  qed
qed

lemma ok_fields:
  assumes "client_ok ty link {} Map.empty s" "memory t = memory s" "event_loop.more t = event_loop.more s"
  shows "client_ok ty link {} Map.empty t" "reserved_socks t = reserved_socks s"
proof -
  obtain L where m: "mem_rel ty {} Map.empty s L" using assms(1) by (auto simp: client_ok_def mem_ok_def)
  have mt: "mem_rel ty {} Map.empty t L" using m by (simp add: mem_rel_memory [OF assms(2)])
  show r: "reserved_socks t = reserved_socks s" by (simp add: layout_eqs(1) [OF m] layout_eqs(1) [OF mt])
  have "sees_same (set (reserved_socks s)) {} s t"
    using assms(2,3) memory_objects(1) [OF assms(2)]
    by (auto simp: sees_same_def has_timer_layout [OF m] has_timer_layout [OF mt] memory_def)
  with r mt ok_same [OF assms(1), of "{}" Map.empty t] show "client_ok ty link {} Map.empty t" by (auto simp: mem_ok_def)
qed

lemma first_sock: "client_ok ty link {} Map.empty s \<Longrightarrow> lp_reserved s = (case reserved_socks s of [] \<Rightarrow> None | k # _ \<Rightarrow> Some k)"
proof -
  assume "client_ok ty link {} Map.empty s"
  then obtain L where m: "mem_rel ty {} Map.empty s L" by (auto simp: client_ok_def mem_ok_def)
  show ?thesis using listsD(2) [OF mem_relD(1) [OF m], of "()"] by (cases "l_socks L") (simp_all add: layout_eqs(1) [OF m])
qed

text \<open>One round of the loop, and any number of them.\<close>

lemma step_ok:
  assumes "event_loop_step cbs env s = Some s'" "client_ok ty link {} Map.empty s"
  shows "client_ok ty link {} Map.empty s'"
proof -
  define s0 where "s0 = s\<lparr>os := env\<rparr>"
  from assms(1) obtain s1 s2 s3 mx s4 where s: "event_loop_timers cbs s0 = Some s1" "event_loop_poll cbs s1 = Some s2"
    "event_loop_pending cbs s2 = Some s3" "close_loop cbs (lp_reserved s3) None (- 1) s3 = Some (s4, mx)" "s' = s4\<lparr>lp_nfds := mx + 1\<rparr>"
    by (auto simp: event_loop_step_def event_loop_close_def s0_def split: Option.bind_splits)
  have 0: "client_ok ty link {} Map.empty s0" by (rule ok_fields [OF assms(2)]) (simp_all add: s0_def memory_def)
  have fs: "k \<in> set (reserved_socks u)" if "client_ok ty link {} Map.empty u" "lp_reserved u = Some k" for u k
    using first_sock [OF that(1)] that(2) by (auto split: list.splits)
  have 1: "client_ok ty link {} Map.empty s1" using timers_ok s(1) 0 fs [OF 0] by (auto simp: event_loop_timers_def)
  have 2: "client_ok ty link {} Map.empty s2"
    using s(2) poll_ok 1 by (auto simp: event_loop_poll_def split: Option.bind_splits if_splits option.splits)
  have 3: "client_ok ty link {} Map.empty s3" using pending_ok s(3) 2 fs [OF 2] by (auto simp: event_loop_pending_def)
  have "client_ok ty link {} Map.empty s4"
    by (rule close_loop_ok [OF s(4) 3, of "[]" "reserved_socks s3"]) (simp_all add: first_sock [OF 3])
  from ok_fields(1) [OF this, of s'] show ?thesis by (simp add: s(5) memory_def)
qed

lemma rounds_ok:
  "event_loop_rounds cbs envs s = Some (s', ended) \<Longrightarrow> client_ok ty link {} Map.empty s \<Longrightarrow> client_ok ty link {} Map.empty s'"
proof (induction envs arbitrary: s)
  case Nil
  then show ?case
    by (subst (asm) event_loop_rounds.simps) (auto split: if_splits intro: ok_fields(1) simp: memory_def)
next
  case (Cons env envs)
  show ?case
  proof (cases "event_loop_is_alive s")
    case True
    with Cons.prems(1) obtain t where "event_loop_step cbs env s = Some t" "event_loop_rounds cbs envs t = Some (s', ended)"
      by (subst (asm) event_loop_rounds.simps) (auto split: Option.bind_splits)
    with Cons.IH step_ok Cons.prems(2) show ?thesis by blast
  next
    case False
    with Cons.prems(1) have "s' = s\<lparr>lp_running := False\<rparr>" by (subst (asm) event_loop_rounds.simps) simp
    with ok_fields(1) [OF Cons.prems(2), of s'] show ?thesis by (simp add: memory_def)
  qed
qed

end

subsection \<open>Closing comes to an end\<close>

text \<open>If the close callbacks return, so does the close phase, and it releases exactly the closable sockets.\<close>

locale closing_client = memory_client +
  assumes close_total: "client_ok ty link {} Map.empty s \<Longrightarrow> k \<in> set (reserved_socks s) \<Longrightarrow> ty cb = None \<Longrightarrow>
    \<exists>s'. close_cb cbs cb k s = Some s'"
begin

lemma close_sock_returns:
  assumes ok: "client_ok ty link {} Map.empty s" and r: "reserved_socks s = xs @ k # ys"
    and prev: "prev = (if xs = [] then None else Some (last xs))" and cl: "is_closable k s = Some True"
    and fd: "0 \<le> sk_descriptor (sock_mem s k)" "sk_descriptor (sock_mem s k) < FD_SETSIZE"
  obtains s' nxt where "close_sock cbs k prev s = Some (s', nxt)"
    "client_ok ty link {} Map.empty s'" "reserved_socks s' = xs @ ys" "nxt = (case ys of [] \<Rightarrow> None | y # _ \<Rightarrow> Some y)"
    "\<And>j. j \<in> set (xs @ ys) \<Longrightarrow> is_closable j s' = is_closable j s \<and> sk_descriptor (sock_mem s' j) = sk_descriptor (sock_mem s j)"
proof -
  obtain L where m: "mem_rel ty {} Map.empty s L" using ok by (auto simp: client_ok_def mem_ok_def)
  have k: "k \<in> set (l_socks L)" using r by (simp add: layout_eqs(1) [OF m])
  define fd where "fd = sk_descriptor (sock_mem s k)"
  define t where "t = upd_sock k (\<lambda>k. k\<lparr>sk_state := EVENT_SOCK_CLOSED\<rparr>)
    (os_do (Os_Close fd) (os_do (Os_Shutdown fd) (s\<lparr>lp_active_fds := lp_active_fds s - {fd}\<rparr>)))"
  have "sk_state (sock_mem s k) = EVENT_SOCK_CLOSING" using closable_layout [OF m k] cl by simp
  then obtain cb where cb: "sk_close_cb (sock_mem s k) = Some cb" "ty cb = None"
    using mem_relD(4) [OF m] k by (auto simp: socks_ok_def sock_ok_def typed_def)
  have mt: "mem_rel ty {} Map.empty t L" and okt: "client_ok ty link {} Map.empty t"
    using mark_closed_ok [OF ok m k fd_def] by (simp_all add: t_def)
  obtain u where u: "close_cb cbs cb k t = Some u" using close_total [OF okt _ cb(2)] k by (auto simp: layout_eqs(1) [OF mt])
  from fd have "0 \<le> fd" "fd < FD_SETSIZE" by (simp_all add: fd_def)
  from close_sock_rest [OF ok r prev cl fd_def t_def this cb(1) u] that show ?thesis by blast
qed

lemma close_loop_returns:
  assumes "client_ok ty link {} Map.empty s" "reserved_socks s = xs @ ys"
    "prev = (if xs = [] then None else Some (last xs))" "sock = (case ys of [] \<Rightarrow> None | y # _ \<Rightarrow> Some y)"
    "\<And>k. k \<in> set ys \<Longrightarrow> is_closable k s = Some True \<Longrightarrow> 0 \<le> sk_descriptor (sock_mem s k) \<and> sk_descriptor (sock_mem s k) < FD_SETSIZE"
  shows "\<exists>s' mx'. close_loop cbs sock prev mx s = Some (s', mx') \<and> client_ok ty link {} Map.empty s' \<and>
    reserved_socks s' = xs @ filter (\<lambda>k. is_closable k s \<noteq> Some True) ys"
  using assms
proof (induction ys arbitrary: sock prev mx s xs)
  case Nil
  then show ?case by (subst close_loop.simps) simp
next
  case (Cons k ys)
  obtain L where m: "mem_rel ty {} Map.empty s L" using Cons.prems(1) by (auto simp: client_ok_def mem_ok_def)
  have k: "k \<in> set (l_socks L)" using Cons.prems(2) by (simp add: layout_eqs(1) [OF m])
  have sock: "sock = Some k" using Cons.prems(4) by simp
  obtain c where c: "is_closable k s = Some c" using closable_layout [OF m k] by blast
  show ?case
  proof (cases c)
    case True
    obtain t nxt where t: "close_sock cbs k prev s = Some (t, nxt)" "client_ok ty link {} Map.empty t" "reserved_socks t = xs @ ys"
      "nxt = (case ys of [] \<Rightarrow> None | y # _ \<Rightarrow> Some y)"
      "\<And>j. j \<in> set (xs @ ys) \<Longrightarrow> is_closable j t = is_closable j s \<and> sk_descriptor (sock_mem t j) = sk_descriptor (sock_mem s j)"
      by (rule close_sock_returns [OF Cons.prems(1-3)]) (use c True Cons.prems(5) [of k] in auto)
    have "filter (\<lambda>k. is_closable k t \<noteq> Some True) ys = filter (\<lambda>k. is_closable k s \<noteq> Some True) ys"
      using t(5) by (intro filter_cong) auto
    with Cons.IH [OF t(2,3) Cons.prems(3) t(4), of mx] t(1,5) Cons.prems(5) c True show ?thesis
      by (subst close_loop.simps) (simp add: sock)
  next
    case False
    have "sock_next s k = (case ys of [] \<Rightarrow> None | y # _ \<Rightarrow> Some y)"
      using listsD(2) [OF mem_relD(1) [OF m], of "()"] Cons.prems(2)
      by (auto simp: layout_eqs(1) [OF m] chain_append chain_Some split: list.splits)
    from Cons.IH [OF Cons.prems(1), of "xs @ [k]" sock "sock_next s k" "max (sk_descriptor (sock_mem s k)) mx"] this
      Cons.prems(2,5) c False show ?thesis by (subst close_loop.simps) (simp add: sock)
  qed
qed

lemma close_returns:
  assumes "client_ok ty link {} Map.empty s"
    "\<And>k. k \<in> set (reserved_socks s) \<Longrightarrow> is_closable k s = Some True \<Longrightarrow>
      0 \<le> sk_descriptor (sock_mem s k) \<and> sk_descriptor (sock_mem s k) < FD_SETSIZE"
  shows "\<exists>s'. event_loop_close cbs s = Some s' \<and> client_ok ty link {} Map.empty s' \<and>
    reserved_socks s' = filter (\<lambda>k. is_closable k s \<noteq> Some True) (reserved_socks s)"
proof -
  from close_loop_returns [OF assms(1), of "[]" "reserved_socks s" None "lp_reserved s" "- 1"] assms(2) first_sock [OF assms(1)]
  obtain t mx where t: "close_loop cbs (lp_reserved s) None (- 1) s = Some (t, mx)" "client_ok ty link {} Map.empty t"
    "reserved_socks t = filter (\<lambda>k. is_closable k s \<noteq> Some True) (reserved_socks s)" by auto
  from ok_fields [OF t(2), of "t\<lparr>lp_nfds := mx + 1\<rparr>"] t show ?thesis
    by (simp add: event_loop_close_def memory_def)
qed

end

end
