(* ===== verification/Http2_Invariant.thy ===== *)
theory Http2_Invariant
  imports Session Event_Loop
begin

text \<open>
  An invariant of all contexts of the server, and that it survives everything the server does: every
  function of \<open>http2.c\<close> and \<open>two.c\<close> preserves it, so the locale \<open>loop_client\<close> of \<open>Event_Loop\<close> gives it for
  every state of a running server, whatever the clients send and the operating system answers.
\<close>

subsection \<open>The layers of the state\<close>

lemma http2_more:
  fixes s s' :: "'z http2_state_scheme"
  assumes "event_loop.more s' = event_loop.more s"
  shows "ctx_mem s' = ctx_mem s" "resources s' = resources s" "http2_state.more s' = http2_state.more s"
    "client_id s' = client_id s" "clients s' = clients s" "connected_clients s' = connected_clients s"
    "client_next s' = client_next s" "clients_inited s' = clients_inited s"
proof -
  have "ctx_mem s' = ctx_mem s \<and> resources s' = resources s \<and> http2_state.more s' = http2_state.more s \<and>
    client_id s' = client_id s \<and> clients s' = clients s \<and> connected_clients s' = connected_clients s \<and>
    client_next s' = client_next s \<and> clients_inited s' = clients_inited s"
    using assms by (cases s, cases s') simp
  then show "ctx_mem s' = ctx_mem s" "resources s' = resources s" "http2_state.more s' = http2_state.more s"
    "client_id s' = client_id s" "clients s' = clients s" "connected_clients s' = connected_clients s"
    "client_next s' = client_next s" "clients_inited s' = clients_inited s" by blast+
qed

lemma send_more [keeps_more]:
  "send_ping_frame k d p ack cb s = Some (s', r) \<Longrightarrow> event_loop.more s' = event_loop.more s"
  "send_goaway_frame k e l cb s = Some (s', r) \<Longrightarrow> event_loop.more s' = event_loop.more s"
  "send_settings_frame k ack vs cb s = Some (s', r) \<Longrightarrow> event_loop.more s' = event_loop.more s"
  "send_window_update_frame k n i cb s = Some (s', r) \<Longrightarrow> event_loop.more s' = event_loop.more s"
  "send_rst_stream_frame k e i cb s = Some (s', r) \<Longrightarrow> event_loop.more s' = event_loop.more s"
  "send_data_frame k d p n i fin cb s = Some (s', r) \<Longrightarrow> event_loop.more s' = event_loop.more s"
  "send_headers_frame k H t i fin cb s = Some (s', t', r) \<Longrightarrow> event_loop.more s' = event_loop.more s"
  unfolding send_ping_frame_def send_goaway_frame_def send_settings_frame_def send_window_update_frame_def
    send_rst_stream_frame_def send_data_frame_def send_headers_frame_def Let_def
  by (auto split: Option.bind_splits if_splits prod.splits dest: write_more)

lemma ctx_mem_upd [simp]:
  "ctx_mem (upd_ctx c f s) = (ctx_mem s)(c := f (ctx_mem s c))" "resources (upd_ctx c f s) = resources s"
  "upd_stream c g s = upd_ctx c (\<lambda>x. x\<lparr>cx_stream := g (cx_stream x)\<rparr>) s"
  by (simp_all add: upd_ctx_def upd_stream_def)

subsection \<open>The invariant\<close>

text \<open>
  \<^item> the buffer of a stream has its size, and the length and the pointer of what it holds stay inside;
  \<^item> the current stream is the last one that was opened, and its identifier is odd (0 before the first);
  \<^item> the window of the connection is never negative;
  \<^item> the settings of the peer are within the limits of RFC 7540;
  \<^item> the flag \<open>GOAWAY_SENT\<close> is never set.
\<close>

definition stream_ok :: "http2_stream \<Rightarrow> bool" where
  "stream_ok st \<longleftrightarrow> length (st_buf st) = HTTP2_STREAM_BUF_SIZE \<and> st_buflen st \<le> HTTP2_STREAM_BUF_SIZE \<and>
     (\<forall>p. st_bufptr st = Some p \<longrightarrow> p \<le> HTTP2_STREAM_BUF_SIZE)"

definition settings_ok :: "http2_settings \<Rightarrow> bool" where
  "settings_ok t \<longleftrightarrow> enable_push t \<le> 1 \<and> initial_window_size t \<le> 0x7FFFFFFF \<and> max_frame_size t \<le> 0xFFFFFF"

definition context_ok :: "http2_context \<Rightarrow> bool" where
  "context_ok x \<longleftrightarrow> stream_ok (cx_stream x) \<and> settings_ok (cx_settings x) \<and>
     st_id (cx_stream x) = cx_last_opened_stream_id x \<and>
     (cx_last_opened_stream_id x = 0 \<or> odd (unat (cx_last_opened_stream_id x))) \<and>
     0 \<le> sint (cx_window_size x) \<and> \<not> has_flag (cx_flags x) HTTP2_FLAGS_GOAWAY_SENT \<and>
     (cx_socket x \<noteq> None \<longrightarrow> 0x4000 \<le> max_frame_size (cx_settings x))"

text \<open>The handlers of the application leave a response buffer of the size they got.\<close>

definition handlers_fit :: "server_table \<Rightarrow> bool" where
  "handlers_fit t \<longleftrightarrow> (\<forall>r \<in> set (server_resources t). \<forall>h. rs_handler r = Some h \<longrightarrow>
     (\<forall>m p c n c' k. h m p c n = Some (c', k) \<longrightarrow> length c' = length c))"

definition contexts_ok :: "'z http2_state_scheme \<Rightarrow> bool" where
  "contexts_ok s \<longleftrightarrow> (\<forall>c. context_ok (ctx_mem s c)) \<and> handlers_fit (resources s)"

lemma contexts_ok_more: "event_loop.more s' = event_loop.more s \<Longrightarrow> contexts_ok s \<Longrightarrow> contexts_ok s'"
  using http2_more(1,2) [of s' s] by (simp add: contexts_ok_def)

lemmas event_keeps = keeps_more [THEN contexts_ok_more]

lemma contexts_okD: "contexts_ok s \<Longrightarrow> context_ok (ctx_mem s c)"
  by (simp add: contexts_ok_def)

lemma contexts_ok_upd:
  "contexts_ok s \<Longrightarrow> (context_ok (ctx_mem s c) \<Longrightarrow> context_ok (f (ctx_mem s c))) \<Longrightarrow> contexts_ok (upd_ctx c f s)"
  by (simp add: contexts_ok_def)

lemma null_context_ok: "context_ok null_context"
  by (simp add: context_ok_def stream_ok_def settings_ok_def null_context_def null_stream_def has_flag_def
      HTTP2_STREAM_BUF_SIZE_def)

text \<open>The flags of the program are different bits.\<close>

lemma goaway_flag [simp]:
  "has_flag (x OR 1) 0x10 = has_flag x 0x10" "has_flag (x OR 2) 0x10 = has_flag x 0x10"
  "has_flag (x OR 4) 0x10 = has_flag x 0x10" "has_flag (x OR 8) 0x10 = has_flag x 0x10"
  "has_flag (x OR 0x20) 0x10 = has_flag x 0x10" "\<not> has_flag (0 :: byte) f"
  "\<not> has_flag x 0x10 \<Longrightarrow> \<not> has_flag (x AND y) 0x10"
proof -
  have "(x OR k) AND 0x10 = x AND 0x10" if "k AND 0x10 = 0" for x k :: byte
    using that by (simp add: bit.conj_disj_distrib2)
  then show "has_flag (x OR 1) 0x10 = has_flag x 0x10" "has_flag (x OR 2) 0x10 = has_flag x 0x10"
    "has_flag (x OR 4) 0x10 = has_flag x 0x10" "has_flag (x OR 8) 0x10 = has_flag x 0x10"
    "has_flag (x OR 0x20) 0x10 = has_flag x 0x10"
    by (simp_all add: has_flag_def)
  have "(x AND y) AND 0x10 = (x AND 0x10) AND y" by (simp only: ac_simps)
  then show "\<not> has_flag x 0x10 \<Longrightarrow> \<not> has_flag (x AND y) 0x10" by (simp add: has_flag_def)
qed (simp add: has_flag_def)

lemmas context_defs = context_ok_def stream_ok_def set_flag_def clear_flag_def

subsection \<open>Preservation by the functions of the connection\<close>

text \<open>\<open>keeps\<close> collects, for each function, that it preserves the invariant.\<close>

named_theorems keeps \<open>functions that preserve the invariant of the contexts\<close>

declare event_keeps [keeps]

lemma on_client_close_keeps [keeps]: "http2_on_client_close k s = Some s' \<Longrightarrow> contexts_ok s \<Longrightarrow> contexts_ok s'"
  by (auto simp: http2_on_client_close_def LL_PUSH_def contexts_ok_def split: option_splits)

lemma close_immediate_keeps [keeps]: "http2_close_immediate c s = Some s' \<Longrightarrow> contexts_ok s \<Longrightarrow> contexts_ok s'"
  by (auto simp: http2_close_immediate_def Let_def context_defs split: option_splits dest!: event_keeps
      intro!: contexts_ok_upd)

lemma close_gracefully_keeps [keeps]: "http2_close_gracefully c s = Some (s', r) \<Longrightarrow> contexts_ok s \<Longrightarrow> contexts_ok s'"
  by (auto simp: http2_close_gracefully_def Let_def context_defs split: option_splits dest!: event_keeps
      intro!: contexts_ok_upd)

lemma error_keeps [keeps]: "http2_error c e s = Some s' \<Longrightarrow> contexts_ok s \<Longrightarrow> contexts_ok s'"
  by (auto simp: http2_error_def Let_def context_defs split: option_splits dest!: event_keeps intro!: contexts_ok_upd)

lemma error_return_keeps [keeps]: "error_return c e s = Some (s', r) \<Longrightarrow> contexts_ok s \<Longrightarrow> contexts_ok s'"
  by (auto simp: error_return_def split: option_splits dest: error_keeps)

lemma stream_error_keeps [keeps]: "http2_stream_error c i e s = Some s' \<Longrightarrow> contexts_ok s \<Longrightarrow> contexts_ok s'"
  by (auto simp: http2_stream_error_def context_defs split: option_splits dest!: event_keeps intro!: contexts_ok_upd)

lemma write_error_keeps [keeps]: "close_on_write_error k n s = Some s' \<Longrightarrow> contexts_ok s \<Longrightarrow> contexts_ok s'"
  by (auto simp: close_on_write_error_def split: option_splits dest!: keeps)

lemma goaway_sent_keeps [keeps]: "close_on_goaway_sent k n s = Some s' \<Longrightarrow> contexts_ok s \<Longrightarrow> contexts_ok s'"
  by (auto simp: close_on_goaway_sent_def split: option_splits dest!: keeps)

lemma settings_timeout_keeps [keeps]: "on_settings_timeout k s = Some (s', r) \<Longrightarrow> contexts_ok s \<Longrightarrow> contexts_ok s'"
  by (auto simp: on_settings_timeout_def split: option_splits dest!: keeps)

lemma settings_sent_keeps [keeps]: "on_settings_sent k n s = Some s' \<Longrightarrow> contexts_ok s \<Longrightarrow> contexts_ok s'"
  by (auto simp: on_settings_sent_def Let_def context_defs split: option_splits dest!: keeps intro!: contexts_ok_upd)

lemma error_stop_keeps [keeps]: "error_stop c e s = Some (s', r) \<Longrightarrow> contexts_ok s \<Longrightarrow> contexts_ok s'"
  by (auto simp: error_stop_def split: option_splits dest!: keeps)

lemma initial_window_keeps [keeps]: "update_initial_window c v s = Some (s', r) \<Longrightarrow> contexts_ok s \<Longrightarrow> contexts_ok s'"
  by (auto simp: update_initial_window_def setting_field_def Let_def context_defs settings_ok_def not_less
      split: option_splits dest!: keeps intro!: contexts_ok_upd)

lemma update_setting_keeps [keeps]: "update_setting c i v s = Some (s', r) \<Longrightarrow> contexts_ok s \<Longrightarrow> contexts_ok s'"
  by (auto simp: update_setting_def setting_field_def Let_def context_defs settings_ok_def not_less
      split: option_splits dest!: keeps intro!: contexts_ok_upd)

lemma update_settings_loop_keeps:
  "update_settings_loop c d p len i tot s = Some (s', r) \<Longrightarrow> contexts_ok s \<Longrightarrow> contexts_ok s'"
proof (induction "len - i" arbitrary: i tot s rule: less_induct)
  case less
  show ?case
  proof (cases "i < len")
    case True
    with less.prems(1) obtain sid v t q where q: "update_setting c sid v s = Some (t, q)"
      "(case q of None \<Rightarrow> Some (t, 0) | Some n \<Rightarrow> update_settings_loop c d p len (i + 6) (tot + n) t) = Some (s', r)"
      by (subst (asm) update_settings_loop.simps) (auto split: Option.bind_splits)
    have "contexts_ok t" by (rule update_setting_keeps [OF q(1) less.prems(2)])
    with q(2) less.hyps [of "i + 6"] True show ?thesis by (auto split: option.splits)
  next
    case False
    with less.prems show ?thesis by (subst (asm) update_settings_loop.simps) simp
  qed
qed

lemma update_settings_keeps [keeps]: "update_settings c d p n s = Some (s', r) \<Longrightarrow> contexts_ok s \<Longrightarrow> contexts_ok s'"
  unfolding update_settings_def by (rule update_settings_loop_keeps)

lemma handle_settings_keeps [keeps]: "handle_settings_frame c h d p s = Some (s', r) \<Longrightarrow> contexts_ok s \<Longrightarrow> contexts_ok s'"
  by (auto simp: handle_settings_frame_def Let_def context_defs split: option_splits
      dest!: error_return_keeps update_settings_keeps send_more(3) [THEN contexts_ok_more]
        timer_stop_more [THEN contexts_ok_more] intro!: contexts_ok_upd)

lemma handle_goaway_keeps [keeps]: "handle_goaway_frame c h d p s = Some (s', r) \<Longrightarrow> contexts_ok s \<Longrightarrow> contexts_ok s'"
  by (auto simp: handle_goaway_frame_def Let_def context_defs split: option_splits
      dest!: error_return_keeps close_immediate_keeps send_more(2) [THEN contexts_ok_more]
        read_more [THEN contexts_ok_more] intro!: contexts_ok_upd)

lemma handle_ping_keeps [keeps]: "handle_ping_frame c h d p s = Some (s', r) \<Longrightarrow> contexts_ok s \<Longrightarrow> contexts_ok s'"
  by (auto simp: handle_ping_frame_def split: option_splits dest!: error_return_keeps send_more(1) [THEN contexts_ok_more])

subsection \<open>Flow control\<close>

lemma sint_small:
  fixes v :: u32
  assumes "v \<le> 0x7FFFFFFF"
  shows "sint v = uint v"
proof -
  have "uint v < 2 ^ 31" using assms by (simp add: word_le_def)
  moreover have "- (2 ^ 31) \<le> uint v" by (rule order_trans [OF _ uint_ge_0]) simp
  ultimately have "signed_take_bit 31 (uint v) = uint v" by (intro signed_take_bit_int_eq_self)
  then show ?thesis by (simp add: sint_uint)
qed

lemma sint_minus_small:
  fixes w :: u32
  assumes "0 \<le> n" "n \<le> sint w"
  shows "sint (w - word_of_int n) = sint w - n"
proof -
  have "w - word_of_int n = word_of_int (sint w - n)" by simp
  moreover have "sint w < 2 ^ 31" using sint_lt [of w] by simp
  ultimately show ?thesis using assms by (simp add: sint_sbintrunc' signed_take_bit_int_eq_self del: of_int_diff)
qed

text \<open>How many bytes of the response the two windows and the buffer allow.\<close>

definition sendable :: "http2_context \<Rightarrow> int" where
  "sendable x = min (int (st_buflen (cx_stream x))) (min (sint (cx_window_size x)) (sint (st_window_size (cx_stream x))))"

lemma continue_send_blocked: "sendable (ctx_mem s c) \<le> 0 \<Longrightarrow> http2_continue_send c s = Some s"
  by (simp add: http2_continue_send_def sendable_def Let_def)

lemma continue_send_sends:
  assumes "0 < sendable (ctx_mem s c)" "x = ctx_mem s c" "n = min (sendable x) (int HTTP2_SOCK_WRITE_SIZE)"
  shows "http2_continue_send c s = do {
     socket \<leftarrow> cx_socket x;
     bufptr \<leftarrow> st_bufptr (cx_stream x);
     (s, _) \<leftarrow> send_data_frame socket (st_buf (cx_stream x)) bufptr (word_of_int n) (st_id (cx_stream x))
       (int (st_buflen (cx_stream x)) - n \<le> 0) On_Stream_Send_Complete s;
     Some (upd_ctx c (\<lambda>x. x\<lparr>cx_window_size := cx_window_size x - word_of_int n\<rparr>)
       (upd_stream c (\<lambda>x. x\<lparr>st_bufptr := Some (bufptr + nat n), st_buflen := to_u16 (int (st_buflen x) - n),
         st_window_size := st_window_size x - word_of_int n\<rparr>) s))
   }"
  using assms unfolding http2_continue_send_def sendable_def Let_def by (simp only: not_le [symmetric] if_False)

lemma continue_send_keeps [keeps]:
  assumes "http2_continue_send c s = Some s'" "contexts_ok s"
  shows "contexts_ok s'"
proof -
  define x where "x = ctx_mem s c"
  show ?thesis
  proof (cases "sendable x \<le> 0")
    case True
    with assms show ?thesis by (simp add: continue_send_blocked x_def)
  next
    case False
    define n where "n = min (sendable x) (int HTTP2_SOCK_WRITE_SIZE)"
    have n: "0 < n" "n \<le> int (st_buflen (cx_stream x))" "n \<le> sint (cx_window_size x)"
      using False by (auto simp: n_def sendable_def HTTP2_SOCK_WRITE_SIZE_def)
    have "0 < sendable (ctx_mem s c)" using False by (simp add: x_def)
    note eq = continue_send_sends [OF this x_def n_def]
    obtain k q t r where f: "cx_socket x = Some k" "st_bufptr (cx_stream x) = Some q"
      "send_data_frame k (st_buf (cx_stream x)) q (word_of_int n) (st_id (cx_stream x))
         (int (st_buflen (cx_stream x)) - n \<le> 0) On_Stream_Send_Complete s = Some (t, r)"
      and s': "s' = upd_ctx c (\<lambda>x. x\<lparr>cx_window_size := cx_window_size x - word_of_int n\<rparr>)
        (upd_stream c (\<lambda>x. x\<lparr>st_bufptr := Some (q + nat n), st_buflen := to_u16 (int (st_buflen x) - n),
           st_window_size := st_window_size x - word_of_int n\<rparr>) t)"
      using assms(1) unfolding eq by (simp only: bind_eq_Some_conv split_paired_Ex prod.case option.inject) blast
    note t = contexts_ok_more [OF send_more(6) [OF f(3)] assms(2)] http2_more(1) [OF send_more(6) [OF f(3)]]
    have ok: "context_ok x" using assms(2) unfolding x_def by (rule contexts_okD)
    then have b: "st_buflen (cx_stream x) \<le> 512" "length (st_buf (cx_stream x)) = 512"
      by (auto simp: context_ok_def stream_ok_def HTTP2_STREAM_BUF_SIZE_def)
    with n have n512: "n \<le> 512" by simp
    then have "unat (word_of_int n :: u32) = nat n" using n(1) by (simp add: unat_eq_nat_uint uint_word_of_int)
    then have "q + nat n \<le> 512"
      using f(3) b by (auto simp: send_data_frame_def mem_read_def Let_def split: option_splits)
    moreover have "to_u16 (int (st_buflen (cx_stream x)) - n) \<le> 512" using n b by (simp add: to_u16_def)
    moreover have "0 \<le> sint (cx_window_size x - word_of_int n)" using sint_minus_small [of n "cx_window_size x"] n by simp
    ultimately show ?thesis
      unfolding s' using t ok by (auto intro!: contexts_ok_upd simp: context_defs HTTP2_STREAM_BUF_SIZE_def x_def)
  qed
qed

lemma stream_send_complete_keeps [keeps]: "on_stream_send_complete k n s = Some s' \<Longrightarrow> contexts_ok s \<Longrightarrow> contexts_ok s'"
  by (auto simp: on_stream_send_complete_def context_defs split: option_splits
      dest!: close_immediate_keeps continue_send_keeps intro!: contexts_ok_upd)

lemma window_update_keeps [keeps]:
  "handle_window_update_frame c h d p s = Some (s', r) \<Longrightarrow> contexts_ok s \<Longrightarrow> contexts_ok s'"
  by (auto simp: handle_window_update_frame_def Let_def context_defs not_less sint_small split: option_splits
      dest!: error_return_keeps stream_error_keeps continue_send_keeps intro!: contexts_ok_upd)

subsection \<open>Requests and streams\<close>

lemma handler_length:
  assumes "handlers_fit t" "rd (server_resources t) i = Some r" "rs_handler r = Some h" "h m p c k = Some (c', v)"
  shows "length c' = length c"
proof -
  have "r \<in> set (server_resources t)" using assms(2) by (auto simp: rd_eq_Some_iff)
  with assms show ?thesis unfolding handlers_fit_def by blast
qed

lemma handle_request_bounds:
  assumes "http_handle_request t req res n = Some res'" "handlers_fit t"
  shows "length (rp_content res') = length (rp_content res) \<and> 0 \<le> rp_content_length res' \<and> rp_content_length res' \<le> uint n"
proof -
  define run where "run m p ur = (case ur of
      None \<Rightarrow> Some (http_error res 404)
    | Some i \<Rightarrow> do {
        content \<leftarrow> mem_write (rp_content res) 0 (replicate (unat n) 0);
        r \<leftarrow> rd (server_resources t) i;
        handler \<leftarrow> rs_handler r;
        (content, content_length) \<leftarrow> handler m p content n;
        if content_length < 0 then Some (http_error (res\<lparr>rp_content := content\<rparr>) 500)
        else Some (res\<lparr>rp_content := content, rp_status := 200, rp_content_length := min content_length (uint n),
                       rp_content_type := rs_content_type r\<rparr>)
      })" for m p ur
  have run: ?thesis if "run m p ur = Some res'" for m p ur
  proof (cases ur)
    case (Some i)
    with that obtain content r handler content' k where *:
      "mem_write (rp_content res) 0 (replicate (unat n) 0) = Some content"
      "rd (server_resources t) i = Some r" "rs_handler r = Some handler"
      "handler m p content n = Some (content', k)"
      "(if k < 0 then Some (http_error (res\<lparr>rp_content := content'\<rparr>) 500)
        else Some (res\<lparr>rp_content := content', rp_status := 200, rp_content_length := min k (uint n),
                       rp_content_type := rs_content_type r\<rparr>)) = Some res'"
      by (simp only: run_def option.case bind_eq_Some_conv split_paired_Ex prod.case) blast
    have "length content' = length (rp_content res)"
      using handler_length [OF assms(2) *(2,3,4)] *(1) by (simp add: mem_write_eq_Some_iff)
    with *(5) show ?thesis by (cases "k < 0") (auto simp: http_error_def)
  qed (use that in \<open>auto simp: run_def http_error_def\<close>)
  from assms(1) show ?thesis unfolding http_handle_request_def run_def [symmetric]
    by (auto simp: http_error_def split: if_splits Option.bind_splits dest: run)
qed

lemma request_keeps:
  assumes "handle_request c H s = Some (s', res)" "contexts_ok s"
  shows "contexts_ok s' \<and> 0 \<le> rp_content_length res \<and> rp_content_length res \<le> int HTTP2_STREAM_BUF_SIZE"
proof -
  have f: "handlers_fit (resources s)" and l: "length (st_buf (cx_stream (ctx_mem s c))) = HTTP2_STREAM_BUF_SIZE"
    using assms(2) contexts_okD [OF assms(2), of c] by (simp_all add: contexts_ok_def context_ok_def stream_ok_def)
  from assms(1) obtain req res0 where r: "http_handle_request (resources s) req res0 (of_nat HTTP2_STREAM_BUF_SIZE) = Some res"
    "rp_content res0 = st_buf (cx_stream (ctx_mem s c))" "s' = upd_stream c (\<lambda>x. x\<lparr>st_buf := rp_content res\<rparr>) s"
    by (fastforce simp: handle_request_def Let_def split: option_splits)
  note b = handle_request_bounds [OF r(1) f]
  have "contexts_ok s'" unfolding r(3) using assms(2) b l r(2)
    by (auto intro!: contexts_ok_upd simp: context_defs)
  with b show ?thesis by (simp add: HTTP2_STREAM_BUF_SIZE_def)
qed

lemma response_keeps:
  assumes "send_response c H res s = Some (s', r)" "contexts_ok s"
    "0 \<le> rp_content_length res" "rp_content_length res \<le> int HTTP2_STREAM_BUF_SIZE"
  shows "contexts_ok s'"
proof -
  have "to_u16 (rp_content_length res) \<le> HTTP2_STREAM_BUF_SIZE"
    using assms(3,4) by (simp add: to_u16_def HTTP2_STREAM_BUF_SIZE_def)
  then have "contexts_ok (upd_stream c (\<lambda>x. x\<lparr>st_buflen := to_u16 (rp_content_length res)\<rparr>) s)"
    using assms(2) by (auto intro!: contexts_ok_upd simp: context_defs)
  with assms(1) show ?thesis
    by (auto simp: send_response_def Let_def context_defs split: option_splits
        dest!: send_more(7) [THEN contexts_ok_more] error_return_keeps intro!: contexts_ok_upd)
qed

lemma end_stream_keeps [keeps]: "handle_end_stream c s = Some (s', r) \<Longrightarrow> contexts_ok s \<Longrightarrow> contexts_ok s'"
proof -
  assume a: "handle_end_stream c s = Some (s', r)" and ok: "contexts_ok s"
  have t: "contexts_ok (upd_ctx c (\<lambda>x. x\<lparr>cx_hpack_dynamic_table := d\<rparr>) s)" for d
    using ok by (auto intro!: contexts_ok_upd simp: context_defs)
  from a show "contexts_ok s'"
    by (auto simp: handle_end_stream_def Let_def split: option_splits
        dest!: error_return_keeps [OF _ t] request_keeps [OF _ t] dest: response_keeps)
qed

lemma finish_block_keeps [keeps]: "finish_header_block c h s = Some (s', r) \<Longrightarrow> contexts_ok s \<Longrightarrow> contexts_ok s'"
  by (auto simp: finish_header_block_def Let_def context_defs split: if_splits
      dest!: end_stream_keeps intro!: contexts_ok_upd)

lemma header_block_keeps [keeps]:
  assumes "handle_header_block c h d p n s = Some (s', r)" "contexts_ok s"
  shows "contexts_ok s'"
proof -
  define k where "k = min n (int HTTP2_STREAM_BUF_SIZE - int (st_buflen (cx_stream (ctx_mem s c))))"
  have b: "length (st_buf (cx_stream (ctx_mem s c))) = 512" "st_buflen (cx_stream (ctx_mem s c)) \<le> 512"
    using contexts_okD [OF assms(2), of c] by (simp_all add: context_ok_def stream_ok_def HTTP2_STREAM_BUF_SIZE_def)
  have copy: "contexts_ok (upd_stream c (\<lambda>x. x\<lparr>st_buf := buf, st_buflen := to_u16 (int (st_buflen x) + k)\<rparr>) s)"
    if "memcpy (st_buf (cx_stream (ctx_mem s c))) q d v k = Some buf" "0 < k" for q v buf
  proof -
    have "to_u16 (int (st_buflen (cx_stream (ctx_mem s c))) + k) \<le> 512"
      using that(2) by (auto simp: to_u16_def k_def HTTP2_STREAM_BUF_SIZE_def)
    with that b assms(2) show ?thesis
      by (auto intro!: contexts_ok_upd simp: context_defs memcpy_eq_Some_iff HTTP2_STREAM_BUF_SIZE_def)
  qed
  from assms show ?thesis
    unfolding handle_header_block_def Let_def k_def [symmetric]
    by (auto split: if_splits Option.bind_splits simp del: ctx_mem_upd(3)
        dest!: error_return_keeps finish_block_keeps copy)
qed

lemma headers_keeps [keeps]:
  assumes "handle_headers_frame c h d p s = Some (s', r)" "contexts_ok s"
  shows "contexts_ok s'"
proof -
  have opened: "contexts_ok (open_stream c i s)" if "odd (unat i)" for i
    unfolding open_stream_def using that contexts_okD [OF assms(2), of c]
    by (intro contexts_ok_upd assms(2)) (auto simp: context_defs settings_ok_def)
  have trailers: "contexts_ok (upd_ctx c (\<lambda>x. set_flag HTTP2_FLAGS_WAITING_END_HEADERS (set_flag HTTP2_FLAGS_WAITING_TRAILERS x)) s)"
    by (intro contexts_ok_upd assms(2)) (auto simp: context_defs)
  from assms show ?thesis
    unfolding handle_headers_frame_def Let_def
    by (auto split: if_splits Option.bind_splits option.splits
        dest!: error_return_keeps stream_error_keeps header_block_keeps intro: opened trailers)
qed

lemma data_keeps [keeps]:
  assumes "handle_data_frame c h d p s = Some (s', r)" "contexts_ok s"
  shows "contexts_ok s'"
proof -
  have closed: "contexts_ok (upd_stream c (\<lambda>x. x\<lparr>st_state := HTTP2_STREAM_HALF_CLOSED_REMOTE\<rparr>)
      (upd_ctx c (clear_flag HTTP2_FLAGS_WAITING_END_STREAM) s))"
    using assms(2) by (auto intro!: contexts_ok_upd simp: context_defs)
  from assms show ?thesis
    unfolding handle_data_frame_def Let_def
    by (auto split: if_splits Option.bind_splits simp del: ctx_mem_upd(3)
        dest!: error_return_keeps stream_error_keeps end_stream_keeps intro: closed)
qed

lemma continuation_keeps [keeps]:
  "handle_continuation_frame c h d p s = Some (s', r) \<Longrightarrow> contexts_ok s \<Longrightarrow> contexts_ok s'"
  by (auto simp: handle_continuation_frame_def Let_def split: if_splits dest: error_return_keeps header_block_keeps)

lemma rst_stream_keeps [keeps]:
  "handle_rst_stream_frame c h s = Some (s', r) \<Longrightarrow> contexts_ok s \<Longrightarrow> contexts_ok s'"
  by (auto simp: handle_rst_stream_frame_def context_defs split: if_splits dest: error_return_keeps intro!: contexts_ok_upd)

subsection \<open>Reading\<close>

lemma handle_frame_keeps [keeps]: "handle_frame c h d p s = Some (s', r) \<Longrightarrow> contexts_ok s \<Longrightarrow> contexts_ok s'"
  by (auto simp: handle_frame_def split: if_splits Option.bind_splits
      dest: handle_goaway_keeps handle_settings_keeps handle_ping_keeps headers_keeps continuation_keeps
        window_update_keeps rst_stream_keeps data_keeps error_keeps)

lemma receiving_loop_keeps:
  "receiving_loop c buf i n s = Some (s', r) \<Longrightarrow> contexts_ok s \<Longrightarrow> contexts_ok s'"
proof (induction n arbitrary: i s rule: less_induct)
  case (less n)
  have next_frame: "receiving_loop c buf j (n - (9 + m)) t = Some (s', r) \<Longrightarrow> handle_frame c h buf q s = Some (t, v) \<Longrightarrow>
      \<not> n < 9 + m \<Longrightarrow> contexts_ok s'" for j m t h q v
    by (rule less.IH [OF _ _ handle_frame_keeps [OF _ less.prems(2)]]) auto
  from less.prems(1) show ?case
    by (subst (asm) receiving_loop.simps)
      (use less.prems(2) in \<open>auto simp: Let_def split: if_splits Option.bind_splits
        dest: error_keeps handle_frame_keeps next_frame\<close>)
qed

lemma receiving_keeps [keeps]: "receiving k n buf s = Some (s', r) \<Longrightarrow> contexts_ok s \<Longrightarrow> contexts_ok s'"
  by (auto simp: receiving_def split: option_splits dest: close_immediate_keeps receiving_loop_keeps)

lemma preface_keeps [keeps]: "waiting_for_preface k n buf s = Some (s', r) \<Longrightarrow> contexts_ok s \<Longrightarrow> contexts_ok s'"
  by (auto simp: waiting_for_preface_def Let_def context_defs split: if_splits Option.bind_splits
      dest!: close_immediate_keeps send_more(3) [THEN contexts_ok_more] read_more [THEN contexts_ok_more]
      intro!: contexts_ok_upd)

lemma first_settings_keeps [keeps]: "waiting_for_settings k n buf s = Some (s', r) \<Longrightarrow> contexts_ok s \<Longrightarrow> contexts_ok s'"
  by (auto simp: waiting_for_settings_def Let_def context_defs split: if_splits Option.bind_splits
      dest!: close_immediate_keeps error_keeps handle_settings_keeps read_more [THEN contexts_ok_more]
      intro!: contexts_ok_upd)

subsection \<open>Connections and the server\<close>

definition accepted_context :: "byte \<Rightarrow> nat \<Rightarrow> hpack_dynamic_table \<Rightarrow> http2_context" where
  "accepted_context i k t = null_context\<lparr>cx_id := i, cx_socket := Some k, cx_settings := default_settings,
     cx_state := HTTP2_WAITING_PREFACE, cx_window_size := initial_window_size default_settings,
     cx_hpack_dynamic_table := t\<rparr>"

lemma accepted_context_ok: "context_ok (accepted_context i k t)"
  by (simp add: accepted_context_def context_ok_def stream_ok_def settings_ok_def null_context_def null_stream_def
      default_settings_def has_flag_def HTTP2_STREAM_BUF_SIZE_def)

lemma new_client_keeps [keeps]:
  assumes "http2_new_client k s = Some (s', r)" "contexts_ok s"
  shows "contexts_ok s'"
proof -
  have new: "context_ok (null_context\<lparr>cx_id := i, cx_socket := Some k, cx_settings := default_settings,
      cx_stream := null_stream\<lparr>st_id := 0, st_state := HTTP2_STREAM_IDLE\<rparr>,
      cx_state := HTTP2_WAITING_PREFACE, cx_flags := HTTP2_FLAGS_NONE, cx_last_opened_stream_id := 0,
      cx_window_size := initial_window_size default_settings, cx_hpack_dynamic_table := t\<rparr>)" for i t
    using accepted_context_ok [of i k t] by (simp add: accepted_context_def null_context_def null_stream_def)
  define s1 where "s1 = (if clients_inited s then s
    else let (h, p) = LL_INIT HTTP2_MAX_CLIENTS
         in s\<lparr>client_next := h, clients := p, ctx_mem := (\<lambda>_. null_context),
              connected_clients := None, clients_inited := True\<rparr>)"
  have s1: "contexts_ok s1"
    using assms(2) by (simp add: s1_def contexts_ok_def null_context_ok split: prod.splits)
  obtain h free used ctx where m: "LL_MOVE (client_next s1) (clients s1) (connected_clients s1) = Some (h, free, used, ctx)"
    using assms(1) by (auto simp: http2_new_client_def Let_def s1_def [symmetric] split: Option.bind_splits)
  have s2: "contexts_ok (s1\<lparr>client_next := h, clients := free, connected_clients := used\<rparr>)"
    using s1 by (simp add: contexts_ok_def)
  show ?thesis
  proof (cases ctx)
    case None
    with assms(1) m show ?thesis
      by (auto simp: http2_new_client_def Let_def s1_def [symmetric] split: Option.bind_splits
          dest!: close_more [THEN contexts_ok_more] intro: s2)
  next
    case (Some c)
    from assms(1) m Some show ?thesis
      by (auto simp: http2_new_client_def Let_def s1_def [symmetric] upd_sock_def split: Option.bind_splits
          dest!: read_start_more [THEN contexts_ok_more] write_enable_more [THEN contexts_ok_more])
        (use s2 new in \<open>simp add: contexts_ok_def\<close>)
  qed
qed

text \<open>The fields of \<open>two.c\<close> are not touched by the invariant.\<close>

lemma server_fields_keep [simp]:
  "contexts_ok (s\<lparr>server_sock := v\<rparr>) = contexts_ok s" "contexts_ok (s\<lparr>global_close_cb := b\<rparr>) = contexts_ok s"
  "contexts_ok (s\<lparr>close_notified := n\<rparr>) = contexts_ok s" "contexts_ok (s\<lparr>os := e\<rparr>) = contexts_ok s"
  for s :: "'z two_state_scheme"
  by (simp_all add: contexts_ok_def)

lemma new_connection_keeps [keeps]: "on_new_connection k s = Some (s', r) \<Longrightarrow> contexts_ok s \<Longrightarrow> contexts_ok s'"
  by (auto simp: on_new_connection_def split: if_splits Option.bind_splits
      dest!: sock_create_more [THEN contexts_ok_more] accept_more [THEN contexts_ok_more]
        close_more [THEN contexts_ok_more] new_client_keeps)

lemma callbacks_keep:
  "run_connection_cb cb k s = Some (s', v) \<Longrightarrow> contexts_ok s \<Longrightarrow> contexts_ok s'"
  "run_read_cb cb k n buf s = Some (s', r) \<Longrightarrow> contexts_ok s \<Longrightarrow> contexts_ok s'"
  "run_write_cb cb k n s = Some s' \<Longrightarrow> contexts_ok s \<Longrightarrow> contexts_ok s'"
  "run_timer_cb cb k s = Some (s', r) \<Longrightarrow> contexts_ok s \<Longrightarrow> contexts_ok s'"
  "run_close_cb cb k s = Some s' \<Longrightarrow> contexts_ok s \<Longrightarrow> contexts_ok s'"
  by (auto simp: run_connection_cb_def run_read_cb_def run_write_cb_def run_timer_cb_def run_close_cb_def
      on_server_close_def on_client_close_def split: callback.splits if_splits dest: new_connection_keeps
      preface_keeps first_settings_keeps receiving_keeps write_error_keeps goaway_sent_keeps settings_sent_keeps
      stream_send_complete_keeps settings_timeout_keeps on_client_close_keeps)

interpretation server: loop_client two_callbacks "contexts_ok :: 'z two_state_scheme \<Rightarrow> bool"
  by unfold_locales (auto simp: two_callbacks_def intro: contexts_ok_more callbacks_keep)

lemma server_start_keeps:
  assumes "two_server_start port env envs s = Some (s', r)" "contexts_ok s"
  shows "contexts_ok s'"
proof -
  have init: "contexts_ok (event_loop_init (s\<lparr>os := env\<rparr>))"
    by (rule contexts_ok_more [OF loop_init_more]) (simp add: assms(2))
  from assms(1) show ?thesis
    by (auto simp: two_server_start_def event_loop_run_def split: if_splits Option.bind_splits
        dest!: sock_create_more [THEN contexts_ok_more, OF _ init] listen_more [THEN contexts_ok_more]
          server.rounds_good)
qed

text \<open>
  Claim C3. Whatever the clients send and however the operating system answers, in every state of a server
  that \<open>two_server_start\<close> has started from zeroed static memory, every context is well formed: the stream
  buffer keeps its size and its length field and pointer stay inside, the current stream is the last one
  opened and has an odd identifier, the connection window is not negative, and the settings of the peer
  respect the limits of RFC 7540. The application's handlers must not change the size of the buffer they
  are given. \<open>envs\<close> are the answers for any number of rounds, so that \<open>s'\<close> ranges over all states between
  two rounds.
\<close>

theorem server_contexts_invariant:
  assumes "two_server_start port env envs s = Some (s', r)"
    and "ctx_mem s = (\<lambda>_. null_context)" "handlers_fit (resources s)"
  shows "\<forall>c. context_ok (ctx_mem s' c)"
proof -
  have "contexts_ok s" using assms(2,3) by (simp add: contexts_ok_def null_context_ok)
  then have "contexts_ok s'" by (rule server_start_keeps [OF assms(1)])
  then show ?thesis by (simp add: contexts_ok_def)
qed

theorem server_contexts_invariant_witness:
  "\<exists>s. two_server_start 8080 idle_env [client_arrives] program_start = Some (s, None) \<and>
     cx_state (ctx_mem s 0) = HTTP2_WAITING_PREFACE \<and> (\<forall>c. context_ok (ctx_mem s c))"
proof -
  obtain s where s: "two_server_start 8080 idle_env [client_arrives] program_start = Some (s, None)"
    "cx_state (ctx_mem s 0) = HTTP2_WAITING_PREFACE"
    using client_accepted by blast
  have "handlers_fit (resources program_start)"
    by (auto simp: handlers_fit_def program_start_def initial_table_def null_resource_def)
  moreover have "ctx_mem program_start = (\<lambda>_. null_context)" by (simp add: program_start_def)
  ultimately show ?thesis using s server_contexts_invariant [OF s(1)] by blast
qed

end
