(* ===== verification/Server_Memory.thy ===== *)
theory Server_Memory
  imports Loop_Memory Http2_Invariant
begin

text \<open>
  The server as a client of the event loop: \<open>link\<close> ties the contexts of \<open>http2.c\<close> to the sockets of the loop, and
  every function of \<open>http2.c\<close> that works on a connection keeps it together with the memory of the loop.
\<close>

subsection \<open>Contexts and sockets\<close>

text \<open>The type of the event a function of the program is stored in; close callbacks are stored in sockets.\<close>

fun cb_type :: "callback \<Rightarrow> event_type option" where
  "cb_type On_New_Connection = Some EVENT_CONNECTION_TYPE"
| "cb_type Waiting_For_Preface = Some EVENT_READ_TYPE"
| "cb_type Waiting_For_Settings = Some EVENT_READ_TYPE"
| "cb_type Receiving = Some EVENT_READ_TYPE"
| "cb_type Close_On_Write_Error = Some EVENT_WRITE_TYPE"
| "cb_type Close_On_Goaway_Sent = Some EVENT_WRITE_TYPE"
| "cb_type On_Settings_Sent = Some EVENT_WRITE_TYPE"
| "cb_type On_Stream_Send_Complete = Some EVENT_WRITE_TYPE"
| "cb_type On_Settings_Timeout = Some EVENT_TIMER_TYPE"
| "cb_type Http2_On_Client_Close = None"
| "cb_type On_Client_Close = None"
| "cb_type On_Server_Close = None"

text \<open>
  The contexts the sockets \<open>K\<close> point to are in use; each points back to its socket, and one that
  waits for the acknowledgement of its settings knows a timer of that socket.
\<close>

definition attached :: "nat set \<Rightarrow> 'z http2_state_scheme \<Rightarrow> nat set" where
  "attached K s = {c. \<exists>k \<in> K. sk_data (sock_mem s k) = Some c}"

definition contexts_pool :: "nat set \<Rightarrow> 'z http2_state_scheme \<Rightarrow> bool" where
  "contexts_pool K s \<longleftrightarrow>
     (if clients_inited s
      then \<exists>F C. lists HTTP2_MAX_CLIENTS (client_next s) (clients s) (\<lambda>_ :: unit. connected_clients s) UNIV F (\<lambda>_. C) {} \<and>
             attached K s \<subseteq> set C
      else attached K s = {})"

definition waits_ack :: "http2_context \<Rightarrow> bool" where
  "waits_ack x \<longleftrightarrow> has_flag (cx_flags x) HTTP2_FLAGS_WAITING_SETTINGS_ACK"

definition tied :: "'z http2_state_scheme \<Rightarrow> nat \<Rightarrow> http2_context \<Rightarrow> bool" where
  "tied s k x \<longleftrightarrow> cx_socket x = Some k \<and> (waits_ack x \<longrightarrow> (\<exists>e. cx_timer x = Some e \<and> has_timer s k e))"

definition link :: "nat set \<Rightarrow> 'z http2_state_scheme \<Rightarrow> bool" where
  "link K s \<longleftrightarrow> contexts_pool K s \<and> (\<forall>k \<in> K. \<forall>c. sk_data (sock_mem s k) = Some c \<longrightarrow> tied s k (ctx_mem s c))"

lemma linkD: "link K s \<Longrightarrow> k \<in> K \<Longrightarrow> sk_data (sock_mem s k) = Some c \<Longrightarrow> tied s k (ctx_mem s c)"
  by (simp add: link_def)

lemma link_change:
  assumes "link K s" "\<And>j. j \<in> K \<Longrightarrow> sk_data (sock_mem s' j) = sk_data (sock_mem s j)"
    "client_next s' = client_next s" "clients s' = clients s" "connected_clients s' = connected_clients s"
    "clients_inited s' = clients_inited s"
    "\<And>k c. k \<in> K \<Longrightarrow> sk_data (sock_mem s k) = Some c \<Longrightarrow> tied s k (ctx_mem s c) \<Longrightarrow> tied s' k (ctx_mem s' c)"
  shows "link K s'"
proof -
  have "attached K s' = attached K s" using assms(2) by (auto simp: attached_def)
  then have "contexts_pool K s'" using assms(1,3-6) by (simp add: link_def contexts_pool_def cong: if_cong)
  with assms show ?thesis by (simp add: link_def)
qed

lemma link_same:
  fixes s s' :: "'z http2_state_scheme"
  assumes "link K s" "sees_same K T s s'" "\<And>k c e. k \<in> K \<Longrightarrow> sk_data (sock_mem s k) = Some c \<Longrightarrow> (k, e) \<in> T \<Longrightarrow>
    waits_ack (ctx_mem s c) \<Longrightarrow> cx_timer (ctx_mem s c) \<noteq> Some e"
  shows "link K s'"
proof (rule link_change [OF assms(1)])
  have m: "event_loop.more s' = event_loop.more s" using assms(2) by (simp add: sees_same_def)
  note f = http2_more [OF m]
  show "client_next s' = client_next s" "clients s' = clients s" "connected_clients s' = connected_clients s"
    "clients_inited s' = clients_inited s" by (fact f)+
  show "sk_data (sock_mem s' j) = sk_data (sock_mem s j)" for j using assms(2) by (simp add: sees_same_def)
  show "tied s' k (ctx_mem s' c)" if "k \<in> K" "sk_data (sock_mem s k) = Some c" "tied s k (ctx_mem s c)" for k c
    using that assms(2,3) unfolding tied_def f(1) sees_same_def by blast
qed

subsection \<open>A callback at work\<close>

text \<open>
  A callback of the socket \<open>t_sock\<close> runs, whose context is \<open>t_ctx\<close>. The loop relies on the other fields: the
  sockets in use, timers that stay set, write buffers that have been shut, and what the loop itself holds.
\<close>

record task =
  t_sock :: nat
  t_ctx :: nat
  t_socks :: "nat list"
  t_timers :: "(nat \<times> nat) set"
  t_shut :: "(nat \<times> cbuf) set"
  t_held :: "nat set"
  t_slack :: "nat \<rightharpoonup> int"

definition serves :: "task \<Rightarrow> 'z http2_state_scheme \<Rightarrow> bool" where
  "serves p s \<longleftrightarrow> client_ok cb_type link (t_held p) (t_slack p) s \<and> reserved_socks s = t_socks p \<and>
     t_sock p \<in> set (t_socks p) \<and> sk_data (sock_mem s (t_sock p)) = Some (t_ctx p) \<and>
     (\<forall>(j, e) \<in> t_timers p. has_timer s j e) \<and> (\<forall>(e, buf) \<in> t_shut p. shut s (t_sock p) e buf)"

lemma servesD:
  assumes "serves p s"
  shows "mem_ok cb_type (t_held p) (t_slack p) s" "t_sock p \<in> set (reserved_socks s)" "link (set (reserved_socks s)) s"
    "sk_data (sock_mem s (t_sock p)) = Some (t_ctx p)" "tied s (t_sock p) (ctx_mem s (t_ctx p))"
    "cx_socket (ctx_mem s (t_ctx p)) = Some (t_sock p)" "context_of (t_sock p) s = Some (t_ctx p)"
proof -
  show *: "mem_ok cb_type (t_held p) (t_slack p) s" "t_sock p \<in> set (reserved_socks s)" "link (set (reserved_socks s)) s"
    "sk_data (sock_mem s (t_sock p)) = Some (t_ctx p)" using assms by (auto simp: serves_def client_ok_def)
  show t: "tied s (t_sock p) (ctx_mem s (t_ctx p))" by (rule linkD [OF *(3,2,4)])
  then show "cx_socket (ctx_mem s (t_ctx p)) = Some (t_sock p)" by (simp add: tied_def)
  show "context_of (t_sock p) s = Some (t_ctx p)" using *(4) by (simp add: context_of_def)
qed

declare servesD(6,7) [simp]

lemma serves_evolves:
  assumes "serves p s" "mem_ok cb_type (t_held p) (t_slack p) s' \<and> evolves s s'" "event_loop.more s' = event_loop.more s"
  shows "serves p s'"
proof -
  have e: "reserved_socks s' = reserved_socks s" "\<And>j. sk_data (sock_mem s' j) = sk_data (sock_mem s j)"
    "\<And>j e. has_timer s j e \<Longrightarrow> has_timer s' j e" "\<And>j e buf. shut s j e buf \<Longrightarrow> shut s' j e buf"
    using assms(2) by (auto simp: evolves_def)
  have "link (set (reserved_socks s)) s'"
    by (rule link_same [OF servesD(3) [OF assms(1)], of "{}"]) (use e assms(3) in \<open>auto simp: sees_same_def\<close>)
  with assms(1,2) e show ?thesis by (fastforce simp: serves_def client_ok_def)
qed

text \<open>The fields of the connection are not part of the memory of the loop.\<close>

lemma memory_same:
  assumes "memory s' = memory s"
  shows "reserved_socks s' = reserved_socks s" "sock_events s' k = sock_events s k" "sock_mem s' = sock_mem s"
    "has_timer s' k e = has_timer s k e" "shut s' k e buf = shut s k e buf" "mem_ok ty H x s' = mem_ok ty H x s"
proof -
  note o = memory_objects [OF assms]
  show r: "reserved_socks s' = reserved_socks s" "sock_events s' k = sock_events s k" "sock_mem s' = sock_mem s" for k
    using assms o by (simp_all add: memory_def reserved_socks_def sock_events_def)
  show "has_timer s' k e = has_timer s k e" "shut s' k e buf = shut s k e buf"
    by (simp_all add: has_timer_def shut_def r o)
  show "mem_ok ty H x s' = mem_ok ty H x s" by (simp add: mem_ok_def mem_rel_memory [OF assms])
qed

definition keeps_tie :: "(http2_context \<Rightarrow> http2_context) \<Rightarrow> http2_context \<Rightarrow> bool" where
  "keeps_tie f x \<longleftrightarrow> cx_socket (f x) = cx_socket x \<and> (waits_ack (f x) \<longrightarrow> waits_ack x \<and> cx_timer (f x) = cx_timer x)"

lemma serves_upd:
  assumes "serves p s" "c = t_ctx p" "keeps_tie f (ctx_mem s c)"
  shows "serves p (upd_ctx c f s)"
proof -
  define s' where "s' = upd_ctx c f s"
  have "memory s' = memory s" by (simp add: s'_def upd_ctx_def memory_def)
  note m = memory_same [OF this]
  have "ctx_mem s' = (ctx_mem s)(c := f (ctx_mem s c))" by (simp add: s'_def)
  then have "tied s' k (ctx_mem s' d)" if "tied s k (ctx_mem s d)" for k d
    using that assms(3) by (cases "d = c") (auto simp: tied_def keeps_tie_def m)
  then have "link (set (reserved_socks s)) s'"
    by (intro link_change [OF servesD(3) [OF assms(1)]]) (simp_all add: m, simp_all add: s'_def upd_ctx_def)
  with assms(1) show ?thesis unfolding s'_def [symmetric] by (simp add: serves_def client_ok_def m)
qed

lemma ack_flag [simp]:
  fixes fl :: byte
  shows "\<not> has_flag (fl AND 0x10) 1" "\<not> has_flag (fl AND - 2) 1"
    "has_flag (fl OR 2) 1 = has_flag fl 1" "has_flag (fl OR 4) 1 = has_flag fl 1"
    "has_flag (fl OR 8) 1 = has_flag fl 1" "has_flag (fl OR 0x20) 1 = has_flag fl 1"
proof -
  have joined: "(fl OR k) AND 1 = fl AND 1" if "k AND 1 = 0" for k :: byte
    using that by (simp add: bit.conj_disj_distrib2)
  show "has_flag (fl OR 2) 1 = has_flag fl 1" "has_flag (fl OR 4) 1 = has_flag fl 1"
    "has_flag (fl OR 8) 1 = has_flag fl 1" "has_flag (fl OR 0x20) 1 = has_flag fl 1"
    by (simp_all add: has_flag_def joined)
  show "\<not> has_flag (fl AND 0x10) 1" "\<not> has_flag (fl AND - 2) 1"
    by (simp_all add: has_flag_def and.assoc)
qed

lemma ack_and: "has_flag (fl AND y) 1 \<Longrightarrow> has_flag fl 1" for fl :: byte
proof -
  have "(fl AND y) AND 1 = (fl AND 1) AND y" by (simp only: ac_simps)
  then show "has_flag (fl AND y) 1 \<Longrightarrow> has_flag fl 1" by (auto simp: has_flag_def)
qed

lemma clear_timer [simp]: "cx_timer (clear_flag f x) = cx_timer x"
  by (simp add: clear_flag_def)

lemmas tie_defs = keeps_tie_def waits_ack_def set_flag_def clear_flag_def

subsection \<open>The operations of the loop\<close>

text \<open>\<open>serving\<close> collects, for each function, that it keeps \<open>serves\<close>.\<close>

named_theorems serving \<open>functions that keep the contexts tied to the memory of the loop\<close>

lemma read_stop_serves [serving]: "event_read_stop k s = Some (s', r) \<Longrightarrow> serves p s \<Longrightarrow> k = t_sock p \<Longrightarrow> serves p s'"
  using serves_evolves [OF _ read_stop_ok read_stop_more] servesD(1,2) by metis

lemma close_serves [serving]:
  "event_close k cb s = Some (s', r) \<Longrightarrow> serves p s \<Longrightarrow> k = t_sock p \<Longrightarrow> typed cb_type None cb \<Longrightarrow> serves p s'"
  using serves_evolves [OF _ close_ok close_more] servesD(1,2) by metis

lemma write_serves [serving]:
  "event_write k n b cb s = Some (s', r) \<Longrightarrow> serves p s \<Longrightarrow> k = t_sock p \<Longrightarrow> typed cb_type (Some EVENT_WRITE_TYPE) cb \<Longrightarrow> serves p s'"
  using serves_evolves [OF _ write_ok write_more] servesD(1,2) by metis

lemma read_serves [serving]:
  "event_read k cb s = Some (s', r) \<Longrightarrow> serves p s \<Longrightarrow> k = t_sock p \<Longrightarrow> typed cb_type (Some EVENT_READ_TYPE) cb \<Longrightarrow> serves p s'"
  using serves_evolves [OF _ read_ok read_more] servesD(1,2) by metis

lemma typed_Some [simp]: "typed ty t (Some c) \<longleftrightarrow> ty c = t"
  by (simp add: typed_def)

lemma send_serves [serving]:
  "send_ping_frame k d q ack cb s = Some (s', r) \<Longrightarrow> serves p s \<Longrightarrow> k = t_sock p \<Longrightarrow> cb_type cb = Some EVENT_WRITE_TYPE \<Longrightarrow> serves p s'"
  "send_goaway_frame k e l cb s = Some (s', r) \<Longrightarrow> serves p s \<Longrightarrow> k = t_sock p \<Longrightarrow> cb_type cb = Some EVENT_WRITE_TYPE \<Longrightarrow> serves p s'"
  "send_settings_frame k ack vs cb s = Some (s', r) \<Longrightarrow> serves p s \<Longrightarrow> k = t_sock p \<Longrightarrow> cb_type cb = Some EVENT_WRITE_TYPE \<Longrightarrow> serves p s'"
  "send_window_update_frame k n i cb s = Some (s', r) \<Longrightarrow> serves p s \<Longrightarrow> k = t_sock p \<Longrightarrow> cb_type cb = Some EVENT_WRITE_TYPE \<Longrightarrow> serves p s'"
  "send_rst_stream_frame k e i cb s = Some (s', r) \<Longrightarrow> serves p s \<Longrightarrow> k = t_sock p \<Longrightarrow> cb_type cb = Some EVENT_WRITE_TYPE \<Longrightarrow> serves p s'"
  "send_data_frame k d q n i fin cb s = Some (s', r) \<Longrightarrow> serves p s \<Longrightarrow> k = t_sock p \<Longrightarrow> cb_type cb = Some EVENT_WRITE_TYPE \<Longrightarrow> serves p s'"
  "send_headers_frame k hs t i fin cb s = Some (s', t', r) \<Longrightarrow> serves p s \<Longrightarrow> k = t_sock p \<Longrightarrow> cb_type cb = Some EVENT_WRITE_TYPE \<Longrightarrow> serves p s'"
  unfolding send_ping_frame_def send_goaway_frame_def send_settings_frame_def send_window_update_frame_def
    send_rst_stream_frame_def send_data_frame_def send_headers_frame_def Let_def
  by (auto split: Option.bind_splits if_splits prod.splits dest: write_serves)

lemma one_timer_owner: "mem_ok ty H x s \<Longrightarrow> has_timer s j e \<Longrightarrow> has_timer s k e \<Longrightarrow> j = k"
  using one_owner by (auto simp: mem_ok_def has_timer_layout)

subsection \<open>Closing and errors\<close>

lemma close_immediate_serves [serving]:
  "http2_close_immediate c s = Some s' \<Longrightarrow> serves p s \<Longrightarrow> c = t_ctx p \<Longrightarrow> serves p s'"
  by (auto simp: http2_close_immediate_def Let_def tie_defs split: option_splits
      dest!: read_stop_serves [where p = p] close_serves [where p = p] intro!: serves_upd)

lemma close_gracefully_serves [serving]:
  "http2_close_gracefully c s = Some (s', r) \<Longrightarrow> serves p s \<Longrightarrow> c = t_ctx p \<Longrightarrow> serves p s'"
  by (auto simp: http2_close_gracefully_def Let_def tie_defs split: option_splits
      dest!: send_serves(2) [where p = p] intro!: serves_upd)

lemma error_serves [serving]: "http2_error c e s = Some s' \<Longrightarrow> serves p s \<Longrightarrow> c = t_ctx p \<Longrightarrow> serves p s'"
  by (auto simp: http2_error_def Let_def tie_defs split: option_splits
      dest!: read_stop_serves [where p = p] send_serves(2) [where p = p] intro!: serves_upd)

lemma error_return_serves [serving]: "error_return c e s = Some (s', r) \<Longrightarrow> serves p s \<Longrightarrow> c = t_ctx p \<Longrightarrow> serves p s'"
  by (auto simp: error_return_def split: option_splits dest: error_serves)

lemma error_stop_serves [serving]: "error_stop c e s = Some (s', r) \<Longrightarrow> serves p s \<Longrightarrow> c = t_ctx p \<Longrightarrow> serves p s'"
  by (auto simp: error_stop_def split: option_splits dest: error_serves)

lemma stream_error_serves [serving]: "http2_stream_error c i e s = Some s' \<Longrightarrow> serves p s \<Longrightarrow> c = t_ctx p \<Longrightarrow> serves p s'"
  by (auto simp: http2_stream_error_def tie_defs split: option_splits
      dest!: send_serves(5) [where p = p] intro!: serves_upd)

subsection \<open>SETTINGS\<close>

lemma initial_window_serves [serving]:
  "update_initial_window c v s = Some (s', r) \<Longrightarrow> serves p s \<Longrightarrow> c = t_ctx p \<Longrightarrow> serves p s'"
  by (auto simp: update_initial_window_def setting_field_def Let_def tie_defs split: option_splits
      dest!: error_stop_serves [where p = p] intro!: serves_upd)

lemma update_setting_serves [serving]:
  "update_setting c i v s = Some (s', r) \<Longrightarrow> serves p s \<Longrightarrow> c = t_ctx p \<Longrightarrow> serves p s'"
  by (auto simp: update_setting_def setting_field_def Let_def tie_defs split: option_splits
      dest!: error_stop_serves [where p = p] initial_window_serves [where p = p] intro!: serves_upd)

lemma update_settings_loop_serves:
  "update_settings_loop c d q len i tot s = Some (s', r) \<Longrightarrow> serves p s \<Longrightarrow> c = t_ctx p \<Longrightarrow> serves p s'"
proof (induction "len - i" arbitrary: i tot s rule: less_induct)
  case less
  show ?case
  proof (cases "i < len")
    case True
    with less.prems(1) obtain sid v t b where b: "update_setting c sid v s = Some (t, b)"
      "(case b of None \<Rightarrow> Some (t, 0) | Some n \<Rightarrow> update_settings_loop c d q len (i + 6) (tot + n) t) = Some (s', r)"
      by (subst (asm) update_settings_loop.simps) (auto split: Option.bind_splits)
    have "serves p t" by (rule update_setting_serves [OF b(1) less.prems(2,3)])
    with b(2) less.hyps [of "i + 6"] less.prems(3) True show ?thesis by (auto split: option.splits)
  next
    case False
    with less.prems show ?thesis by (subst (asm) update_settings_loop.simps) simp
  qed
qed

lemma update_settings_serves [serving]:
  "update_settings c d q n s = Some (s', r) \<Longrightarrow> serves p s \<Longrightarrow> c = t_ctx p \<Longrightarrow> serves p s'"
  unfolding update_settings_def by (rule update_settings_loop_serves)

text \<open>The acknowledgement stops the timer, so no timer can be relied on.\<close>

lemma stop_timer_serves:
  assumes "serves p s" "t_timers p = {}" "waits_ack (ctx_mem s (t_ctx p))"
    and "event_timer_stop (cx_timer (ctx_mem s (t_ctx p))) (upd_ctx (t_ctx p) (clear_flag HTTP2_FLAGS_WAITING_SETTINGS_ACK) s) = Some t"
  shows "serves p (upd_ctx (t_ctx p) (\<lambda>x. x\<lparr>cx_timer := None\<rparr>) t)"
proof -
  define s1 where "s1 = upd_ctx (t_ctx p) (clear_flag HTTP2_FLAGS_WAITING_SETTINGS_ACK) s"
  have ok: "serves p s1" unfolding s1_def by (rule serves_upd [OF assms(1)]) (simp_all add: tie_defs)
  have mem: "memory s1 = memory s" by (simp add: s1_def upd_ctx_def memory_def)
  obtain e where e: "cx_timer (ctx_mem s (t_ctx p)) = Some e" "has_timer s (t_sock p) e"
    using servesD(5) [OF assms(1)] assms(3) by (auto simp: tied_def)
  have h: "has_timer s1 (t_sock p) e" using e(2) by (simp add: memory_same [OF mem])
  have stop: "event_timer_stop (Some e) s1 = Some t" using assms(4) e(1) by (simp add: s1_def)
  note k = timer_stop_ok [OF stop servesD(1) [OF ok] h]
  have more: "event_loop.more t = event_loop.more s1" by (rule timer_stop_more [OF stop])
  have "link (set (reserved_socks s1)) t"
  proof (rule link_same [OF servesD(3) [OF ok], of "UNIV \<times> {e}"])
    show "sees_same (set (reserved_socks s1)) (UNIV \<times> {e}) s1 t" using k(3,4) more by (auto simp: sees_same_def)
  next
    fix j c e' assume j: "j \<in> set (reserved_socks s1)" "sk_data (sock_mem s1 j) = Some c" "(j, e') \<in> UNIV \<times> {e}" "waits_ack (ctx_mem s1 c)"
    have c: "c \<noteq> t_ctx p" using j(4) by (auto simp: s1_def tie_defs)
    from linkD [OF servesD(3) [OF ok] j(1,2)] j(4) obtain e2 where e2: "cx_timer (ctx_mem s1 c) = Some e2" "has_timer s1 j e2"
      by (auto simp: tied_def)
    have "j \<noteq> t_sock p" using servesD(4) [OF ok] j(2) c by auto
    with e2(2) h have "e2 \<noteq> e" using one_timer_owner [OF servesD(1) [OF ok]] by blast
    with e2(1) j(3) show "cx_timer (ctx_mem s1 c) \<noteq> Some e'" by simp
  qed
  then have "serves p t" using ok assms(2) k by (fastforce simp: serves_def client_ok_def)
  moreover have "ctx_mem t = ctx_mem s1" by (rule http2_more(1) [OF more])
  ultimately show ?thesis by (intro serves_upd) (simp_all add: tie_defs s1_def)
qed

lemma handle_settings_serves [serving]:
  "handle_settings_frame c h d q s = Some (s', r) \<Longrightarrow> serves p s \<Longrightarrow> c = t_ctx p \<Longrightarrow> t_timers p = {} \<Longrightarrow> serves p s'"
  by (auto simp: handle_settings_frame_def Let_def waits_ack_def split: option_splits
      dest!: error_return_serves [where p = p] update_settings_serves [where p = p] send_serves(3) [where p = p]
      intro!: stop_timer_serves)

lemma handle_goaway_serves [serving]:
  "handle_goaway_frame c h d q s = Some (s', r) \<Longrightarrow> serves p s \<Longrightarrow> c = t_ctx p \<Longrightarrow> serves p s'"
  by (auto simp: handle_goaway_frame_def Let_def tie_defs split: option_splits
      dest!: error_return_serves [where p = p] close_immediate_serves [where p = p] send_serves(2) [where p = p]
        read_serves [where p = p] intro!: serves_upd)

lemma handle_ping_serves [serving]:
  "handle_ping_frame c h d q s = Some (s', r) \<Longrightarrow> serves p s \<Longrightarrow> c = t_ctx p \<Longrightarrow> serves p s'"
  by (auto simp: handle_ping_frame_def split: option_splits dest!: error_return_serves [where p = p] send_serves(1) [where p = p])

subsection \<open>Flow control, requests and streams\<close>

lemma continue_send_serves [serving]:
  "http2_continue_send c s = Some s' \<Longrightarrow> serves p s \<Longrightarrow> c = t_ctx p \<Longrightarrow> serves p s'"
  by (auto simp: http2_continue_send_def Let_def tie_defs split: option_splits
      dest!: send_serves(6) [where p = p] intro!: serves_upd)

lemma window_update_serves [serving]:
  "handle_window_update_frame c h d q s = Some (s', r) \<Longrightarrow> serves p s \<Longrightarrow> c = t_ctx p \<Longrightarrow> serves p s'"
  by (auto simp: handle_window_update_frame_def Let_def tie_defs split: option_splits
      dest!: error_return_serves [where p = p] stream_error_serves [where p = p] continue_send_serves [where p = p]
      intro!: serves_upd)

lemma request_serves [serving]:
  "handle_request c hs s = Some (s', res) \<Longrightarrow> serves p s \<Longrightarrow> c = t_ctx p \<Longrightarrow> serves p s'"
  by (auto simp: handle_request_def Let_def tie_defs split: option_splits intro!: serves_upd)

lemma response_serves [serving]:
  "send_response c hs res s = Some (s', r) \<Longrightarrow> serves p s \<Longrightarrow> c = t_ctx p \<Longrightarrow> serves p s'"
  by (auto simp: send_response_def Let_def tie_defs split: option_splits
      dest!: send_serves(7) [where p = p] error_return_serves [where p = p] intro!: serves_upd)

lemma end_stream_serves [serving]:
  "handle_end_stream c s = Some (s', r) \<Longrightarrow> serves p s \<Longrightarrow> c = t_ctx p \<Longrightarrow> serves p s'"
  by (auto simp: handle_end_stream_def Let_def tie_defs split: option_splits
      dest!: error_return_serves [where p = p] request_serves [where p = p] response_serves [where p = p] intro!: serves_upd)

lemma finish_block_serves [serving]:
  "finish_header_block c h s = Some (s', r) \<Longrightarrow> serves p s \<Longrightarrow> c = t_ctx p \<Longrightarrow> serves p s'"
  by (auto simp: finish_header_block_def Let_def tie_defs split: if_splits
      dest!: end_stream_serves [where p = p] dest: ack_and intro!: serves_upd)

lemma header_block_serves [serving]:
  "handle_header_block c h d q n s = Some (s', r) \<Longrightarrow> serves p s \<Longrightarrow> c = t_ctx p \<Longrightarrow> serves p s'"
  by (auto simp: handle_header_block_def Let_def tie_defs split: option_splits
      dest!: error_return_serves [where p = p] finish_block_serves [where p = p] intro!: serves_upd)

lemma headers_serves [serving]:
  "handle_headers_frame c h d q s = Some (s', r) \<Longrightarrow> serves p s \<Longrightarrow> c = t_ctx p \<Longrightarrow> serves p s'"
  by (auto simp: handle_headers_frame_def open_stream_def Let_def tie_defs split: option_splits
      dest!: error_return_serves [where p = p] stream_error_serves [where p = p] header_block_serves [where p = p]
      intro!: serves_upd)

lemma data_serves [serving]:
  "handle_data_frame c h d q s = Some (s', r) \<Longrightarrow> serves p s \<Longrightarrow> c = t_ctx p \<Longrightarrow> serves p s'"
  by (auto simp: handle_data_frame_def Let_def tie_defs split: option_splits
      dest!: error_return_serves [where p = p] stream_error_serves [where p = p] end_stream_serves [where p = p]
      dest: ack_and intro!: serves_upd)

lemma continuation_serves [serving]:
  "handle_continuation_frame c h d q s = Some (s', r) \<Longrightarrow> serves p s \<Longrightarrow> c = t_ctx p \<Longrightarrow> serves p s'"
  by (auto simp: handle_continuation_frame_def Let_def split: if_splits dest: error_return_serves header_block_serves)

lemma rst_stream_serves [serving]:
  "handle_rst_stream_frame c h s = Some (s', r) \<Longrightarrow> serves p s \<Longrightarrow> c = t_ctx p \<Longrightarrow> serves p s'"
  by (auto simp: handle_rst_stream_frame_def tie_defs split: if_splits dest: error_return_serves intro!: serves_upd)

subsection \<open>Reading\<close>

lemma handle_frame_serves [serving]:
  "handle_frame c h d q s = Some (s', r) \<Longrightarrow> serves p s \<Longrightarrow> c = t_ctx p \<Longrightarrow> t_timers p = {} \<Longrightarrow> serves p s'"
  by (auto simp: handle_frame_def split: if_splits Option.bind_splits
      dest: handle_goaway_serves handle_settings_serves handle_ping_serves headers_serves continuation_serves
        window_update_serves rst_stream_serves data_serves error_serves)

lemma receiving_loop_serves:
  "receiving_loop c buf i n s = Some (s', r) \<Longrightarrow> serves p s \<Longrightarrow> c = t_ctx p \<Longrightarrow> t_timers p = {} \<Longrightarrow> serves p s'"
proof (induction n arbitrary: i s rule: less_induct)
  case (less n)
  note frame = handle_frame_serves [OF _ less.prems(2,3,4)] and err = error_serves [OF _ less.prems(2,3)]
  have next_frame: "receiving_loop c buf j (n - (9 + m)) t = Some (s', r) \<Longrightarrow> handle_frame c h buf q s = Some (t, v) \<Longrightarrow>
      \<not> n < 9 + m \<Longrightarrow> serves p s'" for j m t h q v
    by (rule less.IH [OF _ _ frame]) (use less.prems(3,4) in auto)
  from less.prems(1) show ?case
    by (subst (asm) receiving_loop.simps)
      (use less.prems(2) in \<open>auto simp: Let_def split: if_splits Option.bind_splits dest: err frame next_frame\<close>)
qed

lemma receiving_serves [serving]:
  "receiving k n buf s = Some (s', r) \<Longrightarrow> serves p s \<Longrightarrow> k = t_sock p \<Longrightarrow> t_timers p = {} \<Longrightarrow> serves p s'"
  by (auto simp: receiving_def split: option_splits dest: close_immediate_serves receiving_loop_serves)

lemma preface_serves [serving]:
  "waiting_for_preface k n buf s = Some (s', r) \<Longrightarrow> serves p s \<Longrightarrow> k = t_sock p \<Longrightarrow> serves p s'"
  by (auto simp: waiting_for_preface_def Let_def tie_defs split: if_splits Option.bind_splits
      dest!: close_immediate_serves [where p = p] send_serves(3) [where p = p] read_serves [where p = p] intro!: serves_upd)

lemma first_settings_serves [serving]:
  "waiting_for_settings k n buf s = Some (s', r) \<Longrightarrow> serves p s \<Longrightarrow> k = t_sock p \<Longrightarrow> t_timers p = {} \<Longrightarrow> serves p s'"
  by (auto simp: waiting_for_settings_def Let_def tie_defs split: if_splits Option.bind_splits
      dest!: close_immediate_serves [where p = p] error_serves [where p = p] handle_settings_serves [where p = p]
        read_serves [where p = p] intro!: serves_upd)

subsection \<open>Writing and timers\<close>

lemma write_error_serves [serving]:
  "close_on_write_error k n s = Some s' \<Longrightarrow> serves p s \<Longrightarrow> k = t_sock p \<Longrightarrow> serves p s'"
  by (auto simp: close_on_write_error_def split: option_splits dest: close_immediate_serves)

lemma goaway_sent_serves [serving]:
  "close_on_goaway_sent k n s = Some s' \<Longrightarrow> serves p s \<Longrightarrow> k = t_sock p \<Longrightarrow> serves p s'"
  by (auto simp: close_on_goaway_sent_def split: option_splits dest: close_immediate_serves)

lemma stream_send_complete_serves [serving]:
  "on_stream_send_complete k n s = Some s' \<Longrightarrow> serves p s \<Longrightarrow> k = t_sock p \<Longrightarrow> serves p s'"
  by (auto simp: on_stream_send_complete_def tie_defs split: option_splits
      dest!: close_immediate_serves [where p = p] continue_send_serves [where p = p] intro!: serves_upd)

lemma settings_sent_serves [serving]:
  assumes "on_settings_sent k n s = Some s'" "serves p s" "k = t_sock p"
  shows "serves p s'"
proof (cases "n < 0")
  case True
  with assms show ?thesis by (auto simp: on_settings_sent_def dest: close_immediate_serves)
next
  case False
  define s1 where "s1 = upd_ctx (t_ctx p) (set_flag HTTP2_FLAGS_WAITING_SETTINGS_ACK) s"
  have "memory s1 = memory s" by (simp add: s1_def upd_ctx_def memory_def)
  note m1 = memory_same [OF this]
  obtain t e where t: "event_timer_set (t_sock p) (int HTTP2_SETTINGS_WAIT) (Some On_Settings_Timeout) s1 = Some (t, e)"
    "s' = upd_ctx (t_ctx p) (\<lambda>x. x\<lparr>cx_timer := Some e\<rparr>) t"
    using assms False by (auto simp: on_settings_sent_def s1_def [symmetric] Let_def split: Option.bind_splits)
  have ok: "mem_ok cb_type (t_held p) (t_slack p) t" "evolves s1 t" "has_timer t (t_sock p) e"
    using timer_set_ok [OF t(1), of cb_type "t_held p" "t_slack p"] servesD(1,2) [OF assms(2)] by (simp_all add: m1)
  note more = http2_more [OF timer_set_more [OF t(1)]]
  have "memory s' = memory t" by (simp add: t(2) upd_ctx_def memory_def)
  note m2 = memory_same [OF this]
  have ev: "evolves s s'" using ok(2) by (simp add: evolves_def m1 m2)
  have ctx: "ctx_mem s' = (ctx_mem s)(t_ctx p := (set_flag 1 (ctx_mem s (t_ctx p)))\<lparr>cx_timer := Some e\<rparr>)"
    by (simp add: t(2) more s1_def)
  have "link (set (reserved_socks s)) s'"
  proof (rule link_change [OF servesD(3) [OF assms(2)]])
    show "client_next s' = client_next s" "clients s' = clients s" "connected_clients s' = connected_clients s"
      "clients_inited s' = clients_inited s" using more by (simp_all add: t(2) upd_ctx_def s1_def)
    show "sk_data (sock_mem s' j) = sk_data (sock_mem s j)" for j using ev by (simp add: evolves_def)
    show "tied s' j (ctx_mem s' c)" if j: "j \<in> set (reserved_socks s)" "sk_data (sock_mem s j) = Some c" "tied s j (ctx_mem s c)" for j c
    proof (cases "c = t_ctx p")
      case True
      then have "j = t_sock p" using j(3) servesD(6) [OF assms(2)] by (simp add: tied_def)
      with True ok(3) j(3) show ?thesis by (simp add: tied_def ctx m2 set_flag_def)
    next
      case False
      with j(3) ev show ?thesis by (auto simp: tied_def ctx evolves_def)
    qed
  qed
  with assms(2) ev ok(1) show ?thesis by (fastforce simp: serves_def client_ok_def evolves_def m2)
qed

text \<open>After the timeout the context does not wait any more.\<close>

lemma error_clears:
  assumes "http2_error c e s = Some s'"
  shows "\<not> waits_ack (ctx_mem s' c)"
proof -
  obtain k t r where t: "event_read_stop k (upd_ctx c (\<lambda>x. x\<lparr>cx_state := HTTP2_CLOSING, cx_flags := cx_flags x AND HTTP2_FLAGS_GOAWAY_SENT\<rparr>) s) = Some (t, r)"
    "\<exists>i r. send_goaway_frame k (error_val e) i Close_On_Goaway_Sent t = Some (s', r)"
    using assms by (auto simp: http2_error_def Let_def split: Option.bind_splits) blast
  have "ctx_mem s' c = ctx_mem t c" using t(2) http2_more(1) [OF send_more(2)] by metis
  also have "\<dots> = (ctx_mem s c)\<lparr>cx_state := HTTP2_CLOSING, cx_flags := cx_flags (ctx_mem s c) AND HTTP2_FLAGS_GOAWAY_SENT\<rparr>"
    using http2_more(1) [OF read_stop_more [OF t(1)]] by simp
  finally show ?thesis by (simp add: waits_ack_def)
qed

lemma settings_timeout_serves [serving]:
  assumes "on_settings_timeout k s = Some (s', r)" "serves p s" "k = t_sock p"
  shows "serves p s'" "\<not> waits_ack (ctx_mem s' (t_ctx p))"
  using assms by (auto simp: on_settings_timeout_def split: Option.bind_splits dest: error_serves error_clears)

end
