(* ===== verification/Server_Clients.thy ===== *)
theory Server_Clients
  imports Server_Memory
begin

text \<open>
  Clients that come and go: opening and closing a connection keeps the contexts tied to the sockets. With
  the functions of \<open>Server_Memory\<close> this interprets the locale \<open>memory_client\<close>, so the memory of the loop and the
  contexts are consistent in every state of a running server.
\<close>

subsection \<open>Closing\<close>

lemma link_sockets:
  assumes "link K s" "attached K' s' = attached K s" "client_next s' = client_next s" "clients s' = clients s"
    "connected_clients s' = connected_clients s" "clients_inited s' = clients_inited s"
    "\<And>k c. k \<in> K' \<Longrightarrow> sk_data (sock_mem s' k) = Some c \<Longrightarrow> tied s' k (ctx_mem s' c)"
  shows "link K' s'"
  using assms by (simp add: link_def contexts_pool_def cong: if_cong)

lemma link_subset:
  assumes "link K s" "K' \<subseteq> K"
  shows "link K' s"
proof -
  have "attached K' s \<subseteq> attached K s" using assms(2) by (auto simp: attached_def)
  with assms show ?thesis unfolding link_def contexts_pool_def by (cases "clients_inited s") (simp_all, blast+)
qed

lemma attached_remove:
  assumes "link K s" "k \<in> K"
  shows "attached (K - {k}) s = attached K s - set_option (sk_data (sock_mem s k))"
proof -
  have "c \<notin> attached (K - {k}) s" if "sk_data (sock_mem s k) = Some c" for c
  proof
    assume "c \<in> attached (K - {k}) s"
    then obtain j where "j \<in> K" "j \<noteq> k" "sk_data (sock_mem s j) = Some c" by (auto simp: attached_def)
    with linkD [OF assms(1), of j c] linkD [OF assms that] show False by (simp add: tied_def)
  qed
  with assms(2) show ?thesis by (auto simp: attached_def)
qed

lemma context_in_use:
  assumes "link K s" "k \<in> K" "sk_data (sock_mem s k) = Some c"
  obtains F C where "lists HTTP2_MAX_CLIENTS (client_next s) (clients s) (\<lambda>_ :: unit. connected_clients s) UNIV F (\<lambda>_. C) {}"
    "attached K s \<subseteq> set C" "c \<in> set C" "clients_inited s"
proof -
  have c: "c \<in> attached K s" using assms(2,3) by (auto simp: attached_def)
  with assms(1) have i: "clients_inited s" by (auto simp: link_def contexts_pool_def split: if_splits)
  with assms(1) have "\<exists>F C. lists HTTP2_MAX_CLIENTS (client_next s) (clients s) (\<lambda>_ :: unit. connected_clients s) UNIV F (\<lambda>_. C) {} \<and>
      attached K s \<subseteq> set C" by (simp add: link_def contexts_pool_def)
  with that c i show ?thesis by blast
qed

lemma on_client_close_total:
  assumes "link K s" "k \<in> K"
  shows "\<exists>s'. http2_on_client_close k s = Some s'"
proof (cases "sk_data (sock_mem s k)")
  case None
  then show ?thesis by (simp add: http2_on_client_close_def)
next
  case (Some c)
  obtain F C where l: "lists HTTP2_MAX_CLIENTS (client_next s) (clients s) (\<lambda>_ :: unit. connected_clients s) UNIV F (\<lambda>_. C) {}"
    and c: "c \<in> set C" by (rule context_in_use [OF assms Some])
  obtain h r where "LL_DELETE c (client_next s) (connected_clients s) = Some (h, r, Some c)"
    by (rule lists_delete [OF l, of "()" c]) (use c in simp_all)
  with Some show ?thesis by (simp add: http2_on_client_close_def split: prod.splits)
qed

lemma on_client_close_link:
  assumes "http2_on_client_close k s = Some s'" "link K s" "k \<in> K"
  shows "memory s' = memory s" "link (K - {k}) s'"
proof -
  show mem: "memory s' = memory s"
    using assms(1) by (auto simp: http2_on_client_close_def memory_def LL_PUSH_def split: option_splits)
  show "link (K - {k}) s'"
  proof (cases "sk_data (sock_mem s k)")
    case None
    then have "attached (K - {k}) s = attached K s" using attached_remove [OF assms(2,3)] by simp
    moreover have "s' = s" using assms(1) None by (simp add: http2_on_client_close_def)
    ultimately show ?thesis using assms(2) by (simp add: link_def contexts_pool_def)
  next
    case (Some c)
    obtain F C where l: "lists HTTP2_MAX_CLIENTS (client_next s) (clients s) (\<lambda>_ :: unit. connected_clients s) UNIV F (\<lambda>_. C) {}"
      and C: "attached K s \<subseteq> set C" "c \<in> set C" and i: "clients_inited s"
      by (rule context_in_use [OF assms(2,3) Some])
    have dist: "distinct C" using chain_distinct [OF listsD(2) [OF l, of "()"]] by simp
    obtain h r where d: "LL_DELETE c (client_next s) (connected_clients s) = Some (h, r, Some c)"
      "lists HTTP2_MAX_CLIENTS h (clients s) ((\<lambda>_. connected_clients s)(() := r)) UNIV F ((\<lambda>_. C)(() := remove1 c C)) (insert c {})"
      by (rule lists_delete [OF l, of "()" c]) (use C in auto)
    have s': "s' = s\<lparr>client_next := h(c := clients s), connected_clients := r, clients := Some c\<rparr>"
      using assms(1) Some d(1) by (simp add: http2_on_client_close_def LL_PUSH_def)
    have "(\<lambda>_ :: unit. connected_clients s)(() := r) = (\<lambda>_. r)" "(\<lambda>_ :: unit. C)(() := remove1 c C) = (\<lambda>_. remove1 c C)" by auto
    with lists_push_free [OF d(2), of c] have
      "lists HTTP2_MAX_CLIENTS (client_next s') (clients s') (\<lambda>_ :: unit. connected_clients s') UNIV (c # F) (\<lambda>_. remove1 c C) {}"
      by (simp add: s')
    moreover have "attached (K - {k}) s' \<subseteq> set (remove1 c C)"
      using attached_remove [OF assms(2,3)] Some C dist by (auto simp: attached_def s')
    ultimately have "contexts_pool (K - {k}) s'" using i by (auto simp: contexts_pool_def s')
    moreover have "tied s' j (ctx_mem s' d) = tied s j (ctx_mem s d)" for j d
      using memory_same(4) [OF mem] by (simp add: tied_def) (simp add: s')
    ultimately show ?thesis using assms(2) by (auto simp: link_def s')
  qed
qed

subsection \<open>Opening\<close>

lemma move_lists:
  assumes "lists n h p (\<lambda>_ :: unit. u) UNIV F (\<lambda>_. C) {}" "LL_MOVE h p u = Some (h', p', u', r)"
  shows "(r = None \<and> h' = h \<and> p' = p \<and> u' = u) \<or>
    (\<exists>c F'. r = Some c \<and> F = c # F' \<and> lists n h' p' (\<lambda>_ :: unit. u') UNIV F' (\<lambda>_. C @ [c]) {})"
proof (cases p)
  case None
  with assms(2) show ?thesis by (auto simp: LL_MOVE_def LL_POP_def)
next
  case (Some c)
  obtain F' where F: "F = c # F'" "lists n h (h c) (\<lambda>_ :: unit. u) UNIV F' (\<lambda>_. C) (insert c {})"
    using lists_pop_free [OF assms(1) [unfolded Some]] by blast
  have "lists n (h(c := None)) (h c) (\<lambda>_ :: unit. u) UNIV F' (\<lambda>_. C) {c}" using lists_write [OF F(2), of c None] by simp
  then obtain h2 r2 where a: "LL_APPEND c (h(c := None)) u = Some (h2, r2)"
    "lists n h2 (h c) ((\<lambda>_ :: unit. u)(() := r2)) UNIV F' ((\<lambda>_. C)(() := C @ [c])) ({c} - {c})"
    using lists_append [of n "h(c := None)" "h c" "\<lambda>_ :: unit. u" UNIV F' "\<lambda>_. C" "{c}" c "()"] by auto
  have "(\<lambda>_ :: unit. u)(() := r2) = (\<lambda>_. r2)" "(\<lambda>_ :: unit. C)(() := C @ [c]) = (\<lambda>_. C @ [c])" by auto
  with a assms(2) Some F(1) show ?thesis by (auto simp: LL_MOVE_def LL_POP_def)
qed

text \<open>The pool of contexts is set up for the first client.\<close>

definition init_clients :: "'z http2_state_scheme \<Rightarrow> 'z http2_state_scheme" where
  "init_clients s = (if clients_inited s then s
     else let (h, p) = LL_INIT HTTP2_MAX_CLIENTS
          in s\<lparr>client_next := h, clients := p, ctx_mem := (\<lambda>_. null_context), connected_clients := None, clients_inited := True\<rparr>)"

lemma init_clients_ok:
  assumes "link K s"
  shows "memory (init_clients s) = memory s" "link K (init_clients s)" "clients_inited (init_clients s)"
proof -
  show mem: "memory (init_clients s) = memory s" "clients_inited (init_clients s)"
    by (auto simp: init_clients_def memory_def split: prod.splits)
  show "link K (init_clients s)"
  proof (cases "clients_inited s")
    case False
    then have none: "sk_data (sock_mem s k) = None" if "k \<in> K" for k
      using assms that by (cases "sk_data (sock_mem s k)") (auto simp: link_def contexts_pool_def attached_def)
    have n: "0 < HTTP2_MAX_CLIENTS" by (simp add: HTTP2_MAX_CLIENTS_def EVENT_MAX_SOCKETS_def)
    have "insert () {} = UNIV" "((\<lambda>_. [])(() := [])) = (\<lambda>_ :: unit. [] :: nat list)" by auto
    with lists_new_owner [OF lists_init [OF n], of "()" "\<lambda>_. None" "\<lambda>_. None" "\<lambda>_. []"]
    have "lists HTTP2_MAX_CLIENTS (client_next (init_clients s)) (clients (init_clients s))
        (\<lambda>_ :: unit. connected_clients (init_clients s)) UNIV [0..<HTTP2_MAX_CLIENTS] (\<lambda>_. []) {}"
      using False by (simp add: init_clients_def case_prod_beta)
    moreover have "attached K (init_clients s) = {}" using none memory_same(3) [OF mem(1)] by (auto simp: attached_def)
    ultimately show ?thesis using none mem memory_same(3) [OF mem(1)] by (auto simp: link_def contexts_pool_def)
  qed (use assms in \<open>simp add: init_clients_def\<close>)
qed

text \<open>A context is taken from the pool and attached to the socket of the client.\<close>

definition attach :: "nat \<Rightarrow> nat \<Rightarrow> http2_context \<Rightarrow> 'z http2_state_scheme \<Rightarrow> 'z http2_state_scheme" where
  "attach k c x s = (upd_sock k (\<lambda>j. j\<lparr>sk_data := Some c\<rparr>) s)\<lparr>ctx_mem := (ctx_mem s)(c := x), client_id := client_id s + 1\<rparr>"

lemma new_client_steps:
  "http2_new_client k s = do {
     (h, free, used, ctx) \<leftarrow> LL_MOVE (client_next (init_clients s)) (clients (init_clients s)) (connected_clients (init_clients s));
     let s = (init_clients s)\<lparr>client_next := h, clients := free, connected_clients := used\<rparr>;
     (case ctx of
        None \<Rightarrow> do {
          (s, _) \<leftarrow> event_close k (Some Http2_On_Client_Close) s;
          Some (s, None)
        }
      | Some c \<Rightarrow> do {
          t \<leftarrow> hpack_init (cx_hpack_dynamic_table null_context) HTTP2_HEADER_TABLE_SIZE;
          let x = accepted_context (client_id s) k t;
          s \<leftarrow> event_read_start k (Some (cx_read_buf x)) (int HTTP2_SOCK_READ_SIZE) (Some Waiting_For_Preface) (attach k c x s);
          s \<leftarrow> event_write_enable k (Some (cx_write_buf x)) (int HTTP2_SOCK_WRITE_SIZE) s;
          Some (s, Some c)
        })
   }"
proof -
  have same: "null_stream\<lparr>st_id := 0, st_state := HTTP2_STREAM_IDLE\<rparr> = null_stream" "cx_stream null_context = null_stream"
    "cx_flags null_context = 0" "cx_last_opened_stream_id null_context = 0"
    by (simp_all add: null_stream_def null_context_def)
  have ctx: "null_context\<lparr>cx_id := i, cx_socket := Some k, cx_settings := default_settings,
      cx_stream := null_stream\<lparr>st_id := 0, st_state := HTTP2_STREAM_IDLE\<rparr>,
      cx_state := HTTP2_WAITING_PREFACE, cx_flags := HTTP2_FLAGS_NONE, cx_last_opened_stream_id := 0,
      cx_window_size := initial_window_size default_settings, cx_hpack_dynamic_table := t\<rparr> = accepted_context i k t" for i t
    unfolding same accepted_context_def by (simp add: null_context_def)
  show ?thesis
    unfolding http2_new_client_def init_clients_def [symmetric] attach_def upd_sock_def ctx [symmetric]
    by (simp add: Let_def cong: option.case_cong)
qed

lemma attach_ok:
  assumes ok: "client_ok cb_type link {} Map.empty s" and k: "k \<in> set (reserved_socks s)" "sk_data (sock_mem s k) = None"
    and i: "clients_inited s" and m: "LL_MOVE (client_next s) (clients s) (connected_clients s) = Some (h, free, used, Some c)"
    and x: "cx_socket x = Some k" "\<not> waits_ack x"
    and s': "s' = attach k c x (s\<lparr>client_next := h, clients := free, connected_clients := used\<rparr>)"
  shows "client_ok cb_type link {} Map.empty s'" "reserved_socks s' = reserved_socks s"
proof -
  define K where "K = set (reserved_socks s)"
  have lk: "link K s" using ok by (simp add: client_ok_def K_def)
  obtain L where L: "mem_rel cb_type {} Map.empty s L" using ok by (auto simp: client_ok_def mem_ok_def)
  define t where "t = upd_sock k (\<lambda>j. j\<lparr>sk_data := Some c\<rparr>) s"
  have kl: "k \<in> set (l_socks L)" using k(1) by (simp add: reserved_layout [OF L])
  have sk: "sock_ok cb_type (sock_mem s k)" using mem_relD(4) [OF L] kl by (auto simp: socks_ok_def)
  have t: "mem_rel cb_type {} Map.empty t L" unfolding t_def
    by (rule upd_sock_mem [OF L kl]) (use sk in \<open>auto simp: sock_ok_def\<close>)
  have mem: "memory s' = memory t" by (simp add: s' attach_def t_def upd_sock_def memory_def)
  note same = memory_same [OF mem]
  show r: "reserved_socks s' = reserved_socks s" by (simp add: same layout_eqs(1) [OF L] layout_eqs(1) [OF t])
  have timers: "has_timer s' j e = has_timer s j e" for j e
    by (simp add: same has_timer_layout [OF L] has_timer_layout [OF t]) (simp add: t_def data_of_def upd_sock_def)
  have data: "sk_data (sock_mem s' j) = (if j = k then Some c else sk_data (sock_mem s j))" for j
    by (simp add: s' attach_def upd_sock_def)
  obtain F C where l: "lists HTTP2_MAX_CLIENTS (client_next s) (clients s) (\<lambda>_ :: unit. connected_clients s) UNIV F (\<lambda>_. C) {}"
    and C: "attached K s \<subseteq> set C" using lk i by (auto simp: link_def contexts_pool_def)
  obtain F' where F': "F = c # F'" "lists HTTP2_MAX_CLIENTS h free (\<lambda>_ :: unit. used) UNIV F' (\<lambda>_. C @ [c]) {}"
    using move_lists [OF l m] by auto
  have "c \<notin> set C" using lists_apart(1) [OF l, of "()" c] F'(1) by auto
  then have c: "d \<noteq> c" if "j \<in> K" "sk_data (sock_mem s j) = Some d" for j d using that C by (auto simp: attached_def)
  have "attached K s' = insert c (attached K s)" using k data by (force simp: attached_def K_def)
  then have C': "attached K s' \<subseteq> set (C @ [c])" using C by auto
  have "clients_inited s'" "client_next s' = h" "clients s' = free" "connected_clients s' = used"
    using i by (simp_all add: s' attach_def upd_sock_def)
  with F'(2) C' have "contexts_pool K s'" unfolding contexts_pool_def by (simp only: if_True) blast
  moreover have "tied s' j (ctx_mem s' d)" if j: "j \<in> K" "sk_data (sock_mem s' j) = Some d" for j d
  proof (cases "j = k")
    case True
    with j data x show ?thesis by (simp add: tied_def s' attach_def upd_sock_def)
  next
    case False
    with j data c have "d \<noteq> c" "sk_data (sock_mem s j) = Some d" by auto
    with linkD [OF lk j(1)] show ?thesis unfolding tied_def timers by (auto simp: s' attach_def upd_sock_def)
  qed
  ultimately have "link K s'" by (simp add: link_def)
  with t show "client_ok cb_type link {} Map.empty s'"
    using r by (simp add: client_ok_def K_def same(6)) (auto simp: mem_ok_def)
qed

lemma linked_evolves:
  assumes "client_ok cb_type link {} Map.empty s" "mem_ok cb_type {} Map.empty s' \<and> evolves s s'" "event_loop.more s' = event_loop.more s"
  shows "client_ok cb_type link {} Map.empty s' \<and> reserved_socks s' = reserved_socks s"
proof -
  have e: "reserved_socks s' = reserved_socks s" "\<forall>j. sk_data (sock_mem s' j) = sk_data (sock_mem s j)"
    "\<forall>j e. has_timer s j e \<longrightarrow> has_timer s' j e" using assms(2) unfolding evolves_def by blast+
  have "sees_same (set (reserved_socks s)) {} s s'" unfolding sees_same_def using e(2,3) assms(3) by blast
  moreover have "link (set (reserved_socks s)) s" using assms(1) by (simp add: client_ok_def)
  ultimately have "link (set (reserved_socks s)) s'" using link_same [of _ s "{}" s'] by blast
  with e(1) assms(2) show ?thesis by (simp add: client_ok_def)
qed

lemma new_client_ok:
  assumes "http2_new_client k s = Some (s', r)" "client_ok cb_type link {} Map.empty s"
    "k \<in> set (reserved_socks s)" "sk_data (sock_mem s k) = None"
  shows "client_ok cb_type link {} Map.empty s' \<and> reserved_socks s' = reserved_socks s"
proof -
  define s1 where "s1 = init_clients s"
  have "link (set (reserved_socks s)) s" using assms(2) by (simp add: client_ok_def)
  note i = init_clients_ok [OF this, folded s1_def]
  note m1 = memory_same [OF i(1)]
  have ok1: "client_ok cb_type link {} Map.empty s1" using assms(2) i(2) by (simp add: client_ok_def m1)
  note steps = assms(1) [unfolded new_client_steps s1_def [symmetric] Let_def]
  have "LL_MOVE (client_next s1) (clients s1) (connected_clients s1) \<noteq> None"
  proof
    assume n: "LL_MOVE (client_next s1) (clients s1) (connected_clients s1) = None"
    from steps show False unfolding n bind.bind_lzero by simp
  qed
  then obtain h free used c where m: "LL_MOVE (client_next s1) (clients s1) (connected_clients s1) = Some (h, free, used, c)" by auto
  show ?thesis
  proof (cases c)
    case None
    have "LL_MOVE (client_next s1) (clients s1) (connected_clients s1) = Some (h, free, used, None) \<Longrightarrow>
        h = client_next s1 \<and> free = clients s1 \<and> used = connected_clients s1"
      by (auto simp: LL_MOVE_def LL_POP_def split: option_splits)
    then have same: "s1\<lparr>client_next := h, clients := free, connected_clients := used\<rparr> = s1" using m None by simp
    obtain v where cl: "event_close k (Some Http2_On_Client_Close) s1 = Some (s', v)"
      using steps [unfolded m None bind.bind_lunit prod.case option.case same] by (auto split: Option.bind_splits)
    have "mem_ok cb_type {} Map.empty s' \<and> evolves s1 s'"
      by (rule close_ok [OF cl]) (use ok1 assms(3) m1 in \<open>simp_all add: client_ok_def\<close>)
    with linked_evolves [OF ok1 _ close_more [OF cl]] m1(1) show ?thesis by simp
  next
    case (Some d)
    obtain y t where t: "event_read_start k (Some (cx_read_buf (accepted_context (client_id s1) k y))) (int HTTP2_SOCK_READ_SIZE)
        (Some Waiting_For_Preface) (attach k d (accepted_context (client_id s1) k y)
          (s1\<lparr>client_next := h, clients := free, connected_clients := used\<rparr>)) = Some t"
      "event_write_enable k (Some (cx_write_buf (accepted_context (client_id s1) k y))) (int HTTP2_SOCK_WRITE_SIZE) t = Some s'"
      using steps [unfolded m Some bind.bind_lunit prod.case option.case] by (auto split: Option.bind_splits)
    define x where "x = accepted_context (client_id s1) k y"
    define s2 where "s2 = attach k d x (s1\<lparr>client_next := h, clients := free, connected_clients := used\<rparr>)"
    have x: "cx_socket x = Some k" "\<not> waits_ack x" "length (cx_read_buf x) = HTTP2_SOCK_READ_SIZE"
      "length (cx_write_buf x) = HTTP2_SOCK_WRITE_SIZE"
      by (simp_all add: x_def accepted_context_def null_context_def waits_ack_def)
    note t = t [folded x_def, folded s2_def]
    have ok2: "client_ok cb_type link {} Map.empty s2" "reserved_socks s2 = reserved_socks s"
      using attach_ok [OF ok1 _ _ i(3) m [unfolded Some] x(1,2) s2_def] assms(3,4) m1 by simp_all
    then have "mem_ok cb_type {} Map.empty t \<and> evolves s2 t"
      by (intro read_start_ok [OF t(1)])
        (use assms(3) x in \<open>simp_all add: client_ok_def HTTP2_SOCK_READ_SIZE_def HTTP2_INITIAL_WINDOW_SIZE_def\<close>)
    with ok2 have ok: "client_ok cb_type link {} Map.empty t" "reserved_socks t = reserved_socks s"
      using linked_evolves [OF _ _ read_start_more [OF t(1)]] by simp_all
    have "mem_ok cb_type {} Map.empty s' \<and> evolves t s'"
      by (rule write_enable_ok [OF t(2)]) (use ok assms(3) x in \<open>simp_all add: client_ok_def\<close>)
    with linked_evolves [OF ok(1) _ write_enable_more [OF t(2)]] ok(2) show ?thesis by simp
  qed
qed

lemma create_ok:
  assumes "event_sock_create s = Some (s1, c)" "client_ok cb_type link {} Map.empty s"
  shows "client_ok cb_type link {} Map.empty s1"
proof -
  have mk: "mem_ok cb_type {} Map.empty s" "link (set (reserved_socks s)) s" using assms(2) by (simp_all add: client_ok_def)
  note k1 = sock_create_ok [OF assms(1) mk(1)]
  note f = http2_more [OF sock_create_more [OF assms(1)]]
  have data: "sk_data (sock_mem s1 j) = (if j = c then None else sk_data (sock_mem s j))" for j using k1(4,5) by auto
  have "link (set (reserved_socks s1)) s1"
  proof (rule link_sockets [OF mk(2)])
    show "attached (set (reserved_socks s1)) s1 = attached (set (reserved_socks s)) s"
      using k1(3) by (auto simp: attached_def k1(2) data)
    show "tied s1 j (ctx_mem s1 d)" if "j \<in> set (reserved_socks s1)" "sk_data (sock_mem s1 j) = Some d" for j d
    proof -
      have "j \<in> set (reserved_socks s)" "sk_data (sock_mem s j) = Some d" using that k1(2) data by (auto split: if_splits)
      with linkD [OF mk(2)] k1(6) show ?thesis unfolding tied_def f(1) by blast
    qed
  qed (simp_all add: f)
  then show ?thesis using k1(1) by (simp add: client_ok_def)
qed

lemma new_connection_ok:
  assumes "on_new_connection k s = Some (s', r)" "client_ok cb_type link {} Map.empty s"
  shows "client_ok cb_type link {} Map.empty s' \<and> set (reserved_socks s) \<subseteq> set (reserved_socks s')"
proof -
  obtain s1 c s2 v where c: "event_sock_create s = Some (s1, c)" "event_accept k c s1 = Some (s2, v)"
    and s': "(if v = 0 then do { (s, _) \<leftarrow> http2_new_client c s2; Some (s, Some c) }
      else do { (s, _) \<leftarrow> event_close c (Some On_Client_Close) s2; Some (s, Some c) }) = Some (s', r)"
    using assms(1) by (auto simp: on_new_connection_def split: Option.bind_splits if_splits)
  have mk: "mem_ok cb_type {} Map.empty s" using assms(2) by (simp add: client_ok_def)
  note k1 = sock_create_ok [OF c(1) mk] and ok1 = create_ok [OF c(1) assms(2)]
  have e2: "mem_ok cb_type {} Map.empty s2 \<and> evolves s1 s2" by (rule accept_ok [OF c(2) k1(1)]) (simp add: k1(2))
  note ok2 = linked_evolves [OF ok1 e2 accept_more [OF c(2)]]
  have c2: "sk_data (sock_mem s2 c) = None" "c \<in> set (reserved_socks s2)" using e2 k1(2,5) by (auto simp: evolves_def)
  have "client_ok cb_type link {} Map.empty s' \<and> reserved_socks s' = reserved_socks s2"
  proof (cases "v = 0")
    case True
    then show ?thesis using s' new_client_ok [OF _ conjunct1 [OF ok2] c2(2,1)] by (auto split: Option.bind_splits)
  next
    case False
    then obtain w where cl: "event_close c (Some On_Client_Close) s2 = Some (s', w)" using s' by (auto split: Option.bind_splits)
    have "mem_ok cb_type {} Map.empty s' \<and> evolves s2 s'" by (rule close_ok [OF cl conjunct1 [OF e2] c2(2)]) simp
    then show ?thesis by (rule linked_evolves [OF conjunct1 [OF ok2] _ close_more [OF cl]])
  qed
  with ok2 k1(2) show ?thesis by auto
qed

subsection \<open>The laws of the loop\<close>

text \<open>The task of a callback that starts now: it relies on the timers \<open>T\<close> and on all shut buffers.\<close>

definition task_of :: "nat \<Rightarrow> nat \<Rightarrow> (nat \<times> nat) set \<Rightarrow> nat set \<Rightarrow> (nat \<rightharpoonup> int) \<Rightarrow> 'z http2_state_scheme \<Rightarrow> task" where
  "task_of k c T H x s = \<lparr>t_sock = k, t_ctx = c, t_socks = reserved_socks s, t_timers = T,
     t_shut = {(e, buf). shut s k e buf}, t_held = H, t_slack = x\<rparr>"

lemma task_fields [simp]:
  "t_sock (task_of k c T H x s) = k" "t_ctx (task_of k c T H x s) = c" "t_timers (task_of k c T H x s) = T"
  by (simp_all add: task_of_def)

lemma task_starts:
  assumes "client_ok cb_type link H x s" "k \<in> set (reserved_socks s)" "context_of k s = Some c"
    "\<And>j e. (j, e) \<in> T \<Longrightarrow> has_timer s j e"
  shows "serves (task_of k c T H x s) s"
  using assms by (auto simp: serves_def task_of_def context_of_def)

lemma task_ends:
  assumes "serves (task_of k c T H x s) s'"
  shows "client_ok cb_type link H x s'" "reserved_socks s' = reserved_socks s" "shut s k e buf \<Longrightarrow> shut s' k e buf"
    "(j, e) \<in> T \<Longrightarrow> has_timer s' j e"
  using assms by (auto simp: serves_def task_of_def)

text \<open>The fields of \<open>two.c\<close> are not touched by the invariant.\<close>

lemma link_fields [simp]:
  "link K (s\<lparr>server_sock := v\<rparr>) = link K s" "link K (s\<lparr>close_notified := n\<rparr>) = link K s" "link K (s\<lparr>os := e\<rparr>) = link K s"
  for s :: "'z two_state_scheme"
proof -
  have "memory (s\<lparr>server_sock := v\<rparr>) = memory s" "memory (s\<lparr>close_notified := n\<rparr>) = memory s" "memory (s\<lparr>os := e\<rparr>) = memory s"
    by (simp_all add: memory_def)
  from this [THEN memory_same(4)] show "link K (s\<lparr>server_sock := v\<rparr>) = link K s" "link K (s\<lparr>close_notified := n\<rparr>) = link K s"
    "link K (s\<lparr>os := e\<rparr>) = link K s"
    by (simp_all add: link_def contexts_pool_def attached_def tied_def)
qed

text \<open>Every callback of a connection looks up its context first.\<close>

lemma callback_context:
  "run_read_cb cb k n buf s = Some (s', r) \<Longrightarrow> \<exists>c. context_of k s = Some c"
  "run_timer_cb cb k s = Some (s', v) \<Longrightarrow> \<exists>c. context_of k s = Some c"
  by (auto simp: run_read_cb_def run_timer_cb_def waiting_for_preface_def waiting_for_settings_def receiving_def
      on_settings_timeout_def split: callback.splits Option.bind_splits)

lemma read_callback_ok:
  assumes "run_read_cb cb k n buf s = Some (s', r)" "client_ok cb_type link {} Map.empty s" "k \<in> set (reserved_socks s)"
  shows "client_ok cb_type link {} Map.empty s' \<and> reserved_socks s' = reserved_socks s"
proof -
  obtain c where c: "context_of k s = Some c" using callback_context(1) [OF assms(1)] by blast
  have p: "serves (task_of k c {} {} Map.empty s) s" by (rule task_starts [OF assms(2,3) c]) simp
  have "serves (task_of k c {} {} Map.empty s) s'"
    using assms(1) unfolding run_read_cb_def
    by (cases cb) (auto dest: preface_serves [OF _ p] first_settings_serves [OF _ p] receiving_serves [OF _ p])
  from task_ends(1,2) [OF this] show ?thesis by blast
qed

lemma write_callback_ok:
  assumes "run_write_cb cb k n s = Some s'" "client_ok cb_type link H x s" "k \<in> set (reserved_socks s)"
  shows "client_ok cb_type link H x s' \<and> reserved_socks s' = reserved_socks s \<and> (\<forall>e buf. shut s k e buf \<longrightarrow> shut s' k e buf)"
proof (cases "context_of k s")
  case None
  with assms show ?thesis
    by (cases cb) (auto simp: run_write_cb_def close_on_write_error_def close_on_goaway_sent_def on_settings_sent_def
        on_stream_send_complete_def split: if_splits)
next
  case (Some c)
  have p: "serves (task_of k c {} H x s) s" by (rule task_starts [OF assms(2,3) Some]) simp
  have "serves (task_of k c {} H x s) s'"
    using assms(1) unfolding run_write_cb_def
    by (cases cb) (auto dest: write_error_serves [OF _ p] goaway_sent_serves [OF _ p] settings_sent_serves [OF _ p]
        stream_send_complete_serves [OF _ p])
  from task_ends(1-3) [OF this] show ?thesis by blast
qed

lemma timer_callback_ok:
  assumes "run_timer_cb cb k s = Some (s', r)" "client_ok cb_type link {} Map.empty s" "has_timer s k e"
  shows "client_ok cb_type link {} Map.empty s' \<and> reserved_socks s' = reserved_socks s \<and> has_timer s' k e \<and>
    (\<forall>s''. sees_same (set (reserved_socks s')) {(k, e)} s' s'' \<longrightarrow> link (set (reserved_socks s')) s'')"
proof -
  obtain c where c: "context_of k s = Some c" using callback_context(2) [OF assms(1)] by blast
  have k: "k \<in> set (reserved_socks s)" using assms(3) by (simp add: has_timer_def)
  have p: "serves (task_of k c {(k, e)} {} Map.empty s) s" by (rule task_starts [OF assms(2) k c]) (use assms(3) in simp)
  have "on_settings_timeout k s = Some (s', r)"
    using assms(1) unfolding run_timer_cb_def by (cases cb) simp_all
  from settings_timeout_serves [OF this p] have q: "serves (task_of k c {(k, e)} {} Map.empty s) s'" "\<not> waits_ack (ctx_mem s' c)"
    by simp_all
  have "link (set (reserved_socks s')) s''" if "sees_same (set (reserved_socks s')) {(k, e)} s' s''" for s''
    by (rule link_same [OF servesD(3) [OF q(1)] that]) (use servesD(4) [OF q(1)] q(2) in auto)
  with task_ends [OF q(1)] show ?thesis by blast
qed

interpretation server_memory: memory_client cb_type two_callbacks "link :: nat set \<Rightarrow> 'z two_state_scheme \<Rightarrow> bool"
proof unfold_locales
  fix K :: "nat set" and s s' :: "'z two_state_scheme"
  show "link K s \<Longrightarrow> sees_same K {} s s' \<Longrightarrow> link K s'" by (rule link_same [of K s "{}"]) auto
next
  fix cb k v and s s' :: "'z two_state_scheme"
  assume "connection_cb two_callbacks cb k s = Some (s', v)" "client_ok cb_type link {} Map.empty s"
  then show "client_ok cb_type link {} Map.empty s' \<and> set (reserved_socks s) \<subseteq> set (reserved_socks s')"
    by (cases cb) (auto simp: two_callbacks_def run_connection_cb_def dest: new_connection_ok)
next
  fix cb k and s s' :: "'z two_state_scheme"
  assume a: "close_cb two_callbacks cb k s = Some s'" "client_ok cb_type link {} Map.empty s" "k \<in> set (reserved_socks s)"
  have lk: "link (set (reserved_socks s)) s" using a(2) by (simp add: client_ok_def)
  then have rest: "link (set (reserved_socks s) - {k}) s" by (auto intro: link_subset)
  show "memory s' = memory s \<and> link (set (reserved_socks s) - {k}) s'"
    using a(1) on_client_close_link [OF _ lk a(3)] rest
    by (cases cb) (auto simp: two_callbacks_def run_close_cb_def on_client_close_def on_server_close_def memory_def split: if_splits)
qed (auto simp: two_callbacks_def dest: read_callback_ok write_callback_ok timer_callback_ok)

interpretation server_closing: closing_client cb_type two_callbacks "link :: nat set \<Rightarrow> 'z two_state_scheme \<Rightarrow> bool"
proof unfold_locales
  fix cb k and s :: "'z two_state_scheme"
  assume "client_ok cb_type link {} Map.empty s" "k \<in> set (reserved_socks s)" "cb_type cb = None"
  moreover from this have "\<exists>s'. http2_on_client_close k s = Some s'" using on_client_close_total by (auto simp: client_ok_def)
  ultimately show "\<exists>s'. close_cb two_callbacks cb k s = Some s'"
    by (cases cb) (simp_all add: two_callbacks_def run_close_cb_def on_client_close_def on_server_close_def)
qed

end
