(* ===== verification/Server_Safety.thy ===== *)
theory Server_Safety
  imports Server_Clients
begin

text \<open>
  What holds in every state of a running server: the memory of the event loop is consistent and tied to the
  contexts of the clients. From it follow that callbacks are called with the types they were stored
  with, that the searches in the lists of the loop end, that no watched descriptor is without a socket, and
  that sockets are closed after their last byte, and then at once.
\<close>

subsection \<open>Starting the server\<close>

lemma server_start_ok:
  assumes "two_server_start port env envs s = Some (s', r)" "\<not> clients_inited s"
  shows "client_ok cb_type link {} Map.empty s'"
proof -
  define s0 where "s0 = event_loop_init (s\<lparr>os := env\<rparr>)"
  have m0: "mem_rel cb_type {} Map.empty s0 init_layout" unfolding s0_def by (rule loop_init_mem)
  have r0: "reserved_socks s0 = []" by (simp add: layout_eqs(1) [OF m0] init_layout_def)
  have "clients_inited s0 = clients_inited s" using http2_more(8) [OF loop_init_more, of "s\<lparr>os := env\<rparr>"] by (simp add: s0_def)
  with assms(2) have "link {} s0" by (simp add: link_def contexts_pool_def attached_def)
  with m0 r0 have ok0: "client_ok cb_type link {} Map.empty s0" by (auto simp: client_ok_def mem_ok_def)
  obtain s1 k s3 v where s1: "event_sock_create s0 = Some (s1, k)"
    and s3: "event_listen k port (Some On_New_Connection) (s1\<lparr>server_sock := Some k\<rparr>) = Some (s3, v)"
    and s': "s' = s3 \<or> (\<exists>ended. event_loop_rounds two_callbacks envs (s3\<lparr>lp_running := True\<rparr>) = Some (s', ended))"
    using assms(1) by (auto simp: two_server_start_def event_loop_run_def s0_def [symmetric] Let_def split: Option.bind_splits if_splits)
  note ok1 = create_ok [OF s1 ok0]
  define s2 where "s2 = s1\<lparr>server_sock := Some k\<rparr>"
  have "memory s2 = memory s1" by (simp add: s2_def memory_def)
  note same = memory_same [OF this]
  have ok2: "client_ok cb_type link {} Map.empty s2" using ok1 same by (simp add: client_ok_def) (simp add: s2_def)
  have "k \<in> set (reserved_socks s2)" using sock_create_ok(2) [OF s1 conjunct1 [OF ok0 [unfolded client_ok_def]]] same(1) by simp
  with ok2 have "mem_ok cb_type {} Map.empty s3 \<and> evolves s2 s3"
    by (intro listen_ok [OF s3 [folded s2_def]]) (simp_all add: client_ok_def)
  with linked_evolves [OF ok2 _ listen_more [OF s3 [folded s2_def]]] have ok3: "client_ok cb_type link {} Map.empty s3" by blast
  have "client_ok cb_type link {} Map.empty (s3\<lparr>lp_running := True\<rparr>)"
    by (rule server_memory.ok_fields(1) [OF ok3]) (simp_all add: memory_def)
  from server_memory.rounds_ok [OF _ this] s' ok3 show ?thesis by blast
qed

text \<open>
  Claim C2. In every state of a server that \<open>two_server_start\<close> has started, whatever the clients send and the
  operating system answers, the static memory of the event loop is consistent: the arrays of sockets, events
  and write operations are partitioned into acyclic free lists and the lists of their owners, every event knows
  its socket, a socket reads and writes with at most one event each, the circular buffers are well formed and
  the bytes in a write buffer are those its queued operations account for. And the contexts of \<open>http2.c\<close> are
  tied to it: a context a socket points to is in use, points back to this socket, and if it waits for the
  acknowledgement of its settings, its timer is a timer event of this socket.
\<close>

theorem server_memory_invariant:
  assumes "two_server_start port env envs s = Some (s', r)" "\<not> clients_inited s"
  shows "\<exists>L. mem_rel cb_type {} Map.empty s' L \<and> link (set (l_socks L)) s'"
  using server_start_ok [OF assms] by (auto simp: client_ok_def mem_ok_def layout_eqs)

theorem server_memory_invariant_witness:
  "\<exists>s L. two_server_start 8080 idle_env [client_arrives] program_start = Some (s, None) \<and>
     context_of 1 s = Some 0 \<and> mem_rel cb_type {} Map.empty s L \<and> link (set (l_socks L)) s"
proof -
  obtain s where s: "two_server_start 8080 idle_env [client_arrives] program_start = Some (s, None)" "context_of 1 s = Some 0"
    using client_accepted by blast
  have "\<not> clients_inited program_start" by (simp add: program_start_def)
  with s server_memory_invariant [OF s(1)] show ?thesis by blast
qed

subsection \<open>Calling back\<close>

lemma queued_op_ok:
  assumes m: "mem_rel ty H x s L" and w: "e \<in> writers s L" and o: "op \<in> set (queued_ops s e)"
  shows "Event_Memory.op_ok ty (op_mem s op)"
proof -
  have "op \<in> set (l_ops L e)" using o layout_eqs(3) [OF m w] by simp
  then have "op < EVENT_WRITE_QUEUE_SIZE" "op \<notin> set (l_free_ops L)"
    using listsD(3) [OF mem_relD(3) [OF m] w] lists_apart(1) [OF mem_relD(3) [OF m] w] by blast+
  then show ?thesis using mem_relD(6) [OF m] by (simp add: ops_ok_def)
qed

lemma stored_callbacks:
  assumes m: "mem_rel ty {} Map.empty s L" and k: "k \<in> set (l_socks L)"
  shows "sk_state (sock_mem s k) = EVENT_SOCK_CLOSING \<Longrightarrow> typed ty None (sk_close_cb (sock_mem s k))"
    and "e \<in> set (sock_events s k) \<Longrightarrow> (case data_of s e of
        Event_Connection cb \<Rightarrow> typed ty (Some EVENT_CONNECTION_TYPE) cb
      | Event_Read buf cb \<Rightarrow> typed ty (Some EVENT_READ_TYPE) cb
      | Event_Write buf queue \<Rightarrow> (\<forall>op \<in> set (queued_ops s e). typed ty (Some EVENT_WRITE_TYPE) (op_cb (op_mem s op)))
      | Event_Timer millis start cb \<Rightarrow> typed ty (Some EVENT_TIMER_TYPE) cb)"
proof -
  show "typed ty None (sk_close_cb (sock_mem s k))" if "sk_state (sock_mem s k) = EVENT_SOCK_CLOSING"
    using mem_relD(4) [OF m] k that by (auto simp: socks_ok_def sock_ok_def)
  assume "e \<in> set (sock_events s k)"
  then have u: "in_use L k e" using k layout_eqs(2) [OF m k] by (simp add: in_use_def)
  show "case data_of s e of
        Event_Connection cb \<Rightarrow> typed ty (Some EVENT_CONNECTION_TYPE) cb
      | Event_Read buf cb \<Rightarrow> typed ty (Some EVENT_READ_TYPE) cb
      | Event_Write buf queue \<Rightarrow> (\<forall>op \<in> set (queued_ops s e). typed ty (Some EVENT_WRITE_TYPE) (op_cb (op_mem s op)))
      | Event_Timer millis start cb \<Rightarrow> typed ty (Some EVENT_TIMER_TYPE) cb"
    using events_okD(2) [OF m u] queued_op_ok [OF m writer_in_use [OF u]]
    by (cases "data_of s e") (auto simp: Event_Memory.op_ok_def)
qed

text \<open>
  Claim C14. The functions a running server has stored have the type of the place they are stored in: the
  callback of a connection, read or timer event, the callbacks of the operations queued at a write event, and
  the close callback of a closing socket. In particular none of them is null, and a loop that calls
  them never calls a function with arguments of another type.
\<close>

theorem server_callbacks_typed:
  assumes "two_server_start port env envs s = Some (s', r)" "\<not> clients_inited s" "k \<in> set (reserved_socks s')"
  shows "(sk_state (sock_mem s' k) = EVENT_SOCK_CLOSING \<longrightarrow> typed cb_type None (sk_close_cb (sock_mem s' k))) \<and>
    (\<forall>e \<in> set (sock_events s' k). case data_of s' e of
        Event_Connection cb \<Rightarrow> typed cb_type (Some EVENT_CONNECTION_TYPE) cb
      | Event_Read buf cb \<Rightarrow> typed cb_type (Some EVENT_READ_TYPE) cb
      | Event_Write buf queue \<Rightarrow> (\<forall>op \<in> set (queued_ops s' e). typed cb_type (Some EVENT_WRITE_TYPE) (op_cb (op_mem s' op)))
      | Event_Timer millis start cb \<Rightarrow> typed cb_type (Some EVENT_TIMER_TYPE) cb)"
proof -
  obtain L where m: "mem_rel cb_type {} Map.empty s' L"
    using server_start_ok [OF assms(1,2)] by (auto simp: client_ok_def mem_ok_def)
  have "k \<in> set (l_socks L)" using assms(3) by (simp add: layout_eqs(1) [OF m])
  from stored_callbacks [OF m this] show ?thesis by blast
qed

text \<open>The run of the examples again, with the sockets in use.\<close>

lemma walk_numeral: "walk n h p = (if n = 0 then [] else case p of None \<Rightarrow> [] | Some e \<Rightarrow> e # walk (n - 1) h (h e))"
  by (cases n) (simp_all split: option.split)

lemma client_accepted_socks:
  "\<exists>s. two_server_start 8080 idle_env [client_arrives] program_start = Some (s, None) \<and>
     reserved_socks s = [1, 0] \<and> sk_state (sock_mem s 1) = EVENT_SOCK_CONNECTED \<and> lp_active_fds s = {4, 3} \<and>
     sock_events s 1 = [2, 1]"
  by (simp add: run_simps program_start_def client_arrives_def idle_env_def reserved_socks_def sock_events_def walk_numeral
      cong: bind_weak_cong del: One_nat_def add_2_eq_Suc add_2_eq_Suc')

theorem server_callbacks_typed_witness:
  "\<exists>s. two_server_start 8080 idle_env [client_arrives] program_start = Some (s, None) \<and> sock_events s 1 = [2, 1] \<and>
     (sk_state (sock_mem s 1) = EVENT_SOCK_CLOSING \<longrightarrow> typed cb_type None (sk_close_cb (sock_mem s 1))) \<and>
     (\<forall>e \<in> set (sock_events s 1). case data_of s e of
        Event_Connection cb \<Rightarrow> typed cb_type (Some EVENT_CONNECTION_TYPE) cb
      | Event_Read buf cb \<Rightarrow> typed cb_type (Some EVENT_READ_TYPE) cb
      | Event_Write buf queue \<Rightarrow> (\<forall>op \<in> set (queued_ops s e). typed cb_type (Some EVENT_WRITE_TYPE) (op_cb (op_mem s op)))
      | Event_Timer millis start cb \<Rightarrow> typed cb_type (Some EVENT_TIMER_TYPE) cb)"
proof -
  obtain s where s: "two_server_start 8080 idle_env [client_arrives] program_start = Some (s, None)" "reserved_socks s = [1, 0]"
    "sock_events s 1 = [2, 1]" using client_accepted_socks by blast
  have "\<not> clients_inited program_start" "1 \<in> set (reserved_socks s)" by (simp_all add: program_start_def s(2))
  from server_callbacks_typed [OF s(1) this] s show ?thesis by blast
qed

subsection \<open>Loops that end\<close>

text \<open>
  Claim C32. In every state of a running server the loops over its lists come to an end: the search for an
  event of a socket, the search for the socket of a descriptor, the test whether a socket can be closed, and
  \<open>event_read_stop\<close> with its search, its unlinking of the event and its copying of the unread bytes. On a list
  with a cycle, or one that runs into another list, the first two would not return or leave the array.
\<close>

theorem server_searches_end:
  assumes "two_server_start port env envs s = Some (s', r)" "\<not> clients_inited s"
  shows "(\<exists>r. event_sock_find s' (lp_reserved s') fd = Some r) \<and>
    (\<forall>k \<in> set (reserved_socks s'). (\<forall>t. \<exists>r. event_find s' (events_of s' k) t = Some r) \<and>
       (\<exists>b. is_closable k s' = Some b) \<and> (\<exists>t n. event_read_stop k s' = Some (t, n)))"
proof -
  obtain L where m: "mem_rel cb_type {} Map.empty s' L"
    using server_start_ok [OF assms] by (auto simp: client_ok_def mem_ok_def)
  have "\<exists>r. event_sock_find s' (lp_reserved s') fd = Some r"
    unfolding event_sock_find_def using LL_FIND_correct [OF listsD(2) [OF mem_relD(1) [OF m], of "()"]] by simp
  moreover have "(\<forall>t. \<exists>r. event_find s' (events_of s' k) t = Some r) \<and> (\<exists>b. is_closable k s' = Some b) \<and>
      (\<exists>t n. event_read_stop k s' = Some (t, n))" if "k \<in> set (reserved_socks s')" for k
  proof -
    have k: "k \<in> set (l_socks L)" using that by (simp add: layout_eqs(1) [OF m])
    have "\<exists>t n. event_read_stop k s' = Some (t, n)" by (rule read_stop_total [OF m k]) blast+
    with find_correct [OF m k] server_memory.closable_layout [OF m k] show ?thesis by blast
  qed
  ultimately show ?thesis by blast
qed

theorem server_searches_end_witness:
  "\<exists>s. two_server_start 8080 idle_env [client_arrives] program_start = Some (s, None) \<and>
     (\<exists>r. event_sock_find s (lp_reserved s) 5 = Some r) \<and>
     (\<forall>k \<in> {0, 1}. (\<forall>t. \<exists>r. event_find s (events_of s k) t = Some r) \<and>
        (\<exists>b. is_closable k s = Some b) \<and> (\<exists>t n. event_read_stop k s = Some (t, n)))"
proof -
  obtain s where s: "two_server_start 8080 idle_env [client_arrives] program_start = Some (s, None)" "reserved_socks s = [1, 0]"
    using client_accepted_socks by blast
  have "\<not> clients_inited program_start" by (simp add: program_start_def)
  from server_searches_end [OF s(1) this, of 5] s(2) have "(\<exists>r. event_sock_find s (lp_reserved s) 5 = Some r) \<and>
     (\<forall>k \<in> {0, 1}. (\<forall>t. \<exists>r. event_find s (events_of s k) t = Some r) \<and>
        (\<exists>b. is_closable k s = Some b) \<and> (\<exists>t n. event_read_stop k s = Some (t, n)))" by simp
  with s(1) show ?thesis by blast
qed

text \<open>
  Claim C33. Every descriptor that a running server watches belongs to one of its sockets: the search that
  \<open>event_loop_poll\<close> makes for a descriptor in \<open>select\<close>'s sets finds a socket with this descriptor, so its
  assertion holds and no readiness is lost.
\<close>

theorem watched_descriptors_have_sockets:
  assumes "two_server_start port env envs s = Some (s', r)" "\<not> clients_inited s" "fd \<in> lp_active_fds s'"
  shows "\<exists>k \<in> set (reserved_socks s'). event_sock_find s' (lp_reserved s') fd = Some (Some k) \<and>
    sk_descriptor (sock_mem s' k) = fd"
proof -
  obtain L where m: "mem_rel cb_type {} Map.empty s' L"
    using server_start_ok [OF assms(1,2)] by (auto simp: client_ok_def mem_ok_def)
  define p where "p k \<longleftrightarrow> sk_descriptor (sock_mem s' k) = fd" for k
  have f: "event_sock_find s' (lp_reserved s') fd = Some (find p (l_socks L))"
    unfolding event_sock_find_def p_def using LL_FIND_correct [OF listsD(2) [OF mem_relD(1) [OF m], of "()"]] by simp
  have "\<exists>k \<in> set (l_socks L). p k" using mem_relD(4) [OF m] assms(3) by (auto simp: socks_ok_def p_def)
  then obtain k where k: "find p (l_socks L) = Some k" by (cases "find p (l_socks L)") (auto simp: find_None_iff)
  then have "k \<in> set (l_socks L)" "p k" by (auto simp: find_Some_iff)
  with f k show ?thesis by (auto simp: p_def layout_eqs(1) [OF m])
qed

theorem watched_descriptors_have_sockets_witness:
  "\<exists>s. two_server_start 8080 idle_env [client_arrives] program_start = Some (s, None) \<and>
     (\<exists>k \<in> set (reserved_socks s). event_sock_find s (lp_reserved s) 4 = Some (Some k) \<and> sk_descriptor (sock_mem s k) = 4)"
proof -
  obtain s where s: "two_server_start 8080 idle_env [client_arrives] program_start = Some (s, None)" "lp_active_fds s = {4, 3}"
    using client_accepted_socks by blast
  have "\<not> clients_inited program_start" "4 \<in> lp_active_fds s" by (simp_all add: program_start_def s(2))
  from watched_descriptors_have_sockets [OF s(1) this] s(1) show ?thesis by blast
qed

subsection \<open>Closing\<close>

text \<open>A client whose socket the server has just decided to close.\<close>

lemma client_closing:
  "\<exists>s t. two_server_start 8080 idle_env [client_arrives] program_start = Some (s, None) \<and>
     event_close 1 (Some Http2_On_Client_Close) s = Some (t, 0) \<and> reserved_socks t = [1, 0] \<and>
     is_closable 1 t = Some True \<and> is_closable 0 t = Some False \<and> sk_descriptor (sock_mem t 1) = 4 \<and>
     sock_events t 1 = [2, 1] \<and> (\<exists>buf queue. data_of t 2 = Event_Write buf queue) \<and>
     client_ok cb_type link {} Map.empty t"
proof -
  obtain s t where s: "two_server_start 8080 idle_env [client_arrives] program_start = Some (s, None)"
    "event_close 1 (Some Http2_On_Client_Close) s = Some (t, 0)" "reserved_socks t = [1, 0]" "reserved_socks s = [1, 0]"
     "is_closable 1 t = Some True" "is_closable 0 t = Some False" "sk_descriptor (sock_mem t 1) = 4"
     "sock_events t 1 = [2, 1]" "\<exists>buf queue. data_of t 2 = Event_Write buf queue"
    by (simp add: run_simps program_start_def client_arrives_def idle_env_def reserved_socks_def sock_events_def walk_numeral
        event_close_def set_data_def cong: bind_weak_cong del: One_nat_def add_2_eq_Suc add_2_eq_Suc')
  have ok: "client_ok cb_type link {} Map.empty s" by (rule server_start_ok [OF s(1)]) (simp add: program_start_def)
  have "mem_ok cb_type {} Map.empty t \<and> evolves s t"
    by (rule close_ok [OF s(2)]) (use ok s(4) in \<open>simp_all add: client_ok_def\<close>)
  from linked_evolves [OF ok this close_more [OF s(2)]] s show ?thesis by blast
qed

text \<open>
  Claim C16. A socket is closed only after its last byte: if the close phase of a server whose memory is
  consistent takes a socket for closable, then nothing is left in its write buffer. The phase only looks at
  the queue of operations, so this rests on the invariant that the queued operations account for every byte.
\<close>

theorem closed_after_last_byte:
  assumes "client_ok cb_type link {} Map.empty s" "k \<in> set (reserved_socks s)" "is_closable k s = Some True"
    and "e \<in> set (sock_events s k)" "data_of s e = Event_Write buf queue"
  shows "cbuf_contents buf = []"
proof -
  obtain L where m: "mem_rel cb_type {} Map.empty s L" using assms(1) by (auto simp: client_ok_def mem_ok_def)
  have k: "k \<in> set (l_socks L)" using assms(2) by (simp add: layout_eqs(1) [OF m])
  have u: "in_use L k e" using k assms(4) layout_eqs(2) [OF m k] by (simp add: in_use_def)
  have "queue_of s e = None" using server_memory.closable_layout [OF m k] assms(3) u by simp
  moreover have "chain (write_next s) (queue_of s e) (l_ops L e)"
    by (rule listsD(2) [OF mem_relD(3) [OF m] writer_in_use [OF u assms(5)]])
  ultimately have "cb_len buf = 0" using events_okD(2) [OF m u] assms(5) by (simp add: waiting_def slack_def)
  then have "length (cbuf_contents buf) = 0" by simp
  then show ?thesis by (simp only: length_0_conv)
qed

theorem closed_after_last_byte_witness:
  "\<exists>s. is_closable 1 s = Some True \<and> client_ok cb_type link {} Map.empty (s :: two_state) \<and>
     (\<exists>buf queue. data_of s 2 = Event_Write buf queue \<and> cbuf_contents buf = [])"
proof -
  obtain s where s: "client_ok cb_type link {} Map.empty (s :: two_state)" "reserved_socks s = [1, 0]" "is_closable 1 s = Some True"
    "sock_events s 1 = [2, 1]" "\<exists>buf queue. data_of s 2 = Event_Write buf queue" using client_closing by blast
  then have "1 \<in> set (reserved_socks s)" "2 \<in> set (sock_events s 1)" by simp_all
  with closed_after_last_byte [OF s(1) _ s(3)] s show ?thesis by blast
qed

text \<open>
  Claim C15. And then it is closed at once: in a server whose memory is consistent the close phase returns, and
  the sockets left are exactly those that could not be closed, in their order, because they are not closing
  or still have something to write. The descriptors of the sockets that are closed must be in the range of
  \<open>fd_set\<close>, which is not so for a client whose \<open>accept\<close> failed.
\<close>

theorem close_phase_closes:
  fixes s :: "'z two_state_scheme"
  assumes "client_ok cb_type link {} Map.empty s"
    and "\<And>k. k \<in> set (reserved_socks s) \<Longrightarrow> is_closable k s = Some True \<Longrightarrow>
      0 \<le> sk_descriptor (sock_mem s k) \<and> sk_descriptor (sock_mem s k) < FD_SETSIZE"
  shows "\<exists>s'. event_loop_close two_callbacks s = Some s' \<and>
    reserved_socks s' = filter (\<lambda>k. is_closable k s \<noteq> Some True) (reserved_socks s)"
  using server_closing.close_returns [OF assms] by blast

theorem close_phase_closes_witness:
  "\<exists>s s'. reserved_socks (s :: two_state) = [1, 0] \<and> is_closable 1 s = Some True \<and>
     event_loop_close two_callbacks s = Some s' \<and> reserved_socks s' = [0]"
proof -
  obtain s where s: "client_ok cb_type link {} Map.empty (s :: two_state)" "reserved_socks s = [1, 0]" "is_closable 1 s = Some True"
    "is_closable 0 s = Some False" "sk_descriptor (sock_mem s 1) = 4" using client_closing by blast
  have "0 \<le> sk_descriptor (sock_mem s k) \<and> sk_descriptor (sock_mem s k) < FD_SETSIZE"
    if "k \<in> set (reserved_socks s)" "is_closable k s = Some True" for k
    using that s by (auto simp: FD_SETSIZE_def)
  from close_phase_closes [OF s(1) this] obtain s' where "event_loop_close two_callbacks s = Some s'"
    "reserved_socks s' = filter (\<lambda>k. is_closable k s \<noteq> Some True) (reserved_socks s)" by blast
  with s show ?thesis by auto
qed

subsection \<open>Writing\<close>

text \<open>
  Claim C17. What \<open>event_write\<close> does when it returns: as many bytes as fit are appended to what the write
  buffer of the socket already holds, their number is returned, and one operation with this number and the
  callback is queued behind the others; if nothing fits, no operation is queued and the callback will never be
  called. Everything else stays.
\<close>

theorem event_write_spec:
  assumes m: "mem_rel ty H x s L" and k: "k \<in> set (reserved_socks s)"
    and w: "event_write k n (Some bytes) (Some cb) s = Some (s', r)"
    and cb: "ty cb = Some EVENT_WRITE_TYPE" and n: "nat n \<le> length bytes"
  shows "\<exists>e \<in> set (sock_events s k). \<exists>buf q buf' q'. data_of s e = Event_Write buf q \<and> data_of s' e = Event_Write buf' q' \<and>
    r = push_room buf n \<and> cbuf_contents buf' = cbuf_contents buf @ take (nat r) bytes \<and>
    map (op_mem s') (queued_ops s' e) =
      map (op_mem s) (queued_ops s e) @ (if r = 0 then [] else [\<lparr>op_bytes = nat r, op_cb = Some cb\<rparr>]) \<and>
    (\<forall>e'. e' \<noteq> e \<longrightarrow> data_of s' e' = data_of s e')"
proof -
  have kl: "k \<in> set (l_socks L)" using k by (simp add: layout_eqs(1) [OF m])
  have in_events: "e \<in> set (sock_events s k)" if "in_use L k e" for e using that layout_eqs(2) [OF m kl] by (simp add: in_use_def)
  have pushed: "r = push_room buf n \<and> cbuf_contents buf' = cbuf_contents buf @ take (nat r) bytes"
    if "in_use L k e" "data_of s e = Event_Write buf q" "cbuf_push buf (the (Some bytes)) n = Some (buf', r)" for e buf q buf'
    using cbuf_push_correct [of buf n bytes] events_okD(2) [OF m that(1)] that(2,3) n by auto
  have ty: "typed ty (Some EVENT_WRITE_TYPE) (Some cb)" using cb by simp
  show ?thesis
  proof (rule write_cases [OF w m kl ty])
    fix e buf q buf'
    assume u: "in_use L k e" and d: "data_of s e = Event_Write buf q" and p: "cbuf_push buf (the (Some bytes)) n = Some (buf', r)"
      and r: "r = 0" and s': "s' = set_data e (Event_Write buf' q) s" and m': "mem_rel ty H x s' L"
    have "data_of s' e = Event_Write buf' q" by (simp add: s')
    then have "queued_ops s' e = queued_ops s e" "op_mem s' = op_mem s"
      using layout_eqs(3) [OF m writer_in_use [OF u d]] layout_eqs(3) [OF m' writer_in_use [OF u]] by (simp_all add: s')
    with in_events [OF u] d pushed [OF u d p] r s' show ?thesis by (intro bexI [of _ e]) simp_all
  next
    fix e buf q buf' op F q'
    assume u: "in_use L k e" and d: "data_of s e = Event_Write buf q" and p: "cbuf_push buf (the (Some bytes)) n = Some (buf', r)"
      and r: "0 < r" and F: "l_free_ops L = op # F" and d': "data_of s' e = Event_Write buf' q'"
      and other: "\<And>e'. e' \<noteq> e \<Longrightarrow> data_of s' e' = data_of s e'" and op: "op_mem s' op = \<lparr>op_bytes = nat r, op_cb = Some cb\<rparr>"
      and m': "mem_rel ty H x s' (L\<lparr>l_ops := (l_ops L)(e := l_ops L e @ [op]), l_free_ops := F\<rparr>)"
      and ops: "\<And>op'. op' \<noteq> op \<Longrightarrow> op_mem s' op' = op_mem s op'"
    have u': "in_use (L\<lparr>l_ops := (l_ops L)(e := l_ops L e @ [op]), l_free_ops := F\<rparr>) k e" using u by (simp add: in_use_def)
    have q: "queued_ops s e = l_ops L e" "queued_ops s' e = l_ops L e @ [op]"
      using layout_eqs(3) [OF m writer_in_use [OF u d]] layout_eqs(3) [OF m' writer_in_use [OF u' d']] by simp_all
    have "op \<notin> set (l_ops L e)" using lists_apart(1) [OF mem_relD(3) [OF m] writer_in_use [OF u d], of op] F by auto
    then have "map (op_mem s') (l_ops L e) = map (op_mem s) (l_ops L e)" by (intro map_cong refl ops) auto
    with in_events [OF u] d d' pushed [OF u d p] q op other r show ?thesis by (intro bexI [of _ e]) auto
  qed
qed

lemma client_writable:
  "\<exists>s buf. two_server_start 8080 idle_env [client_arrives] program_start = Some (s, None) \<and> reserved_socks s = [1, 0] \<and>
     sk_loop (sock_mem s 1) \<and> sk_state (sock_mem s 1) = EVENT_SOCK_CONNECTED \<and>
     event_find s (events_of s 1) EVENT_WRITE_TYPE = Some (Some 2) \<and> data_of s 2 = Event_Write buf None \<and>
     cb_len buf = 0 \<and> cb_maxlen buf = 512 \<and> cb_state buf = CBUF_OPEN \<and> lp_writes s = Some 0"
  by (simp add: run_simps program_start_def client_arrives_def idle_env_def reserved_socks_def walk_numeral
      cong: bind_weak_cong del: One_nat_def add_2_eq_Suc add_2_eq_Suc')

theorem event_write_spec_witness:
  "\<exists>s s' buf q buf' q'. two_server_start 8080 idle_env [client_arrives] program_start = Some (s, None) \<and>
     event_write 1 2 (Some [7, 8]) (Some Close_On_Write_Error) s = Some (s', 2) \<and>
     (\<exists>e. data_of s e = Event_Write buf q \<and> data_of s' e = Event_Write buf' q' \<and>
        cbuf_contents buf' = cbuf_contents buf @ [7, 8] \<and>
        map (op_mem s') (queued_ops s' e) =
          map (op_mem s) (queued_ops s e) @ [\<lparr>op_bytes = 2, op_cb = Some Close_On_Write_Error\<rparr>])"
proof -
  obtain s buf where s: "two_server_start 8080 idle_env [client_arrives] program_start = Some (s, None)" "reserved_socks s = [1, 0]"
    "sk_loop (sock_mem s 1)" "sk_state (sock_mem s 1) = EVENT_SOCK_CONNECTED"
    "event_find s (events_of s 1) EVENT_WRITE_TYPE = Some (Some 2)" "data_of s 2 = Event_Write buf None"
    "cb_len buf = 0" "cb_maxlen buf = 512" "cb_state buf = CBUF_OPEN" "lp_writes s = Some 0" using client_writable by blast
  obtain L where m: "mem_rel cb_type {} Map.empty s L"
    using server_start_ok [OF s(1)] by (auto simp: client_ok_def mem_ok_def program_start_def)
  have k: "1 \<in> set (l_socks L)" using s(2) by (simp add: layout_eqs(1) [OF m])
  have "in_use L 1 2" using find_in_use(1) [OF m k s(5) refl] by blast
  then have wf: "cbuf_wf buf" using events_okD(2) [OF m] s(6) by fastforce
  have room: "push_room buf 2 = 2" using s(7-9) by (simp add: push_room_def)
  obtain b where b: "cbuf_push buf [7, 8] 2 = Some (b, 2)" using cbuf_push_correct [OF wf, of 2 "[7, 8]"] room by auto
  then obtain s' where w: "event_write 1 2 (Some [7, 8]) (Some Close_On_Write_Error) s = Some (s', 2)"
    using s by (simp add: event_write_def LL_MOVE_def LL_POP_def LL_APPEND_def append_loop.simps)
  from event_write_spec [OF m _ w] s(2) obtain e buf q buf' q' where
    "data_of s e = Event_Write buf q" "data_of s' e = Event_Write buf' q'" "cbuf_contents buf' = cbuf_contents buf @ [7, 8]"
    "map (op_mem s') (queued_ops s' e) = map (op_mem s) (queued_ops s e) @ [\<lparr>op_bytes = 2, op_cb = Some Close_On_Write_Error\<rparr>]"
    by auto
  with s(1) w show ?thesis by blast
qed

end
