(* ===== verification/Flow_Control.thy ===== *)
theory Flow_Control
  imports Server_Safety
begin

text \<open>
  Flow control of RFC 7540, section 5.2, in \<open>http2_continue_send\<close> and \<open>handle_window_update_frame\<close> of
  \<open>src/src/http2.c\<close>: how much of a response is sent, and how the windows of the connection and of the
  stream change.
\<close>

subsection \<open>Sending a piece of the response\<close>

text \<open>The bytes of the response that are not sent yet.\<close>

definition unsent :: "http2_context \<Rightarrow> byte list" where
  "unsent x = (case st_bufptr (cx_stream x) of
     None \<Rightarrow> [] | Some p \<Rightarrow> take (st_buflen (cx_stream x)) (drop p (st_buf (cx_stream x))))"

text \<open>All of them are inside the buffer, and a DATA frame of them fits the buffer of a frame.\<close>

definition pending_ok :: "http2_context \<Rightarrow> bool" where
  "pending_ok x \<longleftrightarrow> (\<exists>p. st_bufptr (cx_stream x) = Some p \<and> p + st_buflen (cx_stream x) \<le> HTTP2_STREAM_BUF_SIZE)"

definition after_chunk :: "nat \<Rightarrow> http2_context \<Rightarrow> http2_context" where
  "after_chunk n x = x\<lparr>cx_stream := (cx_stream x)\<lparr>st_bufptr := map_option (\<lambda>p. p + n) (st_bufptr (cx_stream x)),
       st_buflen := st_buflen (cx_stream x) - n, st_window_size := st_window_size (cx_stream x) - of_nat n\<rparr>,
     cx_window_size := cx_window_size x - of_nat n\<rparr>"

lemma sendable_le: "sendable x \<le> int (st_buflen (cx_stream x))"
  by (simp add: sendable_def)

lemma send_octets_more: "send_octets k bs cb s = Some (s', r) \<Longrightarrow> event_loop.more s' = event_loop.more s"
  unfolding send_octets_def by (rule write_more)

lemma continue_send_correct:
  assumes "context_ok (ctx_mem s c)" "pending_ok (ctx_mem s c)" "cx_socket (ctx_mem s c) = Some k"
    "0 < sendable (ctx_mem s c)" "sendable (ctx_mem s c) \<le> int (FRAME_MAX_SIZE - 9)" "n = nat (sendable (ctx_mem s c))"
  shows "http2_continue_send c s = do {
     (s, _) \<leftarrow> send_octets k (frame_octets (Data_Frame (st_id (cx_stream (ctx_mem s c)))
       (n = st_buflen (cx_stream (ctx_mem s c))) (take n (unsent (ctx_mem s c))))) On_Stream_Send_Complete s;
     Some (upd_ctx c (after_chunk n) s)
   }"
proof -
  define x where "x = ctx_mem s c"
  obtain p where p: "st_bufptr (cx_stream x) = Some p" "p + st_buflen (cx_stream x) \<le> 512"
    using assms(2) by (auto simp: pending_ok_def x_def HTTP2_STREAM_BUF_SIZE_def)
  have b: "length (st_buf (cx_stream x)) = 512" "st_buflen (cx_stream x) \<le> 512"
    using assms(1) by (simp_all add: context_ok_def stream_ok_def x_def HTTP2_STREAM_BUF_SIZE_def)
  have n: "sendable x = int n" "0 < n" "n \<le> 503" "n \<le> st_buflen (cx_stream x)"
    using assms(4-6) by (simp_all add: x_def FRAME_MAX_SIZE_def nat_le_iff sendable_le)
  have len: "min (sendable x) (int HTTP2_SOCK_WRITE_SIZE) = int n"
    using n(1,3) by (simp add: HTTP2_SOCK_WRITE_SIZE_def)
  have w: "unat (of_nat n :: u32) = n" using n(3) by (simp add: unat_of_nat_u32)
  have "send_data_frame k (st_buf (cx_stream x)) p (of_nat n) (st_id (cx_stream x)) fin cb s =
      send_octets k (frame_octets (Data_Frame (st_id (cx_stream x)) fin (take n (unsent x)))) cb s" for fin cb
    using send_data_correct [of p "of_nat n" "st_buf (cx_stream x)" k "st_id (cx_stream x)" fin cb s] p n b w
    by (simp add: FRAME_MAX_SIZE_def unsent_def min_absorb1)
  moreover have u16: "to_u16 (int (st_buflen (cx_stream x)) - int n) = st_buflen (cx_stream x) - n"
    using n(4) b(2) by (simp add: to_u16_def of_nat_diff [symmetric] del: of_nat_diff)
  moreover have "int (st_buflen (cx_stream x)) - int n \<le> 0 \<longleftrightarrow> n = st_buflen (cx_stream x)" using n(4) by auto
  moreover note continue_send_sends [OF assms(4) x_def len [symmetric]]
  ultimately have eq: "http2_continue_send c s = do {
     (s, _) \<leftarrow> send_octets k (frame_octets (Data_Frame (st_id (cx_stream x)) (n = st_buflen (cx_stream x))
       (take n (unsent x)))) On_Stream_Send_Complete s;
     Some (upd_ctx c (\<lambda>x. x\<lparr>cx_window_size := cx_window_size x - of_nat n\<rparr>)
       (upd_stream c (\<lambda>x. x\<lparr>st_bufptr := Some (p + n), st_buflen := to_u16 (int (st_buflen x) - int n),
         st_window_size := st_window_size x - of_nat n\<rparr>) s))
   }" (is "_ = do { (s, _) \<leftarrow> ?send; Some (?upd s) }")
    using p(1) assms(3) [folded x_def] by (simp del: ctx_mem_upd)
  have "?upd s' = upd_ctx c (after_chunk n) s'" if "?send = Some (s', r)" for s' r
  proof -
    have "ctx_mem s' c = x" using http2_more(1) [OF send_octets_more [OF that]] by (simp add: x_def)
    then show ?thesis using p(1) u16 by (simp add: upd_ctx_def upd_stream_def after_chunk_def)
  qed
  then show ?thesis unfolding eq x_def [symmetric] by (cases ?send) auto
qed

text \<open>A longer piece is written behind the buffer of the frame.\<close>

lemma continue_send_overflow:
  assumes "context_ok (ctx_mem s c)" "pending_ok (ctx_mem s c)" "503 < sendable (ctx_mem s c)"
  shows "http2_continue_send c s = None"
proof -
  define x where "x = ctx_mem s c"
  obtain p where p: "st_bufptr (cx_stream x) = Some p" "p + st_buflen (cx_stream x) \<le> 512"
    using assms(2) by (auto simp: pending_ok_def x_def HTTP2_STREAM_BUF_SIZE_def)
  have b: "length (st_buf (cx_stream x)) = 512"
    using assms(1) by (simp add: context_ok_def stream_ok_def x_def HTTP2_STREAM_BUF_SIZE_def)
  define n where "n = nat (sendable x)"
  have n: "sendable x = int n" "503 < n" "n \<le> st_buflen (cx_stream x)" "n \<le> 512"
    using assms(3) p(2) sendable_le [of x] by (simp_all add: x_def n_def)
  have w: "unat (of_nat n :: u32) = n" using n(4) by (simp add: unat_of_nat_u32)
  have len: "min (sendable x) (int HTTP2_SOCK_WRITE_SIZE) = int n"
    using n(1,4) by (simp add: HTTP2_SOCK_WRITE_SIZE_def)
  have "send_data_frame k (st_buf (cx_stream x)) p (of_nat n) id fin cb s = None" for k id fin cb
    by (rule send_data_overflow) (use w n p b in \<open>simp_all add: FRAME_MAX_SIZE_def\<close>)
  then show ?thesis
    using continue_send_sends [OF _ x_def len [symmetric]] assms(3) p(1)
    by (cases "cx_socket x") (simp_all del: ctx_mem_upd)
qed

text \<open>What is left after a piece, and the windows.\<close>

lemma after_chunk_spec:
  assumes "context_ok x" "pending_ok x" "int n \<le> sendable x"
  shows "pending_ok (after_chunk n x)" "take n (unsent x) @ unsent (after_chunk n x) = unsent x"
    "length (take n (unsent x)) = n"
    "sint (cx_window_size (after_chunk n x)) = sint (cx_window_size x) - int n"
    "sint (st_window_size (cx_stream (after_chunk n x))) = sint (st_window_size (cx_stream x)) - int n"
proof -
  obtain p where p: "st_bufptr (cx_stream x) = Some p" "p + st_buflen (cx_stream x) \<le> HTTP2_STREAM_BUF_SIZE"
    using assms(2) by (auto simp: pending_ok_def)
  have n: "n \<le> st_buflen (cx_stream x)" "int n \<le> sint (cx_window_size x)" "int n \<le> sint (st_window_size (cx_stream x))"
    using assms(3) by (simp_all add: sendable_def)
  have b: "length (st_buf (cx_stream x)) = HTTP2_STREAM_BUF_SIZE" using assms(1) by (simp add: context_ok_def stream_ok_def)
  show "pending_ok (after_chunk n x)" using p n(1) by (simp add: pending_ok_def after_chunk_def)
  have "unsent (after_chunk n x) = drop n (unsent x)"
    using p(1) n(1) by (simp add: unsent_def after_chunk_def drop_take add.commute)
  then show "take n (unsent x) @ unsent (after_chunk n x) = unsent x" by simp
  show "length (take n (unsent x)) = n" using p b n(1) by (simp add: unsent_def)
  show "sint (cx_window_size (after_chunk n x)) = sint (cx_window_size x) - int n"
    using sint_minus_small [OF _ n(2)] by (simp add: after_chunk_def)
  show "sint (st_window_size (cx_stream (after_chunk n x))) = sint (st_window_size (cx_stream x)) - int n"
    using sint_minus_small [OF _ n(3)] by (simp add: after_chunk_def)
qed

lemma length_data_frame: "length (frame_octets (Data_Frame i fin bs)) = 9 + length bs"
  by simp

text \<open>A DATA frame on a connected socket with a free write operation: what fits of it is queued.\<close>

lemma data_frame_queued:
  assumes "mem_ok ty H y s" "k \<in> set (reserved_socks s)" "sk_loop (sock_mem s k)"
    "sk_state (sock_mem s k) = EVENT_SOCK_CONNECTED" "e \<in> set (sock_events s k)" "data_of s e = Event_Write buf q"
    "lp_writes s = Some op" "length octets \<le> FRAME_MAX_SIZE"
  obtains s' buf' q' where "send_octets k octets cb s = Some (s', push_room buf (int (length octets)))"
    "data_of s' e = Event_Write buf' q'"
    "cbuf_contents buf' = cbuf_contents buf @ take (nat (push_room buf (int (length octets)))) octets"
proof -
  obtain L where m: "mem_rel ty H y s L" using assms(1) by (auto simp: mem_ok_def)
  have k: "k \<in> set (l_socks L)" using assms(2) by (simp add: layout_eqs(1) [OF m])
  have u: "in_use L k e" using assms(5) k by (simp add: layout_eqs(2) [OF m k] in_use_def)
  have "take (nat (push_room buf (int (length octets)))) (frame_buffer octets) =
      take (nat (push_room buf (int (length octets)))) octets"
    by (simp add: frame_buffer_def push_room_def nat_le_iff)
  with write_returns [OF m k assms(3,4) u assms(6) _ assms(7), of "int (length octets)" "frame_buffer octets" cb] assms(8) that
  show ?thesis by (auto simp: send_octets_def)
qed

text \<open>
  Claim C31. Flow control, on a connected socket with a write event and a free write operation.
  \<open>http2_continue_send\<close> does nothing while a window is exhausted or nothing is left. Otherwise it makes
  one DATA frame of the next \<open>n\<close> bytes of the response, where \<open>n\<close> is the minimum of what is left and of the
  two windows, so that it never exceeds what the peer allows, with END_STREAM exactly on the last piece.
  As much of the frame as the write buffer of the socket has room for is appended to it, which is the whole
  frame if there is room for \<open>n + 9\<close> bytes; but the response advances and both windows shrink by \<open>n\<close> in
  either case, since the code ignores the number of bytes taken. A piece of more than 503 bytes is
  undefined behaviour: it is written behind the buffer of the frame.
\<close>

theorem flow_control:
  assumes "x = ctx_mem s c" "n = nat (sendable x)" "context_ok x" "pending_ok x" "cx_socket x = Some k"
    and "mem_ok cb_type H y s" "k \<in> set (reserved_socks s)" "sk_loop (sock_mem s k)"
    and "sk_state (sock_mem s k) = EVENT_SOCK_CONNECTED" "e \<in> set (sock_events s k)" "data_of s e = Event_Write buf q"
    and "lp_writes s = Some op"
    and "octets = frame_octets (Data_Frame (st_id (cx_stream x)) (n = st_buflen (cx_stream x)) (take n (unsent x)))"
  shows "(n = 0 \<longrightarrow> http2_continue_send c s = Some s) \<and>
    (503 < n \<longrightarrow> http2_continue_send c s = None) \<and>
    (0 < n \<and> n \<le> 503 \<longrightarrow> length (take n (unsent x)) = n \<and>
      (\<exists>s' x' buf' q'. http2_continue_send c s = Some s' \<and> x' = ctx_mem s' c \<and> data_of s' e = Event_Write buf' q' \<and>
        cbuf_contents buf' = cbuf_contents buf @ take (nat (push_room buf (int (9 + n)))) octets \<and>
        (push_room buf (int (9 + n)) = int (9 + n) \<longrightarrow> cbuf_contents buf' = cbuf_contents buf @ octets) \<and>
        unsent x' = drop n (unsent x) \<and> pending_ok x' \<and>
        sint (cx_window_size x') = sint (cx_window_size x) - int n \<and> 0 \<le> sint (cx_window_size x') \<and>
        sint (st_window_size (cx_stream x')) = sint (st_window_size (cx_stream x)) - int n \<and>
        0 \<le> sint (st_window_size (cx_stream x'))))"
proof (intro conjI impI)
  assume "n = 0"
  then show "http2_continue_send c s = Some s" using assms(1,2) by (intro continue_send_blocked) simp
next
  assume "503 < n"
  then show "http2_continue_send c s = None" using assms(1-4) by (intro continue_send_overflow) simp_all
next
  assume "0 < n \<and> n \<le> 503"
  then have n: "0 < sendable x" "int n \<le> sendable x" "sendable x \<le> int (FRAME_MAX_SIZE - 9)"
    using assms(2) by (simp_all add: FRAME_MAX_SIZE_def nat_le_iff)
  note chunk = after_chunk_spec [OF assms(3,4) n(2)]
  show "length (take n (unsent x)) = n" by (rule chunk(3))
  have len: "length octets = 9 + n" unfolding assms(13) length_data_frame chunk(3) ..
  then have fits: "length octets \<le> FRAME_MAX_SIZE" using n(1,3) assms(2) by (simp add: FRAME_MAX_SIZE_def nat_le_iff)
  obtain s1 buf' q' where w: "send_octets k octets On_Stream_Send_Complete s = Some (s1, push_room buf (int (9 + n)))"
    "data_of s1 e = Event_Write buf' q'"
    "cbuf_contents buf' = cbuf_contents buf @ take (nat (push_room buf (int (9 + n)))) octets"
    using data_frame_queued [OF assms(6-12) fits] unfolding len by blast
  have "http2_continue_send c s = Some (upd_ctx c (after_chunk n) s1)"
    using continue_send_correct [of s c k n] assms(1-5) n w(1) unfolding assms(13) by simp
  moreover have "ctx_mem (upd_ctx c (after_chunk n) s1) c = after_chunk n x"
    using http2_more(1) [OF send_octets_more [OF w(1)]] assms(1) by simp
  moreover have "data_of (upd_ctx c (after_chunk n) s1) e = Event_Write buf' q'"
    using w(2) by (simp add: upd_ctx_def data_of_def)
  moreover have "unsent (after_chunk n x) = drop n (unsent x)"
    using chunk(2) by (metis append_take_drop_id same_append_eq)
  ultimately show "\<exists>s' x' buf' q'. http2_continue_send c s = Some s' \<and> x' = ctx_mem s' c \<and> data_of s' e = Event_Write buf' q' \<and>
        cbuf_contents buf' = cbuf_contents buf @ take (nat (push_room buf (int (9 + n)))) octets \<and>
        (push_room buf (int (9 + n)) = int (9 + n) \<longrightarrow> cbuf_contents buf' = cbuf_contents buf @ octets) \<and>
        unsent x' = drop n (unsent x) \<and> pending_ok x' \<and>
        sint (cx_window_size x') = sint (cx_window_size x) - int n \<and> 0 \<le> sint (cx_window_size x') \<and>
        sint (st_window_size (cx_stream x')) = sint (st_window_size (cx_stream x)) - int n \<and>
        0 \<le> sint (st_window_size (cx_stream x'))"
    using w(3) chunk(1,4,5) n(2) len
    by (intro exI [of _ "upd_ctx c (after_chunk n) s1"] exI [of _ "after_chunk n x"] exI [of _ buf'] exI [of _ q'])
      (simp add: sendable_def)
qed

definition sending :: "byte list \<Rightarrow> u32 \<Rightarrow> u32 \<Rightarrow> two_state" where
  "sending body w w' = upd_ctx 0 (\<lambda>x. x\<lparr>cx_socket := Some 1, cx_settings := default_settings,
     cx_window_size := w, cx_last_opened_stream_id := 1,
     cx_stream := null_stream\<lparr>st_id := 1, st_state := HTTP2_STREAM_HALF_CLOSED_REMOTE,
       st_window_size := w', st_buf := body @ replicate (HTTP2_STREAM_BUF_SIZE - length body) 0,
       st_buflen := length body, st_bufptr := Some 0\<rparr>\<rparr>) program_start"

lemma sending_ok:
  assumes "x = ctx_mem (sending body w w') 0" "length body \<le> HTTP2_STREAM_BUF_SIZE" "0 \<le> sint w"
  shows "context_ok x" "pending_ok x" "cx_socket x = Some 1" "unsent x = body"
    "sendable x = min (int (length body)) (min (sint w) (sint w'))"
  using assms
  by (simp_all add: sending_def upd_ctx_def program_start_def context_ok_def stream_ok_def settings_ok_def has_flag_def
      null_context_def null_stream_def default_settings_def pending_ok_def unsent_def sendable_def)

text \<open>
  A client has connected and a response of five bytes is to be sent while the window of the stream allows
  three: a frame with three bytes is queued.
\<close>

theorem flow_control_witness:
  "\<exists>s s' e buf q buf' q'. data_of (s :: two_state) e = Event_Write buf q \<and> http2_continue_send 0 s = Some s' \<and>
     unsent (ctx_mem s 0) = [1, 2, 3, 4, 5] \<and> unsent (ctx_mem s' 0) = [4, 5] \<and> data_of s' e = Event_Write buf' q' \<and>
     cbuf_contents buf' = cbuf_contents buf @ frame_octets (Data_Frame 1 False [1, 2, 3])"
proof -
  obtain s0 buf where s0: "two_server_start 8080 idle_env [client_arrives] program_start = Some (s0, None)" "reserved_socks s0 = [1, 0]"
    "sk_loop (sock_mem s0 1)" "sk_state (sock_mem s0 1) = EVENT_SOCK_CONNECTED"
    "event_find s0 (events_of s0 1) EVENT_WRITE_TYPE = Some (Some 2)" "data_of s0 2 = Event_Write buf None"
    "cb_len buf = 0" "cb_maxlen buf = 512" "cb_state buf = CBUF_OPEN" "lp_writes s0 = Some 0" using client_writable by blast
  obtain L where m0: "mem_rel cb_type {} Map.empty s0 L"
    using server_start_ok [OF s0(1)] by (auto simp: client_ok_def mem_ok_def program_start_def)
  have k: "1 \<in> set (l_socks L)" using s0(2) by (simp add: layout_eqs(1) [OF m0])
  define x where "x = ctx_mem (sending [1, 2, 3, 4, 5] 9 3) 0"
  define s where "s = upd_ctx 0 (\<lambda>_. x) s0"
  have mem: "memory s = memory s0" by (simp add: s_def upd_ctx_def memory_def)
  have m: "mem_rel cb_type {} Map.empty s L" using m0 by (simp add: mem_rel_memory [OF mem])
  have ks: "k = 1 \<Longrightarrow> k \<in> set (reserved_socks s)" for k using k by (simp add: layout_eqs(1) [OF m])
  have "in_use L 1 2" using find_in_use(1) [OF m0 k s0(5) refl] by blast
  then have e: "2 \<in> set (sock_events s 1)" by (simp add: layout_eqs(2) [OF m k] in_use_def del: One_nat_def)
  have s: "x = ctx_mem s 0" "sk_loop (sock_mem s 1)" "sk_state (sock_mem s 1) = EVENT_SOCK_CONNECTED"
    "data_of s 2 = Event_Write buf None" "lp_writes s = Some 0"
    using s0 by (simp_all add: s_def upd_ctx_def data_of_def)
  note ok = sending_ok [OF x_def]
  have n: "3 = nat (sendable x)" using ok(5) by (simp add: HTTP2_STREAM_BUF_SIZE_def)
  have un: "unsent x = [1, 2, 3, 4, 5]" by (rule ok(4)) (simp_all add: HTTP2_STREAM_BUF_SIZE_def)
  have id: "st_id (cx_stream x) = 1" "st_buflen (cx_stream x) = 5" by (simp_all add: x_def sending_def upd_ctx_def)
  have x: "context_ok x" "pending_ok x" "cx_socket x = Some 1" using ok(1-3) by (simp_all add: HTTP2_STREAM_BUF_SIZE_def)
  have mo: "mem_ok cb_type {} Map.empty s" using m by (auto simp: mem_ok_def)
  have room: "push_room buf (int (9 + 3)) = int (9 + 3)" using s0(7-9) by (simp add: push_room_def)
  from flow_control [OF s(1) n x mo ks [OF refl] s(2,3) e s(4,5) refl] room un id
  obtain s' buf' q' where "http2_continue_send 0 s = Some s'" "data_of s' 2 = Event_Write buf' q'"
    "cbuf_contents buf' = cbuf_contents buf @ frame_octets (Data_Frame 1 False [1, 2, 3])"
    "unsent (ctx_mem s' 0) = [4, 5]" by (auto simp del: frame_octets.simps)
  with s(4) un [unfolded s(1)] show ?thesis by blast
qed

subsection \<open>Credit from the peer\<close>

text \<open>Two values below \<open>2 ^ 31\<close> do not wrap around when they are added as \<open>uint32_t\<close>.\<close>

lemma no_bit_31: "\<not> bit v 31 \<Longrightarrow> v \<le> 0x7FFFFFFF" for v :: u32
proof -
  assume b: "\<not> bit v 31"
  have "bit v n \<Longrightarrow> n < 31" for n
    using b bit_imp_le_length [of v n] by (cases "n = 31") auto
  then have "v AND mask 31 = v" by (intro bit_eqI) (auto simp: bit_simps)
  then have "v \<le> mask 31" by (metis word_and_le1)
  then show ?thesis by (simp add: mask_numerals)
qed

lemma sint_nonneg: "0 \<le> sint w \<Longrightarrow> w \<le> 0x7FFFFFFF" for w :: u32
proof (rule no_bit_31)
  assume "0 \<le> sint w"
  then have "\<not> bit (uint w) 31" by (simp add: sint_uint flip: not_less)
  then show "\<not> bit w 31" by (simp add: bit_uint_iff)
qed

lemma u31_bound: "buffer_get_u31 d p = Some v \<Longrightarrow> v \<le> 0x7FFFFFFF"
proof (rule no_bit_31)
  assume "buffer_get_u31 d p = Some v"
  moreover have "\<not> bit b n" if "8 \<le> n" for b :: byte and n using bit_imp_le_length [of b n] that by auto
  ultimately show "\<not> bit v 31" by (auto simp: buffer_get_u31_def join32 bit_simps split: Option.bind_splits)
qed

lemma window_sum:
  fixes w inc :: u32
  assumes "0 \<le> sint w" "inc \<le> 0x7FFFFFFF"
  shows "w + inc > 0x7FFFFFFF \<longleftrightarrow> sint w + uint inc > 0x7FFFFFFF"
    "\<not> w + inc > 0x7FFFFFFF \<Longrightarrow> sint (w + inc) = sint w + uint inc"
proof -
  have w: "sint w = uint w" "uint w \<le> 0x7FFFFFFF" "uint inc \<le> 0x7FFFFFFF"
    using sint_nonneg [OF assms(1)] sint_small [OF sint_nonneg [OF assms(1)]] assms(2) by (simp_all add: word_le_def)
  then have sum: "uint (w + inc) = uint w + uint inc"
    by (simp add: uint_word_ariths)
  then show "w + inc > 0x7FFFFFFF \<longleftrightarrow> sint w + uint inc > 0x7FFFFFFF"
    by (simp add: word_less_def w(1))
  show "sint (w + inc) = sint w + uint inc" if "\<not> w + inc > 0x7FFFFFFF"
    using that sint_small [of "w + inc"] sum w(1) by simp
qed

text \<open>
  Claim C38. The window of a connection. With the invariant of the contexts, the test of the code in
  \<open>uint32_t\<close> is exact although the window is signed: a WINDOW_UPDATE for the connection is refused with
  \<open>FLOW_CONTROL_ERROR\<close> if and only if the sum exceeds \<open>2 ^ 31 - 1\<close>, an increment of 0 with
  \<open>PROTOCOL_ERROR\<close>, and otherwise the window grows by the increment and stays within its bounds.
\<close>

theorem connection_window_update:
  assumes "context_ok (ctx_mem s c)" "fh_length h = 4" "fh_stream_id h = 0" "buffer_get_u31 d p = Some inc"
  shows "handle_window_update_frame c h d p s =
      (if inc = 0 then error_return c HTTP2_PROTOCOL_ERROR s
       else if sint (cx_window_size (ctx_mem s c)) + uint inc > 2 ^ 31 - 1 then error_return c HTTP2_FLOW_CONTROL_ERROR s
       else Some (upd_ctx c (\<lambda>x. x\<lparr>cx_window_size := cx_window_size x + inc\<rparr>) s, 0)) \<and>
    (sint (cx_window_size (ctx_mem s c)) + uint inc \<le> 2 ^ 31 - 1 \<longrightarrow>
       sint (cx_window_size (ctx_mem s c) + inc) = sint (cx_window_size (ctx_mem s c)) + uint inc)"
proof -
  have "0 \<le> sint (cx_window_size (ctx_mem s c))" using assms(1) by (simp add: context_ok_def)
  note sum = window_sum [OF this u31_bound [OF assms(4)]]
  show ?thesis using assms(2-4) sum by (auto simp: handle_window_update_frame_def)
qed

theorem connection_window_update_witness:
  "handle_window_update_frame 0 \<lparr>fh_length = 4, fh_type = FRAME_WINDOW_UPDATE_TYPE, fh_flags = 0, fh_stream_id = 0\<rparr>
     [0x7F, 0xFF, 0xFF, 0xFE] 0 (sending [] 2 0) = error_return 0 HTTP2_FLOW_CONTROL_ERROR (sending [] 2 0)"
proof -
  have "context_ok (ctx_mem (sending [] 2 0) 0)" by (rule sending_ok(1) [OF refl]) simp_all
  moreover have "cx_window_size (ctx_mem (sending [] 2 0) 0) = 2" by (simp add: sending_def upd_ctx_def)
  moreover have "buffer_get_u31 [0x7F, 0xFF, 0xFF, 0xFE] 0 = Some 0x7FFFFFFE"
    by (simp add: buffer_get_u31_def rd_def)
  ultimately show ?thesis
    using connection_window_update [of "sending [] 2 0" 0 "\<lparr>fh_length = 4, fh_type = FRAME_WINDOW_UPDATE_TYPE,
      fh_flags = 0, fh_stream_id = 0\<rparr>" "[0x7F, 0xFF, 0xFF, 0xFE]" 0 "0x7FFFFFFE"] by simp
qed

subsection \<open>Stream windows\<close>

text \<open>
  The window of a stream may legally be negative after a SETTINGS frame. The unsigned test then takes every
  increment that leaves it negative for an overflow, and the stream is reset.
\<close>

lemma negative_stream_window_reset:
  "handle_window_update_frame 0 \<lparr>fh_length = 4, fh_type = FRAME_WINDOW_UPDATE_TYPE, fh_flags = 0, fh_stream_id = 1\<rparr>
     [0, 0, 0, 1] 0 (sending [] 2 (- 10)) = do {
       s \<leftarrow> http2_stream_error 0 1 HTTP2_FLOW_CONTROL_ERROR (sending [] 2 (- 10));
       Some (s, - 1)
     }"
  by (simp add: handle_window_update_frame_def buffer_get_u31_def rd_def sending_def upd_ctx_def)

text \<open>
  A WINDOW_UPDATE for an earlier stream is added to the window of the current one: the identifier is only
  required not to exceed the last one.
\<close>

lemma earlier_stream_credits_current:
  assumes "fh_length h = 4" "fh_stream_id h \<noteq> 0" "fh_stream_id h < st_id (cx_stream (ctx_mem s c))"
    "st_id (cx_stream (ctx_mem s c)) = cx_last_opened_stream_id (ctx_mem s c)"
    "buffer_get_u31 d p = Some inc" "inc \<noteq> 0" "st_window_size (cx_stream (ctx_mem s c)) + inc \<le> 0x7FFFFFFF"
  shows "handle_window_update_frame c h d p s = do {
     s \<leftarrow> http2_continue_send c (upd_stream c (\<lambda>x. x\<lparr>st_window_size := st_window_size x + inc\<rparr>) s);
     Some (s, 0)
   }"
  using assms by (auto simp: handle_window_update_frame_def)

end
