(* ===== verification/Settings.thy ===== *)
theory Settings
  imports Http2_Invariant
begin

text \<open>
  SETTINGS frames (RFC 7540, section 6.5): \<open>update_settings\<close> and \<open>handle_settings_frame\<close> of \<open>src/src/http2.c\<close>
  against a function on lists of parameters, and that they read what \<open>send_settings_frame\<close> writes.
\<close>

subsection \<open>Parameters as a list\<close>

type_synonym param = "u16 \<times> u32"

text \<open>The values that RFC 7540 forbids, with the error that answers them.\<close>

fun param_error :: "param \<Rightarrow> http2_error_code option" where
  "param_error (i, v) =
     (if i = 2 \<and> v \<noteq> 0 \<and> v \<noteq> 1 then Some HTTP2_PROTOCOL_ERROR
      else if i = 4 \<and> v > 0x7FFFFFFF then Some HTTP2_FLOW_CONTROL_ERROR
      else if i = 5 \<and> (v < 0x4000 \<or> v > 0xFFFFFF) then Some HTTP2_PROTOCOL_ERROR
      else None)"

definition known_param :: "param \<Rightarrow> bool" where
  "known_param q \<longleftrightarrow> fst q \<in> {1, 2, 3, 4, 5, 6}"

definition stream_active :: "http2_context \<Rightarrow> bool" where
  "stream_active x \<longleftrightarrow> st_state (cx_stream x) = HTTP2_STREAM_OPEN \<or>
     st_state (cx_stream x) = HTTP2_STREAM_HALF_CLOSED_REMOTE"

fun set_param :: "param \<Rightarrow> http2_settings \<Rightarrow> http2_settings" where
  "set_param (i, v) t =
     (if i = 1 then t\<lparr>header_table_size := v\<rparr> else if i = 2 then t\<lparr>enable_push := v\<rparr>
      else if i = 3 then t\<lparr>max_concurrent_streams := v\<rparr> else if i = 4 then t\<lparr>initial_window_size := v\<rparr>
      else if i = 5 then t\<lparr>max_frame_size := v\<rparr> else if i = 6 then t\<lparr>max_header_list_size := v\<rparr> else t)"

text \<open>
  The effect on a context: the table of HPACK follows the first parameter up to its capacity, and the
  window of an active stream moves by as much as the initial window.
\<close>

definition new_table :: "u32 \<Rightarrow> hpack_dynamic_table \<Rightarrow> hpack_dynamic_table" where
  "new_table v t = the (hpack_dynamic_change_max_size t (min (of_nat HTTP2_HEADER_TABLE_SIZE) v))"

fun apply_param :: "param \<Rightarrow> http2_context \<Rightarrow> http2_context" where
  "apply_param (i, v) x = x\<lparr>cx_stream := (if i = 4 \<and> stream_active x
       then (cx_stream x)\<lparr>st_window_size := st_window_size (cx_stream x) + (v - initial_window_size (cx_settings x))\<rparr>
       else cx_stream x),
     cx_settings := set_param (i, v) (cx_settings x),
     cx_hpack_dynamic_table := (if i = 1 then new_table v (cx_hpack_dynamic_table x) else cx_hpack_dynamic_table x)\<rparr>"

text \<open>\<open>Inl\<close> the context and the number of known parameters, or \<open>Inr\<close> the error at the first forbidden value.\<close>

fun apply_params :: "param list \<Rightarrow> http2_context \<Rightarrow> http2_context \<times> nat + http2_context \<times> http2_error_code" where
  "apply_params [] x = Inl (x, 0)"
| "apply_params (q # qs) x =
     (case param_error q of
        Some e \<Rightarrow> Inr (x, e)
      | None \<Rightarrow> (case apply_params qs (apply_param q x) of
                  Inl (x', n) \<Rightarrow> Inl (x', (if known_param q then 1 else 0) + n)
                | Inr r \<Rightarrow> Inr r))"

text \<open>The window of an active stream must not overflow \<open>int32_t\<close>, which is undefined in C.\<close>

fun params_fit :: "param list \<Rightarrow> http2_context \<Rightarrow> bool" where
  "params_fit [] x = True"
| "params_fit ((i, v) # qs) x \<longleftrightarrow>
     (i = 4 \<and> stream_active x \<longrightarrow>
        (let sum = sint (st_window_size (cx_stream x)) + sint (v - initial_window_size (cx_settings x))
         in - (2 ^ 31) \<le> sum \<and> sum < 2 ^ 31)) \<and> params_fit qs (apply_param (i, v) x)"

lemma params_fit_idle: "\<not> stream_active x \<Longrightarrow> params_fit qs x"
proof (induction qs arbitrary: x)
  case (Cons q qs)
  obtain i v where q: "q = (i, v)" by (cases q)
  have "\<not> stream_active (apply_param (i, v) x)" using Cons.prems by (simp add: stream_active_def)
  with Cons show ?case by (simp add: q)
qed simp

definition param_octets :: "param list \<Rightarrow> byte list" where
  "param_octets qs = concat (map (\<lambda>(i, v). be16 i @ be32 v) qs)"

lemma length_param_octets [simp]: "length (param_octets qs) = 6 * length qs"
  by (induction qs) (auto simp: param_octets_def)

subsection \<open>The code against the list\<close>

lemma read_setting_at:
  assumes "take 6 (drop p d) = be16 i @ be32 v"
  shows "read_setting d p = Some (i, v)"
proof -
  have "length (take 6 (drop p d)) = 6" unfolding assms by simp
  then have l: "p + 6 \<le> length d" by simp
  have "rd d (p + k) = Some ((be16 i @ be32 v) ! k)" if "k < 6" for k
  proof -
    have "d ! (p + k) = take 6 (drop p d) ! k" using that l by simp
    with that l show ?thesis by (simp add: rd_def assms)
  qed
  from this [of 0] this [of 1] this [of 2] this [of 3] this [of 4] this [of 5]
  have r: "rd d p = Some (ucast (drop_bit 8 i))" "rd d (p + 1) = Some (ucast i)" "rd d (p + 2) = Some (ucast (drop_bit 24 v))"
    "rd d (p + 3) = Some (ucast (drop_bit 16 v))" "rd d (p + 4) = Some (ucast (drop_bit 8 v))" "rd d (p + 5) = Some (ucast v)"
    by (simp_all add: be16_def be32_def)
  have "push_bit 8 (ucast (ucast (drop_bit 8 i) :: byte)) OR ucast (ucast i :: byte) = i"
  proof (rule bit_eqI)
    fix n
    show "bit (push_bit 8 (ucast (ucast (drop_bit 8 i) :: byte)) OR ucast (ucast i :: byte) :: u16) n = bit i n"
      using bit_imp_le_length [of i n] by (cases "n < 8") (auto simp: bit_simps)
  qed
  moreover have "push_bit 24 (ucast (ucast (drop_bit 24 v) :: byte)) OR push_bit 16 (ucast (ucast (drop_bit 16 v) :: byte)) OR
      push_bit 8 (ucast (ucast (drop_bit 8 v) :: byte)) OR ucast (ucast v :: byte) = v"
    by (rule word_of_bytes_eqI) (auto simp: bit_simps)
  ultimately show ?thesis using r by (simp add: read_setting_def)
qed

lemma change_table_Some:
  assumes "table_rel t a" "length (dt_buffer t) = HPACK_MAX_DYNAMIC_TABLE_SIZE"
  shows "hpack_dynamic_change_max_size t (min (of_nat HTTP2_HEADER_TABLE_SIZE) v) = Some (new_table v t)"
    "length (dt_buffer (new_table v t)) = HPACK_MAX_DYNAMIC_TABLE_SIZE" "\<exists>a'. table_rel (new_table v t) a'"
proof -
  let ?m = "min (of_nat HTTP2_HEADER_TABLE_SIZE) v :: u32"
  obtain M S es where a: "a = (M, S, es)" by (cases a)
  obtain t' where t': "hpack_dynamic_change_max_size t ?m = Some t'"
    "length (dt_buffer t') = HPACK_MAX_DYNAMIC_TABLE_SIZE" "\<exists>a'. table_rel t' a'"
    using change_max_size_resizes [OF assms [unfolded a], of ?m] by blast
  then show "hpack_dynamic_change_max_size t ?m = Some (new_table v t)"
    "length (dt_buffer (new_table v t)) = HPACK_MAX_DYNAMIC_TABLE_SIZE" "\<exists>a'. table_rel (new_table v t) a'"
    by (simp_all add: new_table_def)
qed

definition table_ok :: "http2_context \<Rightarrow> bool" where
  "table_ok x \<longleftrightarrow> (\<exists>a. table_rel (cx_hpack_dynamic_table x) a) \<and>
     length (dt_buffer (cx_hpack_dynamic_table x)) = HPACK_MAX_DYNAMIC_TABLE_SIZE"

lemma apply_param_table: "table_ok x \<Longrightarrow> table_ok (apply_param q x)"
  using change_table_Some(2,3) [of "cx_hpack_dynamic_table x"] by (cases q) (auto simp: table_ok_def)

lemma sum_in_range: "0 < n \<Longrightarrow> n < 2 ^ 31 \<Longrightarrow> \<not> (word_of_int n :: u32) > 0x7FFFFFFF"
  by (simp add: word_less_def uint_word_of_int)

text \<open>One round of the loop.\<close>

lemma update_setting_correct:
  assumes "table_ok (ctx_mem s c)" "params_fit [(i, v)] (ctx_mem s c)"
  shows "update_setting c i v s =
    (case param_error (i, v) of
       Some e \<Rightarrow> do { s \<leftarrow> http2_error c e s; Some (s, None) }
     | None \<Rightarrow> Some (upd_ctx c (apply_param (i, v)) s, Some (if known_param (i, v) then 1 else 0)))"
proof -
  obtain a where a: "table_rel (cx_hpack_dynamic_table (ctx_mem s c)) a" using assms(1) by (auto simp: table_ok_def)
  have t: "hpack_dynamic_change_max_size (cx_hpack_dynamic_table (ctx_mem s c)) (min (of_nat HTTP2_HEADER_TABLE_SIZE) v) =
      Some (new_table v (cx_hpack_dynamic_table (ctx_mem s c)))"
    using change_table_Some(1) [OF a] assms(1) by (simp add: table_ok_def)
  consider "i = 1" | "i = 2" | "i = 3" | "i = 4" | "i = 5" | "i = 6" | "i \<notin> {1, 2, 3, 4, 5, 6}" by blast
  then show ?thesis
  proof cases
    case 4
    define sum where "sum = sint (st_window_size (cx_stream (ctx_mem s c))) +
      sint (v - initial_window_size (cx_settings (ctx_mem s c)))"
    have fit: "- (2 ^ 31) \<le> sum \<and> sum < 2 ^ 31" if "stream_active (ctx_mem s c)"
      using assms(2) 4 that by (simp add: sum_def Let_def)
    have i: "update_setting c i v s = update_initial_window c v s" using 4 by (simp add: update_setting_def)
    show ?thesis
    proof (cases "v > 0x7FFFFFFF \<or> \<not> stream_active (ctx_mem s c)")
      case True
      then show ?thesis unfolding i
        by (auto simp: update_initial_window_def error_stop_def known_param_def setting_field_def upd_ctx_def
            stream_active_def 4)
    next
      case False
      then have g: "\<not> (sum > 0 \<and> (word_of_int sum :: u32) > 0x7FFFFFFF)" "- 2147483648 \<le> sum" "sum < 2147483648"
        using fit sum_in_range [of sum] by auto
      have "update_initial_window c v s = Some (upd_ctx c (apply_param (i, v)) s, Some 1)"
        using False unfolding update_initial_window_def sum_def [symmetric] Let_def
        by (simp add: g stream_active_def setting_field_def upd_ctx_def upd_stream_def 4)
      then show ?thesis unfolding i using False by (simp add: 4 known_param_def)
    qed
  qed (use t in \<open>simp_all add: update_setting_def error_stop_def known_param_def setting_field_def upd_ctx_def\<close>)
qed

lemma update_settings_loop_correct:
  assumes "take (6 * length qs) (drop (p + j) d) = param_octets qs" "p + j + 6 * length qs \<le> length d"
    "table_ok (ctx_mem s c)" "params_fit qs (ctx_mem s c)" "len = j + 6 * length qs"
  shows "update_settings_loop c d p len j tot s =
    (case apply_params qs (ctx_mem s c) of
       Inl (x, n) \<Rightarrow> Some (upd_ctx c (\<lambda>_. x) s, int (tot + n))
     | Inr (x, e) \<Rightarrow> do { s \<leftarrow> http2_error c e (upd_ctx c (\<lambda>_. x) s); Some (s, 0) })"
  using assms
proof (induction qs arbitrary: j tot s)
  case Nil
  then show ?case by (subst update_settings_loop.simps) (simp add: upd_ctx_def)
next
  case (Cons q qs)
  obtain i v where q: "q = (i, v)" by (cases q)
  have oct: "take 6 (drop (p + j) d) = be16 i @ be32 v" "take (6 * length qs) (drop (p + (j + 6)) d) = param_octets qs"
    using arg_cong [OF Cons.prems(1), of "take 6"] arg_cong [OF Cons.prems(1), of "drop 6"]
    by (simp_all add: q param_octets_def drop_take min_def ac_simps)
  have fit: "params_fit [(i, v)] (ctx_mem s c)" "params_fit qs (apply_param (i, v) (ctx_mem s c))"
    using Cons.prems(4) by (simp_all add: q)
  note step = update_setting_correct [OF Cons.prems(3) fit(1)]
  let ?s = "upd_ctx c (apply_param (i, v)) s"
  have x: "ctx_mem ?s c = apply_param (i, v) (ctx_mem s c)" by (simp del: apply_param.simps)
  have "upd_ctx c (\<lambda>_. y) ?s = upd_ctx c (\<lambda>_. y) s" for y by (simp add: upd_ctx_def del: apply_param.simps)
  moreover have "update_settings_loop c d p len (j + 6) (tot + n) ?s =
    (case apply_params qs (apply_param (i, v) (ctx_mem s c)) of
       Inl (x, m) \<Rightarrow> Some (upd_ctx c (\<lambda>_. x) ?s, int (tot + n + m))
     | Inr (x, e) \<Rightarrow> do { s \<leftarrow> http2_error c e (upd_ctx c (\<lambda>_. x) ?s); Some (s, 0) })" for n
    using Cons.IH [of "j + 6" ?s "tot + n"] oct(2) Cons.prems(2,5) apply_param_table [OF Cons.prems(3)] fit(2)
    unfolding x by (simp del: apply_param.simps)
  moreover have "upd_ctx c (\<lambda>_. ctx_mem s c) s = s" by (simp add: upd_ctx_def)
  moreover have "j < len" using Cons.prems(5) by simp
  ultimately show ?case
    using read_setting_at [OF oct(1)] step
    by (subst update_settings_loop.simps)
      (auto simp: q add.assoc simp del: apply_param.simps split: option.split sum.split prod.split Option.bind_split)
qed

lemma apply_params_frame:
  "apply_params qs x = Inl (y, n) \<Longrightarrow> cx_socket y = cx_socket x \<and> cx_flags y = cx_flags x \<and> cx_state y = cx_state x \<and>
     st_state (cx_stream y) = st_state (cx_stream x)"
proof (induction qs arbitrary: x y n)
  case (Cons q qs)
  obtain m where "apply_params qs (apply_param q x) = Inl (y, m)"
    using Cons.prems by (auto split: option.splits sum.splits)
  from Cons.IH [OF this] show ?case by (cases q) simp
qed simp

lemma settings_frame_correct:
  assumes "fh_stream_id h = 0" "\<not> has_flag (fh_flags h) FRAME_FLAGS_ACK" "unat (fh_length h) = 6 * length qs"
    and "take (6 * length qs) (drop p d) = param_octets qs" "p + 6 * length qs \<le> length d"
    and "table_ok (ctx_mem s c)" "params_fit qs (ctx_mem s c)" "cx_socket (ctx_mem s c) = Some k"
  shows "handle_settings_frame c h d p s =
    (case apply_params qs (ctx_mem s c) of
       Inl (x, n) \<Rightarrow>
         if n > 0 then do {
           (s, _) \<leftarrow> send_octets k (frame_octets Settings_Ack_Frame) Close_On_Write_Error (upd_ctx c (\<lambda>_. x) s);
           Some (s, 0)
         }
         else Some (upd_ctx c (\<lambda>_. x) s, 0)
     | Inr (x, e) \<Rightarrow> do { s \<leftarrow> http2_error c e (upd_ctx c (\<lambda>_. x) s); Some (s, 0) })"
proof -
  note loop = update_settings_loop_correct [of qs p 0 d s c "6 * length qs" 0, simplified, OF assms(4-7)]
  have ack: "send_settings_frame k True [] Close_On_Write_Error t =
      send_octets k (frame_octets Settings_Ack_Frame) Close_On_Write_Error t" for t :: "'a http2_state_scheme"
    using send_settings_correct [of True "[]"] by simp
  show ?thesis
  proof (cases "apply_params qs (ctx_mem s c)")
    case (Inl r)
    obtain x n where r: "r = (x, n)" by (cases r)
    have "cx_socket x = Some k" using apply_params_frame [OF Inl [unfolded r]] assms(8) by simp
    then show ?thesis using assms(1-3) loop Inl
      by (simp add: handle_settings_frame_def update_settings_def r ack)
  next
    case (Inr r)
    obtain x e where r: "r = (x, e)" by (cases r)
    show ?thesis using assms(1-3) loop Inr
      by (cases "http2_error c e (upd_ctx c (\<lambda>_. x) s)") (simp_all add: handle_settings_frame_def update_settings_def r)
  qed
qed


text \<open>A connection that has just been accepted.\<close>

definition peer :: two_state where
  "peer = upd_ctx 0 (\<lambda>_. accepted_context 0 1
     (null_table\<lparr>dt_settings_max_table_size := 4096, dt_max_size := 4096\<rparr>)) program_start"

lemma peer_ok: "table_ok (ctx_mem peer 0)" "cx_socket (ctx_mem peer 0) = Some 1" "\<not> stream_active (ctx_mem peer 0)"
proof -
  have "table_rel (null_table\<lparr>dt_settings_max_table_size := 4096, dt_max_size := 4096\<rparr>) (4096, 4096, [])"
    by (simp add: null_table_def dt_rel_def HPACK_MAX_DYNAMIC_TABLE_SIZE_def)
  moreover have "length (dt_buffer null_table) = HPACK_MAX_DYNAMIC_TABLE_SIZE" by (simp add: null_table_def)
  ultimately show "table_ok (ctx_mem peer 0)" by (auto simp: peer_def accepted_context_def table_ok_def)
qed (simp_all add: peer_def accepted_context_def stream_active_def null_context_def null_stream_def)


subsection \<open>What one side sends, the other reads\<close>

lemma apply_six:
  assumes "b \<in> {0, 1}" "d \<le> 0x7FFFFFFF" "0x4000 \<le> e" "e \<le> 0xFFFFFF" "\<not> stream_active x"
  obtains y where "apply_params (zip [1, 2, 3, 4, 5, 6] [a, b, c, d, e, f]) x = Inl (y, 6)"
    "y = x\<lparr>cx_settings := \<lparr>header_table_size = a, enable_push = b, max_concurrent_streams = c,
       initial_window_size = d, max_frame_size = e, max_header_list_size = f\<rparr>,
     cx_hpack_dynamic_table := new_table a (cx_hpack_dynamic_table x)\<rparr>"
  using assms that by (auto simp: known_param_def stream_active_def not_less)

text \<open>
  Claim C36. Round trip of settings. Let \<open>vals\<close> be six legal values. What \<open>send_settings_frame\<close> queues for them
  is a frame that, wherever it arrives in the read buffer of a connection without an active stream,
  \<open>frame_parse_header\<close> recognises as a SETTINGS frame and \<open>handle_settings_frame\<close> turns into exactly these
  settings of the peer, followed by an acknowledgement.
\<close>

theorem settings_roundtrip:
  assumes "b \<in> {0, 1}" "d \<le> 0x7FFFFFFF" "0x4000 \<le> e" "e \<le> 0xFFFFFF" "vals = [a, b, c, d, e, f]"
    and "table_ok (ctx_mem s ctx)" "\<not> stream_active (ctx_mem s ctx)" "cx_socket (ctx_mem s ctx) = Some k"
  shows "\<exists>octets h t. (\<forall>sock cb s'. send_settings_frame sock False vals cb s' = send_octets sock octets cb (s' :: 'z http2_state_scheme)) \<and>
    frame_parse_header (pre @ octets @ post) (length pre) 9 = Some h \<and> fh_type h = FRAME_SETTINGS_TYPE \<and>
    length octets = 9 + unat (fh_length h) \<and>
    handle_settings_frame ctx h (pre @ octets @ post) (length pre + 9) s = do {
      (s, _) \<leftarrow> send_octets k (frame_octets Settings_Ack_Frame) Close_On_Write_Error
        (upd_ctx ctx (\<lambda>x. x\<lparr>cx_settings := \<lparr>header_table_size = a, enable_push = b, max_concurrent_streams = c,
           initial_window_size = d, max_frame_size = e, max_header_list_size = f\<rparr>, cx_hpack_dynamic_table := t\<rparr>) s);
      Some (s, 0)
    }"
proof -
  define qs where "qs = zip [1, 2, 3, 4, 5, 6 :: u16] vals"
  define octets where "octets = frame_octets (Settings_Frame qs)"
  let ?m = "pre @ octets @ post" and ?h = "mk_header 36 FRAME_SETTINGS_TYPE 0 0"
  have qs: "length qs = 6" using assms(5) by (simp add: qs_def)
  have o: "octets = header_octets 36 FRAME_SETTINGS_TYPE 0 0 @ param_octets qs"
    using length_param_octets [of qs] qs by (simp add: octets_def with_header_def param_octets_def)
  have send: "send_settings_frame sock False vals cb s' = send_octets sock octets cb s'" for sock cb and s' :: "'z http2_state_scheme"
    using send_settings_correct [of False vals sock cb s'] assms(5) by (simp add: octets_def qs_def)
  have parse: "frame_parse_header ?m (length pre) 9 = Some ?h"
    by (rule parse_octets) (simp_all add: o)
  have h: "fh_stream_id ?h = 0" "\<not> has_flag (fh_flags ?h) FRAME_FLAGS_ACK" "unat (fh_length ?h) = 6 * length qs"
    by (simp_all add: mk_header_def has_flag_def qs)
  have p: "take (6 * length qs) (drop (length pre + 9) ?m) = param_octets qs" "length pre + 9 + 6 * length qs \<le> length ?m"
    by (simp_all add: o)
  obtain y where y: "apply_params qs (ctx_mem s ctx) = Inl (y, 6)" "y = (ctx_mem s ctx)\<lparr>cx_settings :=
       \<lparr>header_table_size = a, enable_push = b, max_concurrent_streams = c, initial_window_size = d, max_frame_size = e,
        max_header_list_size = f\<rparr>, cx_hpack_dynamic_table := new_table a (cx_hpack_dynamic_table (ctx_mem s ctx))\<rparr>"
    using apply_six [OF assms(1-4,7)] unfolding qs_def assms(5) by blast
  have "handle_settings_frame ctx ?h ?m (length pre + 9) s = do {
      (s, _) \<leftarrow> send_octets k (frame_octets Settings_Ack_Frame) Close_On_Write_Error (upd_ctx ctx (\<lambda>_. y) s);
      Some (s, 0)
    }"
    using settings_frame_correct [OF h p assms(6) params_fit_idle [OF assms(7)] assms(8)] by (simp add: y(1))
  then show ?thesis
    using send parse h(3) length_param_octets [of qs]
    by (intro exI [of _ octets] exI [of _ ?h] exI [of _ "new_table a (cx_hpack_dynamic_table (ctx_mem s ctx))"])
      (simp add: y(2) upd_ctx_def mk_header_def o)
qed

theorem settings_roundtrip_witness:
  "\<exists>octets h t. (\<forall>sock cb s'. send_settings_frame sock False local_settings cb s' = send_octets sock octets cb (s' :: two_state)) \<and>
    frame_parse_header ([] @ octets @ []) 0 9 = Some h \<and>
    handle_settings_frame 0 h ([] @ octets @ []) 9 peer = do {
      (s, _) \<leftarrow> send_octets 1 (frame_octets Settings_Ack_Frame) Close_On_Write_Error
        (upd_ctx 0 (\<lambda>x. x\<lparr>cx_settings := \<lparr>header_table_size = 4096, enable_push = 0, max_concurrent_streams = 1,
           initial_window_size = 512, max_frame_size = 16384, max_header_list_size = 512\<rparr>, cx_hpack_dynamic_table := t\<rparr>) peer);
      Some (s, 0)
    }"
proof -
  have l: "local_settings = [4096, 0, 1, 512, 16384, 512]"
    by (simp add: local_settings_def HTTP2_HEADER_TABLE_SIZE_def HTTP2_ENABLE_PUSH_def HTTP2_MAX_CONCURRENT_STREAMS_def
        HTTP2_INITIAL_WINDOW_SIZE_def HTTP2_MAX_FRAME_SIZE_def HTTP2_MAX_HEADER_LIST_SIZE_def)
  show ?thesis
    using settings_roundtrip [of 0 512 16384 local_settings 4096 1 512 peer 0 1 "[]" "[]"] l peer_ok
    by (simp del: ctx_mem_upd) blast
qed

end
