(* ===== verification/Receiving.thy ===== *)
theory Receiving
  imports Http2_Invariant
begin

text \<open>
  What the server does with the bytes it has received: \<open>waiting_for_preface\<close> and \<open>receiving\<close> of
  \<open>src/src/http2.c\<close>. The loop of \<open>receiving\<close> is compared with a function on the list of frames that the
  bytes consist of.
\<close>

subsection \<open>The frames in the buffer\<close>

text \<open>A frame as it is received: its header and its payload.\<close>

type_synonym raw_frame = "frame_header \<times> byte list"

definition raw_octets :: "raw_frame \<Rightarrow> byte list" where
  "raw_octets = (\<lambda>(h, d). header_octets (fh_length h) (fh_type h) (fh_flags h) (fh_stream_id h) @ d)"

definition frame_ok :: "raw_frame \<Rightarrow> bool" where
  "frame_ok = (\<lambda>(h, d). length d = unat (fh_length h) \<and> unat (fh_length h) \<le> HTTP2_SOCK_READ_SIZE \<and>
     unat (fh_stream_id h) < 2 ^ 31)"

text \<open>
  The frames are handled one after the other, \<open>p\<close> being the position of the first one. Inside a header block
  only a CONTINUATION is allowed. An error ends the processing.
\<close>

fun run_frames :: "nat \<Rightarrow> byte list \<Rightarrow> raw_frame list \<Rightarrow> nat \<Rightarrow> 'z http2_state_scheme \<Rightarrow>
    ('z http2_state_scheme \<times> nat \<times> bool) option" where
  "run_frames ctx buf [] p s = Some (s, p, True)"
| "run_frames ctx buf ((h, d) # fs) p s =
     (if has_flag (cx_flags (ctx_mem s ctx)) HTTP2_FLAGS_WAITING_END_HEADERS \<and> fh_type h \<noteq> FRAME_CONTINUATION_TYPE
      then do { s \<leftarrow> http2_error ctx HTTP2_PROTOCOL_ERROR s; Some (s, p + 9, False) }
      else do {
        (s, rc) \<leftarrow> handle_frame ctx h buf (p + 9) s;
        if rc < 0 then Some (s, p + 9 + length d, False) else run_frames ctx buf fs (p + 9 + length d) s
      })"

text \<open>What is left behind the complete frames: the beginning of a frame, or one that is too large.\<close>

definition at_rest :: "nat \<Rightarrow> byte list \<Rightarrow> nat \<Rightarrow> 'z http2_state_scheme \<Rightarrow> ('z http2_state_scheme \<times> nat) option" where
  "at_rest ctx rest p s =
     (if length rest < 9 then Some (s, p)
      else do {
        h \<leftarrow> frame_parse_header rest 0 9;
        if unat (fh_length h) > HTTP2_MAX_FRAME_SIZE
        then do { s \<leftarrow> http2_error ctx HTTP2_FRAME_SIZE_ERROR s; Some (s, p) }
        else if unat (fh_length h) > HTTP2_SOCK_READ_SIZE
        then do { s \<leftarrow> http2_error ctx HTTP2_FLOW_CONTROL_ERROR s; Some (s, p) }
        else Some (s, p)
      })"

definition incomplete :: "byte list \<Rightarrow> bool" where
  "incomplete rest \<longleftrightarrow> length rest < 9 \<or>
     (\<exists>h. frame_parse_header rest 0 9 = Some h \<and>
        (length rest < 9 + unat (fh_length h) \<or> unat (fh_length h) > HTTP2_SOCK_READ_SIZE))"

lemma parse_shift: "frame_parse_header (pre @ rest) (length pre) n = frame_parse_header rest 0 n"
proof -
  have shift: "rd (pre @ rest) (length pre + k) = rd rest k" "rd (pre @ rest) (length pre) = rd rest 0" for k
    by (auto simp: rd_def nth_append)
  show ?thesis by (simp only: frame_parse_header_def buffer_get_defs add.assoc shift add_0)
qed

lemma parse_raw:
  assumes "frame_ok (h, d)"
  shows "frame_parse_header (raw_octets (h, d) @ rest) 0 9 = Some h"
proof -
  have "take_bit 24 (fh_length h) = fh_length h" "take_bit 31 (fh_stream_id h) = fh_stream_id h"
    using assms by (simp_all only: frame_ok_def prod.case word_unat_eq_iff unsigned_take_bit_eq)
      (auto intro!: take_bit_nat_eq_self simp: HTTP2_SOCK_READ_SIZE_def HTTP2_INITIAL_WINDOW_SIZE_def)
  moreover have "frame_parse_header (raw_octets (h, d) @ rest) 0 9 =
      Some (mk_header (fh_length h) (fh_type h) (fh_flags h) (fh_stream_id h))"
    by (rule parse_octets) (simp_all add: raw_octets_def)
  ultimately show ?thesis by (simp add: mk_header_def)
qed

lemma parse_within:
  assumes "buf = pre @ rest"
  shows "frame_parse_header buf (length pre) 9 = frame_parse_header rest 0 9"
  unfolding assms by (rule parse_shift)

lemma receiving_loop_rest:
  assumes "buf = pre @ rest" "incomplete rest" "p = length pre"
  shows "receiving_loop ctx buf p (length rest) s = at_rest ctx rest p s"
proof -
  have "frame_parse_header buf p 9 = frame_parse_header rest 0 9" using parse_within assms(1,3) by blast
  then show ?thesis using assms(2)
    by (subst receiving_loop.simps)
      (auto simp: at_rest_def incomplete_def Let_def HTTP2_MAX_FRAME_SIZE_def HTTP2_SOCK_READ_SIZE_def
        HTTP2_INITIAL_WINDOW_SIZE_def split: Option.bind_split)
qed

lemma receiving_loop_frames:
  fixes s :: "'z http2_state_scheme"
  assumes "buf = pre @ concat (map raw_octets fs) @ rest" "list_all frame_ok fs" "incomplete rest"
    "p = length pre" "n = length (concat (map raw_octets fs)) + length rest"
  shows "receiving_loop ctx buf p n s = do {
      (s, q, all) \<leftarrow> run_frames ctx buf fs p s;
      if all then at_rest ctx rest q s else Some (s, q)
    }"
  using assms
proof (induction fs arbitrary: pre p n s)
  case Nil
  then show ?case using receiving_loop_rest [of buf pre rest p ctx s] by simp
next
  case (Cons f fs)
  obtain h d where f: "f = (h, d)" by (cases f)
  let ?rest = "concat (map raw_octets fs) @ rest"
  have ok: "frame_ok (h, d)" using Cons.prems(2) by (simp add: f)
  then have len: "length d = unat (fh_length h)" "\<not> unat (fh_length h) > HTTP2_SOCK_READ_SIZE"
    "\<not> unat (fh_length h) > HTTP2_MAX_FRAME_SIZE"
    by (auto simp: frame_ok_def HTTP2_SOCK_READ_SIZE_def HTTP2_MAX_FRAME_SIZE_def HTTP2_INITIAL_WINDOW_SIZE_def)
  have l: "length (raw_octets (h, d)) = 9 + length d" by (simp add: raw_octets_def)
  have "frame_parse_header buf p 9 = Some h"
    using parse_within [of buf pre "raw_octets (h, d) @ ?rest"] parse_raw [OF ok] Cons.prems(1,4) by (simp add: f)
  moreover have n: "n = 9 + length d + length ?rest" using Cons.prems(5) l by (simp add: f)
  moreover have "receiving_loop ctx buf (p + 9 + length d) (length ?rest) s' = do {
      (s, q, all) \<leftarrow> run_frames ctx buf fs (p + 9 + length d) s';
      if all then at_rest ctx rest q s else Some (s, q)
    }" for s' :: "'z http2_state_scheme"
    by (rule Cons.IH [of "pre @ raw_octets (h, d)"]) (use Cons.prems l f in simp_all)
  ultimately show ?case
    using len
    by (subst receiving_loop.simps) (auto simp: f Let_def add.assoc split: Option.bind_split)
qed

text \<open>
  Claim C34. The loop over the received bytes. Let the buffer hold complete frames of at most 512 bytes
  followed by an incomplete one or by the header of a larger one. Then \<open>receiving\<close> hands exactly these frames
  to their handlers, in order and each once, until a handler reports an error; inside a header block
  anything but a CONTINUATION is a \<open>PROTOCOL_ERROR\<close>. The incomplete frame is left in the buffer for the next
  call, and a frame that can never fit ends the connection with \<open>FRAME_SIZE_ERROR\<close> or
  \<open>FLOW_CONTROL_ERROR\<close>.
\<close>

theorem receiving_handles_frames:
  assumes "list_all frame_ok fs" "incomplete rest" "buf = concat (map raw_octets fs) @ rest" "buf \<noteq> []"
    and "context_of sock s = Some ctx"
  shows "receiving sock (int (length buf)) buf s = do {
      (s, q, all) \<leftarrow> run_frames ctx buf fs 0 s;
      (s, q) \<leftarrow> (if all then at_rest ctx rest q s else Some (s, q));
      Some (s, int q)
    }"
proof -
  have "receiving_loop ctx buf 0 (length buf) s = do {
      (s, q, all) \<leftarrow> run_frames ctx buf fs 0 s;
      if all then at_rest ctx rest q s else Some (s, q)
    }"
    by (rule receiving_loop_frames [of buf "[]"]) (use assms in simp_all)
  moreover have "\<not> int (length buf) \<le> 0" using assms(4) by simp
  ultimately have "receiving sock (int (length buf)) buf s = do {
      (s, q) \<leftarrow> do { (s, q, all) \<leftarrow> run_frames ctx buf fs 0 s; if all then at_rest ctx rest q s else Some (s, q) };
      Some (s, int q)
    }"
    using assms(5) by (simp only: receiving_def bind.bind_lunit if_False nat_int)
  then show ?thesis by (cases "run_frames ctx buf fs 0 s") auto
qed

text \<open>Two PRIORITY frames, which are ignored, and the beginning of a third frame.\<close>

definition with_client :: two_state where
  "with_client = upd_sock 1 (\<lambda>k. k\<lparr>sk_data := Some 0\<rparr>) program_start"

definition priority_frame :: raw_frame where
  "priority_frame = (\<lparr>fh_length = 5, fh_type = FRAME_PRIORITY_TYPE, fh_flags = 0, fh_stream_id = 1\<rparr>, [0, 0, 0, 0, 16])"

theorem receiving_handles_frames_witness:
  "receiving 1 30 (raw_octets priority_frame @ raw_octets priority_frame @ [0, 0]) with_client = Some (with_client, 28)"
proof -
  have ok: "list_all frame_ok [priority_frame, priority_frame]"
    by (simp add: frame_ok_def priority_frame_def HTTP2_SOCK_READ_SIZE_def HTTP2_INITIAL_WINDOW_SIZE_def)
  have l: "length (raw_octets priority_frame) = 14" by (simp add: raw_octets_def priority_frame_def)
  have c: "context_of 1 with_client = Some 0" "\<not> has_flag (cx_flags (ctx_mem with_client 0)) f" for f
    by (simp_all add: context_of_def with_client_def upd_sock_def program_start_def null_context_def)
  have "receiving 1 (int (length (concat (map raw_octets [priority_frame, priority_frame]) @ [0, 0])))
      (concat (map raw_octets [priority_frame, priority_frame]) @ [0, 0]) with_client = do {
      (s, q, all) \<leftarrow> run_frames 0 (concat (map raw_octets [priority_frame, priority_frame]) @ [0, 0])
        [priority_frame, priority_frame] 0 with_client;
      (s, q) \<leftarrow> (if all then at_rest 0 [0, 0] q s else Some (s, q));
      Some (s, int q)
    }"
    by (rule receiving_handles_frames [OF ok]) (simp_all add: c incomplete_def del: One_nat_def)
  then show ?thesis using c l
    by (simp add: priority_frame_def handle_frame_def at_rest_def)
qed

subsection \<open>How much is consumed\<close>

lemma receiving_loop_consumes:
  "receiving_loop ctx buf p n s = Some (s', r) \<Longrightarrow> p \<le> r \<and> r \<le> p + n"
proof (induction n arbitrary: p s rule: less_induct)
  case (less n)
  have next_frame: "p \<le> r \<and> r \<le> p + n"
    if "receiving_loop ctx buf (p + 9 + m) (n - (9 + m)) t = Some (s', r)" "\<not> n < 9 + m" for m t
    using less.IH [OF _ that(1)] that(2) by simp
  from less.prems show ?case
    by (subst (asm) receiving_loop.simps) (auto simp: Let_def split: if_splits Option.bind_splits dest!: next_frame)
qed

text \<open>
  Claim C40. The number of bytes that \<open>receiving\<close> reports as used is never negative and never exceeds the
  number it was given, whatever the client sent, so that the event loop removes only bytes from the read
  buffer that were there.
\<close>

theorem receiving_consumes_at_most:
  assumes "receiving sock n buf s = Some (s', r)"
  shows "0 \<le> r \<and> r \<le> max 0 n"
proof -
  have "0 \<le> r \<and> r \<le> n" if "receiving_loop ctx buf 0 (nat n) s = Some (t, m)" "r = int m" "\<not> n \<le> 0" for ctx t m
    using receiving_loop_consumes [OF that(1)] that(2,3) by linarith
  with assms show ?thesis by (auto simp: receiving_def split: if_splits Option.bind_splits)
qed

theorem receiving_consumes_at_most_witness:
  "\<exists>r. receiving 1 3 [0, 0, 0] with_client = Some (with_client, r) \<and> r \<le> 3"
proof -
  have "receiving 1 3 [0, 0, 0] with_client = Some (with_client, 0)"
    by (simp add: receiving_def context_of_def with_client_def upd_sock_def receiving_loop.simps)
  with receiving_consumes_at_most [OF this] show ?thesis by auto
qed

subsection \<open>The preface\<close>

definition preface :: "byte list" where
  "preface = lit ''PRI * HTTP/2.0'' @ [13, 10, 13, 10] @ lit ''SM'' @ [13, 10, 13, 10]"

lemma strncmp_eq_take:
  "nul_free b \<Longrightarrow> length b \<le> length a \<Longrightarrow> strncmp_eq a (b @ c) (length b) = Some (take (length b) a = b)"
proof (induction b arbitrary: a)
  case (Cons x b)
  then obtain y a' where "a = y # a'" by (cases a) auto
  with Cons show ?case by auto
qed simp

text \<open>
  Claim C39. The first bytes of a client. Fewer than 24 bytes are left in the buffer; 24 bytes other than the
  preface of RFC 7540 close the connection at once. On the preface the server queues its own SETTINGS
  frame, with the six values it is configured with, and goes on to wait for the settings of the client.
\<close>

theorem preface_handshake:
  assumes "context_of k s = Some ctx"
  shows "waiting_for_preface k (int (length buf)) buf s =
    (if buf = [] then do { s \<leftarrow> http2_close_immediate ctx s; Some (s, 0) }
     else if length buf < 24 then Some (s, 0)
     else if take 24 buf \<noteq> preface then do { s \<leftarrow> http2_close_immediate ctx s; Some (s, 24) }
     else do {
       (s, _) \<leftarrow> send_octets k (frame_octets (Settings_Frame (zip [1, 2, 3, 4, 5, 6] [4096, 0, 1, 512, 16384, 512])))
         On_Settings_Sent (upd_ctx ctx (\<lambda>x. x\<lparr>cx_state := HTTP2_WAITING_SETTINGS\<rparr>) s);
       (s, _) \<leftarrow> event_read k (Some Waiting_For_Settings) s;
       Some (s, 24)
     })"
proof -
  have l: "local_settings = [4096, 0, 1, 512, 16384, 512]"
    by (simp add: local_settings_def HTTP2_HEADER_TABLE_SIZE_def HTTP2_ENABLE_PUSH_def HTTP2_MAX_CONCURRENT_STREAMS_def
        HTTP2_INITIAL_WINDOW_SIZE_def HTTP2_MAX_FRAME_SIZE_def HTTP2_MAX_HEADER_LIST_SIZE_def)
  have send: "send_settings_frame k False local_settings On_Settings_Sent t =
      send_octets k (frame_octets (Settings_Frame (zip [1, 2, 3, 4, 5, 6] [4096, 0, 1, 512, 16384, 512]))) On_Settings_Sent t"
    for t :: "'a http2_state_scheme"
    using send_settings_correct [of False local_settings] unfolding l by simp
  have p: "HTTP2_PREFACE = preface @ [0]" "length preface = 24" "nul_free preface"
    by (simp_all add: HTTP2_PREFACE_def preface_def lit_def)
  have cmp: "strncmp_eq buf HTTP2_PREFACE 24 = Some (take 24 buf = preface)" if "24 \<le> length buf"
    using strncmp_eq_take [OF p(3), of buf "[0]"] that unfolding p(1,2) by simp
  show ?thesis
  proof (cases "length buf < 24")
    case True
    then show ?thesis using assms by (simp add: waiting_for_preface_def)
  next
    case False
    then have b: "buf \<noteq> []" "\<not> int (length buf) \<le> 0" "\<not> int (length buf) < 24" "24 \<le> length buf" by auto
    show ?thesis using b cmp [OF b(4)] False assms
      by (simp only: waiting_for_preface_def send bind.bind_lunit if_False Let_def simp_thms split: if_split)
  qed
qed

theorem preface_handshake_witness:
  "waiting_for_preface 1 3 [1, 2, 3] with_client = Some (with_client, 0)"
  using preface_handshake [of 1 with_client 0 "[1, 2, 3]"]
  by (simp add: context_of_def with_client_def upd_sock_def)

end
