(* ===== verification/Spec2Isabelle.thy ===== *)
theory Spec2Isabelle
  imports Request Flow_Control Settings Receiving Server_Safety
begin

text \<open>
  Verification of \<open>two\<close>, an HTTP/2 server library for constrained devices.

  \<^bold>\<open>The program.\<close> An application registers resources (\<open>two_register_resource\<close>) and starts the server
  (\<open>two_server_start\<close>, \<open>src/src/two.c\<close>). The server owns an event loop (\<open>src/src/event.c\<close>) with static arrays of
  sockets, events and write operations, chained by the list macros of \<open>src/src/ll.h\<close>. The loop waits with
  \<open>select\<close>, moves bytes between the descriptors and the circular buffers of the sockets (\<open>src/src/cbuf.c\<close>), and
  calls back. Each client has a context (\<open>src/src/http2.c\<close>): its callbacks parse frames, keep the state of the
  connection and of its one stream, decode header blocks with HPACK (\<open>src/src/hpack/\<close>) into a list of
  headers (\<open>src/src/header_list.c\<close>), let the registered handler answer, and put frames together
  (\<open>src/src/frames.c\<close>, \<open>src/src/buffer.c\<close>) that \<open>event_write\<close> queues under flow control.

  \<^bold>\<open>How C is modelled\<close> (\<open>Prelude\<close>). An array is the list of its elements and a pointer an offset into it. Every
  function returns an \<open>option\<close>: \<open>None\<close> stands for undefined behaviour (an access outside of an array, the
  dereference of a null pointer, overflow of a signed addition or subtraction, a shift by too much) and for a failed \<open>assert\<close>, and error codes are
  ordinary results. Integers are words where wrap-around can be seen (\<open>uint8_t\<close>, \<open>uint32_t\<close>, windows of type
  \<open>int32_t\<close> read by \<open>sint\<close>), otherwise \<open>int\<close> or \<open>nat\<close> with the conversions of the source written out. The
  state of the loop, of \<open>http2.c\<close> and of \<open>two.c\<close> are records that extend one another (\<open>event_loop\<close>,
  \<open>http2_state\<close>, \<open>two_state\<close>), passed through every function. The operating system is a record of answers
  (\<open>os_env\<close>), one for each round of the loop, and a log of what the program asked for (\<open>os_log\<close>). Function
  pointers are the names of the datatype \<open>callback\<close>; \<open>two_callbacks\<close> says what they stand for. The handlers of the
  application are functions in the table of resources.

  \<^bold>\<open>The theories\<close>, from the bottom up.
  \<^item> \<open>Buffer\<close> (\<open>buffer.c\<close>): big-endian integers. \<open>Cbuf\<close> (\<open>cbuf.c\<close>): the circular buffer refines a bounded queue
    (locale \<open>bounded_fifo\<close>).
  \<^item> \<open>Ll\<close> (\<open>ll.h\<close>): the list macros on the links of one array, locale \<open>list_store\<close>. \<open>Pools\<close>: several lists in one
    array, the predicate \<open>lists\<close>, and how each macro changes it.
  \<^item> \<open>Huffman\<close> (\<open>hpack/huffman.c\<close>), \<open>Hpack_Utils\<close> (\<open>hpack/utils.c\<close>, \<open>hpack/structs.h\<close>), \<open>Hpack_Integer\<close> and
    \<open>Hpack_String\<close> (the primitive types in \<open>hpack/encoder.c\<close> and \<open>hpack/decoder.c\<close>): round trips.
  \<^item> \<open>Dynamic_Table\<close> and \<open>Tables\<close> (\<open>hpack/tables.c\<close>): the ring of bytes refines the table of RFC 7541, except that an
    entry larger than the table is refused instead of emptying it (locale \<open>header_table\<close>), and the search and the look-up in both tables.
  \<^item> \<open>Header_List\<close> (\<open>header_list.c\<close>): the flat array refines an association list (locale \<open>header_store\<close>).
  \<^item> \<open>Hpack_Encoder\<close>, \<open>Hpack_Decoder\<close>, \<open>Hpack\<close> (\<open>hpack/encoder.c\<close>, \<open>hpack/decoder.c\<close>, \<open>hpack/hpack.c\<close>): header
    fields and blocks. The encoder writes and the decoder accepts representations of RFC 7541 with integers
    in their shortest form and entries that fit the table, the headers are added to the list as
    \<open>header_list_add\<close> does it (equal names are joined, empty values skipped), and the round trip over a block keeps both tables equal.
  \<^item> \<open>Resources\<close> (\<open>two.c\<close>, \<open>http.h\<close>, \<open>content_type.c\<close>): registration and the answers to requests.
  \<^item> \<open>Event\<close> (\<open>event.c\<close>, \<open>event.h\<close>): the loop, with every operation, callback dispatch and phase of a round.
    \<open>Event_Loop\<close>: what every operation leaves alone, and the locale \<open>loop_client\<close>, in which a property that the
    callbacks preserve holds after any number of rounds.
  \<^item> \<open>Event_Memory\<close>, \<open>Event_Operations\<close>, \<open>Loop_Memory\<close>: the invariant \<open>mem_rel\<close> of the static memory of the loop,
    that every operation and every phase keeps it, and the locale \<open>memory_client\<close> with what the loop relies on
    in its callbacks; \<open>closing_client\<close> adds that the close callbacks return.
  \<^item> \<open>Frames\<close> (\<open>frames.c\<close>): the frame header and the octets of each frame that is sent, which are those of RFC 7540
    with the reserved bit of the header set.
  \<^item> \<open>Http2_Connection\<close> and \<open>Http2\<close> (\<open>http2.c\<close>, \<open>http2.h\<close>): the contexts and all handlers. \<open>Two_Server\<close>
    (\<open>two.c\<close>): start, stop, accepting clients. \<open>Session\<close>: a concrete run, used by the examples.
  \<^item> \<open>Request\<close>, \<open>Flow_Control\<close>, \<open>Settings\<close>, \<open>Receiving\<close>: what \<open>http2.c\<close> does with a request, with windows, with
    SETTINGS frames and with received bytes, across the layers below.
  \<^item> \<open>Http2_Invariant\<close>: the contexts are well formed in every state of a server (interpretation \<open>server\<close> of
    \<open>loop_client\<close>). \<open>Server_Memory\<close>, \<open>Server_Clients\<close>: every function of \<open>http2.c\<close> keeps the contexts tied to
    the memory of the loop (interpretations \<open>server_memory\<close> and \<open>server_closing\<close>). \<open>Server_Safety\<close>: the
    consequences for a running server.

  \<^bold>\<open>Loops and bounds.\<close> Loops whose end is evident are recursive functions with a termination proof. Loops that
  follow links, or whose progress depends on the data, are \<open>partial_function\<close>s, for which not to end is \<open>None\<close>, and
  the theorems about them state that they return: \<open>cbuf_push\<close>, \<open>cbuf_pop\<close> and \<open>cbuf_peek\<close> always do, the list
  macros on every acyclic list, the HPACK loops on every well-formed table. No fuel is used. The event loop itself
  runs on a list of answers of the operating system, one for each round; since the list is arbitrary, a statement
  about the state it ends in holds for all states between two rounds. Sizes are the defaults of \<open>two-conf.h\<close>.

  \<^bold>\<open>What is assumed.\<close> Memory that the program does not initialise itself is zeroed static memory. The statements
  on a running server are about runs in which no function has returned \<open>None\<close>: there are inputs that make an
  assertion fail or an access go outside of an array, such as an \<open>accept\<close> that fails (\<open>FD_CLR\<close> of \<open>-1\<close>) or more
  than twelve PING frames in one read (no free write operation). The handlers of the application must not change the size of the response buffer.
  Three things that C leaves undefined are given the meaning that compilers give them: a byte of 128 or more that is
  shifted into the sign bit of an \<open>int\<close> (\<open>buffer.c\<close> 7, \<open>http2.c\<close> 255) becomes the upper byte of the word, and the
  arrays of variable length in \<open>encoder.c\<close> 199 and 410 and in \<open>event.c\<close> 104 may have length 0, as in GNU C. The
  lengths that \<open>header_list_append\<close> computes as \<open>unsigned int\<close> (\<open>header_list.c\<close> 105--109) are those of strings
  of less than \<open>2 ^ 32\<close> bytes.

  \<^bold>\<open>Not modelled.\<close> The branches for Contiki (\<open>event.c\<close> 329--467 and the parts under \<open>CONTIKI\<close>), which need the
  scheduler and the TCP stack of that system; log output (\<open>logging.h\<close>), except for the debugging loop of the
  encoder that affects control flow; the example programs, tests and build files. With
  these exceptions every function under \<open>src/src\<close> is a definition.
\<close>

end
